(* ===== verification/Loof_Prelude.thy ===== *)
theory Loof_Prelude
  imports Main "HOL-Library.Word" "HOL-Library.Monad_Syntax"
begin

text \<open>
  Shared vocabulary of the development: the machine integers of the C sources, the shift
  operator with its undefined cases, little-endian access to byte memory, and the
  interface through which every component reaches memory.

  Conventions for C. Unsigned and \<open>int\<close> arithmetic is 32-bit two's complement
  and wraps, as the i386 code does. A result of type \<open>'a option\<close> is \<open>None\<close>
  where the code does not come back with a value: a shift by 32 or more (undefined in C),
  a page fault (whose handler panics), or a loop that never ends.
\<close>

unbundle bit_operations_syntax

type_synonym u8 = "8 word"
type_synonym u16 = "16 word"
type_synonym u32 = "32 word"
type_synonym u64 = "64 word"

text \<open>A byte memory, indexed by 32-bit addresses.\<close>

type_synonym bytes = "u32 \<Rightarrow> u8"

named_theorems mem_simps \<open>reading back what was written to byte memory\<close>

section \<open>Constants of common/presets.h\<close>

definition KERNEL_BASE :: u32 where
  [simp]: "KERNEL_BASE = 0xc0000000"

section \<open>Words\<close>

lemma unat_of_nat_u32: "n < 2 ^ 32 \<Longrightarrow> unat (of_nat n :: u32) = n"
  by (simp add: unat_of_nat take_bit_nat_eq_self)

lemma of_nat_u32_less_iff:
  "m < 2 ^ 32 \<Longrightarrow> n < 2 ^ 32 \<Longrightarrow> (of_nat m :: u32) < of_nat n \<longleftrightarrow> m < n"
  by (simp add: word_less_nat_alt unat_of_nat_u32)

lemma of_nat_u32_le_iff:
  "m < 2 ^ 32 \<Longrightarrow> n < 2 ^ 32 \<Longrightarrow> (of_nat m :: u32) \<le> of_nat n \<longleftrightarrow> m \<le> n"
  by (simp add: word_le_nat_alt unat_of_nat_u32)

lemma of_nat_u32_eq_iff:
  "m < 2 ^ 32 \<Longrightarrow> n < 2 ^ 32 \<Longrightarrow> (of_nat m :: u32) = of_nat n \<longleftrightarrow> m = n"
  by (simp add: word_unat_eq_iff unat_of_nat_u32)

lemma pow2_less_u32: "k < 32 \<Longrightarrow> (2 :: nat) ^ k < 2 ^ 32"
  by (rule power_strict_increasing) simp_all

lemma unat_pow2 [simp]: "k < 32 \<Longrightarrow> unat (2 ^ k :: u32) = 2 ^ k"
  using unat_of_nat_u32 [OF pow2_less_u32, of k] by simp

lemma unat_add_pow2:
  "k < 32 \<Longrightarrow> unat (a :: u32) + 2 ^ k < 2 ^ 32 \<Longrightarrow> unat (a + 2 ^ k) = unat a + 2 ^ k"
  using unat_add_lem [of a "2 ^ k"] by simp

lemma unat_u32_less [simp]: "unat (a :: u32) < 2 ^ 32"
  using unsigned_less [of a] by simp

lemma unat_add_of_nat:
  "unat (a :: u32) + n < 2 ^ 32 \<Longrightarrow> unat (a + of_nat n) = unat a + n"
proof -
  assume *: "unat a + n < 2 ^ 32"
  then have "unat (of_nat n :: u32) = n"
    by (intro unat_of_nat_u32) simp
  with * show ?thesis using unat_add_lem [of a "of_nat n"] by simp
qed

lemma u32_and_1: "(w :: u32) AND 1 \<noteq> 0 \<longleftrightarrow> odd (unat w)"
  using bit_0 [of w] bit_0 [of "unat w"] by (simp add: and_one_eq mod2_eq_if bit_unsigned_iff)

lemma u32_eqI: "unat (a :: u32) = unat b \<Longrightarrow> a = b"
  by (rule word_unat_eq_iff [THEN iffD2])

lemma xor_pow2_clear: "\<not> bit (w :: u32) k \<Longrightarrow> w XOR 2 ^ k = w + 2 ^ k"
  by (rule disjunctive_add_eq_xor [symmetric]) (auto intro!: bit_word_eqI simp: bit_simps)

lemma xor_pow2_set: "bit (w :: u32) k \<Longrightarrow> w XOR 2 ^ k = w - 2 ^ k"
proof -
  assume b: "bit w k"
  then have "k < 32" using bit_imp_le_length by force
  with b have "\<not> bit (w XOR 2 ^ k) k" by (simp add: bit_simps possible_bit_def)
  from xor_pow2_clear [OF this] show ?thesis by (simp add: xor.assoc algebra_simps)
qed

lemma bit_of_nat_dvd:
  "k < 32 \<Longrightarrow> 2 ^ k dvd n \<Longrightarrow> bit (of_nat n :: u32) k \<longleftrightarrow> \<not> 2 ^ Suc k dvd n"
proof -
  assume k: "k < 32" and d: "2 ^ k dvd n"
  then have "bit (of_nat n :: u32) k \<longleftrightarrow> bit n k" by (simp add: bit_of_nat_iff possible_bit_def)
  also have "\<dots> \<longleftrightarrow> \<not> 2 ^ Suc k dvd n" using d by (auto simp: bit_iff_odd elim!: dvdE)
  finally show ?thesis .
qed

lemma dvd_gap: "(d :: nat) dvd a \<Longrightarrow> d dvd b \<Longrightarrow> a < b \<Longrightarrow> a + d \<le> b"
proof (elim dvdE)
  fix i j assume ab: "a < b" "a = d * i" "b = d * j"
  then have "d * Suc i \<le> d * j" by (intro mult_le_mono2) (metis Suc_leI mult_less_cancel1)
  with ab show "a + d \<le> b" by simp
qed

lemma u32_wrap [simp]: "(4294967296 :: u32) = 0"
  by (rule u32_eqI) simp

text \<open>
  \<open>1 << k\<close> on a 32-bit \<open>int\<close>: undefined for a count of 32 or more. For a
  count of 31 it is the bit pattern \<open>0x80000000\<close>.
\<close>

definition shl1 :: "u32 \<Rightarrow> u32 option" where
  "shl1 k = (if k < 32 then Some (push_bit (unat k) 1) else None)"

lemma shl1_of_nat [simp]: "k < 32 \<Longrightarrow> shl1 (of_nat k) = Some (2 ^ k)"
  by (simp add: shl1_def word_less_nat_alt unat_of_nat_u32)

lemma shl1_None: "\<not> k < 32 \<Longrightarrow> shl1 k = None"
  by (simp add: shl1_def)

section \<open>Little-endian access to byte memory\<close>

definition ld16 :: "bytes \<Rightarrow> u32 \<Rightarrow> u16" where
  "ld16 m a = ucast (m a) OR push_bit 8 (ucast (m (a + 1)))"

definition le16 :: "u16 \<Rightarrow> u8 list" where
  "le16 v = [ucast v, ucast (drop_bit 8 v)]"

definition le32 :: "u32 \<Rightarrow> u8 list" where
  "le32 v = [ucast v, ucast (drop_bit 8 v), ucast (drop_bit 16 v), ucast (drop_bit 24 v)]"

definition ld32 :: "bytes \<Rightarrow> u32 \<Rightarrow> u32" where
  "ld32 m a = ucast (m a) OR push_bit 8 (ucast (m (a + 1)))
     OR push_bit 16 (ucast (m (a + 2))) OR push_bit 24 (ucast (m (a + 3)))"

definition st32 :: "bytes \<Rightarrow> u32 \<Rightarrow> u32 \<Rightarrow> bytes" where
  "st32 m a v = m(a := ucast v, a + 1 := ucast (drop_bit 8 v),
     a + 2 := ucast (drop_bit 16 v), a + 3 := ucast (drop_bit 24 v))"

text \<open>
  \<open>disj a n b k\<close>: the \<open>n\<close> bytes at \<open>a\<close> and the \<open>k\<close> bytes at
  \<open>b\<close> do not overlap.
\<close>

definition disj :: "u32 \<Rightarrow> nat \<Rightarrow> u32 \<Rightarrow> nat \<Rightarrow> bool" where
  "disj a n b k \<longleftrightarrow> n \<le> unat (b - a) \<and> k \<le> unat (a - b)"

lemma disj_sym: "disj a n b k \<Longrightarrow> disj b k a n"
  by (simp add: disj_def)

lemma disj_mono: "disj a n b k \<Longrightarrow> n' \<le> n \<Longrightarrow> k' \<le> k \<Longrightarrow> disj a n' b k'"
  by (simp add: disj_def)

lemma disjI:
  assumes "unat a + n \<le> unat b \<or> unat b + k \<le> unat a" "unat a + n \<le> 2 ^ 32"
    "unat b + k \<le> 2 ^ 32" "0 < n" "0 < k"
  shows "disj a n b k"
  using assms by (auto simp: disj_def unat_sub_if')

lemma ld32_st32_same [simp, mem_simps]: "ld32 (st32 m a v) a = v"
proof (rule bit_word_eqI)
  fix n assume "n < LENGTH(32)"
  then consider "n < 8" | "8 \<le> n" "n < 16" | "16 \<le> n" "n < 24" | "24 \<le> n" "n < 32"
    by (simp, linarith)
  then show "bit (ld32 (st32 m a v) a) n \<longleftrightarrow> bit v n"
    by cases (auto simp: ld32_def st32_def bit_simps)
qed

lemma st32_other: "4 \<le> unat (x - a) \<Longrightarrow> st32 m a v x = m x"
  by (auto simp: st32_def)

lemma unat_far_shift:
  assumes "n \<le> unat ((b :: u32) - a)" "k \<le> unat (a - b)" "i < k"
  shows "n \<le> unat (b + of_nat i - a)"
proof (cases "b = a")
  case True
  with assms show ?thesis by simp
next
  case False
  then have s: "unat (a - b) + unat (b - a) = 2 ^ 32"
    using unat_u32_less [of a] unat_u32_less [of b]
    by (simp add: unat_sub_if' word_unat_eq_iff)
  with assms have "unat (b - a) + i < 2 ^ 32" by linarith
  then have "unat ((b - a) + of_nat i) = unat (b - a) + i"
    by (rule unat_add_of_nat)
  moreover have "b + of_nat i - a = (b - a) + of_nat i" by simp
  ultimately have "unat (b + of_nat i - a) = unat (b - a) + i" by (simp only:)
  with assms(1) show ?thesis by linarith
qed

lemma ld32_cong:
  "(\<And>i. i < 4 \<Longrightarrow> m (a + of_nat i) = m' (a + of_nat i)) \<Longrightarrow> ld32 m a = ld32 m' a"
proof -
  assume *: "\<And>i. i < 4 \<Longrightarrow> m (a + of_nat i) = m' (a + of_nat i)"
  from *[of 0] *[of 1] *[of 2] *[of 3] show ?thesis
    by (simp add: ld32_def)
qed

lemma ld32_st32_disj:
  "disj a 4 b 4 \<Longrightarrow> ld32 (st32 m a v) b = ld32 m b"
  by (rule ld32_cong) (auto simp: disj_def intro!: st32_other unat_far_shift)

lemma ld32_fun_upd_disj:
  assumes "disj a 1 b 4"
  shows "ld32 (m(a := v)) b = ld32 m b"
proof (rule ld32_cong)
  fix i :: nat assume "i < 4"
  with assms have "1 \<le> unat (b + of_nat i - a)"
    by (auto simp: disj_def intro!: unat_far_shift)
  then have "b + of_nat i \<noteq> a" by auto
  then show "(m(a := v)) (b + of_nat i) = m (b + of_nat i)" by simp
qed

text \<open>Eight bytes as two words.\<close>

definition ld64 :: "bytes \<Rightarrow> u32 \<Rightarrow> u64" where
  "ld64 m a = ucast (ld32 m a) OR push_bit 32 (ucast (ld32 m (a + 4)))"

definition st64 :: "bytes \<Rightarrow> u32 \<Rightarrow> u64 \<Rightarrow> bytes" where
  "st64 m a v = st32 (st32 m a (ucast v)) (a + 4) (ucast (drop_bit 32 v))"

lemma ld64_st64_same [simp, mem_simps]: "ld64 (st64 m a v) a = v"
proof -
  have "ld64 (st64 m a v) a = ucast (ucast v :: u32) OR push_bit 32 (ucast (ucast (drop_bit 32 v) :: u32))"
    by (simp add: ld64_def st64_def ld32_st32_disj disj_def)
  also have "\<dots> = v"
    by (rule bit_word_eqI) (auto simp: bit_simps)
  finally show ?thesis .
qed

lemma st64_other: "8 \<le> unat (x - a) \<Longrightarrow> st64 m a v x = m x"
proof -
  assume x: "8 \<le> unat (x - a)"
  then have "unat (x - a - 4) = unat (x - a) - 4" by (subst unat_sub) (simp_all add: word_le_nat_alt)
  with x have "4 \<le> unat (x - (a + 4))" by (simp add: diff_diff_eq)
  with x show ?thesis by (simp add: st64_def st32_other)
qed

lemma ld32_shift:
  assumes "disj a n b k" "i + 4 \<le> k" "\<And>x. n \<le> unat (x - a) \<Longrightarrow> m' x = m x"
  shows "ld32 m' (b + of_nat i) = ld32 m (b + of_nat i)"
proof (rule ld32_cong)
  fix j :: nat assume "j < 4"
  then have "n \<le> unat (b + of_nat (i + j) - a)"
    using assms(1,2) by (intro unat_far_shift) (auto simp: disj_def)
  then show "m' (b + of_nat i + of_nat j) = m (b + of_nat i + of_nat j)"
    using assms(3) by (simp add: add.assoc)
qed

lemma ld64_st64_disj: "disj a 8 b 8 \<Longrightarrow> ld64 (st64 m a v) b = ld64 m b"
  using ld32_shift [of a 8 b 8 0 "st64 m a v" m] ld32_shift [of a 8 b 8 4 "st64 m a v" m]
  by (simp add: ld64_def st64_other)

text \<open>Two memories agree off a set of addresses.\<close>

definition eq_off :: "u32 set \<Rightarrow> bytes \<Rightarrow> bytes \<Rightarrow> bool" where
  "eq_off X m m' \<longleftrightarrow> (\<forall>x. x \<notin> X \<longrightarrow> m' x = m x)"

lemma eq_off_refl [simp, intro]: "eq_off X m m"
  by (simp add: eq_off_def)

lemma eq_off_trans: "eq_off X m m' \<Longrightarrow> eq_off Y m' m'' \<Longrightarrow> eq_off (X \<union> Y) m m''"
  by (simp add: eq_off_def)

lemma eq_off_mono: "eq_off X m m' \<Longrightarrow> X \<subseteq> Y \<Longrightarrow> eq_off Y m m'"
  by (auto simp: eq_off_def)

lemma eq_offD: "eq_off X m m' \<Longrightarrow> x \<notin> X \<Longrightarrow> m' x = m x"
  by (simp add: eq_off_def)

definition bytes_at :: "u32 \<Rightarrow> nat \<Rightarrow> u32 set" where
  "bytes_at a n = {x. unat (x - a) < n}"

lemma eq_off_st32: "eq_off (bytes_at a 4) m (st32 m a v)"
  by (auto simp: eq_off_def bytes_at_def intro!: st32_other)

lemma ld32_eq_off:
  assumes "eq_off X m m'" "bytes_at a 4 \<inter> X = {}"
  shows "ld32 m' a = ld32 m a"
proof (rule ld32_cong)
  fix i :: nat assume i: "i < 4"
  then have "unat (of_nat i :: u32) = i" by (simp add: unat_of_nat_u32)
  with i have "a + of_nat i \<in> bytes_at a 4" by (simp add: bytes_at_def)
  with assms show "m' (a + of_nat i) = m (a + of_nat i)" by (auto simp: eq_off_def)
qed

lemma bytes_at_unat:
  assumes "unat a + n \<le> 2 ^ 32"
  shows "x \<in> bytes_at a n \<longleftrightarrow> unat a \<le> unat x \<and> unat x < unat a + n"
  using assms unat_u32_less [of x] by (auto simp: bytes_at_def unat_sub_if')

section \<open>Counting loops\<close>

text \<open>\<open>for (i = a; i < n; i++)\<close> over a body that may fault.\<close>

function for_loop :: "nat \<Rightarrow> nat \<Rightarrow> (nat \<Rightarrow> 's \<Rightarrow> 's option) \<Rightarrow> 's \<Rightarrow> 's option" where
  "for_loop i n body s = (if i < n then do { s \<leftarrow> body i s; for_loop (Suc i) n body s } else Some s)"
  by auto
termination by (relation "measure (\<lambda>(i, n, body, s). n - i)") auto

declare for_loop.simps [simp del]

lemma for_loop_rule:
  assumes "i \<le> n" "P i s" "\<And>j s. i \<le> j \<Longrightarrow> j < n \<Longrightarrow> P j s \<Longrightarrow> \<exists>s'. body j s = Some s' \<and> P (Suc j) s'"
  shows "\<exists>s'. for_loop i n body s = Some s' \<and> P n s'"
  using assms
proof (induction "n - i" arbitrary: i s)
  case 0
  then show ?case by (subst for_loop.simps) simp
next
  case (Suc k)
  then have i: "i < n" by simp
  obtain s1 where s1: "body i s = Some s1" "P (Suc i) s1" using Suc.prems(3) [of i s] i Suc.prems(2) by auto
  have "\<exists>s'. for_loop (Suc i) n body s1 = Some s' \<and> P n s'"
    using Suc.hyps(2) i s1(2) by (intro Suc.hyps(1)) (auto intro!: Suc.prems(3))
  with s1 i show ?case by (subst for_loop.simps) simp
qed

section \<open>Packed bit fields\<close>

text \<open>
  A packed C struct of bit fields, the first field in the lowest bits: \<open>pack\<close> of the
  list of widths and values is the number the bytes of the struct spell.
\<close>

fun pack :: "(nat \<times> nat) list \<Rightarrow> nat" where
  "pack [] = 0"
| "pack ((w, v) # fs) = v mod 2 ^ w + 2 ^ w * pack fs"

fun unpack :: "nat list \<Rightarrow> nat \<Rightarrow> nat list" where
  "unpack [] n = []"
| "unpack (w # ws) n = n mod 2 ^ w # unpack ws (n div 2 ^ w)"

lemma unpack_pack: "unpack (map fst fs) (pack fs) = map (\<lambda>(w, v). v mod 2 ^ w) fs"
  by (induction fs rule: pack.induct) auto

lemma pack_less: "pack fs < 2 ^ sum_list (map fst fs)"
proof (induction fs rule: pack.induct)
  case (2 w v fs)
  have "v mod 2 ^ w < 2 ^ w" by simp
  moreover have "2 ^ w * (pack fs + 1) \<le> 2 ^ w * 2 ^ sum_list (map fst fs)"
    using 2 by (intro mult_le_mono2) simp
  ultimately have "v mod 2 ^ w + 2 ^ w * pack fs < 2 ^ w * 2 ^ sum_list (map fst fs)"
    by (simp only: add_mult_distrib2 mult_1_right)
  then show ?case by (simp add: power_add)
qed simp

text \<open>The field values that fit their widths are read back from the packed word.\<close>

definition fits :: "(nat \<times> nat) list \<Rightarrow> bool" where
  "fits fs = list_all (\<lambda>(w, v). v < 2 ^ w) fs"

lemma fits_simps [simp]:
  "fits []"
  "fits ((w, v) # fs) \<longleftrightarrow> v < 2 ^ w \<and> fits fs"
  by (simp_all add: fits_def)

lemma unpack_pack_word:
  assumes "fits fs" "sum_list (map fst fs) \<le> LENGTH('a)"
  shows "unpack (map fst fs) (unat (of_nat (pack fs) :: 'a :: len word)) = map snd fs"
proof -
  have "(2 :: nat) ^ sum_list (map fst fs) \<le> 2 ^ LENGTH('a)"
    using assms(2) by (intro power_increasing) simp_all
  then have "pack fs < 2 ^ LENGTH('a)"
    using pack_less [of fs] by linarith
  then have "unat (of_nat (pack fs) :: 'a word) = pack fs"
    by (simp add: unat_of_nat)
  moreover have "map (\<lambda>(w, v). v mod 2 ^ w) fs = map snd fs"
    using assms(1) by (auto simp: fits_def list_all_iff)
  ultimately show ?thesis
    using unpack_pack [of fs] by simp
qed

lemma unat_less_pow: "LENGTH('a :: len) = n \<Longrightarrow> unat (x :: 'a word) < 2 ^ n"
  by (auto simp: unsigned_less)

section \<open>The interface to memory\<close>

text \<open>
  The C code reaches memory through pointers. Operations of the model that do so take the
  byte read \<open>rd\<close> and the byte write \<open>wr\<close> of the machine as parameters;
  an access that faults is \<open>None\<close>. Words are read and written as four bytes.
\<close>

definition rd32 :: "('s \<Rightarrow> u32 \<Rightarrow> u8 option) \<Rightarrow> 's \<Rightarrow> u32 \<Rightarrow> u32 option" where
  "rd32 rd s a = do {
     b0 \<leftarrow> rd s a;
     b1 \<leftarrow> rd s (a + 1);
     b2 \<leftarrow> rd s (a + 2);
     b3 \<leftarrow> rd s (a + 3);
     Some (ucast b0 OR push_bit 8 (ucast b1) OR push_bit 16 (ucast b2) OR push_bit 24 (ucast b3))
   }"

definition wr32 :: "('s \<Rightarrow> u32 \<Rightarrow> u8 \<Rightarrow> 's option) \<Rightarrow> 's \<Rightarrow> u32 \<Rightarrow> u32 \<Rightarrow> 's option" where
  "wr32 wr s a v = do {
     s \<leftarrow> wr s a (ucast v);
     s \<leftarrow> wr s (a + 1) (ucast (drop_bit 8 v));
     s \<leftarrow> wr s (a + 2) (ucast (drop_bit 16 v));
     wr s (a + 3) (ucast (drop_bit 24 v))
   }"

definition wr64 :: "('s \<Rightarrow> u32 \<Rightarrow> u8 \<Rightarrow> 's option) \<Rightarrow> 's \<Rightarrow> u32 \<Rightarrow> u64 \<Rightarrow> 's option" where
  "wr64 wr s a v = do {
     s \<leftarrow> wr32 wr s a (ucast v);
     wr32 wr s (a + 4) (ucast (drop_bit 32 v))
   }"

text \<open>
  What a client may rely on: inside the region \<open>R\<close> reads and writes succeed and
  act on a flat byte memory, the \<open>view\<close>.
\<close>

locale byte_memory =
  fixes rd :: "'s \<Rightarrow> u32 \<Rightarrow> u8 option"
    and wr :: "'s \<Rightarrow> u32 \<Rightarrow> u8 \<Rightarrow> 's option"
    and view :: "'s \<Rightarrow> bytes"
    and upd :: "'s \<Rightarrow> bytes \<Rightarrow> 's"
    and R :: "u32 \<Rightarrow> bool"
  assumes rd_view: "R a \<Longrightarrow> rd s a = Some (view s a)"
    and wr_upd: "R a \<Longrightarrow> wr s a v = Some (upd s ((view s)(a := v)))"
    and view_upd [simp]: "view (upd s m) = m"
    and upd_upd [simp]: "upd (upd s m) m' = upd s m'"
    and upd_view [simp]: "upd s (view s) = s"
begin

lemma rd32_view:
  "R a \<Longrightarrow> R (a + 1) \<Longrightarrow> R (a + 2) \<Longrightarrow> R (a + 3) \<Longrightarrow> rd32 rd s a = Some (ld32 (view s) a)"
  by (simp add: rd32_def ld32_def rd_view)

lemma wr32_upd:
  "R a \<Longrightarrow> R (a + 1) \<Longrightarrow> R (a + 2) \<Longrightarrow> R (a + 3) \<Longrightarrow>
   wr32 wr s a v = Some (upd s (st32 (view s) a v))"
  by (simp add: wr32_def st32_def wr_upd)

lemma wr64_upd:
  assumes "\<And>i. i < 8 \<Longrightarrow> R (a + of_nat i)"
  shows "wr64 wr s a v = Some (upd s (st64 (view s) a v))"
  using assms [of 0] assms [of 1] assms [of 2] assms [of 3] assms [of 4] assms [of 5] assms [of 6]
    assms [of 7]
  by (simp add: wr64_def st64_def wr32_upd add.assoc)

end

end
