(* ===== verification/Machine.thy ===== *)
theory Machine
  imports Loof_Prelude
begin

text \<open>
  The machine the kernel runs on: physical memory, the page-directory register
  \<open>cr3\<close>, the i386 address translation with 4 MiB and 4 KiB pages, and the log of
  port writes (src/arch/x86/core/port.s, src/arch/x86/mm/paging.s).

  Memory is indexed by the address the kernel uses for it: physical address \<open>pa\<close>
  is \<open>mem s (pa + KERNEL_BASE)\<close>. Addresses from \<open>KERNEL_BASE\<close> up are
  mapped that way by every page directory of the system (proved in the theory
  \<open>Paging\<close> for the directories \<open>init_paging\<close> and \<open>create_process\<close>
  build), so an access to them does not depend on \<open>cr3\<close>; below, the page tables
  decide, and an address they do not map faults.
\<close>

record machine =
  mem :: bytes
  cr3 :: u32
  ports :: "(u16 \<times> u8) list"

section \<open>Address translation\<close>

text \<open>A word of physical memory.\<close>

definition phys32 :: "bytes \<Rightarrow> u32 \<Rightarrow> u32" where
  "phys32 m pa = ld32 m (pa + KERNEL_BASE)"

text \<open>
  The walk of the page tables from the directory at physical address \<open>dir\<close>:
  the physical address, and the user and write bits of the page (both levels have to allow
  the access). Bit 0 is \<open>present\<close>, bit 1 \<open>rw\<close>, bit 2 \<open>us\<close> and, in a
  directory entry, bit 7 \<open>ps\<close> (a 4 MiB page).
\<close>

definition dir_index :: "u32 \<Rightarrow> u32" where
  "dir_index va = drop_bit 22 va"

definition table_index :: "u32 \<Rightarrow> u32" where
  "table_index va = drop_bit 12 va AND 0x3ff"

definition walk :: "bytes \<Rightarrow> u32 \<Rightarrow> u32 \<Rightarrow> (u32 \<times> bool \<times> bool) option" where
  "walk m dir va =
     (let pde = phys32 m ((dir AND 0xfffff000) + 4 * dir_index va) in
      if \<not> bit pde 0 then None
      else if bit pde 7 then
        Some ((pde AND 0xffc00000) OR (va AND 0x3fffff), bit pde 2, bit pde 1)
      else
        (let pte = phys32 m ((pde AND 0xfffff000) + 4 * table_index va) in
         if \<not> bit pte 0 then None
         else Some ((pte AND 0xfffff000) OR (va AND 0xfff),
                bit pde 2 \<and> bit pte 2, bit pde 1 \<and> bit pte 1)))"

definition translate :: "bytes \<Rightarrow> u32 \<Rightarrow> u32 \<Rightarrow> u32 option" where
  "translate m dir va = map_option fst (walk m dir va)"

section \<open>Memory access of kernel code\<close>

definition rd8 :: "'a machine_scheme \<Rightarrow> u32 \<Rightarrow> u8 option" where
  "rd8 s va =
     (if KERNEL_BASE \<le> va then Some (mem s va)
      else case translate (mem s) (cr3 s) va of
        None \<Rightarrow> None
      | Some pa \<Rightarrow> Some (mem s (pa + KERNEL_BASE)))"

definition wr8 :: "'a machine_scheme \<Rightarrow> u32 \<Rightarrow> u8 \<Rightarrow> 'a machine_scheme option" where
  "wr8 s va v =
     (if KERNEL_BASE \<le> va then Some (s\<lparr>mem := (mem s)(va := v)\<rparr>)
      else case translate (mem s) (cr3 s) va of
        None \<Rightarrow> None
      | Some pa \<Rightarrow> Some (s\<lparr>mem := (mem s)(pa + KERNEL_BASE := v)\<rparr>))"

text \<open>The kernel half of the address space is a byte memory.\<close>

interpretation kmem: byte_memory rd8 wr8 mem "\<lambda>s m. s\<lparr>mem := m\<rparr>" "\<lambda>a. KERNEL_BASE \<le> a"
  by unfold_locales (simp_all add: rd8_def wr8_def)

section \<open>Ports\<close>

text \<open>
  \<open>outportb\<close> (port.s) writes its byte to the port in \<open>dx\<close>: the low 16 bits
  of the pointer it is given. The log has the latest write last.
\<close>

definition outportb :: "u32 \<Rightarrow> u8 \<Rightarrow> 'a machine_scheme \<Rightarrow> 'a machine_scheme" where
  "outportb port v s = s\<lparr>ports := ports s @ [(ucast port, v)]\<rparr>"

section \<open>Switching the address space\<close>

text \<open>\<open>enable_paging\<close> (paging.s) loads \<open>cr3\<close>; paging itself is on since boot.\<close>

definition enable_paging :: "u32 \<Rightarrow> 'a machine_scheme \<Rightarrow> 'a machine_scheme" where
  "enable_paging dir s = s\<lparr>cr3 := dir\<rparr>"

end
