(* ===== verification/Alloc.thy ===== *)
theory Alloc
  imports Machine "HOL-Library.Log_Nat"
begin

text \<open>
  The kernel heap, src/arch/x86/mm/alloc.c: a buddy allocator whose blocks carry a
  one-byte header (seven bits of block size as a power of two, one bit \<open>used\<close>)
  and lie one after the other from \<open>start\<close>. The operations follow the C code over
  any byte memory; the locale \<open>byte_memory\<close> gives what they rely on. The
  abstraction is the list of blocks \<open>(size, used)\<close> a walk from \<open>start\<close> meets.
\<close>

section \<open>Data\<close>

text \<open>\<open>heap_header\<close>: bits 0 to 6 are \<open>size\<close>, bit 7 is \<open>used\<close>.\<close>

definition hdr_size :: "u8 \<Rightarrow> u32" where
  "hdr_size h = ucast (h AND 0x7f)"

definition hdr_used :: "u8 \<Rightarrow> bool" where
  "hdr_used h \<longleftrightarrow> bit h 7"

definition hdr_set_size :: "u8 \<Rightarrow> u32 \<Rightarrow> u8" where
  "hdr_set_size h n = (h AND 0x80) OR (ucast n AND 0x7f)"

definition hdr_set_used :: "u8 \<Rightarrow> bool \<Rightarrow> u8" where
  "hdr_set_used h u = (if u then h OR 0x80 else h AND 0x7f)"

record heap_spec =
  hs_start :: u32
  hs_end :: u32

definition MIN_BLOCK_SIZE :: nat where
  [simp]: "MIN_BLOCK_SIZE = 3"

text \<open>\<open>sizeof(heap_header)\<close>\<close>

definition HEADER_BYTES :: u32 where
  [simp]: "HEADER_BYTES = 1"

definition kernel_heap :: heap_spec where
  "kernel_heap = \<lparr>hs_start = KERNEL_BASE + 0x10000000 - HEADER_BYTES,
                  hs_end = KERNEL_BASE + 0x30000000 - HEADER_BYTES\<rparr>"

section \<open>Operations\<close>

definition split_block ::
  "('s \<Rightarrow> u32 \<Rightarrow> u8 option) \<Rightarrow> ('s \<Rightarrow> u32 \<Rightarrow> u8 \<Rightarrow> 's option) \<Rightarrow> 's \<Rightarrow> u32 \<Rightarrow> 's option" where
  "split_block rd wr s block = do {
     h \<leftarrow> rd s block;
     let new_size = hdr_size h - 1;
     d \<leftarrow> shl1 new_size;
     let new_buddy = block + d;
     b \<leftarrow> rd s new_buddy;
     s \<leftarrow> wr s new_buddy (hdr_set_used (hdr_set_size b new_size) False);
     h \<leftarrow> rd s block;
     wr s block (hdr_set_size h new_size)
   }"

text \<open>The loop \<open>while (1)\<close> of \<open>coalesce_block\<close>.\<close>

partial_function (option) coalesce_block ::
  "('s \<Rightarrow> u32 \<Rightarrow> u8 option) \<Rightarrow> ('s \<Rightarrow> u32 \<Rightarrow> u8 \<Rightarrow> 's option) \<Rightarrow> 's \<Rightarrow> u32 \<Rightarrow> u32 \<Rightarrow> 's option" where
  "coalesce_block rd wr s buddy_block1 offset = do {
     h1 \<leftarrow> rd s buddy_block1;
     d \<leftarrow> shl1 (hdr_size h1);
     let buddy_block2 = ((buddy_block1 - offset) XOR d) + offset;
     h2 \<leftarrow> rd s buddy_block2;
     if \<not> hdr_used h2 \<and> hdr_size h2 = hdr_size h1 then
       if buddy_block2 > buddy_block1 then do {
         s \<leftarrow> wr s buddy_block1 (hdr_set_size h1 (hdr_size h1 + 1));
         coalesce_block rd wr s buddy_block1 offset
       } else do {
         s \<leftarrow> wr s buddy_block2 (hdr_set_size h2 (hdr_size h2 + 1));
         coalesce_block rd wr s buddy_block2 offset
       }
     else Some s
   }"

text \<open>
  The loop \<open>while ((size >> ++block_size) != 0);\<close>, from the value \<open>block_size\<close>
  has before the increment. A shift by 32 is undefined.
\<close>

function round_loop :: "u32 \<Rightarrow> nat \<Rightarrow> nat option" where
  "round_loop sz block_size =
     (let block_size' = Suc block_size in
      if 32 \<le> block_size' then None
      else if drop_bit block_size' sz \<noteq> 0 then round_loop sz block_size'
      else Some block_size')"
  by pat_completeness auto
termination
  by (relation "measure (\<lambda>(sz, b). 32 - b)") auto

declare round_loop.simps [simp del]

definition round_block_size :: "u32 \<Rightarrow> u32 option" where
  "round_block_size sz = do {
     block_size \<leftarrow> round_loop sz (MIN_BLOCK_SIZE - 1);
     d \<leftarrow> shl1 (of_nat block_size);
     Some (if sz > d then of_nat block_size + 1 else of_nat block_size)
   }"

text \<open>The inner loop of \<open>memory_allocate\<close>: split until the size fits.\<close>

partial_function (option) split_to ::
  "('s \<Rightarrow> u32 \<Rightarrow> u8 option) \<Rightarrow> ('s \<Rightarrow> u32 \<Rightarrow> u8 \<Rightarrow> 's option) \<Rightarrow> 's \<Rightarrow> u32 \<Rightarrow> u32 \<Rightarrow> 's option" where
  "split_to rd wr s alloc_addr actual_size = do {
     h \<leftarrow> rd s alloc_addr;
     if hdr_size h > actual_size then do {
       s \<leftarrow> split_block rd wr s alloc_addr;
       split_to rd wr s alloc_addr actual_size
     } else Some s
   }"

text \<open>The outer loop: the address returned, and the state after it.\<close>

partial_function (option) alloc_loop ::
  "('s \<Rightarrow> u32 \<Rightarrow> u8 option) \<Rightarrow> ('s \<Rightarrow> u32 \<Rightarrow> u8 \<Rightarrow> 's option) \<Rightarrow> 's \<Rightarrow> u32 \<Rightarrow> u32 \<Rightarrow> u32 \<Rightarrow>
   (u32 \<times> 's) option" where
  "alloc_loop rd wr s heap_end actual_size alloc_addr =
     (if alloc_addr \<le> heap_end then do {
        h \<leftarrow> rd s alloc_addr;
        if \<not> hdr_used h \<and> hdr_size h \<ge> actual_size then do {
          s \<leftarrow> split_to rd wr s alloc_addr actual_size;
          h \<leftarrow> rd s alloc_addr;
          s \<leftarrow> wr s alloc_addr (hdr_set_used h True);
          Some (alloc_addr + HEADER_BYTES, s)
        } else do {
          d \<leftarrow> shl1 (hdr_size h);
          alloc_loop rd wr s heap_end actual_size (alloc_addr + d)
        }
      } else Some (0, s))"

definition memory_allocate ::
  "('s \<Rightarrow> u32 \<Rightarrow> u8 option) \<Rightarrow> ('s \<Rightarrow> u32 \<Rightarrow> u8 \<Rightarrow> 's option) \<Rightarrow> 's \<Rightarrow> heap_spec \<Rightarrow> u32 \<Rightarrow>
   (u32 \<times> 's) option" where
  "memory_allocate rd wr s alloc_info sz = do {
     actual_size \<leftarrow> round_block_size (sz + HEADER_BYTES);
     alloc_loop rd wr s (hs_end alloc_info) actual_size (hs_start alloc_info)
   }"

definition memory_free ::
  "('s \<Rightarrow> u32 \<Rightarrow> u8 option) \<Rightarrow> ('s \<Rightarrow> u32 \<Rightarrow> u8 \<Rightarrow> 's option) \<Rightarrow> 's \<Rightarrow> heap_spec \<Rightarrow> u32 \<Rightarrow> 's option" where
  "memory_free rd wr s alloc_info addr = do {
     let free_addr = addr - HEADER_BYTES;
     h \<leftarrow> rd s free_addr;
     s \<leftarrow> wr s free_addr (hdr_set_used h False);
     coalesce_block rd wr s addr (hs_start alloc_info)
   }"

text \<open>The loop of \<open>init_memory\<close>.\<close>

function init_loop ::
  "('s \<Rightarrow> u32 \<Rightarrow> u8 option) \<Rightarrow> ('s \<Rightarrow> u32 \<Rightarrow> u8 \<Rightarrow> 's option) \<Rightarrow> 's \<Rightarrow> u32 \<Rightarrow> u32 \<Rightarrow> u32 \<Rightarrow> nat \<Rightarrow>
   's option" where
  "init_loop rd wr s heap_end block heap_length alloc_size =
     (if block < heap_end \<and> heap_length > 0 then
        if heap_length AND 1 \<noteq> 0 then do {
          h \<leftarrow> rd s block;
          s \<leftarrow> wr s block (hdr_set_used (hdr_set_size h (of_nat alloc_size)) False);
          d \<leftarrow> shl1 (of_nat alloc_size);
          init_loop rd wr s heap_end (block + d) (drop_bit 1 heap_length) (Suc alloc_size)
        } else init_loop rd wr s heap_end block (drop_bit 1 heap_length) (Suc alloc_size)
      else Some s)"
  by pat_completeness auto

lemma unat_drop_bit_less: "0 < (w :: u32) \<Longrightarrow> unat (drop_bit (Suc 0) w) < unat w"
  by (subst unat_drop_bit_eq) (simp add: word_less_nat_alt drop_bit_eq_div)

termination init_loop
  by (relation "measure (\<lambda>(rd, wr, s, e, b, len, k). unat len)") (auto intro: unat_drop_bit_less)

declare init_loop.simps [simp del]

definition init_memory ::
  "('s \<Rightarrow> u32 \<Rightarrow> u8 option) \<Rightarrow> ('s \<Rightarrow> u32 \<Rightarrow> u8 \<Rightarrow> 's option) \<Rightarrow> 's \<Rightarrow> heap_spec \<Rightarrow> 's option" where
  "init_memory rd wr s alloc_info =
     (let heap_length = hs_end alloc_info - hs_start alloc_info + 1 in
      init_loop rd wr s (hs_end alloc_info) (hs_start alloc_info)
        (drop_bit MIN_BLOCK_SIZE heap_length) MIN_BLOCK_SIZE)"

definition kernel_allocate ::
  "('s \<Rightarrow> u32 \<Rightarrow> u8 option) \<Rightarrow> ('s \<Rightarrow> u32 \<Rightarrow> u8 \<Rightarrow> 's option) \<Rightarrow> 's \<Rightarrow> u32 \<Rightarrow> (u32 \<times> 's) option" where
  "kernel_allocate rd wr s sz = memory_allocate rd wr s kernel_heap sz"

definition kernel_free ::
  "('s \<Rightarrow> u32 \<Rightarrow> u8 option) \<Rightarrow> ('s \<Rightarrow> u32 \<Rightarrow> u8 \<Rightarrow> 's option) \<Rightarrow> 's \<Rightarrow> u32 \<Rightarrow> 's option" where
  "kernel_free rd wr s addr = memory_free rd wr s kernel_heap addr"

definition init_kernel_heap ::
  "('s \<Rightarrow> u32 \<Rightarrow> u8 option) \<Rightarrow> ('s \<Rightarrow> u32 \<Rightarrow> u8 \<Rightarrow> 's option) \<Rightarrow> 's \<Rightarrow> 's option" where
  "init_kernel_heap rd wr s = init_memory rd wr s kernel_heap"

section \<open>Headers\<close>

lemma hdr_bits [simp]:
  "n < 128 \<Longrightarrow> hdr_size (hdr_set_size h n) = n"
  "hdr_used (hdr_set_size h n) = hdr_used h"
  "hdr_size (hdr_set_used h u) = hdr_size h"
  "hdr_used (hdr_set_used h u) = u"
proof -
  have 7: "(0x7f :: u8) = mask 7"
    by (simp add: mask_eq_exp_minus_1)
  have 8: "bit (0x80 :: int) i \<longleftrightarrow> i = 7" for i
    using bit_exp_iff [where 'a = int, of 7 i] by auto
  show "hdr_used (hdr_set_size h n) = hdr_used h" "hdr_size (hdr_set_used h u) = hdr_size h"
    "hdr_used (hdr_set_used h u) = u"
    unfolding hdr_used_def hdr_set_size_def hdr_size_def hdr_set_used_def 7
    by (auto simp: bit_simps 8 intro!: bit_word_eqI)
  assume "n < 128"
  then have "take_bit 7 n = n"
    by (simp add: take_bit_eq_mod word_arith_nat_mod word_less_nat_alt)
  then have b: "bit n i \<longleftrightarrow> bit n i \<and> i < 7" for i by (metis bit_take_bit_iff)
  show "hdr_size (hdr_set_size h n) = n"
  proof (rule bit_word_eqI)
    fix i
    show "bit (hdr_size (hdr_set_size h n)) i \<longleftrightarrow> bit n i"
      unfolding hdr_set_size_def hdr_size_def 7 using b [of i] by (auto simp: bit_simps 8)
  qed
qed

text \<open>The header byte at \<open>a\<close> says a block of \<open>2 ^ k\<close> bytes.\<close>

definition hdr_at :: "bytes \<Rightarrow> u32 \<Rightarrow> nat \<Rightarrow> bool \<Rightarrow> bool" where
  "hdr_at v a k u \<longleftrightarrow> hdr_size (v a) = of_nat k \<and> hdr_used (v a) = u"

lemma hdr_at_cong: "v a = v' a \<Longrightarrow> hdr_at v a k u = hdr_at v' a k u"
  by (simp add: hdr_at_def)

section \<open>The list of blocks\<close>

type_synonym blocks = "(nat \<times> bool) list"

fun extent :: "blocks \<Rightarrow> nat" where
  "extent [] = 0"
| "extent ((k, u) # bs) = 2 ^ k + extent bs"

fun chain :: "bytes \<Rightarrow> u32 \<Rightarrow> blocks \<Rightarrow> bool" where
  "chain v a [] \<longleftrightarrow> True"
| "chain v a ((k, u) # bs) \<longleftrightarrow> hdr_at v a k u \<and> k < 32 \<and> chain v (a + 2 ^ k) bs"

definition frees :: "nat \<Rightarrow> nat \<Rightarrow> blocks" where
  "frees n k = map (\<lambda>j. (j, False)) [n..<k]"

text \<open>First fit on the list of blocks: the offset of the block taken, and the new list.\<close>

fun alloc_blocks :: "nat \<Rightarrow> blocks \<Rightarrow> (nat \<times> blocks) option" where
  "alloc_blocks n [] = None"
| "alloc_blocks n ((k, u) # bs) =
     (if \<not> u \<and> n \<le> k then Some (0, (n, True) # frees n k @ bs)
      else map_option (\<lambda>(off, bs'). (2 ^ k + off, (k, u) # bs')) (alloc_blocks n bs))"

text \<open>Blocks that are used or too small are passed over.\<close>

definition skips :: "nat \<Rightarrow> blocks \<Rightarrow> bool" where
  "skips n bs \<longleftrightarrow> (\<forall>(k, u) \<in> set bs. u \<or> k < n)"

text \<open>The address \<open>x\<close> is one of the \<open>n\<close> bytes at \<open>a\<close>.\<close>

definition inside :: "u32 \<Rightarrow> nat \<Rightarrow> u32 \<Rightarrow> bool" where
  "inside a n x \<longleftrightarrow> unat a \<le> unat x \<and> unat x < unat a + n"

lemma extent_append [simp]: "extent (xs @ ys) = extent xs + extent ys"
  by (induction xs rule: extent.induct) auto

lemma frees_Suc: "n \<le> k \<Longrightarrow> frees n (Suc k) = frees n k @ [(k, False)]"
  by (simp add: frees_def)

lemma frees_self [simp]: "frees n n = []"
  by (simp add: frees_def)

lemma extent_frees: "n \<le> k \<Longrightarrow> 2 ^ n + extent (frees n k) = 2 ^ k"
  by (induction k rule: nat_induct_at_least) (auto simp: frees_Suc)

lemma of_nat_pow2 [simp]: "(of_nat (2 ^ k) :: u32) = 2 ^ k"
  by simp

lemma chain_append:
  "chain v a (xs @ ys) \<longleftrightarrow> chain v a xs \<and> chain v (a + of_nat (extent xs)) ys"
  by (induction v a xs rule: chain.induct) (auto simp: algebra_simps)

lemma chain_cong:
  "unat a + extent bs \<le> 2 ^ 32 \<Longrightarrow> (\<And>x. inside a (extent bs) x \<Longrightarrow> v x = v' x) \<Longrightarrow>
   chain v a bs = chain v' a bs"
proof (induction v a bs rule: chain.induct)
  case (1 v a)
  then show ?case by simp
next
  case (2 v a k u bs)
  have h: "hdr_at v a k u = hdr_at v' a k u"
    using "2.prems"(2) [of a] by (intro hdr_at_cong) (simp add: inside_def)
  show ?case
  proof (cases "k < 32 \<and> bs \<noteq> []")
    case True
    then have "0 < extent bs" by (cases bs) auto
    with True "2.prems"(1) have a: "unat (a + 2 ^ k) = unat a + 2 ^ k"
      by (intro unat_add_pow2) auto
    have "chain v (a + 2 ^ k) bs = chain v' (a + 2 ^ k) bs"
      using "2.prems" a by (intro "2.IH") (auto simp: inside_def)
    with h show ?thesis by simp
  next
    case False
    with h show ?thesis by auto
  qed
qed

section \<open>Allocation over the block list\<close>

context byte_memory
begin

lemma split_block_upd:
  assumes "hdr_at (view s) a (Suc k) u" "k < 32" "R a" "R (a + 2 ^ k)"
  shows "\<exists>m. split_block rd wr s a = Some (upd s m) \<and> hdr_at m a k u \<and>
    hdr_at m (a + 2 ^ k) k False \<and> (\<forall>x. x \<noteq> a \<longrightarrow> x \<noteq> a + 2 ^ k \<longrightarrow> m x = view s x)"
proof -
  have ne: "a \<noteq> a + 2 ^ k"
  proof
    assume "a = a + 2 ^ k"
    then have "(2 :: u32) ^ k = 0" by simp
    with unat_pow2 [OF assms(2)] show False by (simp add: unat_eq_zero)
  qed
  have k: "hdr_size (view s a) - 1 = of_nat k" "of_nat k < (128 :: u32)"
    using assms(1,2) by (simp_all add: hdr_at_def word_less_nat_alt unat_of_nat_u32)
  let ?m = "(view s)(a + 2 ^ k := hdr_set_used (hdr_set_size (view s (a + 2 ^ k)) (of_nat k)) False,
      a := hdr_set_size (view s a) (of_nat k))"
  have "split_block rd wr s a = Some (upd s ?m)"
    using assms ne k by (simp add: split_block_def rd_view wr_upd Let_def)
  moreover have "hdr_at ?m a k u" "hdr_at ?m (a + 2 ^ k) k False"
    using assms ne k by (auto simp: hdr_at_def)
  ultimately show ?thesis by (intro exI [of _ ?m]) simp
qed

lemma split_to_upd:
  assumes "n \<le> k" "hdr_at (view s) a k False" "k < 32" "unat a + 2 ^ k \<le> 2 ^ 32"
    "\<And>x. inside a (2 ^ k) x \<Longrightarrow> R x"
  shows "\<exists>m. split_to rd wr s a (of_nat n) = Some (upd s m) \<and> hdr_at m a n False \<and>
    chain m (a + 2 ^ n) (frees n k) \<and> (\<forall>x. \<not> inside a (2 ^ k) x \<longrightarrow> m x = view s x) \<and>
    (\<forall>x. m x \<noteq> view s x \<longrightarrow> x = a \<or> (\<exists>j. n \<le> j \<and> j < k \<and> x = a + 2 ^ j))"
  using assms
proof (induction k arbitrary: s rule: nat_induct_at_least)
  case base
  then have "R a" by (simp add: inside_def)
  with base show ?case
    by (subst split_to.simps)
      (auto simp: rd_view hdr_at_def intro!: exI [of _ "view s"])
next
  case (Suc k)
  have p: "(2 :: nat) ^ k < 2 ^ Suc k" by simp
  have b: "unat (a + 2 ^ k) = unat a + 2 ^ k"
    using Suc.prems(2,3) p by (intro unat_add_pow2) linarith+
  have R: "R a" "R (a + 2 ^ k)"
    by (rule Suc.prems(4), simp add: inside_def b)+
  obtain m where m: "split_block rd wr s a = Some (upd s m)" "hdr_at m a k False"
    "hdr_at m (a + 2 ^ k) k False" "\<And>x. x \<noteq> a \<Longrightarrow> x \<noteq> a + 2 ^ k \<Longrightarrow> m x = view s x"
    using split_block_upd [OF Suc.prems(1) _ R] Suc.prems(2) by auto
  obtain m' where m': "split_to rd wr (upd s m) a (of_nat n) = Some (upd s m')" "hdr_at m' a n False"
    "chain m' (a + 2 ^ n) (frees n k)" "\<And>x. \<not> inside a (2 ^ k) x \<Longrightarrow> m' x = m x"
    and w: "\<And>x. m' x \<noteq> m x \<Longrightarrow> x = a \<or> (\<exists>j. n \<le> j \<and> j < k \<and> x = a + 2 ^ j)"
    using Suc.IH [of "upd s m"] m(2) Suc.prems by (auto simp: inside_def)
  have "hdr_size (view s a) > of_nat n"
    using Suc.prems(1,2) Suc.hyps by (simp add: hdr_at_def of_nat_u32_less_iff del: of_nat_Suc)
  then have s: "split_to rd wr s a (of_nat n) = Some (upd s m')"
    using m(1) m'(1) R by (subst split_to.simps) (simp add: rd_view)
  have "m' (a + 2 ^ k) = m (a + 2 ^ k)"
    by (rule m'(4)) (simp add: inside_def b)
  then have "hdr_at m' (a + 2 ^ k) k False"
    using m(3) hdr_at_cong by metis
  moreover have "a + 2 ^ n + of_nat (extent (frees n k)) = a + 2 ^ k"
    using arg_cong [OF extent_frees [OF Suc.hyps], of "of_nat :: nat \<Rightarrow> u32"]
    by (simp add: algebra_simps)
  ultimately have "chain m' (a + 2 ^ n) (frees n (Suc k))"
    using m'(3) Suc.hyps Suc.prems(2) by (simp add: frees_Suc chain_append add.assoc)
  moreover have "m' x = view s x" if "\<not> inside a (2 ^ Suc k) x" for x
  proof -
    from that have "\<not> inside a (2 ^ k) x" "x \<noteq> a" "x \<noteq> a + 2 ^ k"
      using b by (auto simp: inside_def)
    then show ?thesis using m'(4) m(4) by simp
  qed
  moreover have "x = a \<or> (\<exists>j. n \<le> j \<and> j < Suc k \<and> x = a + 2 ^ j)" if "m' x \<noteq> view s x" for x
  proof (cases "m' x = m x")
    case True
    with that m(4) [of x] have "x = a \<or> x = a + 2 ^ k" by auto
    with Suc.hyps show ?thesis by (auto intro: exI [of _ k])
  next
    case False
    from w [OF this] show ?thesis by (auto intro: less_SucI)
  qed
  ultimately show ?case using s m'(2) by blast
qed

lemma alloc_loop_skip:
  assumes "chain (view s) a (xs @ ys)" "skips n xs" "n < 2 ^ 32"
    "unat a + extent (xs @ ys) \<le> unat e + 1" "unat e + 1 < 2 ^ 32"
    "\<And>x. unat a \<le> unat x \<Longrightarrow> x \<le> e \<Longrightarrow> R x"
  shows "alloc_loop rd wr s e (of_nat n) a = alloc_loop rd wr s e (of_nat n) (a + of_nat (extent xs))"
  using assms
proof (induction xs arbitrary: a)
  case Nil
  then show ?case by simp
next
  case (Cons b xs)
  obtain k u where b: "b = (k, u)" by (cases b)
  have k: "k < 32" "hdr_at (view s) a k u" "u \<or> k < n"
    using Cons.prems b by (auto simp: skips_def)
  have le: "unat a + 2 ^ k + extent (xs @ ys) \<le> unat e + 1"
    using Cons.prems(4) b by simp
  have "0 < (2 :: nat) ^ k" by simp
  with le have "unat a \<le> unat e" by linarith
  then have ae: "a \<le> e" by (simp add: word_le_nat_alt)
  have a: "unat (a + 2 ^ k) = unat a + 2 ^ k"
    using le Cons.prems(5) k(1) by (intro unat_add_pow2) linarith+
  have "\<not> (\<not> u \<and> of_nat n \<le> (of_nat k :: u32))"
    using k(1,3) Cons.prems(3) by (auto simp: of_nat_u32_le_iff)
  then have "alloc_loop rd wr s e (of_nat n) a = alloc_loop rd wr s e (of_nat n) (a + 2 ^ k)"
    using ae k Cons.prems(6) [of a]
    by (subst alloc_loop.simps) (auto simp: rd_view hdr_at_def)
  also have "\<dots> = alloc_loop rd wr s e (of_nat n) (a + 2 ^ k + of_nat (extent xs))"
    using Cons.prems b le a by (intro Cons.IH) (auto simp: skips_def)
  finally show ?case using b by (simp add: add.assoc)
qed

lemma alloc_loop_miss:
  assumes "chain (view s) a bs" "skips n bs" "n < 2 ^ 32"
    "unat a + extent bs = unat e + 1" "unat e + 1 < 2 ^ 32"
    "\<And>x. unat a \<le> unat x \<Longrightarrow> x \<le> e \<Longrightarrow> R x"
  shows "alloc_loop rd wr s e (of_nat n) a = Some (0, s)"
proof -
  have "alloc_loop rd wr s e (of_nat n) a =
    alloc_loop rd wr s e (of_nat n) (a + of_nat (extent bs))"
    using assms alloc_loop_skip [of s a bs "[]" n e] by simp
  moreover have "\<not> a + of_nat (extent bs) \<le> e"
    using assms unat_add_of_nat [of a "extent bs"] by (simp add: word_le_nat_alt)
  ultimately show ?thesis by (simp add: alloc_loop.simps)
qed

lemma alloc_loop_hit:
  assumes "chain (view s) a (xs @ (k, False) # ys)" "skips n xs" "n \<le> k"
    "unat a + extent (xs @ (k, False) # ys) = unat e + 1" "unat e + 1 < 2 ^ 32"
    "\<And>x. unat a \<le> unat x \<Longrightarrow> x \<le> e \<Longrightarrow> R x"
  shows "\<exists>m. alloc_loop rd wr s e (of_nat n) a = Some (a + of_nat (extent xs) + 1, upd s m) \<and>
    chain m a (xs @ (n, True) # frees n k @ ys) \<and>
    (\<forall>x. \<not> inside (a + of_nat (extent xs)) (2 ^ k) x \<longrightarrow> m x = view s x) \<and>
    (\<forall>x. m x \<noteq> view s x \<longrightarrow> x = a + of_nat (extent xs) \<or>
       (\<exists>j. n \<le> j \<and> j < k \<and> x = a + of_nat (extent xs) + 2 ^ j))"
proof -
  let ?b = "a + of_nat (extent xs)"
  have k: "k < 32" "hdr_at (view s) ?b k False" "chain (view s) a xs"
    "chain (view s) (?b + 2 ^ k) ys"
    using assms(1) by (auto simp: chain_append)
  have p: "0 < (2 :: nat) ^ k" by simp
  have b: "unat ?b = unat a + extent xs"
    using assms(4,5) p by (intro unat_add_of_nat) simp
  have b2: "unat (?b + 2 ^ k) = unat ?b + 2 ^ k"
    using assms(4,5) b k(1) by (intro unat_add_pow2) auto
  have R: "R x" if "inside ?b (2 ^ k) x" for x
    using that assms(4) b by (intro assms(6)) (auto simp: inside_def word_le_nat_alt)
  obtain m where m: "split_to rd wr s ?b (of_nat n) = Some (upd s m)" "hdr_at m ?b n False"
    "chain m (?b + 2 ^ n) (frees n k)" "\<And>x. \<not> inside ?b (2 ^ k) x \<Longrightarrow> m x = view s x"
    and w: "\<And>x. m x \<noteq> view s x \<Longrightarrow> x = ?b \<or> (\<exists>j. n \<le> j \<and> j < k \<and> x = ?b + 2 ^ j)"
    using split_to_upd [OF assms(3) k(2,1) _ R] assms(4,5) b by auto
  let ?m = "m(?b := hdr_set_used (m ?b) True)"
  have "unat ?b \<le> unat e"
    using b assms(4) p unfolding extent_append extent.simps by linarith
  then have "?b \<le> e" "R ?b"
    using R [of ?b] by (simp_all add: word_le_nat_alt inside_def)
  moreover have "of_nat n \<le> (of_nat k :: u32)"
    using assms(3) k(1) by (simp add: of_nat_u32_le_iff)
  ultimately have "alloc_loop rd wr s e (of_nat n) ?b = Some (?b + 1, upd s ?m)"
    using k(2) m(1) by (subst alloc_loop.simps) (simp add: rd_view wr_upd hdr_at_def)
  moreover have "alloc_loop rd wr s e (of_nat n) a = alloc_loop rd wr s e (of_nat n) ?b"
    using assms k(1) by (intro alloc_loop_skip) auto
  moreover have f: "?m x = view s x" if "\<not> inside ?b (2 ^ k) x" for x
    using m(4) [OF that] that p by (auto simp: inside_def)
  moreover have "chain ?m a (xs @ (n, True) # frees n k @ ys)"
  proof -
    have n: "n < 32" "(2 :: nat) ^ n \<le> 2 ^ k"
      using assms(3) k(1) by simp_all
    have fs: "2 ^ n + extent (frees n k) = 2 ^ k"
      by (rule extent_frees [OF assms(3)])
    have "unat ?b + 2 ^ n < 2 ^ 32"
      using b2 n(2) unat_u32_less [of "?b + 2 ^ k"] by linarith
    then have bn: "unat (?b + 2 ^ n) = unat ?b + 2 ^ n"
      by (rule unat_add_pow2 [OF n(1)])
    have "chain (view s) a xs = chain ?m a xs"
      using assms(4,5) b by (intro chain_cong f [symmetric]) (auto simp: inside_def)
    moreover have "chain m (?b + 2 ^ n) (frees n k) = chain ?m (?b + 2 ^ n) (frees n k)"
      using bn b2 fs unat_u32_less [of "?b + 2 ^ k"] by (intro chain_cong) (auto simp: inside_def)
    moreover have "chain (view s) (?b + 2 ^ k) ys = chain ?m (?b + 2 ^ k) ys"
      using assms(4,5) b b2 by (intro chain_cong f [symmetric]) (auto simp: inside_def)
    moreover have "?b + 2 ^ n + of_nat (extent (frees n k)) = ?b + 2 ^ k"
      using arg_cong [OF fs, of "of_nat :: nat \<Rightarrow> u32"] by (simp add: add.assoc)
    moreover have "hdr_at ?m ?b n True"
      using m(2) by (simp add: hdr_at_def)
    ultimately show ?thesis
      using k(3,4) m(3) n(1) unfolding chain_append chain.simps by (simp only: simp_thms)
  qed
  moreover have "x = ?b \<or> (\<exists>j. n \<le> j \<and> j < k \<and> x = ?b + 2 ^ j)" if "?m x \<noteq> view s x" for x
    using w [of x] that by (auto split: if_splits)
  ultimately show ?thesis by (intro exI [of _ ?m]) (simp only: simp_thms, blast)
qed

end

section \<open>Rounding a request up to a block\<close>

text \<open>
  The block size the loop of \<open>round_block_size\<close> stops at: the bits of the request,
  and no less than \<open>MIN_BLOCK_SIZE\<close>.
\<close>

definition block_bits :: "nat \<Rightarrow> nat" where
  "block_bits n = max MIN_BLOCK_SIZE (floorlog 2 n)"

lemma drop_bit_u32_eq_0: "drop_bit k (w :: u32) = 0 \<longleftrightarrow> unat w < 2 ^ k"
proof -
  have "drop_bit k w = 0 \<longleftrightarrow> unat (drop_bit k w) = 0" by (simp add: unat_eq_zero)
  also have "\<dots> \<longleftrightarrow> unat w div 2 ^ k = 0"
    by (subst unat_drop_bit_eq) (simp add: drop_bit_eq_div)
  finally show ?thesis by (simp add: div_eq_0_iff)
qed

lemma floorlog_le: "floorlog 2 n \<le> k \<longleftrightarrow> n < 2 ^ k"
  by (simp add: floorlog_le_iff)

lemma round_loop_eq:
  "b < 31 \<Longrightarrow> round_loop sz b =
     (if unat sz < 2 ^ 31 then Some (max (Suc b) (floorlog 2 (unat sz))) else None)"
proof (induction sz b rule: round_loop.induct)
  case (1 sz b)
  show ?case
  proof (cases "unat sz < 2 ^ Suc b")
    case True
    have "(2 :: nat) ^ Suc b \<le> 2 ^ 31"
      by (rule power_increasing) (use "1.prems" in simp_all)
    moreover have "max (Suc b) (floorlog 2 (unat sz)) = Suc b"
      using True by (simp only: floorlog_le [symmetric] max_absorb1)
    ultimately show ?thesis
      using True "1.prems"
      by (simp add: round_loop.simps [of sz b] drop_bit_u32_eq_0 Let_def del: power_Suc)
  next
    case False
    then have "\<not> floorlog 2 (unat sz) \<le> Suc b" by (simp only: floorlog_le not_False_eq_True)
    show ?thesis
    proof (cases "Suc b < 31")
      case True
      with False "1.IH" "1.prems" \<open>\<not> floorlog 2 (unat sz) \<le> Suc b\<close> show ?thesis
        by (auto simp add: round_loop.simps [of sz b] drop_bit_u32_eq_0 Let_def simp del: power_Suc)
    next
      case 31: False
      with "1.prems" have "b = 30" by simp
      with False show ?thesis
        by (auto simp add: round_loop.simps [of sz 30] round_loop.simps [of sz 31]
          drop_bit_u32_eq_0 Let_def)
    qed
  qed
qed

lemma block_bits_le: "n < 2 ^ 31 \<Longrightarrow> block_bits n \<le> 31"
  by (simp add: block_bits_def floorlog_le)

lemma block_bits_fits: "n < 2 ^ block_bits n"
  using floorlog_le [of n "block_bits n"] by (simp add: block_bits_def)

lemma round_block_size_eq:
  "round_block_size sz =
     (if unat sz < 2 ^ 31 then Some (of_nat (block_bits (unat sz))) else None)"
proof (cases "unat sz < 2 ^ 31")
  case True
  let ?k = "block_bits (unat sz)"
  have k: "?k < 32" "unat sz < 2 ^ ?k"
    using block_bits_le [OF True] block_bits_fits by simp_all
  then have "\<not> sz > 2 ^ ?k"
    by (simp add: word_less_nat_alt)
  moreover have "round_loop sz (MIN_BLOCK_SIZE - 1) = Some ?k"
    using True by (simp add: round_loop_eq block_bits_def)
  ultimately show ?thesis
    using True k by (simp add: round_block_size_def)
next
  case False
  then show ?thesis by (simp add: round_block_size_def round_loop_eq)
qed

section \<open>The heap invariant\<close>

text \<open>
  The blocks cover the bytes from \<open>start\<close> to \<open>end\<close>, both included. A
  length that is not a multiple of eight leaves bytes behind the last block; the walk of
  \<open>memory_allocate\<close> reads them as headers, and zero bytes there are blocks of one
  byte.
\<close>

definition heap_ok :: "heap_spec \<Rightarrow> bytes \<Rightarrow> blocks \<Rightarrow> bool" where
  "heap_ok spec v bs \<longleftrightarrow> chain v (hs_start spec) bs \<and>
     unat (hs_start spec) + extent bs = unat (hs_end spec) + 1 \<and> unat (hs_end spec) + 1 < 2 ^ 32"

text \<open>The used blocks: offset and size.\<close>

fun used_blocks :: "nat \<Rightarrow> blocks \<Rightarrow> (nat \<times> nat) list" where
  "used_blocks off [] = []"
| "used_blocks off ((k, u) # bs) = (if u then [(off, k)] else []) @ used_blocks (off + 2 ^ k) bs"

lemma used_blocks_append [simp]:
  "used_blocks off (xs @ ys) = used_blocks off xs @ used_blocks (off + extent xs) ys"
  by (induction off xs rule: used_blocks.induct) (auto simp: add.assoc)

lemma used_blocks_frees [simp]: "used_blocks off (frees n k) = []"
proof -
  have "used_blocks off (map (\<lambda>j. (j, False)) js) = []" for js
    by (induction js arbitrary: off) auto
  then show ?thesis by (simp add: frees_def)
qed

lemma used_blocks_bounds:
  "(p, k) \<in> set (used_blocks off bs) \<Longrightarrow> off \<le> p \<and> p + 2 ^ k \<le> off + extent bs"
  by (induction off bs rule: used_blocks.induct) (auto split: if_splits)

lemma used_blocks_disjoint:
  "(p, k) \<in> set (used_blocks off bs) \<Longrightarrow> (q, j) \<in> set (used_blocks off bs) \<Longrightarrow>
   (p, k) \<noteq> (q, j) \<Longrightarrow> p + 2 ^ k \<le> q \<or> q + 2 ^ j \<le> p"
proof (induction off bs rule: used_blocks.induct)
  case (1 off)
  then show ?case by simp
next
  case (2 off i u bs)
  then show ?case
    using used_blocks_bounds [of p k "off + 2 ^ i" bs] used_blocks_bounds [of q j "off + 2 ^ i" bs]
    by (auto split: if_splits)
qed

lemma alloc_blocks_None: "alloc_blocks n bs = None \<longleftrightarrow> skips n bs"
  by (induction n bs rule: alloc_blocks.induct) (auto simp: skips_def)

lemma alloc_blocks_SomeD:
  "alloc_blocks n bs = Some (off, bs') \<Longrightarrow>
   \<exists>xs k ys. bs = xs @ (k, False) # ys \<and> skips n xs \<and> n \<le> k \<and> off = extent xs \<and>
     bs' = xs @ (n, True) # frees n k @ ys"
proof (induction n bs arbitrary: off bs' rule: alloc_blocks.induct)
  case (1 n)
  then show ?case by simp
next
  case (2 n k u bs)
  show ?case
  proof (cases "\<not> u \<and> n \<le> k")
    case True
    with "2.prems" show ?thesis
      by (intro exI [of _ "[]"] exI [of _ k] exI [of _ bs]) (auto simp: skips_def)
  next
    case False
    with "2.prems" obtain off' cs where c: "alloc_blocks n bs = Some (off', cs)"
      "off = 2 ^ k + off'" "bs' = (k, u) # cs"
      by (auto split: if_splits)
    from "2.IH" [OF False c(1)] obtain xs j ys where d: "bs = xs @ (j, False) # ys" "skips n xs"
      "n \<le> j" "off' = extent xs" "cs = xs @ (n, True) # frees n j @ ys"
      by (elim exE conjE)
    have "skips n ((k, u) # xs)" using False d(2) by (simp add: skips_def not_le)
    with c(2,3) d show ?thesis
      by (intro exI [of _ "(k, u) # xs"] exI [of _ j] exI [of _ ys]) simp
  qed
qed

lemma alloc_blocks_used:
  assumes "alloc_blocks n bs = Some (off, bs')"
  shows "set (used_blocks 0 bs') = insert (off, n) (set (used_blocks 0 bs))"
    and "extent bs' = extent bs"
  using alloc_blocks_SomeD [OF assms] extent_frees by (auto simp: add.assoc)

section \<open>Block starts\<close>

fun starts :: "nat \<Rightarrow> blocks \<Rightarrow> nat list" where
  "starts off [] = []"
| "starts off ((k, u) # bs) = off # starts (off + 2 ^ k) bs"

lemma starts_bounds: "q \<in> set (starts off bs) \<Longrightarrow> off \<le> q \<and> q < off + extent bs"
proof (induction off bs rule: starts.induct)
  case (1 off)
  then show ?case by simp
next
  case (2 off k u bs)
  have "0 < (2 :: nat) ^ k" by simp
  with 2 show ?case by (fastforce simp: add.assoc)
qed

lemma starts_used:
  "q \<in> set (starts off bs) \<Longrightarrow> (p, k) \<in> set (used_blocks off bs) \<Longrightarrow> q \<le> p \<or> p + 2 ^ k \<le> q"
proof (induction off bs rule: starts.induct)
  case (1 off)
  then show ?case by simp
next
  case (2 off j u bs)
  then show ?case
    using starts_bounds [of q "off + 2 ^ j" bs] used_blocks_bounds [of p k "off + 2 ^ j" bs]
    by (auto split: if_splits)
qed

lemma starts_shift: "starts (d + off) bs = map ((+) d) (starts off bs)"
  by (induction off bs rule: starts.induct) (simp_all add: add.assoc)

lemma starts_append: "starts off (xs @ ys) = starts off xs @ starts (off + extent xs) ys"
  by (induction off xs rule: starts.induct) (auto simp: add.assoc)

lemma starts_frees: "n \<le> k \<Longrightarrow> set (starts (off + 2 ^ n) (frees n k)) = {off + 2 ^ j | j. n \<le> j \<and> j < k}"
proof (induction k rule: nat_induct_at_least)
  case base
  then show ?case by auto
next
  case (Suc k)
  have "off + 2 ^ n + extent (frees n k) = off + 2 ^ k"
    using extent_frees [OF Suc.hyps] by simp
  with Suc show ?case by (auto simp: frees_Suc starts_append less_Suc_eq)
qed

lemma chain_starts:
  "(\<And>q. q \<in> set (starts off bs) \<Longrightarrow> v (a + of_nat q) = v' (a + of_nat q)) \<Longrightarrow>
   chain v (a + of_nat off) bs = chain v' (a + of_nat off) bs"
proof (induction off bs rule: starts.induct)
  case (1 off)
  then show ?case by simp
next
  case (2 off k u bs)
  have "chain v (a + of_nat (off + 2 ^ k)) bs = chain v' (a + of_nat (off + 2 ^ k)) bs"
    by (rule "2.IH") (simp add: "2.prems")
  moreover have "hdr_at v (a + of_nat off) k u = hdr_at v' (a + of_nat off) k u"
    by (rule hdr_at_cong) (simp add: "2.prems")
  ultimately show ?case by (simp add: add.assoc)
qed

context byte_memory
begin

lemma memory_allocate_cases:
  assumes "heap_ok spec (view s) bs" "unat sz + 1 < 2 ^ 31"
    "\<And>x. hs_start spec \<le> x \<Longrightarrow> x \<le> hs_end spec \<Longrightarrow> R x"
  shows "alloc_blocks (block_bits (unat sz + 1)) bs = None \<Longrightarrow>
      memory_allocate rd wr s spec sz = Some (0, s)"
    and "alloc_blocks (block_bits (unat sz + 1)) bs = Some (off, bs') \<Longrightarrow>
      \<exists>m. memory_allocate rd wr s spec sz = Some (hs_start spec + of_nat off + 1, upd s m) \<and>
        heap_ok spec m bs' \<and>
        (\<forall>(p, k) \<in> set (used_blocks 0 bs). \<forall>x. inside (hs_start spec + of_nat p) (2 ^ k) x \<longrightarrow>
           m x = view s x) \<and>
        (\<forall>x. \<not> (hs_start spec \<le> x \<and> x \<le> hs_end spec) \<longrightarrow> m x = view s x) \<and>
        (\<forall>x. m x \<noteq> view s x \<longrightarrow> (\<exists>q \<in> set (starts 0 bs'). x = hs_start spec + of_nat q))"
proof -
  let ?n = "block_bits (unat sz + 1)"
  let ?a = "hs_start spec" and ?e = "hs_end spec"
  have sz: "unat (sz + 1) = unat sz + 1"
    using assms(2) unat_add_of_nat [of sz 1] by simp
  have n: "?n \<le> 31" using block_bits_le assms(2) by simp
  have al: "memory_allocate rd wr s spec sz = alloc_loop rd wr s ?e (of_nat ?n) ?a"
    using assms(2) sz by (simp add: memory_allocate_def round_block_size_eq)
  have R: "R x" if "unat ?a \<le> unat x" "x \<le> ?e" for x
    using that by (intro assms(3)) (simp_all add: word_le_nat_alt)
  note ok = assms(1) [unfolded heap_ok_def]
  { assume "alloc_blocks ?n bs = None"
    then show "memory_allocate rd wr s spec sz = Some (0, s)"
      unfolding al using ok R n by (intro alloc_loop_miss) (auto simp: alloc_blocks_None) }
  assume Some: "alloc_blocks ?n bs = Some (off, bs')"
  then obtain xs k ys where d: "bs = xs @ (k, False) # ys" "skips ?n xs" "?n \<le> k"
    "off = extent xs" "bs' = xs @ (?n, True) # frees ?n k @ ys"
    using alloc_blocks_SomeD by blast
  obtain m where m: "alloc_loop rd wr s ?e (of_nat ?n) ?a = Some (?a + of_nat off + 1, upd s m)"
    "chain m ?a bs'" "\<And>x. \<not> inside (?a + of_nat off) (2 ^ k) x \<Longrightarrow> m x = view s x"
    and w: "\<And>x. m x \<noteq> view s x \<Longrightarrow> x = ?a + of_nat off \<or>
      (\<exists>j. ?n \<le> j \<and> j < k \<and> x = ?a + of_nat off + 2 ^ j)"
    using alloc_loop_hit [of s ?a xs k ys ?n ?e] ok R d by auto
  have off: "unat ?a + off + 2 ^ k \<le> unat ?e + 1" using ok d by simp
  moreover have "0 < (2 :: nat) ^ k" by simp
  ultimately have "unat ?a + off < 2 ^ 32" using ok by linarith
  then have uo: "unat (?a + of_nat off) = unat ?a + off" by (rule unat_add_of_nat)
  have "m x = view s x" if "(p, j) \<in> set (used_blocks 0 bs)" "inside (?a + of_nat p) (2 ^ j) x"
    for p j x
  proof (rule m(3))
    have pj: "p + 2 ^ j \<le> extent bs" "p + 2 ^ j \<le> off \<or> off + 2 ^ k \<le> p"
      using used_blocks_bounds [OF that(1)] that(1) d
      by (auto dest!: used_blocks_bounds)
    have "0 < (2 :: nat) ^ j" by simp
    with pj(1) ok have "unat ?a + p < 2 ^ 32" by linarith
    then have "unat (?a + of_nat p) = unat ?a + p" by (rule unat_add_of_nat)
    with pj(2) that(2) uo show "\<not> inside (?a + of_nat off) (2 ^ k) x"
      by (auto simp: inside_def)
  qed
  moreover have "m x = view s x" if "\<not> (?a \<le> x \<and> x \<le> ?e)" for x
    using that off uo by (intro m(3)) (auto simp: inside_def word_le_nat_alt)
  moreover have "heap_ok spec m bs'"
    using m(2) ok alloc_blocks_used(2) [OF Some] by (simp add: heap_ok_def)
  moreover have "\<exists>q \<in> set (starts 0 bs'). x = ?a + of_nat q" if "m x \<noteq> view s x" for x
    using w [OF that]
  proof (elim disjE exE conjE)
    assume "x = ?a + of_nat off"
    then show ?thesis using d by (intro bexI [of _ off]) (simp_all add: starts_append)
  next
    fix j assume j: "?n \<le> j" "j < k" "x = ?a + of_nat off + 2 ^ j"
    then have "off + 2 ^ j \<in> set (starts 0 bs')" using d by (simp add: starts_append starts_frees)
    with j(3) show ?thesis by (intro bexI [of _ "off + 2 ^ j"]) (simp_all add: add.assoc)
  qed
  ultimately show "\<exists>m. memory_allocate rd wr s spec sz = Some (?a + of_nat off + 1, upd s m) \<and>
        heap_ok spec m bs' \<and>
        (\<forall>(p, k) \<in> set (used_blocks 0 bs). \<forall>x. inside (?a + of_nat p) (2 ^ k) x \<longrightarrow>
           m x = view s x) \<and>
        (\<forall>x. \<not> (?a \<le> x \<and> x \<le> ?e) \<longrightarrow> m x = view s x) \<and>
        (\<forall>x. m x \<noteq> view s x \<longrightarrow> (\<exists>q \<in> set (starts 0 bs'). x = ?a + of_nat q))"
    unfolding al using m(1) by (intro exI [of _ m] conjI ballI) auto
qed

end

section \<open>Initialisation\<close>

text \<open>
  \<open>init_memory\<close> lays out one free block per one-bit of the heap length in units of
  eight bytes, the smallest first.
\<close>

fun init_blocks :: "nat \<Rightarrow> nat \<Rightarrow> blocks" where
  "init_blocks n k =
     (if n = 0 then [] else (if odd n then [(k, False)] else []) @ init_blocks (n div 2) (Suc k))"

declare init_blocks.simps [simp del]

definition zero_blocks :: "nat \<Rightarrow> blocks" where
  "zero_blocks n = replicate n (0, False)"

lemma halve_times: "n div 2 * 2 ^ Suc k + (if odd n then 2 ^ k else 0) = n * 2 ^ k" for n :: nat
proof -
  have "n * 2 ^ k = (2 * (n div 2) + n mod 2) * 2 ^ k" by simp
  also have "\<dots> = n div 2 * 2 ^ Suc k + (n mod 2) * 2 ^ k" by (simp only: algebra_simps power_Suc)
  finally show ?thesis by (auto simp: odd_iff_mod_2_eq_one)
qed

lemma extent_init_blocks: "extent (init_blocks n k) = n * 2 ^ k"
proof (induction n k rule: init_blocks.induct)
  case (1 n k)
  then show ?case
    using halve_times [of n k]
    by (subst init_blocks.simps) (auto simp: add.commute simp del: power_Suc split: if_splits)
qed

lemma extent_zero_blocks [simp]: "extent (zero_blocks n) = n"
  by (induction n) (simp_all add: zero_blocks_def)

lemma chain_zero_blocks:
  "unat a + n < 2 ^ 32 \<Longrightarrow> (\<And>x. inside a n x \<Longrightarrow> v x = 0) \<Longrightarrow> chain v a (zero_blocks n)"
proof (induction n arbitrary: a)
  case 0
  then show ?case by (simp add: zero_blocks_def)
next
  case (Suc n)
  have "v a = 0" by (rule Suc.prems(2)) (simp add: inside_def)
  moreover have "unat (a + 1) = unat a + 1"
    using Suc.prems(1) unat_add_of_nat [of a 1] by simp
  ultimately show ?case
    using Suc by (simp add: zero_blocks_def hdr_at_def hdr_size_def hdr_used_def inside_def)
qed

context byte_memory
begin

lemma init_loop_upd:
  assumes "unat a + unat len * 2 ^ k \<le> unat e + 1" "unat e + 1 < 2 ^ 32" "1 \<le> k"
    "\<And>x. unat a \<le> unat x \<Longrightarrow> x \<le> e \<Longrightarrow> R x"
  shows "\<exists>m. init_loop rd wr s e a len k = Some (upd s m) \<and>
    chain m a (init_blocks (unat len) k) \<and>
    (\<forall>x. \<not> inside a (unat len * 2 ^ k) x \<longrightarrow> m x = view s x) \<and>
    (\<forall>x. m x \<noteq> view s x \<longrightarrow> (\<exists>q \<in> set (starts 0 (init_blocks (unat len) k)). x = a + of_nat q))"
  using assms
proof (induction "unat len" arbitrary: s a len k rule: less_induct)
  case less
  let ?n = "unat len" and ?len = "drop_bit (Suc 0) len"
  show ?case
  proof (cases "?n = 0")
    case True
    then show ?thesis
      by (intro exI [of _ "view s"])
        (simp add: init_loop.simps [of rd wr s e a 0 k] init_blocks.simps [of 0] unat_eq_zero)
  next
    case False
    then have len: "0 < len" by (simp add: word_less_nat_alt)
    have half: "unat ?len = ?n div 2"
      by (subst unat_drop_bit_eq) (simp add: drop_bit_eq_div)
    have dec: "unat ?len < ?n" by (rule unat_drop_bit_less [OF len])
    have odd: "len AND 1 \<noteq> 0 \<longleftrightarrow> odd ?n"
      by (rule u32_and_1)
    have tot: "?n div 2 * 2 ^ Suc k + (if odd ?n then 2 ^ k else 0) = ?n * 2 ^ k"
      by (rule halve_times)
    have "1 * 2 ^ k \<le> ?n * 2 ^ k" using False by (intro mult_le_mono1) simp
    then have kn: "2 ^ k \<le> ?n * 2 ^ k" by simp
    have "(2 :: nat) \<le> 2 ^ k"
      using less.prems(3) power_increasing [of 1 k "2 :: nat"] by simp
    with kn less.prems(1) have ae: "unat a < unat e" by linarith
    have "(2 :: nat) ^ k < 2 ^ 32" using kn less.prems(1,2) by linarith
    then have k: "k < 32" by (simp only: power_strict_increasing_iff)
    have a: "a < e" "R a"
      using ae less.prems(4) [of a] by (simp_all add: word_less_nat_alt word_le_nat_alt)
    show ?thesis
    proof (cases "odd ?n")
      case False
      then have n: "?n div 2 * 2 ^ Suc k = ?n * 2 ^ k" using tot by simp
      have "init_loop rd wr s e a len k = init_loop rd wr s e a ?len (Suc k)"
        using a len odd False by (simp add: init_loop.simps [of rd wr s e a len k])
      moreover have "init_blocks ?n k = init_blocks (?n div 2) (Suc k)"
        using \<open>?n \<noteq> 0\<close> False by (simp add: init_blocks.simps [of ?n])
      ultimately show ?thesis
        using less.hyps [OF dec, of a "Suc k" s, unfolded half n] less.prems by simp
    next
      case True
      then have n: "2 ^ k + ?n div 2 * 2 ^ Suc k = ?n * 2 ^ k" using tot by simp
      let ?m = "(view s)(a := hdr_set_used (hdr_set_size (view s a) (of_nat k)) False)"
      have a': "unat (a + 2 ^ k) = unat a + 2 ^ k"
        using k kn less.prems(1,2) by (intro unat_add_pow2) linarith+
      have "unat (a + 2 ^ k) + unat ?len * 2 ^ Suc k \<le> unat e + 1"
        using n less.prems(1) unfolding half a' by linarith
      then obtain m where m: "init_loop rd wr (upd s ?m) e (a + 2 ^ k) ?len (Suc k) = Some (upd s m)"
        "chain m (a + 2 ^ k) (init_blocks (?n div 2) (Suc k))"
        "\<And>x. \<not> inside (a + 2 ^ k) (?n div 2 * 2 ^ Suc k) x \<Longrightarrow> m x = ?m x"
        and w: "\<And>x. m x \<noteq> ?m x \<Longrightarrow>
          \<exists>q \<in> set (starts 0 (init_blocks (?n div 2) (Suc k))). x = a + 2 ^ k + of_nat q"
        using less.hyps [OF dec, of "a + 2 ^ k" "Suc k" "upd s ?m"] less.prems a' half by auto
      have "init_loop rd wr s e a len k = Some (upd s m)"
        using a len odd True k m(1)
        by (simp add: init_loop.simps [of rd wr s e a len k] rd_view wr_upd)
      moreover have "m a = ?m a" by (rule m(3)) (simp add: inside_def a')
      then have "hdr_at m a k False"
        using k by (simp add: hdr_at_def word_less_nat_alt unat_of_nat_u32)
      then have "chain m a (init_blocks ?n k)"
        using m(2) True \<open>?n \<noteq> 0\<close> k by (simp add: init_blocks.simps [of ?n])
      moreover have "m x = view s x" if x: "\<not> inside a (?n * 2 ^ k) x" for x
      proof -
        have "\<not> inside (a + 2 ^ k) (?n div 2 * 2 ^ Suc k) x"
          using x n a' unfolding inside_def by linarith
        moreover have "x \<noteq> a"
          using x kn by (auto simp: inside_def)
        ultimately show ?thesis using m(3) by simp
      qed
      moreover have "\<exists>q \<in> set (starts 0 (init_blocks ?n k)). x = a + of_nat q" if x: "m x \<noteq> view s x" for x
      proof -
        have b: "set (starts 0 (init_blocks ?n k)) =
            insert 0 ((+) (2 ^ k) ` set (starts 0 (init_blocks (?n div 2) (Suc k))))"
          using True \<open>?n \<noteq> 0\<close> starts_shift [of "2 ^ k" 0] by (simp add: init_blocks.simps [of ?n])
        show ?thesis
        proof (cases "m x = ?m x")
          case True
          with x have "x = a" by (auto split: if_splits)
          then show ?thesis unfolding b by simp
        next
          case False
          from w [OF this] show ?thesis unfolding b by (auto simp: add.assoc)
        qed
      qed
      ultimately show ?thesis by blast
    qed
  qed
qed

lemma init_memory_heap_ok:
  assumes "hs_start spec \<le> hs_end spec" "unat (hs_end spec) + 1 < 2 ^ 32"
    "L = unat (hs_end spec) - unat (hs_start spec) + 1"
    "\<And>x. hs_start spec \<le> x \<Longrightarrow> x \<le> hs_end spec \<Longrightarrow> R x"
    "\<And>x. inside (hs_start spec + of_nat (8 * (L div 8))) (L mod 8) x \<Longrightarrow> view s x = 0"
  shows "\<exists>m. init_memory rd wr s spec = Some (upd s m) \<and>
    heap_ok spec m (init_blocks (L div 8) 3 @ zero_blocks (L mod 8)) \<and>
    (\<forall>x. \<not> inside (hs_start spec) L x \<longrightarrow> m x = view s x) \<and>
    (\<forall>x. m x \<noteq> view s x \<longrightarrow> (\<exists>q \<in> set (starts 0 (init_blocks (L div 8) 3)). x = hs_start spec + of_nat q))"
proof -
  let ?a = "hs_start spec" and ?e = "hs_end spec"
  let ?len = "?e - ?a + 1"
  have le: "unat ?a \<le> unat ?e" using assms(1) by (simp add: word_le_nat_alt)
  have "unat (?e - ?a + of_nat 1) = unat (?e - ?a) + 1"
    using assms(2) by (intro unat_add_of_nat) (simp add: unat_sub [OF assms(1)])
  then have len: "unat ?len = L"
    using assms(3) by (simp add: unat_sub [OF assms(1)])
  have half: "unat (drop_bit 3 ?len) = L div 8"
    using len by (subst unat_drop_bit_eq) (simp add: drop_bit_eq_div)
  have L: "L div 8 * 8 + L mod 8 = L" "unat ?a + L = unat ?e + 1"
    using le assms(3) by simp_all
  obtain m where m: "init_loop rd wr s ?e ?a (drop_bit 3 ?len) 3 = Some (upd s m)"
    "chain m ?a (init_blocks (L div 8) 3)" "\<And>x. \<not> inside ?a (L div 8 * 8) x \<Longrightarrow> m x = view s x"
    and w: "\<forall>x. m x \<noteq> view s x \<longrightarrow> (\<exists>q \<in> set (starts 0 (init_blocks (L div 8) 3)). x = ?a + of_nat q)"
    using init_loop_upd [of ?a "drop_bit 3 ?len" 3 ?e s] assms(2,4) L half
    by (auto simp: word_le_nat_alt)
  have z: "unat (?a + of_nat (8 * (L div 8))) = unat ?a + 8 * (L div 8)"
    using L assms(2) by (intro unat_add_of_nat) linarith
  have "chain m (?a + of_nat (8 * (L div 8))) (zero_blocks (L mod 8))"
  proof (rule chain_zero_blocks)
    show "unat (?a + of_nat (8 * (L div 8))) + L mod 8 < 2 ^ 32"
      using z L assms(2) by linarith
    fix x assume x: "inside (?a + of_nat (8 * (L div 8))) (L mod 8) x"
    then have "m x = view s x" by (intro m(3)) (use z in \<open>auto simp: inside_def\<close>)
    with assms(5) [OF x] show "m x = 0" by simp
  qed
  then have "heap_ok spec m (init_blocks (L div 8) 3 @ zero_blocks (L mod 8))"
    using m(2) L assms(2)
    by (simp add: heap_ok_def chain_append extent_init_blocks mult.commute)
  moreover have "m x = view s x" if "\<not> inside ?a L x" for x
    using that L by (intro m(3)) (auto simp: inside_def)
  ultimately show ?thesis
    using m(1) w by (auto simp: init_memory_def Let_def)
qed

end

section \<open>Alignment\<close>

text \<open>Every block starts at a multiple of its size, counted from the start of the heap.\<close>

fun aligned :: "nat \<Rightarrow> blocks \<Rightarrow> bool" where
  "aligned off [] \<longleftrightarrow> True"
| "aligned off ((k, u) # bs) \<longleftrightarrow> 2 ^ k dvd off \<and> aligned (off + 2 ^ k) bs"

lemma aligned_append:
  "aligned off (xs @ ys) \<longleftrightarrow> aligned off xs \<and> aligned (off + extent xs) ys"
  by (induction off xs rule: aligned.induct) (auto simp: add.assoc)

lemma aligned_frees: "n \<le> k \<Longrightarrow> 2 ^ k dvd off \<Longrightarrow> aligned (off + 2 ^ n) (frees n k)"
proof (induction k rule: nat_induct_at_least)
  case base
  then show ?case by simp
next
  case (Suc k)
  have "(2 :: nat) ^ k dvd 2 ^ Suc k" by simp
  then have "2 ^ k dvd off" using Suc.prems by (rule dvd_trans)
  with Suc show ?case
    using extent_frees [OF Suc.hyps] by (simp add: frees_Suc aligned_append add.assoc)
qed

lemma alloc_blocks_aligned:
  assumes "alloc_blocks n bs = Some (off, bs')" "aligned 0 bs"
  shows "aligned 0 bs'" and "2 ^ n dvd off"
proof -
  obtain xs k ys where d: "bs = xs @ (k, False) # ys" "n \<le> k" "off = extent xs"
    "bs' = xs @ (n, True) # frees n k @ ys"
    using alloc_blocks_SomeD [OF assms(1)] by (elim exE conjE)
  have k: "2 ^ k dvd off" using assms(2) d by (simp add: aligned_append)
  then show "2 ^ n dvd off" by (rule dvd_trans [OF le_imp_power_dvd [OF d(2)]])
  with k assms(2) d show "aligned 0 bs'"
    using aligned_frees [OF d(2) k] extent_frees [OF d(2)] by (simp add: aligned_append add.assoc)
qed

text \<open>In an aligned heap the left buddy of a block is the start of a block.\<close>

lemma extent_split:
  "q < extent bs \<Longrightarrow> \<exists>xs k u ys. bs = xs @ (k, u) # ys \<and> extent xs \<le> q \<and> q < extent xs + 2 ^ k"
proof (induction bs arbitrary: q)
  case Nil
  then show ?case by simp
next
  case (Cons b bs)
  obtain k u where b: "b = (k, u)" by (cases b)
  show ?case
  proof (cases "q < 2 ^ k")
    case True
    then show ?thesis by (intro exI [of _ "[]"] exI) (simp add: b)
  next
    case False
    with Cons.prems b have "q - 2 ^ k < extent bs" by simp
    from Cons.IH [OF this] obtain xs j v ys where "bs = xs @ (j, v) # ys"
      "extent xs \<le> q - 2 ^ k" "q - 2 ^ k < extent xs + 2 ^ j"
      by (elim exE conjE)
    with False b show ?thesis
      by (intro exI [of _ "b # xs"] exI [of _ j] exI [of _ v] exI [of _ ys]) auto
  qed
qed

lemma left_buddy_start:
  assumes "aligned 0 xs" "2 ^ k dvd extent xs" "\<not> 2 ^ Suc k dvd extent xs"
  obtains xs1 j u xs2 where "xs = xs1 @ (j, u) # xs2" "extent xs1 + 2 ^ k = extent xs"
    "2 ^ Suc k dvd extent xs1"
proof -
  have pos: "0 < extent xs" using assms(3) by (cases "extent xs") auto
  with assms(2) have ge: "2 ^ k \<le> extent xs" by (rule dvd_imp_le)
  define q where "q = extent xs - 2 ^ k"
  have q: "q + 2 ^ k = extent xs" using ge by (simp add: q_def)
  have q2: "2 ^ Suc k dvd q"
  proof -
    from assms(2) obtain c where c: "extent xs = 2 ^ k * c" by (elim dvdE)
    with assms(3) have "odd c" by (auto simp: mult.commute elim!: evenE)
    then obtain i where "c = Suc (2 * i)" by (elim oddE) simp
    with c show ?thesis by (simp add: q_def)
  qed
  have "0 < (2 :: nat) ^ k" by simp
  with q have "q < extent xs" by linarith
  then obtain xs1 j u xs2 where s: "xs = xs1 @ (j, u) # xs2" "extent xs1 \<le> q"
    "q < extent xs1 + 2 ^ j"
    using extent_split by blast
  have "2 ^ j dvd extent xs1" using assms(1) s(1) by (simp add: aligned_append)
  have "extent xs1 = q"
  proof (rule ccontr)
    assume "extent xs1 \<noteq> q"
    with s(2) have lt: "extent xs1 < q" by simp
    show False
    proof (cases "j \<le> Suc k")
      case True
      then have "2 ^ j dvd q" using q2 by (meson dvd_trans le_imp_power_dvd)
      then show False using dvd_gap [OF \<open>2 ^ j dvd extent xs1\<close> _ lt] s(3) by simp
    next
      case False
      then have "(2 :: nat) ^ Suc k dvd 2 ^ j" by (intro le_imp_power_dvd) simp
      moreover have "2 ^ Suc k dvd extent xs1"
        using \<open>2 ^ j dvd extent xs1\<close> calculation by (rule dvd_trans [rotated])
      ultimately have "2 ^ Suc k dvd extent xs1 + 2 ^ j" by (rule dvd_add [rotated])
      then have "q + 2 ^ Suc k \<le> extent xs1 + 2 ^ j" using q2 s(3) by (intro dvd_gap) 
      also have "\<dots> \<le> extent xs" using s(1) by simp
      finally show False using q \<open>0 < (2 :: nat) ^ k\<close> unfolding power_Suc by linarith
    qed
  qed
  with s(1) q q2 that show ?thesis by simp
qed

section \<open>Coalescing\<close>

text \<open>
  What \<open>coalesce_block\<close> does when it is given the header of a free block, as it is
  meant to be: it joins free buddies, keeps the used blocks and stays inside the free ones.
\<close>

definition same_used :: "blocks \<Rightarrow> blocks \<Rightarrow> bool" where
  "same_used bs bs' \<longleftrightarrow> used_blocks 0 bs' = used_blocks 0 bs \<and> extent bs' = extent bs"

lemma same_used_trans: "same_used bs cs \<Longrightarrow> same_used cs ds \<Longrightarrow> same_used bs ds"
  by (simp add: same_used_def)

lemma same_used_merge:
  "same_used (xs @ (k, False) # (k, False) # ys) (xs @ (Suc k, False) # ys)"
  by (simp add: same_used_def add.assoc mult_2)

lemma aligned_merge:
  "aligned 0 (xs @ (k, False) # (k, False) # ys) \<Longrightarrow> 2 ^ Suc k dvd extent xs \<Longrightarrow>
   aligned 0 (xs @ (Suc k, False) # ys)"
  by (simp add: aligned_append add.assoc mult_2)

text \<open>Writing a header of a free block does not touch the bytes of a used block.\<close>

lemma free_header_outside:
  assumes "bs = xs @ (k, False) # ys" "(p, j) \<in> set (used_blocks 0 bs)"
    "unat a + extent bs < 2 ^ 32" "inside (a + of_nat p) (2 ^ j) x"
  shows "x \<noteq> a + of_nat (extent xs)"
proof -
  have pj: "p + 2 ^ j \<le> extent bs" "p + 2 ^ j \<le> extent xs \<or> extent xs + 2 ^ k \<le> p"
    using used_blocks_bounds [OF assms(2)] assms(1,2) by (auto dest!: used_blocks_bounds)
  have pos: "0 < (2 :: nat) ^ j" "0 < (2 :: nat) ^ k" by simp_all
  have "unat (a + of_nat p) = unat a + p"
    using pj(1) pos assms(3) by (intro unat_add_of_nat) linarith
  moreover have "unat (a + of_nat (extent xs)) = unat a + extent xs"
    using assms(1,3) by (intro unat_add_of_nat) simp
  ultimately have "unat x \<noteq> unat (a + of_nat (extent xs))"
    using pj(2) pos(2) assms(4) unfolding inside_def by linarith
  then show ?thesis by auto
qed

lemma chain_merge:
  assumes "chain v a (xs @ (k, False) # (k, False) # ys)"
    "unat a + extent (xs @ (k, False) # (k, False) # ys) < 2 ^ 32"
  shows "chain (v(a + of_nat (extent xs) := hdr_set_size (v (a + of_nat (extent xs))) (of_nat k + 1)))
      a (xs @ (Suc k, False) # ys)"
proof -
  let ?b = "a + of_nat (extent xs)"
  let ?v = "v(?b := hdr_set_size (v ?b) (of_nat k + 1))"
  have c: "chain v a xs" "hdr_at v ?b k False" "k < 32" "chain v (?b + 2 ^ k + 2 ^ k) ys"
    using assms(1) by (auto simp: chain_append)
  have "(2 :: nat) ^ Suc k < 2 ^ 32" using assms(2) by simp
  then have k: "Suc k < 32" by (simp only: power_strict_increasing_iff)
  have b: "unat ?b = unat a + extent xs" using assms(2) by (intro unat_add_of_nat) simp
  have b2: "unat (?b + 2 ^ Suc k) = unat ?b + 2 ^ Suc k"
    using b k assms(2) by (intro unat_add_pow2) simp_all
  have "of_nat k + (1 :: u32) < 128"
    using k of_nat_u32_less_iff [of "Suc k" 128] by (simp add: add.commute)
  then have "hdr_at ?v ?b (Suc k) False"
    using c(2) by (simp add: hdr_at_def add.commute)
  moreover have "chain v a xs = chain ?v a xs"
    using assms(2) b by (intro chain_cong) (auto simp: inside_def)
  moreover have "chain v (?b + 2 ^ Suc k) ys = chain ?v (?b + 2 ^ Suc k) ys"
    using assms(2) b b2 by (intro chain_cong) (auto simp: inside_def)
  moreover have "chain v (?b + 2 ^ Suc k) ys"
    using c(4) by (simp only: power_Suc mult_2 add.assoc)
  ultimately show ?thesis using c(1) k by (simp add: chain_append)
qed

text \<open>
  A free block of size \<open>k\<close> between \<open>xs\<close> and \<open>ys\<close>, in an aligned heap
  that ends in a byte behind its last block, as the kernel heap does.
\<close>

definition free_at :: "heap_spec \<Rightarrow> bytes \<Rightarrow> blocks \<Rightarrow> nat \<Rightarrow> blocks \<Rightarrow> bool" where
  "free_at spec v xs k ys \<longleftrightarrow> heap_ok spec v (xs @ (k, False) # ys) \<and>
     aligned 0 (xs @ (k, False) # ys) \<and> ys \<noteq> [] \<and> last ys = (0, False) \<and> 1 \<le> k"

text \<open>The bytes of the used blocks, and those outside the heap, are the same.\<close>

definition keeps :: "heap_spec \<Rightarrow> blocks \<Rightarrow> bytes \<Rightarrow> bytes \<Rightarrow> bool" where
  "keeps spec bs v v' \<longleftrightarrow>
     (\<forall>(p, k) \<in> set (used_blocks 0 bs). \<forall>x. inside (hs_start spec + of_nat p) (2 ^ k) x \<longrightarrow> v' x = v x) \<and>
     (\<forall>x. \<not> (hs_start spec \<le> x \<and> x \<le> hs_end spec) \<longrightarrow> v' x = v x)"

lemma keepsI:
  "(\<And>p k x. (p, k) \<in> set (used_blocks 0 bs) \<Longrightarrow> inside (hs_start spec + of_nat p) (2 ^ k) x \<Longrightarrow>
     v' x = v x) \<Longrightarrow>
   (\<And>x. \<not> (hs_start spec \<le> x \<and> x \<le> hs_end spec) \<Longrightarrow> v' x = v x) \<Longrightarrow> keeps spec bs v v'"
  by (auto simp: keeps_def)

lemma keeps_trans:
  "keeps spec bs v v' \<Longrightarrow> same_used bs bs' \<Longrightarrow> keeps spec bs' v' v'' \<Longrightarrow> keeps spec bs v v''"
  by (fastforce simp: keeps_def same_used_def)

lemma keeps_refl: "keeps spec bs v v"
  by (auto simp: keeps_def)

lemma keeps_free_header:
  assumes "heap_ok spec v (xs @ (k, False) # ys)"
  shows "keeps spec (xs @ (k, False) # ys) v (v(hs_start spec + of_nat (extent xs) := h))"
proof -
  let ?a = "hs_start spec"
  have e: "unat ?a + extent (xs @ (k, False) # ys) < 2 ^ 32"
    using assms by (simp add: heap_ok_def)
  then have b: "unat (?a + of_nat (extent xs)) = unat ?a + extent xs"
    by (intro unat_add_of_nat) simp
  have "0 < (2 :: nat) ^ k" by simp
  then have "unat ?a + extent xs \<le> unat (hs_end spec)"
    using assms unfolding heap_ok_def extent_append extent.simps by linarith
  with b have "?a \<le> ?a + of_nat (extent xs)" "?a + of_nat (extent xs) \<le> hs_end spec"
    by (simp_all add: word_le_nat_alt)
  then show ?thesis
    using free_header_outside [OF refl _ e] by (intro keepsI) auto
qed

lemma free_at_merge_right:
  assumes "free_at spec v xs k ((k, False) # ys)" "2 ^ Suc k dvd extent xs"
    "b = hs_start spec + of_nat (extent xs)"
  shows "free_at spec (v(b := hdr_set_size (v b) (of_nat k + 1))) xs (Suc k) ys"
proof -
  have "ys \<noteq> []" "last ys = (0, False)"
    using assms(1) by (auto simp: free_at_def split: if_splits)
  with assms show ?thesis
    using chain_merge [of v "hs_start spec" xs k ys] aligned_merge [of xs k ys]
      same_used_merge [of xs k ys]
    by (simp add: free_at_def heap_ok_def same_used_def del: extent.simps extent_append)
qed

lemma coalesce_unfold:
  assumes "rd s b1 = Some h1" "shl1 (hdr_size h1) = Some d" "b2 = ((b1 - off) XOR d) + off"
    "rd s b2 = Some h2"
  shows "coalesce_block rd wr s b1 off =
    (if \<not> hdr_used h2 \<and> hdr_size h2 = hdr_size h1 then
       if b2 > b1 then
         wr s b1 (hdr_set_size h1 (hdr_size h1 + 1)) \<bind> (\<lambda>s. coalesce_block rd wr s b1 off)
       else
         wr s b2 (hdr_set_size h2 (hdr_size h2 + 1)) \<bind> (\<lambda>s. coalesce_block rd wr s b2 off)
     else Some s)"
  using assms by (subst coalesce_block.simps) (simp add: Let_def)

context byte_memory
begin

text \<open>One turn of the loop when the buddy is the block to the right, and to the left.\<close>

lemma coalesce_right:
  assumes "free_at spec (view s) xs k ((j, u) # ys)" "2 ^ Suc k dvd extent xs"
    "\<And>x. hs_start spec \<le> x \<Longrightarrow> x \<le> hs_end spec \<Longrightarrow> R x"
    "b = hs_start spec + of_nat (extent xs)"
  shows "coalesce_block rd wr s b (hs_start spec) =
    (if \<not> u \<and> j = k then
       coalesce_block rd wr (upd s ((view s)(b := hdr_set_size (view s b) (of_nat k + 1)))) b
         (hs_start spec)
     else Some s)"
proof -
  let ?a = "hs_start spec" and ?e = "hs_end spec"
  note f = assms(1) [unfolded free_at_def heap_ok_def]
  have k: "k < 32" "hdr_at (view s) b k False" "hdr_at (view s) (b + 2 ^ k) j u" "j < 32"
    using f assms(4) by (auto simp: chain_append)
  have al: "2 ^ k dvd extent xs" using f by (auto simp: aligned_append)
  have pos: "0 < (2 :: nat) ^ k" "0 < (2 :: nat) ^ j" by simp_all
  have ext: "unat ?a + extent xs + 2 ^ k + 2 ^ j + extent ys = unat ?e + 1" "unat ?e + 1 < 2 ^ 32"
    using f by simp_all
  have b: "unat b = unat ?a + extent xs"
    unfolding assms(4) using ext by (intro unat_add_of_nat) linarith
  have b2: "unat (b + 2 ^ k) = unat b + 2 ^ k"
    using b ext k(1) by (intro unat_add_pow2) linarith+
  have R: "R b" "R (b + 2 ^ k)"
    using b b2 ext pos by (intro assms(3); unfold word_le_nat_alt; linarith)+
  have "b + 2 ^ k = ((b - ?a) XOR 2 ^ k) + ?a"
    using bit_of_nat_dvd [OF k(1) al] assms(2,4) by (simp add: xor_pow2_clear)
  moreover have "b + 2 ^ k > b" unfolding word_less_nat_alt using b2 pos by linarith
  moreover have "(of_nat j :: u32) = of_nat k \<longleftrightarrow> j = k" using k by (simp add: of_nat_u32_eq_iff)
  ultimately show ?thesis
    using k R coalesce_unfold [of rd s b "view s b" "2 ^ k" "b + 2 ^ k" ?a "view s (b + 2 ^ k)" wr]
    by (simp add: rd_view wr_upd hdr_at_def)
qed

lemma coalesce_left:
  assumes "free_at spec (view s) (xs @ (j, u) # zs) k ys" "extent xs + 2 ^ k = extent (xs @ (j, u) # zs)"
    "\<not> 2 ^ Suc k dvd extent (xs @ (j, u) # zs)"
    "\<And>x. hs_start spec \<le> x \<Longrightarrow> x \<le> hs_end spec \<Longrightarrow> R x"
    "b = hs_start spec + of_nat (extent xs)"
  shows "coalesce_block rd wr s (b + 2 ^ k) (hs_start spec) =
    (if \<not> u \<and> j = k then
       coalesce_block rd wr (upd s ((view s)(b := hdr_set_size (view s b) (of_nat k + 1)))) b
         (hs_start spec)
     else Some s)"
proof -
  let ?a = "hs_start spec" and ?e = "hs_end spec" and ?xs = "xs @ (j, u) # zs"
  note f = assms(1) [unfolded free_at_def heap_ok_def]
  have o: "?a + of_nat (extent ?xs) = b + 2 ^ k"
    unfolding assms(2) [symmetric] assms(5) by (simp add: add.assoc)
  have "chain (view s) ?a (?xs @ (k, False) # ys)" using f by blast
  then have c: "chain (view s) ?a ?xs" "chain (view s) (b + 2 ^ k) ((k, False) # ys)"
    unfolding chain_append [of _ _ ?xs] o by blast+
  have k: "k < 32" "hdr_at (view s) (b + 2 ^ k) k False" "hdr_at (view s) b j u" "j < 32"
    using c assms(5) by (auto simp: chain_append)
  have al: "2 ^ k dvd extent ?xs"
    using f unfolding aligned_append [of _ ?xs] aligned.simps by simp
  have pos: "0 < (2 :: nat) ^ k" by simp
  have ext: "unat ?a + extent xs + 2 ^ k + 2 ^ k + extent ys = unat ?e + 1" "unat ?e + 1 < 2 ^ 32"
    using f assms(2) by simp_all
  have b: "unat b = unat ?a + extent xs"
    unfolding assms(5) using ext by (intro unat_add_of_nat) linarith
  have b2: "unat (b + 2 ^ k) = unat b + 2 ^ k"
    using b ext k(1) by (intro unat_add_pow2) linarith+
  have R: "R b" "R (b + 2 ^ k)"
    using b b2 ext pos by (intro assms(4); unfold word_le_nat_alt; linarith)+
  have "b + 2 ^ k - ?a = of_nat (extent ?xs)" using o by (simp add: algebra_simps)
  then have "((b + 2 ^ k - ?a) XOR 2 ^ k) + ?a = of_nat (extent ?xs) - 2 ^ k + ?a"
    using bit_of_nat_dvd [OF k(1) al] assms(3) by (simp only: xor_pow2_set simp_thms)
  also have "\<dots> = b" using o by (simp add: algebra_simps)
  finally have x: "b = ((b + 2 ^ k - ?a) XOR 2 ^ k) + ?a" by (rule sym)
  have "\<not> b > b + 2 ^ k" unfolding word_less_nat_alt using b2 pos by linarith
  moreover have "(of_nat j :: u32) = of_nat k \<longleftrightarrow> j = k" using k by (simp add: of_nat_u32_eq_iff)
  ultimately show ?thesis
    using k R coalesce_unfold [of rd s "b + 2 ^ k" "view s (b + 2 ^ k)" "2 ^ k" b ?a "view s b" wr] x
    by (simp add: rd_view wr_upd hdr_at_def)
qed

lemma coalesce_block_keeps:
  assumes "free_at spec (view s) xs k ys"
    "\<And>x. hs_start spec \<le> x \<Longrightarrow> x \<le> hs_end spec \<Longrightarrow> R x"
  shows "\<exists>m bs'. coalesce_block rd wr s (hs_start spec + of_nat (extent xs)) (hs_start spec) = Some (upd s m) \<and>
    heap_ok spec m bs' \<and> aligned 0 bs' \<and> same_used (xs @ (k, False) # ys) bs' \<and>
    keeps spec (xs @ (k, False) # ys) (view s) m"
  using assms(1)
proof (induction "32 - k" arbitrary: s xs k ys rule: less_induct)
  case less
  let ?a = "hs_start spec" and ?bs = "xs @ (k, False) # ys"
  let ?b = "?a + of_nat (extent xs)"
  note f = less.prems [unfolded free_at_def]
  have k: "k < 32" using f by (auto simp: heap_ok_def chain_append)
  have al: "2 ^ k dvd extent xs" "aligned 0 xs" using f by (auto simp: aligned_append)
  have stop: ?case if "coalesce_block rd wr s ?b ?a = Some s"
    using that f by (intro exI [of _ "view s"] exI [of _ ?bs]) (simp add: same_used_def keeps_refl)
  have go: ?case if "coalesce_block rd wr s ?b ?a =
      coalesce_block rd wr (upd s m) (?a + of_nat (extent xs')) ?a"
    "free_at spec m xs' (Suc k) ys'" "same_used ?bs (xs' @ (Suc k, False) # ys')"
    "keeps spec ?bs (view s) m" for m xs' ys'
  proof -
    have "32 - Suc k < 32 - k" using k by simp
    from less.hyps [OF this, of "upd s m" xs' ys'] that(2) obtain m' bs' where r:
      "coalesce_block rd wr (upd s m) (?a + of_nat (extent xs')) ?a = Some (upd s m')"
      "heap_ok spec m' bs'" "aligned 0 bs'" "same_used (xs' @ (Suc k, False) # ys') bs'"
      "keeps spec (xs' @ (Suc k, False) # ys') m m'"
      by auto
    have "same_used ?bs bs'" by (rule same_used_trans [OF that(3) r(4)])
    with r that(1) keeps_trans [OF that(4,3) r(5)] show ?thesis
      by (intro exI [of _ m'] exI [of _ bs']) simp
  qed
  show ?case
  proof (cases "2 ^ Suc k dvd extent xs")
    case True
    obtain j u zs where ys: "ys = (j, u) # zs" using f by (cases ys) auto
    note step = coalesce_right [OF less.prems [unfolded ys] True assms(2) refl]
    show ?thesis
    proof (cases "\<not> u \<and> j = k")
      case m: True
      then have ys': "ys = (k, False) # zs" using ys by simp
      show ?thesis
        by (rule go [OF step [unfolded if_P [OF m]] free_at_merge_right [OF less.prems [unfolded ys'] True refl]])
          (use f in \<open>simp_all add: ys' same_used_merge [unfolded append.simps] keeps_free_header\<close>)
    next
      case False
      show ?thesis by (rule stop) (use step False in simp)
    qed
  next
    case False
    obtain xs1 j u zs where xs: "xs = xs1 @ (j, u) # zs" "extent xs1 + 2 ^ k = extent xs"
      "2 ^ Suc k dvd extent xs1"
      by (rule left_buddy_start [OF al(2,1) False])
    have b: "?b = ?a + of_nat (extent xs1) + 2 ^ k"
      unfolding xs(2) [symmetric] by (simp add: add.assoc)
    note step = coalesce_left [OF less.prems [unfolded xs(1)] xs(2) [unfolded xs(1)]
        False [unfolded xs(1)] assms(2) refl, folded b]
    show ?thesis
    proof (cases "\<not> u \<and> j = k")
      case m: True
      then have "zs = []" using xs(1,2) by (cases zs) auto
      then have bs: "?bs = xs1 @ (k, False) # (k, False) # ys" using m xs(1) by simp
      then have "free_at spec (view s) xs1 k ((k, False) # ys)"
        using f by (simp add: free_at_def)
      from go [OF step [unfolded if_P [OF m]] free_at_merge_right [OF this xs(3) refl]]
      show ?thesis
        using f unfolding bs by (simp add: same_used_merge keeps_free_header)
    next
      case False
      show ?thesis by (rule stop) (use step False in simp)
    qed
  qed
qed

end

section \<open>Freeing\<close>

lemma chain_set_used:
  assumes "chain v a (xs @ (k, u) # ys)" "unat a + extent (xs @ (k, u) # ys) < 2 ^ 32"
    "b = a + of_nat (extent xs)"
  shows "chain (v(b := hdr_set_used (v b) u')) a (xs @ (k, u') # ys)"
proof -
  let ?v = "v(b := hdr_set_used (v b) u')"
  have c: "chain v a xs" "hdr_at v b k u" "k < 32" "chain v (b + 2 ^ k) ys"
    using assms(1,3) by (auto simp: chain_append)
  have b: "unat b = unat a + extent xs"
    unfolding assms(3) using assms(2) by (intro unat_add_of_nat) simp
  have b2: "unat (b + 2 ^ k) = unat b + 2 ^ k"
    using b c(3) assms(2) by (intro unat_add_pow2) simp_all
  have "chain v a xs = chain ?v a xs"
    using assms(2) b by (intro chain_cong) (auto simp: inside_def)
  moreover have "chain v (b + 2 ^ k) ys = chain ?v (b + 2 ^ k) ys"
    using assms(2) b b2 by (intro chain_cong) (auto simp: inside_def)
  moreover have "hdr_at ?v b k u'" using c(2) by (simp add: hdr_at_def)
  ultimately show ?thesis using c assms(3) by (simp add: chain_append)
qed

context byte_memory
begin

text \<open>
  \<open>memory_free\<close> hands \<open>coalesce_block\<close> the address behind the header, so the
  first byte of the freed data is read as a header. A zero there stops it at once.
\<close>

lemma memory_free_zero:
  assumes "heap_ok spec (view s) (xs @ (k, True) # ys)" "aligned 0 (xs @ (k, True) # ys)" "1 \<le> k"
    "b = hs_start spec + of_nat (extent xs)" "view s (b + 1) = 0"
    "\<And>x. hs_start spec \<le> x \<Longrightarrow> x \<le> hs_end spec \<Longrightarrow> R x"
  shows "memory_free rd wr s spec (b + 1) = Some (upd s ((view s)(b := hdr_set_used (view s b) False)))"
    "heap_ok spec ((view s)(b := hdr_set_used (view s b) False)) (xs @ (k, False) # ys)"
proof -
  let ?a = "hs_start spec" and ?e = "hs_end spec"
  let ?m = "(view s)(b := hdr_set_used (view s b) False)"
  note f = assms(1) [unfolded heap_ok_def]
  show "heap_ok spec ?m (xs @ (k, False) # ys)"
    using f chain_set_used [of "view s" ?a xs k True ys b False] assms(4) by (simp add: heap_ok_def)
  have k: "k < 32" "hdr_at (view s) b k True" using f assms(4) by (auto simp: chain_append)
  have ev: "2 dvd extent xs"
  proof -
    have "2 ^ 1 dvd (2 :: nat) ^ k" using assms(3) by (rule le_imp_power_dvd)
    then show ?thesis using assms(2) by (auto simp: aligned_append intro: dvd_trans)
  qed
  have two: "(2 :: nat) \<le> 2 ^ k" using assms(3) power_increasing [of 1 k "2 :: nat"] by simp
  have ext: "unat ?a + extent xs + 2 ^ k + extent ys = unat ?e + 1" "unat ?e + 1 < 2 ^ 32"
    using f by simp_all
  have b: "unat b = unat ?a + extent xs"
    unfolding assms(4) using ext by (intro unat_add_of_nat) linarith
  have b1: "unat (b + 1) = unat b + 1"
    using unat_add_of_nat [of b 1] b ext two by simp
  have R: "R b" "R (b + 1)"
    using b b1 ext two by (intro assms(6); unfold word_le_nat_alt; linarith)+
  have "b + 1 - ?a = of_nat (Suc (extent xs))" using assms(4) by simp
  moreover have "bit (of_nat (Suc (extent xs)) :: u32) 0"
    using bit_of_nat_dvd [of 0 "Suc (extent xs)"] ev by simp
  ultimately have "(b + 1 - ?a) XOR 2 ^ 0 = of_nat (Suc (extent xs)) - 2 ^ 0"
    by (simp only: xor_pow2_set)
  then have "b = ((b + 1 - ?a) XOR 1) + ?a" using assms(4) by simp
  moreover have "(of_nat k :: u32) \<noteq> 0"
    using of_nat_u32_eq_iff [of k 0] k(1) assms(3) by simp
  ultimately have "coalesce_block rd wr (upd s ?m) (b + 1) ?a = Some (upd s ?m)"
    using R k assms(5) coalesce_unfold [of rd "upd s ?m" "b + 1" "?m (b + 1)" 1 b ?a "?m b" wr]
    by (simp add: rd_view hdr_at_def hdr_size_def [of 0] shl1_def)
  then show "memory_free rd wr s spec (b + 1) = Some (upd s ?m)"
    using R by (simp add: memory_free_def rd_view wr_upd Let_def)
qed

text \<open>A first data byte whose low seven bits are 32 or more makes the shift undefined.\<close>

lemma memory_free_undefined:
  assumes "R b" "R (b + 1)" "32 \<le> hdr_size (view s (b + 1))"
  shows "memory_free rd wr s spec (b + 1) = None"
  using assms
  by (simp add: memory_free_def rd_view wr_upd Let_def coalesce_block.simps [of rd wr _ "b + 1"]
    shl1_None not_less)

end

end
