(* ===== verification/Kernel_Heap.thy ===== *)
theory Kernel_Heap
  imports Alloc
begin

text \<open>
  The kernel heap on the machine: what its clients (the descriptor tables, paging, the
  processes) may rely on, as the locale \<open>allocator\<close>, and its interpretation by
  \<open>kernel_allocate\<close>. The state of the heap is seen as the set of live regions, each
  the address handed out and the number of bytes that belong to it.
\<close>

section \<open>The interface of the allocator\<close>

text \<open>
  \<open>live s L\<close>: the heap is well formed and \<open>L\<close> are its live regions. A
  client may write the bytes of live regions and those outside the heap.
\<close>

definition region :: "u32 \<Rightarrow> nat \<Rightarrow> u32 set" where
  "region p n = {x. inside p n x}"

definition regions :: "(u32 \<times> nat) set \<Rightarrow> u32 set" where
  "regions L = (\<Union>(p, n) \<in> L. region p n)"

locale allocator =
  fixes alloc :: "'s \<Rightarrow> u32 \<Rightarrow> (u32 \<times> 's) option"
    and live :: "'s \<Rightarrow> (u32 \<times> nat) set \<Rightarrow> bool"
    and view :: "'s \<Rightarrow> bytes"
    and upd :: "'s \<Rightarrow> bytes \<Rightarrow> 's"
    and area :: "u32 set"
  assumes alloc_cases: "live s L \<Longrightarrow> unat sz + 1 < 2 ^ 31 \<Longrightarrow>
      alloc s sz = Some (0, s) \<or>
      (\<exists>p n m. alloc s sz = Some (p, upd s m) \<and> p \<noteq> 0 \<and> unat sz \<le> n \<and>
         live (upd s m) (insert (p, n) L) \<and> (p, n) \<notin> L \<and>
         (\<forall>x \<in> regions L \<union> - area. m x = view s x))"
    and live_disjoint: "live s L \<Longrightarrow> (p, n) \<in> L \<Longrightarrow> (q, k) \<in> L \<Longrightarrow> (p, n) \<noteq> (q, k) \<Longrightarrow>
      region p n \<inter> region q k = {}"
    and live_area: "live s L \<Longrightarrow> regions L \<subseteq> area"
    and live_write: "live s L \<Longrightarrow> (\<And>x. m x \<noteq> view s x \<Longrightarrow> x \<in> regions L \<union> - area) \<Longrightarrow>
      live (upd s m) L"
    and view_upd [simp]: "view (upd s m) = m"
begin

text \<open>What a client gets: fresh memory that no other live region shares.\<close>

lemma alloc_fresh:
  assumes "live s L" "unat sz + 1 < 2 ^ 31" "alloc s sz = Some (p, s')" "p \<noteq> 0"
  shows "\<exists>n. unat sz \<le> n \<and> live s' (insert (p, n) L) \<and> region p n \<subseteq> area \<and>
    region p n \<inter> regions L = {} \<and> (\<forall>x \<in> regions L \<union> - area. view s' x = view s x)"
proof -
  obtain n m where n: "s' = upd s m" "unat sz \<le> n" "live s' (insert (p, n) L)" "(p, n) \<notin> L"
    "\<forall>x \<in> regions L \<union> - area. m x = view s x"
    using alloc_cases [OF assms(1,2)] assms(3,4) by auto
  have "region p n \<inter> region q k = {}" if "(q, k) \<in> L" for q k
    using live_disjoint [OF n(3), of p n q k] that n(4) by auto
  then have "region p n \<inter> regions L = {}" by (fastforce simp: regions_def)
  moreover have "region p n \<subseteq> area" using live_area [OF n(3)] by (auto simp: regions_def)
  ultimately show ?thesis using n by auto
qed

text \<open>Data written to one live region stays there when another is allocated and written.\<close>

lemma alloc_keeps_data:
  assumes "live s L" "unat sz + 1 < 2 ^ 31" "alloc s sz = Some (p, s')" "p \<noteq> 0" "x \<in> regions L"
  shows "\<exists>n. unat sz \<le> n \<and> (\<forall>m. (\<forall>y. m y \<noteq> view s' y \<longrightarrow> y \<in> region p n) \<longrightarrow>
    live (upd s' m) (insert (p, n) L) \<and> m x = view s x)"
proof -
  obtain n where n: "unat sz \<le> n" "live s' (insert (p, n) L)" "region p n \<inter> regions L = {}"
    "\<forall>x \<in> regions L \<union> - area. view s' x = view s x"
    using alloc_fresh [OF assms(1-4)] by blast
  have "live (upd s' m) (insert (p, n) L)" if "\<And>y. m y \<noteq> view s' y \<Longrightarrow> y \<in> region p n" for m
    by (rule live_write [OF n(2)]) (auto dest!: that simp: regions_def)
  moreover have "m x = view s x" if "\<And>y. m y \<noteq> view s' y \<Longrightarrow> y \<in> region p n" for m
    using that [of x] n(3,4) assms(5) by auto
  ultimately show ?thesis using n(1) by blast
qed

end

section \<open>The kernel heap provides it\<close>

definition kernel_area :: "u32 set" where
  "kernel_area = {x. hs_start kernel_heap \<le> x \<and> x \<le> hs_end kernel_heap}"

text \<open>The bytes of a used block behind its header.\<close>

definition payload :: "nat \<times> nat \<Rightarrow> u32 \<times> nat" where
  "payload = (\<lambda>(off, k). (hs_start kernel_heap + of_nat off + 1, 2 ^ k - 1))"

definition kernel_live :: "'a machine_scheme \<Rightarrow> (u32 \<times> nat) set \<Rightarrow> bool" where
  "kernel_live s L \<longleftrightarrow> (\<exists>bs. heap_ok kernel_heap (mem s) bs \<and> aligned 0 bs \<and>
     L = payload ` set (used_blocks 0 bs))"

lemma kernel_heap_bounds [simp]:
  "hs_start kernel_heap = 0xcfffffff" "hs_end kernel_heap = 0xefffffff"
  by (simp_all add: kernel_heap_def)

lemma heap_ok_extent: "heap_ok kernel_heap v bs \<Longrightarrow> extent bs = 2 ^ 29 + 1"
  by (simp add: heap_ok_def)

lemma unat_kernel_off:
  "off \<le> 2 ^ 29 + 1 \<Longrightarrow> unat (0xcfffffff + of_nat off :: u32) = 0xcfffffff + off"
  using unat_add_of_nat [of "0xcfffffff" off] by simp

lemma unat_payload:
  assumes "off + 2 ^ k \<le> 2 ^ 29 + 1"
  shows "unat (0xcfffffff + of_nat off + 1 :: u32) = 0xcfffffff + off + 1"
proof -
  have "off + 1 \<le> 2 ^ 29 + 1" using assms one_le_power [of "2 :: nat" k] by linarith
  from unat_kernel_off [OF this] show ?thesis by (simp add: add.assoc add.commute [of 1])
qed

lemma used_in_heap:
  assumes "heap_ok kernel_heap v bs" "(off, k) \<in> set (used_blocks 0 bs)"
  shows "off + 2 ^ k \<le> 2 ^ 29 + 1"
    and "inside (0xcfffffff + of_nat off + 1) (2 ^ k - 1) x \<longleftrightarrow>
      0xcfffffff + off < unat x \<and> unat x < 0xcfffffff + off + 2 ^ k"
proof -
  show b: "off + 2 ^ k \<le> 2 ^ 29 + 1"
    using used_blocks_bounds [OF assms(2)] heap_ok_extent [OF assms(1)] by simp
  have "1 \<le> (2 :: nat) ^ k" by simp
  then show "inside (0xcfffffff + of_nat off + 1) (2 ^ k - 1) x \<longleftrightarrow>
      0xcfffffff + off < unat x \<and> unat x < 0xcfffffff + off + 2 ^ k"
    unfolding inside_def unat_payload [OF b] by linarith
qed

lemma in_regions_payload:
  assumes "heap_ok kernel_heap v bs"
  shows "x \<in> regions (payload ` set (used_blocks 0 bs)) \<longleftrightarrow>
    (\<exists>(off, k) \<in> set (used_blocks 0 bs). 0xcfffffff + off < unat x \<and> unat x < 0xcfffffff + off + 2 ^ k)"
proof -
  have "x \<in> regions (payload ` set (used_blocks 0 bs)) \<longleftrightarrow>
    (\<exists>(off, k) \<in> set (used_blocks 0 bs). inside (0xcfffffff + of_nat off + 1) (2 ^ k - 1) x)"
    by (simp add: regions_def region_def payload_def split_beta')
  with used_in_heap(2) [OF assms] show ?thesis by (auto simp: split_def)
qed

lemma kernel_live_disjoint:
  assumes "kernel_live s L" "(p, n) \<in> L" "(q, k) \<in> L" "(p, n) \<noteq> (q, k)"
  shows "region p n \<inter> region q k = {}"
proof -
  obtain bs where h: "heap_ok kernel_heap (mem s) bs" "L = payload ` set (used_blocks 0 bs)"
    using assms(1) by (auto simp: kernel_live_def)
  obtain a i b j where u: "(a, i) \<in> set (used_blocks 0 bs)" "(b, j) \<in> set (used_blocks 0 bs)"
    "payload (a, i) = (p, n)" "payload (b, j) = (q, k)"
    using assms(2,3) h(2) by auto
  have "a + 2 ^ i \<le> b \<or> b + 2 ^ j \<le> a"
    using u assms(4) by (intro used_blocks_disjoint [OF u(1,2)]) auto
  moreover have "x \<in> region p n \<longleftrightarrow> 0xcfffffff + a < unat x \<and> unat x < 0xcfffffff + a + 2 ^ i"
    "x \<in> region q k \<longleftrightarrow> 0xcfffffff + b < unat x \<and> unat x < 0xcfffffff + b + 2 ^ j" for x
    using u used_in_heap(2) [OF h(1) u(1)] used_in_heap(2) [OF h(1) u(2)]
    by (auto simp: payload_def region_def)
  ultimately show ?thesis by auto
qed

lemma kernel_live_area: "kernel_live s L \<Longrightarrow> regions L \<subseteq> kernel_area"
proof
  fix x assume "kernel_live s L" "x \<in> regions L"
  then obtain bs off k where "heap_ok kernel_heap (mem s) bs" "(off, k) \<in> set (used_blocks 0 bs)"
    "0xcfffffff + off < unat x" "unat x < 0xcfffffff + off + 2 ^ k"
    by (auto simp: kernel_live_def in_regions_payload)
  with used_in_heap(1) [of "mem s" bs off k] show "x \<in> kernel_area"
    by (auto simp: kernel_area_def word_le_nat_alt)
qed

lemma live_bounds:
  assumes "kernel_live s L" "(p, n) \<in> L"
  shows "0xd0000000 \<le> unat p \<and> unat p + n \<le> 0xf0000000"
proof -
  obtain bs off k where h: "heap_ok kernel_heap (mem s) bs" "(off, k) \<in> set (used_blocks 0 bs)"
    "p = 0xcfffffff + of_nat off + 1" "n = 2 ^ k - 1"
    using assms by (auto simp: kernel_live_def payload_def)
  note b = used_in_heap(1) [OF h(1,2)]
  have "off + 2 ^ k \<le> 536870913" using b by simp
  moreover have "1 \<le> (2 :: nat) ^ k" by simp
  ultimately show ?thesis unfolding h(3,4) unat_payload [OF b] by (intro conjI) linarith+
qed

lemma heap_ok_write:
  assumes h: "heap_ok kernel_heap v bs"
    and w: "\<And>x. m x \<noteq> v x \<Longrightarrow> x \<in> regions (payload ` set (used_blocks 0 bs)) \<union> - kernel_area"
  shows "heap_ok kernel_heap m bs"
proof -
  have "v (0xcfffffff + of_nat q) = m (0xcfffffff + of_nat q)" if q: "q \<in> set (starts 0 bs)" for q
  proof (rule ccontr)
    let ?x = "0xcfffffff + of_nat q :: u32"
    assume "v ?x \<noteq> m ?x"
    then have "?x \<in> regions (payload ` set (used_blocks 0 bs)) \<union> - kernel_area" by (intro w) simp
    moreover have b: "q < 2 ^ 29 + 1"
      using starts_bounds [OF q] heap_ok_extent [OF h] by simp
    then have ux: "unat ?x = 0xcfffffff + q" by (intro unat_kernel_off) simp
    with b have "?x \<in> kernel_area" by (simp add: kernel_area_def word_le_nat_alt)
    moreover have "?x \<notin> regions (payload ` set (used_blocks 0 bs))"
      using starts_used [OF q] by (auto simp: in_regions_payload [OF h] ux dest: leD)
    ultimately show False by blast
  qed
  then have "chain v (0xcfffffff + of_nat 0) bs = chain m (0xcfffffff + of_nat 0) bs"
    by (rule chain_starts)
  with h show ?thesis by (auto simp: heap_ok_def)
qed

lemma kernel_live_write:
  assumes "kernel_live s L" "\<And>x. m x \<noteq> mem s x \<Longrightarrow> x \<in> regions L \<union> - kernel_area"
  shows "kernel_live (s\<lparr>mem := m\<rparr>) L"
  using assms heap_ok_write [of "mem s" _ m] by (auto simp: kernel_live_def)

lemma alloc_blocks_new:
  "alloc_blocks n bs = Some (off, bs') \<Longrightarrow> (off, k) \<notin> set (used_blocks 0 bs)"
proof
  assume a: "alloc_blocks n bs = Some (off, bs')" and u: "(off, k) \<in> set (used_blocks 0 bs)"
  obtain xs j ys where d: "bs = xs @ (j, False) # ys" "off = extent xs"
    using alloc_blocks_SomeD [OF a] by (elim exE conjE)
  have "0 < (2 :: nat) ^ k" "0 < (2 :: nat) ^ j" by simp_all
  with u d show False by (auto dest!: used_blocks_bounds)
qed

lemma kernel_allocate_cases:
  assumes "heap_ok kernel_heap (mem s) bs" "unat sz + 1 < 2 ^ 31"
  shows "alloc_blocks (block_bits (unat sz + 1)) bs = None \<Longrightarrow>
      kernel_allocate rd8 wr8 s sz = Some (0, s)"
    and "alloc_blocks (block_bits (unat sz + 1)) bs = Some (off, bs') \<Longrightarrow>
      \<exists>m. kernel_allocate rd8 wr8 s sz = Some (0xcfffffff + of_nat off + 1, s\<lparr>mem := m\<rparr>) \<and>
        heap_ok kernel_heap m bs' \<and> keeps kernel_heap bs (mem s) m \<and>
        (\<forall>x. m x \<noteq> mem s x \<longrightarrow> (\<exists>q \<in> set (starts 0 bs'). x = 0xcfffffff + of_nat q))"
proof -
  have R: "KERNEL_BASE \<le> x" if "hs_start kernel_heap \<le> x" for x
    using that by (simp add: word_le_nat_alt)
  note c = kmem.memory_allocate_cases [OF assms R]
  show "alloc_blocks (block_bits (unat sz + 1)) bs = None \<Longrightarrow>
      kernel_allocate rd8 wr8 s sz = Some (0, s)"
    using c(1) by (simp add: kernel_allocate_def)
  show "alloc_blocks (block_bits (unat sz + 1)) bs = Some (off, bs') \<Longrightarrow>
      \<exists>m. kernel_allocate rd8 wr8 s sz = Some (0xcfffffff + of_nat off + 1, s\<lparr>mem := m\<rparr>) \<and>
        heap_ok kernel_heap m bs' \<and> keeps kernel_heap bs (mem s) m \<and>
        (\<forall>x. m x \<noteq> mem s x \<longrightarrow> (\<exists>q \<in> set (starts 0 bs'). x = 0xcfffffff + of_nat q))"
    using c(2) unfolding keeps_def kernel_allocate_def kernel_heap_bounds by blast
qed

lemma kernel_allocate_block:
  assumes h: "heap_ok kernel_heap (mem s) bs" "aligned 0 bs" "A = payload ` set (used_blocks 0 bs)"
    and sz: "unat sz + 1 < 2 ^ 31" and a: "alloc_blocks n bs = Some (off, bs')"
    and n: "n = block_bits (unat sz + 1)" and p: "p = 0xcfffffff + of_nat off + 1"
  shows "\<exists>m. kernel_allocate rd8 wr8 s sz = Some (p, s\<lparr>mem := m\<rparr>) \<and>
    unat p = 0xcfffffff + off + 1 \<and> unat sz \<le> 2 ^ n - 1 \<and> (p, 2 ^ n - 1) \<notin> A \<and>
    heap_ok kernel_heap m bs' \<and> aligned 0 bs' \<and>
    insert (p, 2 ^ n - 1) A = payload ` set (used_blocks 0 bs') \<and>
    (\<forall>x \<in> regions A \<union> - kernel_area. m x = mem s x) \<and>
    (\<forall>x. m x \<noteq> mem s x \<longrightarrow> (\<exists>q \<in> set (starts 0 bs'). x = 0xcfffffff + of_nat q))"
proof -
  obtain m where m: "kernel_allocate rd8 wr8 s sz = Some (p, s\<lparr>mem := m\<rparr>)"
    "heap_ok kernel_heap m bs'" "keeps kernel_heap bs (mem s) m"
    and w: "\<forall>x. m x \<noteq> mem s x \<longrightarrow> (\<exists>q \<in> set (starts 0 bs'). x = 0xcfffffff + of_nat q)"
    using kernel_allocate_cases(2) [OF h(1) sz a [unfolded n]] unfolding p by blast
  have new: "(off, n) \<in> set (used_blocks 0 bs')" using alloc_blocks_used(1) [OF a] by simp
  have up: "unat p = 0xcfffffff + off + 1"
    unfolding p by (rule unat_payload [OF used_in_heap(1) [OF m(2) new]])
  have "unat sz \<le> 2 ^ n - 1" using block_bits_fits [of "unat sz + 1"] n by simp
  moreover have "insert (p, 2 ^ n - 1) A = payload ` set (used_blocks 0 bs')"
    using alloc_blocks_used(1) [OF a] by (simp add: h(3) payload_def p)
  moreover have "(p, 2 ^ n - 1) \<notin> A"
  proof
    assume "(p, 2 ^ n - 1) \<in> A"
    then obtain q k where q: "(q, k) \<in> set (used_blocks 0 bs)" "p = 0xcfffffff + of_nat q + 1"
      by (auto simp: h(3) payload_def)
    then have "q = off" using up unat_payload [OF used_in_heap(1) [OF h(1) q(1)]] by simp
    with q(1) alloc_blocks_new [OF a] show False by simp
  qed
  moreover have "m x = mem s x" if x: "x \<in> regions A \<union> - kernel_area" for x
  proof (cases "x \<in> kernel_area")
    case True
    with x obtain q k where q: "(q, k) \<in> set (used_blocks 0 bs)" "0xcfffffff + q < unat x"
      "unat x < 0xcfffffff + q + 2 ^ k"
      by (auto simp: h(3) in_regions_payload [OF h(1)])
    have "unat (0xcfffffff + of_nat q :: u32) = 0xcfffffff + q"
      using used_in_heap(1) [OF h(1) q(1)] by (intro unat_kernel_off) simp
    with q have "inside (hs_start kernel_heap + of_nat q) (2 ^ k) x" by (simp add: inside_def)
    with q(1) m(3) show ?thesis unfolding keeps_def by blast
  next
    case False
    then show ?thesis using m(3) unfolding keeps_def kernel_area_def by blast
  qed
  ultimately show ?thesis
    using m(1,2) up w alloc_blocks_aligned(1) [OF a h(2)] by (intro exI [of _ m]) blast
qed

lemma kernel_allocate_live:
  assumes "kernel_live s L" "unat sz + 1 < 2 ^ 31"
  shows "kernel_allocate rd8 wr8 s sz = Some (0, s) \<or>
    (\<exists>p n m. kernel_allocate rd8 wr8 s sz = Some (p, s\<lparr>mem := m\<rparr>) \<and> p \<noteq> 0 \<and> unat sz \<le> n \<and>
       kernel_live (s\<lparr>mem := m\<rparr>) (insert (p, n) L) \<and> (p, n) \<notin> L \<and>
       (\<forall>x \<in> regions L \<union> - kernel_area. m x = mem s x))"
proof -
  obtain bs where h: "heap_ok kernel_heap (mem s) bs" "aligned 0 bs"
    "L = payload ` set (used_blocks 0 bs)"
    using assms(1) by (auto simp: kernel_live_def)
  let ?n = "block_bits (unat sz + 1)"
  show ?thesis
  proof (cases "alloc_blocks ?n bs")
    case None
    then show ?thesis using kernel_allocate_cases(1) [OF h(1) assms(2)] by simp
  next
    case (Some r)
    then obtain off bs' where a: "alloc_blocks ?n bs = Some (off, bs')" by (cases r) auto
    let ?p = "0xcfffffff + of_nat off + 1 :: u32"
    obtain m where m: "kernel_allocate rd8 wr8 s sz = Some (?p, s\<lparr>mem := m\<rparr>)"
      "unat ?p = 0xcfffffff + off + 1" "unat sz \<le> 2 ^ ?n - 1" "(?p, 2 ^ ?n - 1) \<notin> L"
      "heap_ok kernel_heap m bs'" "aligned 0 bs'"
      "insert (?p, 2 ^ ?n - 1) L = payload ` set (used_blocks 0 bs')"
      "\<forall>x \<in> regions L \<union> - kernel_area. m x = mem s x"
      using kernel_allocate_block [OF h assms(2) a refl refl] by blast
    have "?p \<noteq> 0" using m(2) by (metis add_is_0 unsigned_0 zero_neq_one)
    moreover have "kernel_live (s\<lparr>mem := m\<rparr>) (insert (?p, 2 ^ ?n - 1) L)"
      using m(5-7) by (auto simp: kernel_live_def)
    ultimately show ?thesis using m(1,3,4,8) by blast
  qed
qed

interpretation kheap: allocator "kernel_allocate rd8 wr8" kernel_live mem "\<lambda>s m. s\<lparr>mem := m\<rparr>" kernel_area
  by unfold_locales
    (simp_all add: kernel_allocate_live kernel_live_disjoint kernel_live_area kernel_live_write)

section \<open>A heap whose free memory is zero\<close>

text \<open>
  As long as nothing has been freed, the free blocks hold what was there at boot. Clients of
  the heap do not clear the tables they allocate; they work on a machine that starts with zero
  memory, which is what \<open>zheap s A j\<close> says: the heap is well formed, \<open>A\<close> are its live
  regions, the payload of each free block is zero, and some free block has at least
  \<open>2 ^ j\<close> bytes. An allocation of a smaller block leaves a free block of half that size.
\<close>

fun free_blocks :: "nat \<Rightarrow> blocks \<Rightarrow> (nat \<times> nat) list" where
  "free_blocks off [] = []"
| "free_blocks off ((k, u) # bs) = (if u then [] else [(off, k)]) @ free_blocks (off + 2 ^ k) bs"

lemma free_blocks_append:
  "free_blocks off (xs @ ys) = free_blocks off xs @ free_blocks (off + extent xs) ys"
  by (induction off xs rule: free_blocks.induct) (auto simp: add.assoc)

lemma free_blocks_bounds: "(p, k) \<in> set (free_blocks off bs) \<Longrightarrow> off \<le> p \<and> p + 2 ^ k \<le> off + extent bs"
proof (induction off bs rule: free_blocks.induct)
  case (2 off j u bs)
  have "0 < (2 :: nat) ^ j" by simp
  with 2 show ?case by (fastforce split: if_splits simp: add.assoc)
qed simp

lemma starts_free:
  "q \<in> set (starts off bs) \<Longrightarrow> (p, k) \<in> set (free_blocks off bs) \<Longrightarrow> q \<le> p \<or> p + 2 ^ k \<le> q"
proof (induction off bs rule: starts.induct)
  case (2 off j u bs)
  then show ?case
    using starts_bounds [of q "off + 2 ^ j" bs] free_blocks_bounds [of p k "off + 2 ^ j" bs]
    by (auto split: if_splits)
qed simp

lemma free_blocks_frees:
  "n \<le> k \<Longrightarrow> (p, j) \<in> set (free_blocks (off + 2 ^ n) (frees n k)) \<Longrightarrow> off + 2 ^ n \<le> p \<and> p + 2 ^ j \<le> off + 2 ^ k"
  using free_blocks_bounds [of p j "off + 2 ^ n" "frees n k"] extent_frees [of n k] by simp

lemma used_free_disjoint:
  "(p, k) \<in> set (used_blocks off bs) \<Longrightarrow> (q, j) \<in> set (free_blocks off bs) \<Longrightarrow>
   p + 2 ^ k \<le> q \<or> q + 2 ^ j \<le> p"
proof (induction off bs rule: used_blocks.induct)
  case (2 off i u bs)
  then show ?case
    using used_blocks_bounds [of p k "off + 2 ^ i" bs] free_blocks_bounds [of q j "off + 2 ^ i" bs]
    by (auto split: if_splits)
qed simp

definition zero_free :: "bytes \<Rightarrow> blocks \<Rightarrow> bool" where
  "zero_free v bs \<longleftrightarrow> (\<forall>(p, k) \<in> set (free_blocks 0 bs). \<forall>x.
     0xcfffffff + p < unat x \<and> unat x < 0xcfffffff + p + 2 ^ k \<longrightarrow> v x = 0)"

definition zheap :: "'a machine_scheme \<Rightarrow> (u32 \<times> nat) set \<Rightarrow> nat \<Rightarrow> bool" where
  "zheap s A j \<longleftrightarrow> (\<exists>bs. heap_ok kernel_heap (mem s) bs \<and> aligned 0 bs \<and>
     A = payload ` set (used_blocks 0 bs) \<and> zero_free (mem s) bs \<and> (\<exists>k \<ge> j. (k, False) \<in> set bs))"

lemma zero_freeD:
  "zero_free v bs \<Longrightarrow> (p, k) \<in> set (free_blocks 0 bs) \<Longrightarrow> 0xcfffffff + p < unat x \<Longrightarrow>
   unat x < 0xcfffffff + p + 2 ^ k \<Longrightarrow> v x = 0"
  by (auto simp: zero_free_def)

lemma zheap_live: "zheap s A j \<Longrightarrow> kernel_live s A"
  by (auto simp: zheap_def kernel_live_def)

lemma alloc_blocks_room:
  assumes "(k, False) \<in> set bs" "j \<le> k" "n < j" "alloc_blocks n bs = Some (off, bs')"
  shows "\<exists>k \<ge> j - 1. (k, False) \<in> set bs'"
proof -
  obtain xs i ys where d: "bs = xs @ (i, False) # ys" "n \<le> i" "bs' = xs @ (n, True) # frees n i @ ys"
    using alloc_blocks_SomeD [OF assms(4)] by (elim exE conjE)
  show ?thesis
  proof (cases "(k, False) \<in> set xs \<or> (k, False) \<in> set ys")
    case True
    with assms(2) d(3) show ?thesis by (intro exI [of _ k]) auto
  next
    case False
    with assms(1) d(1) have "i = k" by auto
    moreover have "(k - 1, False) \<in> set (frees n k)" using assms(2,3) by (simp add: frees_def)
    ultimately show ?thesis using d(3) assms(2) by (intro exI [of _ "k - 1"]) auto
  qed
qed

lemma alloc_blocks_zero:
  assumes "alloc_blocks n bs = Some (off, bs')" "zero_free v bs" "extent bs = 2 ^ 29 + 1"
    "\<And>x. m x \<noteq> v x \<Longrightarrow> \<exists>q \<in> set (starts 0 bs'). x = 0xcfffffff + of_nat q"
  shows "zero_free m bs'"
    and "0xcfffffff + off < unat x \<Longrightarrow> unat x < 0xcfffffff + off + 2 ^ n \<Longrightarrow> m x = 0"
proof -
  obtain xs i ys where d: "bs = xs @ (i, False) # ys" "n \<le> i" "bs' = xs @ (n, True) # frees n i @ ys"
    "off = extent xs"
    using alloc_blocks_SomeD [OF assms(1)] by (elim exE conjE)
  have e': "extent bs' = 2 ^ 29 + 1" using alloc_blocks_used(2) [OF assms(1)] assms(3) by simp
  have same: "m x = v x" if "0xcfffffff + p < unat x" "unat x < 0xcfffffff + p + 2 ^ k"
    "\<And>q. q \<in> set (starts 0 bs') \<Longrightarrow> q \<le> p \<or> p + 2 ^ k \<le> q" for p k x
  proof (rule ccontr)
    assume "m x \<noteq> v x"
    from assms(4) [OF this] obtain q where q: "q \<in> set (starts 0 bs')" "x = 0xcfffffff + of_nat q" by blast
    have "unat x = 0xcfffffff + q"
      unfolding q(2) using starts_bounds [OF q(1)] e' by (intro unat_kernel_off) simp
    with that(1,2) that(3) [OF q(1)] show False by linarith
  qed
  have old: "\<exists>p' k'. (p', k') \<in> set (free_blocks 0 bs) \<and> p' \<le> p \<and> p + 2 ^ k \<le> p' + 2 ^ k'"
    if "(p, k) \<in> set (free_blocks 0 bs')" for p k
  proof -
    have i: "extent xs + 2 ^ n + extent (frees n i) = extent xs + 2 ^ i" using extent_frees [OF d(2)] by simp
    have "set (free_blocks 0 bs') = set (free_blocks 0 xs) \<union>
        set (free_blocks (extent xs + 2 ^ n) (frees n i)) \<union> set (free_blocks (extent xs + 2 ^ i) ys)"
      unfolding d(3) free_blocks_append by (simp add: free_blocks_append i Un_assoc)
    with that consider "(p, k) \<in> set (free_blocks 0 xs)"
      | "(p, k) \<in> set (free_blocks (extent xs + 2 ^ n) (frees n i))"
      | "(p, k) \<in> set (free_blocks (extent xs + 2 ^ i) ys)"
      by blast
    then show ?thesis
    proof cases
      case 1
      then show ?thesis using d(1) by (intro exI [of _ p] exI [of _ k]) (simp add: free_blocks_append)
    next
      case 2
      from free_blocks_frees [OF d(2) this] show ?thesis
        using d(1) by (intro exI [of _ "extent xs"] exI [of _ i]) (simp add: free_blocks_append)
    next
      case 3
      then show ?thesis using d(1) by (intro exI [of _ p] exI [of _ k]) (simp add: free_blocks_append)
    qed
  qed
  show "zero_free m bs'"
    unfolding zero_free_def
  proof clarify
    fix p k and x :: u32
    assume f: "(p, k) \<in> set (free_blocks 0 bs')"
      and x: "0xcfffffff + p < unat x" "unat x < 0xcfffffff + p + 2 ^ k"
    obtain p' k' where o: "(p', k') \<in> set (free_blocks 0 bs)" "p' \<le> p" "p + 2 ^ k \<le> p' + 2 ^ k'"
      using old [OF f] by blast
    have "m x = v x" by (rule same [OF x]) (rule starts_free [OF _ f])
    also have "v x = 0" using x o(2,3) by (intro zero_freeD [OF assms(2) o(1)]) linarith+
    finally show "m x = 0" .
  qed
  assume x: "0xcfffffff + off < unat x" "unat x < 0xcfffffff + off + 2 ^ n"
  have u: "(off, n) \<in> set (used_blocks 0 bs')" using alloc_blocks_used(1) [OF assms(1)] by simp
  have "m x = v x" by (rule same [OF x]) (rule starts_used [OF _ u])
  also have "v x = 0"
  proof -
    have "(off, i) \<in> set (free_blocks 0 bs)" using d(1,4) by (simp add: free_blocks_append)
    moreover have "(2 :: nat) ^ n \<le> 2 ^ i" using d(2) by simp
    then have "unat x < 0xcfffffff + off + 2 ^ i" using x(2) by linarith
    ultimately show ?thesis using x(1) by (intro zero_freeD [OF assms(2)])
  qed
  finally show "m x = 0" .
qed

lemma zheap_alloc:
  assumes "zheap s A (Suc j)" "block_bits (unat sz + 1) \<le> j" "unat sz + 1 < 2 ^ 28"
  shows "\<exists>p n m. kernel_allocate rd8 wr8 s sz = Some (p, s\<lparr>mem := m\<rparr>) \<and> p \<noteq> 0 \<and> unat sz \<le> n \<and>
    zheap (s\<lparr>mem := m\<rparr>) (insert (p, n) A) j \<and> (p, n) \<notin> A \<and>
    2 ^ block_bits (unat sz + 1) dvd unat p \<and>
    (\<forall>x \<in> regions A \<union> - kernel_area. m x = mem s x) \<and> (\<forall>x \<in> region p n. m x = 0)"
proof -
  obtain bs k where h: "heap_ok kernel_heap (mem s) bs" "aligned 0 bs"
    "A = payload ` set (used_blocks 0 bs)"
    and z: "zero_free (mem s) bs" and k: "Suc j \<le> k" "(k, False) \<in> set bs"
    using assms(1) by (auto simp: zheap_def)
  let ?n = "block_bits (unat sz + 1)"
  have sz: "unat sz + 1 < 2 ^ 31" using assms(3) by simp
  have n28: "?n \<le> 28" using assms(3) by (simp add: block_bits_def floorlog_le)
  have "\<not> skips ?n bs" using k assms(2) by (force simp: skips_def)
  then obtain off bs' where a: "alloc_blocks ?n bs = Some (off, bs')"
    by (cases "alloc_blocks ?n bs") (auto simp: alloc_blocks_None)
  let ?p = "0xcfffffff + of_nat off + 1 :: u32"
  obtain m where m: "kernel_allocate rd8 wr8 s sz = Some (?p, s\<lparr>mem := m\<rparr>)"
    "unat ?p = 0xcfffffff + off + 1" "unat sz \<le> 2 ^ ?n - 1" "(?p, 2 ^ ?n - 1) \<notin> A"
    "heap_ok kernel_heap m bs'" "aligned 0 bs'"
    "insert (?p, 2 ^ ?n - 1) A = payload ` set (used_blocks 0 bs')"
    "\<forall>x \<in> regions A \<union> - kernel_area. m x = mem s x"
    and w: "\<And>x. m x \<noteq> mem s x \<Longrightarrow> \<exists>q \<in> set (starts 0 bs'). x = 0xcfffffff + of_nat q"
    using kernel_allocate_block [OF h sz a refl refl] by blast
  have "?p \<noteq> 0" using m(2) by (metis add_is_0 unsigned_0 zero_neq_one)
  note zz = alloc_blocks_zero [OF a z heap_ok_extent [OF h(1)] w]
  have "m x = 0" if "x \<in> region ?p (2 ^ ?n - 1)" for x
  proof (rule zz(2))
    have "1 \<le> (2 :: nat) ^ ?n" by simp
    with that show "0xcfffffff + off < unat x" "unat x < 0xcfffffff + off + 2 ^ ?n"
      unfolding region_def inside_def mem_Collect_eq m(2) by linarith+
  qed
  moreover obtain i where "i \<ge> Suc j - 1" "(i, False) \<in> set bs'"
    using alloc_blocks_room [OF k(2,1) _ a] assms(2) by auto
  with m(5-7) zz(1) have "zheap (s\<lparr>mem := m\<rparr>) (insert (?p, 2 ^ ?n - 1) A) j"
    by (auto simp: zheap_def)
  moreover have "2 ^ ?n dvd unat ?p"
  proof -
    have "2 ^ ?n dvd off" using alloc_blocks_aligned(2) [OF a h(2)] by simp
    moreover have "(2 :: nat) ^ ?n dvd 0xcfffffff + 1"
    proof -
      have "(2 :: nat) ^ ?n dvd 2 ^ 28" using n28 by (rule le_imp_power_dvd)
      then show ?thesis by (rule dvd_trans) simp
    qed
    ultimately have "2 ^ ?n dvd (0xcfffffff + 1) + off" by (rule dvd_add [rotated])
    then show ?thesis unfolding m(2) by (simp add: add.commute add.left_commute)
  qed
  ultimately show ?thesis using m(1,3,4,8) \<open>?p \<noteq> 0\<close> by blast
qed

text \<open>Writes to live regions and outside the heap keep it.\<close>

lemma zheap_write:
  assumes "zheap s A j" "\<And>x. m x \<noteq> mem s x \<Longrightarrow> x \<in> regions A \<union> - kernel_area"
  shows "zheap (s\<lparr>mem := m\<rparr>) A j"
proof -
  obtain bs k where h: "heap_ok kernel_heap (mem s) bs" "aligned 0 bs"
    "A = payload ` set (used_blocks 0 bs)"
    and z: "zero_free (mem s) bs" and k: "j \<le> k" "(k, False) \<in> set bs"
    using assms(1) by (auto simp: zheap_def)
  have w: "x \<in> regions (payload ` set (used_blocks 0 bs)) \<union> - kernel_area" if "m x \<noteq> mem s x" for x
    using assms(2) [OF that] h(3) by simp
  have "m x = 0" if f: "(p, i) \<in> set (free_blocks 0 bs)"
    and x: "0xcfffffff + p < unat x" "unat x < 0xcfffffff + p + 2 ^ i" for p i x
  proof -
    have "p + 2 ^ i \<le> 536870913" using free_blocks_bounds [OF f] heap_ok_extent [OF h(1)] by simp
    with x have "x \<in> kernel_area" by (simp add: kernel_area_def word_le_nat_alt)
    moreover have "x \<notin> regions (payload ` set (used_blocks 0 bs))"
    proof
      assume "x \<in> regions (payload ` set (used_blocks 0 bs))"
      then obtain q l where "(q, l) \<in> set (used_blocks 0 bs)" "0xcfffffff + q < unat x"
        "unat x < 0xcfffffff + q + 2 ^ l"
        by (auto simp: in_regions_payload [OF h(1)])
      with used_free_disjoint [OF this(1) f] x show False by linarith
    qed
    ultimately have "m x = mem s x" using w by blast
    with zero_freeD [OF z f x] show ?thesis by simp
  qed
  then have "zero_free m bs" by (auto simp: zero_free_def)
  moreover have "heap_ok kernel_heap m bs" by (rule heap_ok_write [OF h(1) w])
  ultimately show ?thesis using h(2,3) k by (auto simp: zheap_def)
qed

lemma init_blocks_pow2: "init_blocks (2 ^ n) k = [(k + n, False)]"
proof (induction n arbitrary: k)
  case 0
  then show ?case by (simp add: init_blocks.simps [of "Suc 0"] init_blocks.simps [of 0])
next
  case (Suc n)
  then show ?case by (simp add: init_blocks.simps [of "2 * 2 ^ n"])
qed

lemma init_kernel_heap_mem:
  assumes "mem s 0xefffffff = 0"
  shows "\<exists>m. init_kernel_heap rd8 wr8 s = Some (s\<lparr>mem := m\<rparr>) \<and>
    heap_ok kernel_heap m [(29, False), (0, False)] \<and> (\<forall>x. x \<notin> kernel_area \<longrightarrow> m x = mem s x) \<and>
    (\<forall>x. m x \<noteq> mem s x \<longrightarrow> x = 0xcfffffff)"
proof -
  let ?L = "2 ^ 29 + 1 :: nat"
  have L: "?L = unat (hs_end kernel_heap) - unat (hs_start kernel_heap) + 1" by simp
  have R: "KERNEL_BASE \<le> x" if "hs_start kernel_heap \<le> x" for x
    using that by (simp add: word_le_nat_alt)
  have "mem s x = 0" if "inside (hs_start kernel_heap + of_nat (8 * (?L div 8))) (?L mod 8) x" for x
  proof -
    have "unat x = unat (0xefffffff :: u32)" using that by (simp add: inside_def)
    then show ?thesis using assms by (metis u32_eqI)
  qed
  from kmem.init_memory_heap_ok [OF _ _ L R this] obtain m where
    m: "init_memory rd8 wr8 s kernel_heap = Some (s\<lparr>mem := m\<rparr>)"
    "heap_ok kernel_heap m (init_blocks (2 ^ 26) 3 @ zero_blocks 1)"
    "\<And>x. \<not> inside (hs_start kernel_heap) ?L x \<Longrightarrow> m x = mem s x"
    and w: "\<And>x. m x \<noteq> mem s x \<Longrightarrow>
      \<exists>q \<in> set (starts 0 (init_blocks (2 ^ 26) 3)). x = hs_start kernel_heap + of_nat q"
    by (auto simp: word_le_nat_alt)
  have "heap_ok kernel_heap m [(29, False), (0, False)]"
    using m(2) unfolding init_blocks_pow2 by (simp add: zero_blocks_def)
  moreover have "m x = mem s x" if "x \<notin> kernel_area" for x
    using that by (intro m(3)) (auto simp: inside_def kernel_area_def word_le_nat_alt)
  moreover have "x = 0xcfffffff" if "m x \<noteq> mem s x" for x
    using w [OF that] unfolding init_blocks_pow2 by simp
  ultimately show ?thesis using m(1) by (auto simp: init_kernel_heap_def)
qed

lemma init_kernel_heap_zheap:
  assumes "\<And>x. x \<in> kernel_area \<Longrightarrow> mem s x = 0"
  shows "\<exists>m. init_kernel_heap rd8 wr8 s = Some (s\<lparr>mem := m\<rparr>) \<and> zheap (s\<lparr>mem := m\<rparr>) {} 29 \<and>
    (\<forall>x. x \<notin> kernel_area \<longrightarrow> m x = mem s x)"
proof -
  have "mem s 0xefffffff = 0" by (rule assms) (simp add: kernel_area_def)
  then obtain m where m: "init_kernel_heap rd8 wr8 s = Some (s\<lparr>mem := m\<rparr>)"
    "heap_ok kernel_heap m [(29, False), (0, False)]" "\<forall>x. x \<notin> kernel_area \<longrightarrow> m x = mem s x"
    and w: "\<And>x. m x \<noteq> mem s x \<Longrightarrow> x = 0xcfffffff"
    using init_kernel_heap_mem by blast
  have "m x = 0" if x: "0xcfffffff < unat x" "unat x \<le> 0xefffffff" for x
  proof -
    have "x \<noteq> 0xcfffffff" using x by auto
    moreover have "x \<in> kernel_area" using x by (simp add: kernel_area_def word_le_nat_alt)
    ultimately show ?thesis using w [of x] assms [of x] by auto
  qed
  then have "zero_free m [(29, False), (0, False)]" by (auto simp: zero_free_def)
  with m(2) have "zheap (s\<lparr>mem := m\<rparr>) {} 29"
    by (auto simp: zheap_def intro!: exI [of _ "[(29, False), (0, False)]"])
  with m show ?thesis by blast
qed

section \<open>Properties of the kernel heap\<close>

text \<open>
  (C11) \<open>kernel_allocate\<close> is first fit on the list of blocks. If no free block is
  large enough it returns 0 and changes nothing; otherwise it returns the address behind
  the header of the first free block that is, splits that block down to the size rounded
  up, keeps the heap well formed, and changes no byte of a block in use or outside the heap.
\<close>

theorem kernel_allocate_first_fit:
  assumes "heap_ok kernel_heap (mem s) bs" "unat sz + 1 < 2 ^ 31"
  shows "case alloc_blocks (block_bits (unat sz + 1)) bs of
      None \<Rightarrow> kernel_allocate rd8 wr8 s sz = Some (0, s)
    | Some (off, bs') \<Rightarrow>
        \<exists>m. kernel_allocate rd8 wr8 s sz = Some (0xd0000000 + of_nat off, s\<lparr>mem := m\<rparr>) \<and>
          heap_ok kernel_heap m bs' \<and> keeps kernel_heap bs (mem s) m"
  using kernel_allocate_cases [OF assms]
  by (auto split: option.split simp: add.commute add.left_commute)

text \<open>The machine of the witnesses: the kernel heap as one free block, and as one used block.\<close>

definition one_free :: machine where
  "one_free = \<lparr>mem = (\<lambda>_. 0)(0xcfffffff := 29), cr3 = 0, ports = []\<rparr>"

definition one_used :: machine where
  "one_used = \<lparr>mem = (\<lambda>_. 0)(0xcfffffff := 0x9d), cr3 = 0, ports = []\<rparr>"

lemma hdr_literal: "hdr_size 29 = 29" "hdr_size 0x9d = 29" "hdr_size 0 = 0"
  "hdr_used 29 = False" "hdr_used 0x9d = True" "hdr_used 0 = False"
  by (simp_all add: hdr_size_def hdr_used_def)

lemma one_free_heap_ok: "heap_ok kernel_heap (mem one_free) [(29, False), (0, False)]"
  by (simp add: heap_ok_def one_free_def hdr_at_def hdr_literal)

lemma one_used_heap_ok: "heap_ok kernel_heap (mem one_used) [(29, True), (0, False)]"
  by (simp add: heap_ok_def one_used_def hdr_at_def hdr_literal)

lemma block_bits_5: "block_bits 5 = 3"
  by (simp add: block_bits_def compute_floorlog)

theorem kernel_allocate_first_fit_witness:
  "heap_ok kernel_heap (mem one_free) [(29, False), (0, False)] \<and> unat (4 :: u32) + 1 < 2 ^ 31 \<and>
   (\<exists>m. kernel_allocate rd8 wr8 one_free 4 = Some (0xd0000000, one_free\<lparr>mem := m\<rparr>) \<and>
      heap_ok kernel_heap m ((3, True) # frees 3 29 @ [(0, False)]))"
proof -
  have sz: "unat (4 :: u32) + 1 < 2 ^ 31" by simp
  from kernel_allocate_first_fit [OF one_free_heap_ok sz] show ?thesis
    using one_free_heap_ok by (auto simp: block_bits_5)
qed

text \<open>
  (C20) Memory handed out by \<open>kernel_allocate\<close> is fresh: a non-zero result starts a
  region of at least the size asked for that lies inside the heap and shares no byte with
  any live region, and the bytes of the live regions are as before.
\<close>

theorem kernel_allocate_fresh:
  assumes "kernel_live s L" "unat sz + 1 < 2 ^ 31" "kernel_allocate rd8 wr8 s sz = Some (p, s')"
    "p \<noteq> 0"
  shows "\<exists>n. unat sz \<le> n \<and> kernel_live s' (insert (p, n) L) \<and> region p n \<subseteq> kernel_area \<and>
    region p n \<inter> regions L = {} \<and> (\<forall>x \<in> regions L \<union> - kernel_area. mem s' x = mem s x)"
  by (rule kheap.alloc_fresh [OF assms])

lemma one_free_live: "kernel_live one_free {}"
  unfolding kernel_live_def
  by (rule exI [of _ "[(29, False), (0, False)]"]) (simp add: one_free_heap_ok)

lemma one_free_alloc4: "\<exists>s'. kernel_allocate rd8 wr8 one_free 4 = Some (0xd0000000, s')"
  using kernel_allocate_cases(2) [OF one_free_heap_ok, of 4 0 "(3, True) # frees 3 29 @ [(0, False)]"]
  by (auto simp: block_bits_5)

theorem kernel_allocate_fresh_witness:
  "\<exists>s' n. kernel_allocate rd8 wr8 one_free 4 = Some (0xd0000000, s') \<and>
     4 \<le> n \<and> kernel_live s' {(0xd0000000, n)} \<and> region 0xd0000000 n \<subseteq> kernel_area"
proof -
  obtain s' where s': "kernel_allocate rd8 wr8 one_free 4 = Some (0xd0000000, s')"
    using one_free_alloc4 by blast
  show ?thesis using kernel_allocate_fresh [OF one_free_live _ s'] s' by auto
qed

text \<open>
  (C39) Pointers are aligned: for a request below \<open>2 ^ 28\<close> bytes the address returned is a
  multiple of the rounded block size, so a request of a page or more is page-aligned.
\<close>

theorem kernel_allocate_aligned:
  assumes "heap_ok kernel_heap (mem s) bs" "aligned 0 bs" "unat sz + 1 < 2 ^ 28"
    "kernel_allocate rd8 wr8 s sz = Some (p, s')" "p \<noteq> 0"
  shows "2 ^ block_bits (unat sz + 1) dvd unat p"
proof -
  let ?n = "block_bits (unat sz + 1)"
  have sz: "unat sz + 1 < 2 ^ 31" using assms(3) by simp
  have n: "?n \<le> 28" using assms(3) by (simp add: block_bits_def floorlog_le)
  obtain off bs' where a: "alloc_blocks ?n bs = Some (off, bs')"
    using kernel_allocate_cases(1) [OF assms(1) sz] assms(4,5)
    by (cases "alloc_blocks ?n bs") auto
  obtain m where m: "p = 0xcfffffff + of_nat off + 1" "heap_ok kernel_heap m bs'"
    using kernel_allocate_cases(2) [OF assms(1) sz a] assms(4) by auto
  have "(off, ?n) \<in> set (used_blocks 0 bs')" using alloc_blocks_used(1) [OF a] by simp
  then have "unat p = 13 * 2 ^ 28 + off"
    using unat_payload [OF used_in_heap(1) [OF m(2)]] m(1) by simp
  moreover have "(2 :: nat) ^ ?n dvd 13 * 2 ^ 28"
    using le_imp_power_dvd [OF n, of "2 :: nat"] by (rule dvd_mult)
  ultimately show ?thesis using alloc_blocks_aligned(2) [OF a assms(2)] by (simp only: dvd_add)
qed

theorem kernel_allocate_aligned_witness:
  "aligned 0 [(29, False), (0, False)] \<and> unat (4 :: u32) + 1 < 2 ^ 28 \<and>
   (\<exists>s'. kernel_allocate rd8 wr8 one_free 4 = Some (0xd0000000, s')) \<and>
   2 ^ block_bits (unat (4 :: u32) + 1) dvd unat (0xd0000000 :: u32)"
proof -
  obtain s' where s': "kernel_allocate rd8 wr8 one_free 4 = Some (0xd0000000, s')"
    using one_free_alloc4 by blast
  have h: "aligned 0 [(29, False), (0, False)]" "unat (4 :: u32) + 1 < 2 ^ 28" by simp_all
  show ?thesis using kernel_allocate_aligned [OF one_free_heap_ok h s'] h s' by simp
qed

text \<open>
  \<open>init_kernel_heap\<close> makes the whole heap one free block of \<open>2 ^ 29\<close> bytes. The
  heap's last byte lies behind that block; it has to be zero, since the walk of
  \<open>memory_allocate\<close> reads it as a header.
\<close>

theorem init_kernel_heap_live:
  assumes "mem s 0xefffffff = 0"
  shows "\<exists>m. init_kernel_heap rd8 wr8 s = Some (s\<lparr>mem := m\<rparr>) \<and>
    heap_ok kernel_heap m [(29, False), (0, False)] \<and> kernel_live (s\<lparr>mem := m\<rparr>) {} \<and>
    (\<forall>x. x \<notin> kernel_area \<longrightarrow> m x = mem s x)"
proof -
  obtain m where m: "init_kernel_heap rd8 wr8 s = Some (s\<lparr>mem := m\<rparr>)"
    "heap_ok kernel_heap m [(29, False), (0, False)]" "\<forall>x. x \<notin> kernel_area \<longrightarrow> m x = mem s x"
    using init_kernel_heap_mem [OF assms] by blast
  then have "kernel_live (s\<lparr>mem := m\<rparr>) {}"
    by (auto simp: kernel_live_def intro!: exI [of _ "[(29, False), (0, False)]"])
  with m show ?thesis by blast
qed

theorem init_kernel_heap_live_witness:
  "mem \<lparr>mem = \<lambda>_. 0, cr3 = 0, ports = []\<rparr> 0xefffffff = 0 \<and>
   (\<exists>m. init_kernel_heap rd8 wr8 \<lparr>mem = \<lambda>_. 0, cr3 = 0, ports = []\<rparr> =
      Some \<lparr>mem = m, cr3 = 0, ports = []\<rparr> \<and> heap_ok kernel_heap m [(29, False), (0, False)])"
  using init_kernel_heap_live [of "\<lparr>mem = \<lambda>_. 0, cr3 = 0, ports = []\<rparr>"] by auto

text \<open>
  The loop of \<open>round_block_size\<close> equals its reference: the number of bits of the
  request, at least \<open>MIN_BLOCK_SIZE\<close>. From \<open>2 ^ 31\<close> on it shifts by 32,
  which is undefined.
\<close>

theorem round_block_size_bits:
  "round_block_size sz =
     (if unat sz < 2 ^ 31 then Some (of_nat (max 3 (floorlog 2 (unat sz)))) else None)"
  using round_block_size_eq [of sz] by (simp add: block_bits_def)

text \<open>
  A request that is an exact power of two gets a block twice as large: the comparison
  behind the loop never rounds, and the loop stops only at a size that exceeds the request.
\<close>

theorem round_block_size_power_of_two:
  assumes "3 \<le> k" "k < 31"
  shows "round_block_size (2 ^ k) = Some (of_nat (k + 1))"
proof -
  have "(2 :: nat) ^ k < 2 ^ 31" using assms(2) by (rule power_strict_increasing) simp
  moreover have "floorlog 2 (2 ^ k) = k + 1"
    using floorlog_power [of 1 2 k] by (simp add: compute_floorlog [of 2 "Suc 0"] compute_floorlog [of 2 0])
  ultimately show ?thesis using assms by (simp add: round_block_size_eq block_bits_def)
qed

theorem round_block_size_power_of_two_witness:
  "(3 :: nat) \<le> 3 \<and> (3 :: nat) < 31 \<and> round_block_size 8 = Some 4"
  using round_block_size_power_of_two [of 3] by simp

text \<open>
  The size of the header is added without a check: a request of \<open>2 ^ 32 - 1\<close>
  bytes wraps to 0 and is served like a request of 0 bytes, with the smallest block.
\<close>

theorem kernel_allocate_wraps:
  "kernel_allocate rd8 wr8 s 0xffffffff = kernel_allocate rd8 wr8 s 0"
proof -
  have "round_block_size 0 = round_block_size 1"
    by (simp add: round_block_size_eq block_bits_def compute_floorlog [of 2 "Suc 0"] compute_floorlog [of 2 0])
  then show ?thesis by (simp add: kernel_allocate_def memory_allocate_def)
qed

text \<open>
  (C22) Given the header of a free block, \<open>coalesce_block\<close> ends and keeps
  the heap well formed, the blocks in use and their bytes, whatever it merges.
\<close>

theorem coalesce_block_keeps_heap:
  assumes "heap_ok kernel_heap (mem s) (xs @ (k, False) # ys)" "aligned 0 (xs @ (k, False) # ys)"
    "ys \<noteq> []" "last ys = (0, False)" "1 \<le> k"
  shows "\<exists>m bs'. coalesce_block rd8 wr8 s (0xcfffffff + of_nat (extent xs)) 0xcfffffff =
      Some (s\<lparr>mem := m\<rparr>) \<and>
    heap_ok kernel_heap m bs' \<and> aligned 0 bs' \<and>
    used_blocks 0 bs' = used_blocks 0 (xs @ (k, False) # ys) \<and>
    keeps kernel_heap (xs @ (k, False) # ys) (mem s) m"
proof -
  have "free_at kernel_heap (mem s) xs k ys" using assms by (simp add: free_at_def)
  moreover have "KERNEL_BASE \<le> x" if "hs_start kernel_heap \<le> x" for x
    using that by (simp add: word_le_nat_alt)
  ultimately show ?thesis
    using kmem.coalesce_block_keeps [of kernel_heap s xs k ys] unfolding kernel_heap_bounds
    by (auto simp: same_used_def)
qed

theorem coalesce_block_keeps_heap_witness:
  "heap_ok kernel_heap (mem one_free) ([] @ (29, False) # [(0, False)]) \<and>
   (\<exists>m bs'. coalesce_block rd8 wr8 one_free (0xcfffffff + of_nat (extent [])) 0xcfffffff =
      Some (one_free\<lparr>mem := m\<rparr>) \<and> heap_ok kernel_heap m bs' \<and> used_blocks 0 bs' = [])"
  using coalesce_block_keeps_heap [of one_free "[]" 29 "[(0, False)]"] one_free_heap_ok by auto

text \<open>
  \<open>kernel_free\<close> of a live block whose first data byte is zero marks the block
  free, changes nothing else, and leaves it uncoalesced: the blocks stay as they were.
\<close>

theorem kernel_free_zero_byte:
  assumes "heap_ok kernel_heap (mem s) (xs @ (k, True) # ys)" "aligned 0 (xs @ (k, True) # ys)"
    "1 \<le> k" "mem s (0xd0000000 + of_nat (extent xs)) = 0"
  shows "\<exists>m. kernel_free rd8 wr8 s (0xd0000000 + of_nat (extent xs)) = Some (s\<lparr>mem := m\<rparr>) \<and>
    heap_ok kernel_heap m (xs @ (k, False) # ys) \<and>
    (\<forall>x. x \<noteq> 0xcfffffff + of_nat (extent xs) \<longrightarrow> m x = mem s x)"
proof -
  let ?b = "hs_start kernel_heap + of_nat (extent xs)"
  have b: "?b + 1 = 0xd0000000 + of_nat (extent xs)" by simp
  have R: "KERNEL_BASE \<le> x" if "hs_start kernel_heap \<le> x" for x
    using that by (simp add: word_le_nat_alt)
  note z = kmem.memory_free_zero [OF assms(1-3) refl assms(4) [folded b] R]
  show ?thesis
    using z unfolding b
    by (intro exI [of _ "(mem s)(?b := hdr_set_used (mem s ?b) False)"]) (simp add: kernel_free_def)
qed

theorem kernel_free_zero_byte_witness:
  "heap_ok kernel_heap (mem one_used) ([] @ (29, True) # [(0, False)]) \<and> mem one_used 0xd0000000 = 0 \<and>
   (\<exists>m. kernel_free rd8 wr8 one_used 0xd0000000 = Some (one_used\<lparr>mem := m\<rparr>) \<and>
      heap_ok kernel_heap m [(29, False), (0, False)])"
proof -
  have z: "mem one_used 0xd0000000 = 0" by (simp add: one_used_def)
  show ?thesis
    using kernel_free_zero_byte [of one_used "[]" 29 "[(0, False)]"] one_used_heap_ok z by auto
qed

text \<open>
  \<open>kernel_free\<close> of any kernel pointer whose first data byte has 32 or more in its
  low seven bits is undefined: that byte is taken for a block size and shifted by.
\<close>

theorem kernel_free_undefined:
  assumes "KERNEL_BASE < p" "32 \<le> hdr_size (mem s p)"
  shows "kernel_free rd8 wr8 s p = None"
proof -
  have "p \<noteq> 0" using assms(1) by auto
  then have "KERNEL_BASE \<le> p - 1" "KERNEL_BASE \<le> p - 1 + 1"
    using assms(1) unat_minus_one [of p] by (auto simp: word_le_nat_alt word_less_nat_alt)
  with kmem.memory_free_undefined [of "p - 1" s kernel_heap] assms(2) show ?thesis
    by (simp add: kernel_free_def)
qed

theorem kernel_free_undefined_witness:
  "let s = \<lparr>mem = (\<lambda>_. 0)(0xcfffffff := 0x83, 0xd0000000 := 0x44), cr3 = 0, ports = []\<rparr> in
   KERNEL_BASE < 0xd0000000 \<and> 32 \<le> hdr_size (mem s 0xd0000000) \<and>
   kernel_free rd8 wr8 s 0xd0000000 = None"
proof -
  let ?s = "\<lparr>mem = (\<lambda>_. 0)(0xcfffffff := 0x83, 0xd0000000 := 0x44), cr3 = 0, ports = []\<rparr>"
  have h: "32 \<le> hdr_size (mem ?s 0xd0000000)" by (simp add: hdr_size_def)
  show ?thesis using kernel_free_undefined [of "0xd0000000" ?s] h by simp
qed

text \<open>
  (C29) \<open>kernel_free\<close> can change the data of another live block. With two adjacent
  live blocks of eight bytes whose first data bytes are both 3, freeing the second takes
  the data byte of the first for a free buddy header and increments it.
\<close>

theorem kernel_free_corrupts:
  assumes "heap_ok kernel_heap (mem s) ((3, True) # (3, True) # ys)"
    "mem s 0xd0000000 = 3" "mem s 0xd0000008 = 3" "bit (mem s 0xd0000010) 7"
  shows "\<exists>s'. kernel_free rd8 wr8 s 0xd0000008 = Some s' \<and>
    mem s' 0xd0000000 = 4 \<and> mem s 0xd0000000 \<noteq> mem s' 0xd0000000 \<and>
    0xd0000000 \<in> region 0xd0000000 7"
proof -
  have h: "hdr_size 3 = 3" "hdr_used 3 = False" "hdr_set_size 3 4 = 4" "hdr_size 4 = 4"
    by (simp_all add: hdr_size_def hdr_used_def hdr_set_size_def)
  have u: "hdr_used (mem s 0xd0000010)" using assms(4) by (simp add: hdr_used_def)
  let ?s = "s\<lparr>mem := (mem s)(0xd0000007 := hdr_set_used (mem s 0xd0000007) False)\<rparr>"
  let ?t = "s\<lparr>mem := (mem ?s)(0xd0000000 := 4)\<rparr>"
  have "coalesce_block rd8 wr8 ?t 0xd0000000 0xcfffffff = Some ?t"
    using coalesce_unfold [of rd8 ?t "0xd0000000" 4 16 "0xd0000010" "0xcfffffff" "mem s 0xd0000010" wr8]
    by (simp add: kmem.rd_view h u shl1_def)
  moreover have "coalesce_block rd8 wr8 ?s 0xd0000008 0xcfffffff = coalesce_block rd8 wr8 ?t 0xd0000000 0xcfffffff"
    using coalesce_unfold [of rd8 ?s "0xd0000008" 3 8 "0xd0000000" "0xcfffffff" 3 wr8] assms(2,3)
    by (simp add: kmem.rd_view kmem.wr_upd h shl1_def)
  ultimately have "kernel_free rd8 wr8 s 0xd0000008 = Some ?t"
    by (simp add: kernel_free_def memory_free_def kmem.rd_view kmem.wr_upd)
  then show ?thesis using assms(2) by (auto simp: region_def inside_def)
qed

text \<open>Two live blocks of eight bytes, the rest of the heap free.\<close>

definition two_used :: machine where
  "two_used = \<lparr>mem = (fold (\<lambda>j m. m(0xcfffffff + 2 ^ j := of_nat j)) [4..<29] (\<lambda>_. 0))
     (0xcfffffff := 0x83, 0xd0000007 := 0x83, 0xd0000000 := 3, 0xd0000008 := 3, 0xd0000010 := 0x80),
     cr3 = 0, ports = []\<rparr>"

lemma two_used_heap_ok:
  "heap_ok kernel_heap (mem two_used) ((3, True) # (3, True) # frees 4 29 @ [(0, False)])"
  by (simp add: heap_ok_def two_used_def hdr_at_def hdr_size_def hdr_used_def frees_def upt_rec)

theorem kernel_free_corrupts_witness:
  "heap_ok kernel_heap (mem two_used) ((3, True) # (3, True) # frees 4 29 @ [(0, False)]) \<and>
   (\<exists>s'. kernel_free rd8 wr8 two_used 0xd0000008 = Some s' \<and> mem s' 0xd0000000 = 4)"
proof -
  have b: "mem two_used 0xd0000000 = 3" "mem two_used 0xd0000008 = 3" "bit (mem two_used 0xd0000010) 7"
    by (simp_all add: two_used_def)
  show ?thesis using kernel_free_corrupts [OF two_used_heap_ok b] two_used_heap_ok by blast
qed

end
