(* ===== verification/Gdt.thy ===== *)
theory Gdt
  imports Machine
begin

text \<open>
  The global descriptor table and the task state segment, src/arch/x86/core/gdt.c, gdt.h
  and gdt.s, and the register sets of registers.h and isr.h. Descriptors are kept field by
  field as the C code writes them, with their packed 64-bit form beside them; the task
  state segment is kept with the bytes the processor reads.
\<close>

section \<open>Addresses the linker chooses\<close>

text \<open>The entry points of isr.s and timer.s that the kernel puts into interrupt gates.\<close>

datatype isr =
    Divbyzero | Debug | Nonmask | Breakpoint | Overflow | Boundrange | Invalop | Nodevice
  | Doublefault | Invaltss | Nosegment | Stackseg | Genprotection | Pagefault | Timer

record layout =
  gdt_addr :: u32
  tss_addr :: u32
  kernel_memory_addr :: u32
  isr_addr :: "isr \<Rightarrow> u32"

section \<open>Segment descriptors\<close>

record gdt_segment_desc =
  sd_limit1 :: u16
  sd_base1 :: "24 word"
  sd_a :: "1 word"
  sd_rw :: "1 word"
  sd_dc :: "1 word"
  sd_e :: "1 word"
  sd_s :: "1 word"
  sd_dpl :: "2 word"
  sd_p :: "1 word"
  sd_limit2 :: "4 word"
  sd_zero :: "1 word"
  sd_l :: "1 word"
  sd_db :: "1 word"
  sd_g :: "1 word"
  sd_base2 :: u8

definition desc_widths :: "nat list" where
  "desc_widths = [16, 24, 1, 1, 1, 1, 1, 2, 1, 4, 1, 1, 1, 1, 8]"

definition enc_desc :: "gdt_segment_desc \<Rightarrow> u64" where
  "enc_desc d = of_nat (pack (zip desc_widths
     [unat (sd_limit1 d), unat (sd_base1 d), unat (sd_a d), unat (sd_rw d), unat (sd_dc d),
      unat (sd_e d), unat (sd_s d), unat (sd_dpl d), unat (sd_p d), unat (sd_limit2 d),
      unat (sd_zero d), unat (sd_l d), unat (sd_db d), unat (sd_g d), unat (sd_base2 d)]))"

definition dec_desc :: "u64 \<Rightarrow> gdt_segment_desc" where
  "dec_desc w = (let f = (\<lambda>i. unpack desc_widths (unat w) ! i) in
     \<lparr>sd_limit1 = of_nat (f 0), sd_base1 = of_nat (f 1), sd_a = of_nat (f 2), sd_rw = of_nat (f 3),
      sd_dc = of_nat (f 4), sd_e = of_nat (f 5), sd_s = of_nat (f 6), sd_dpl = of_nat (f 7),
      sd_p = of_nat (f 8), sd_limit2 = of_nat (f 9), sd_zero = of_nat (f 10), sd_l = of_nat (f 11),
      sd_db = of_nat (f 12), sd_g = of_nat (f 13), sd_base2 = of_nat (f 14)\<rparr>)"

lemma dec_enc_desc: "dec_desc (enc_desc d) = d"
proof -
  let ?vs = "[unat (sd_limit1 d), unat (sd_base1 d), unat (sd_a d), unat (sd_rw d), unat (sd_dc d),
      unat (sd_e d), unat (sd_s d), unat (sd_dpl d), unat (sd_p d), unat (sd_limit2 d),
      unat (sd_zero d), unat (sd_l d), unat (sd_db d), unat (sd_g d), unat (sd_base2 d)]"
  have "fits (zip desc_widths ?vs)"
    unfolding desc_widths_def zip_Cons_Cons zip.simps(1) fits_simps
    by (intro conjI unat_less_pow TrueI) simp_all
  moreover have "map fst (zip desc_widths ?vs) = desc_widths" "map snd (zip desc_widths ?vs) = ?vs"
    by (simp_all add: desc_widths_def)
  moreover have "sum_list desc_widths \<le> LENGTH(64)"
    by (simp add: desc_widths_def)
  ultimately have "unpack desc_widths (unat (enc_desc d)) = ?vs"
    using unpack_pack_word [of "zip desc_widths ?vs", where 'a = 64]
    unfolding enc_desc_def by simp
  then show ?thesis
    by (simp add: dec_desc_def)
qed

text \<open>What the processor makes of a descriptor.\<close>

definition seg_base :: "gdt_segment_desc \<Rightarrow> u32" where
  "seg_base d = ucast (sd_base1 d) OR push_bit 24 (ucast (sd_base2 d))"

definition seg_limit :: "gdt_segment_desc \<Rightarrow> u32" where
  "seg_limit d =
     (let l = ucast (sd_limit1 d) OR push_bit 16 (ucast (sd_limit2 d)) in
      if sd_g d = 1 then push_bit 12 l OR 0xfff else l)"

section \<open>The task state segment\<close>

record tss_block =
  t_link :: u16
  t_zero1 :: u16
  t_esp0 :: u32
  t_ss0 :: u16
  t_zero2 :: u16
  t_esp1 :: u32
  t_ss1 :: u16
  t_zero3 :: u16
  t_esp2 :: u32
  t_ss2 :: u16
  t_zero4 :: u16
  t_cr3 :: u32
  t_eip :: u32
  t_eflags :: u32
  t_eax :: u32
  t_ecx :: u32
  t_edx :: u32
  t_ebx :: u32
  t_esp :: u32
  t_ebp :: u32
  t_esi :: u32
  t_edi :: u32
  t_es :: u16
  t_zero5 :: u16
  t_cs :: u16
  t_zero6 :: u16
  t_ss :: u16
  t_zero7 :: u16
  t_ds :: u16
  t_zero8 :: u16
  t_fs :: u16
  t_zero9 :: u16
  t_gs :: u16
  t_zero10 :: u16
  t_ldtr :: u16
  t_zero11 :: u32
  t_iopb :: u16
  t_ssp :: u32

text \<open>The bytes of the packed structure, the first field first.\<close>

definition tss_bytes :: "tss_block \<Rightarrow> u8 list" where
  "tss_bytes t =
     le16 (t_link t) @ le16 (t_zero1 t) @ le32 (t_esp0 t) @ le16 (t_ss0 t) @ le16 (t_zero2 t) @
     le32 (t_esp1 t) @ le16 (t_ss1 t) @ le16 (t_zero3 t) @ le32 (t_esp2 t) @ le16 (t_ss2 t) @
     le16 (t_zero4 t) @ le32 (t_cr3 t) @ le32 (t_eip t) @ le32 (t_eflags t) @ le32 (t_eax t) @
     le32 (t_ecx t) @ le32 (t_edx t) @ le32 (t_ebx t) @ le32 (t_esp t) @ le32 (t_ebp t) @
     le32 (t_esi t) @ le32 (t_edi t) @ le16 (t_es t) @ le16 (t_zero5 t) @ le16 (t_cs t) @
     le16 (t_zero6 t) @ le16 (t_ss t) @ le16 (t_zero7 t) @ le16 (t_ds t) @ le16 (t_zero8 t) @
     le16 (t_fs t) @ le16 (t_zero9 t) @ le16 (t_gs t) @ le16 (t_zero10 t) @ le16 (t_ldtr t) @
     le32 (t_zero11 t) @ le16 (t_iopb t) @ le32 (t_ssp t)"

definition TSS_SIZE :: nat where
  "TSS_SIZE = 108"

lemma length_le [simp]: "length (le16 v) = 2" "length (le32 w) = 4"
  by (simp_all add: le16_def le32_def)

lemma length_tss_bytes: "length (tss_bytes t) = TSS_SIZE"
  by (simp add: tss_bytes_def TSS_SIZE_def)

section \<open>The state of the segmentation unit\<close>

record gdtr_desc =
  dt_size :: u16
  dt_offset :: u32

text \<open>
  The static variables of gdt.c, and of the processor the table register, the task
  register and the segment registers.
\<close>

record seg_machine = machine +
  gdt :: "gdt_segment_desc list"
  gdtr :: gdtr_desc
  tss :: tss_block
  cpu_gdtr :: gdtr_desc
  cpu_tr :: u16
  cpu_cs :: u16
  cpu_ds :: u16
  cpu_es :: u16
  cpu_ss :: u16
  cpu_fs :: u16
  cpu_gs :: u16

definition GDT_LIMIT :: nat where
  "GDT_LIMIT = 256"

definition zero_desc :: gdt_segment_desc where
  "zero_desc = \<lparr>sd_limit1 = 0, sd_base1 = 0, sd_a = 0, sd_rw = 0, sd_dc = 0, sd_e = 0, sd_s = 0,
     sd_dpl = 0, sd_p = 0, sd_limit2 = 0, sd_zero = 0, sd_l = 0, sd_db = 0, sd_g = 0, sd_base2 = 0\<rparr>"

definition init_gdt :: "layout \<Rightarrow> 'a seg_machine_scheme \<Rightarrow> 'a seg_machine_scheme" where
  "init_gdt L s =
     (let gdt_len = 8 * GDT_LIMIT;
          s = s\<lparr>gdtr := \<lparr>dt_size = of_nat (gdt_len - 1), dt_offset = gdt_addr L\<rparr>\<rparr>;
          s = s\<lparr>gdt := (gdt s)[0 := zero_desc]\<rparr>;
          s = s\<lparr>gdt := (gdt s)[1 :=
            \<lparr>sd_limit1 = 0xffff, sd_base1 = 0, sd_a = 0, sd_rw = 1, sd_dc = 0, sd_e = 1, sd_s = 1,
             sd_dpl = 0, sd_p = 1, sd_limit2 = 0xf, sd_zero = 0, sd_l = 0, sd_db = 1, sd_g = 1,
             sd_base2 = 0\<rparr>]\<rparr>;
          s = s\<lparr>gdt := (gdt s)[2 :=
            \<lparr>sd_limit1 = 0xffff, sd_base1 = 0, sd_a = 0, sd_rw = 1, sd_dc = 0, sd_e = 0, sd_s = 1,
             sd_dpl = 0, sd_p = 1, sd_limit2 = 0xf, sd_zero = 0, sd_l = 0, sd_db = 1, sd_g = 1,
             sd_base2 = 0\<rparr>]\<rparr>;
          s = s\<lparr>gdt := (gdt s)[3 :=
            \<lparr>sd_limit1 = 0xffff, sd_base1 = 0, sd_a = 0, sd_rw = 1, sd_dc = 0, sd_e = 1, sd_s = 1,
             sd_dpl = 3, sd_p = 1, sd_limit2 = 0xf, sd_zero = 0, sd_l = 0, sd_db = 1, sd_g = 1,
             sd_base2 = 0\<rparr>]\<rparr>;
          s = s\<lparr>gdt := (gdt s)[4 :=
            \<lparr>sd_limit1 = 0xffff, sd_base1 = 0, sd_a = 0, sd_rw = 1, sd_dc = 0, sd_e = 0, sd_s = 1,
             sd_dpl = 3, sd_p = 1, sd_limit2 = 0xf, sd_zero = 0, sd_l = 0, sd_db = 1, sd_g = 1,
             sd_base2 = 0\<rparr>]\<rparr>;
          s = s\<lparr>tss := (tss s)\<lparr>t_ss0 := 0x10\<rparr>\<rparr>;
          s = s\<lparr>tss := (tss s)\<lparr>t_esp0 := 0xd0000000 - 4\<rparr>\<rparr>;
          s = s\<lparr>tss := (tss s)\<lparr>t_iopb := of_nat TSS_SIZE\<rparr>\<rparr>
      in s\<lparr>gdt := (gdt s)[5 :=
            \<lparr>sd_limit1 = of_nat (TSS_SIZE - 1), sd_base1 = ucast (tss_addr L AND 0xffffff),
             sd_a = 1, sd_rw = 0, sd_dc = 0, sd_e = 1, sd_s = 0, sd_dpl = 0, sd_p = 1,
             sd_limit2 = 0, sd_zero = 0, sd_l = 0, sd_db = 1, sd_g = 0,
             sd_base2 = ucast (drop_bit 24 (tss_addr L))\<rparr>]\<rparr>)"

definition set_tss_stack :: "u32 \<Rightarrow> 'a seg_machine_scheme \<Rightarrow> 'a seg_machine_scheme" where
  "set_tss_stack esp0 s = s\<lparr>tss := (tss s)\<lparr>t_esp0 := esp0\<rparr>\<rparr>"

section \<open>Loading\<close>

text \<open>
  The processor resolves a selector through the table register: the table indicator (bit 2)
  has to select the global table, and the descriptor has to lie within the limit. The
  instructions below fault (\<open>None\<close>) when the descriptor does not allow the load at
  privilege level 0. The accessed and busy bits the processor sets in the table
  afterwards are not modelled: nothing in the kernel reads them.
\<close>

definition seg_lookup :: "layout \<Rightarrow> 'a seg_machine_scheme \<Rightarrow> u16 \<Rightarrow> gdt_segment_desc option" where
  "seg_lookup L s sel =
     (let i = unat (drop_bit 3 sel) in
      if i = 0 \<or> bit sel 2 \<or> dt_offset (cpu_gdtr s) \<noteq> gdt_addr L
         \<or> unat (dt_size (cpu_gdtr s)) < 8 * i + 7 \<or> length (gdt s) \<le> i then None
      else Some (gdt s ! i))"

definition code_desc :: "gdt_segment_desc \<Rightarrow> bool" where
  "code_desc d \<longleftrightarrow> sd_s d = 1 \<and> sd_e d = 1 \<and> sd_p d = 1 \<and> sd_db d = 1 \<and> sd_l d = 0"

definition data_desc :: "gdt_segment_desc \<Rightarrow> bool" where
  "data_desc d \<longleftrightarrow> sd_s d = 1 \<and> sd_e d = 0 \<and> sd_rw d = 1 \<and> sd_dc d = 0 \<and> sd_p d = 1 \<and> sd_db d = 1"

text \<open>An available 32-bit task state segment: system type 9.\<close>

definition tss_desc :: "gdt_segment_desc \<Rightarrow> bool" where
  "tss_desc d \<longleftrightarrow>
     sd_s d = 0 \<and> sd_a d = 1 \<and> sd_rw d = 0 \<and> sd_dc d = 0 \<and> sd_e d = 1 \<and> sd_p d = 1"

definition load_check :: "layout \<Rightarrow> 'a seg_machine_scheme \<Rightarrow> (gdt_segment_desc \<Rightarrow> bool) \<Rightarrow> u16 \<Rightarrow> bool" where
  "load_check L s P sel =
     (case seg_lookup L s sel of None \<Rightarrow> False | Some d \<Rightarrow> P d \<and> sd_dpl d = 0)"

text \<open>gdt.s: the data segment registers, then the far jump that loads \<open>cs\<close>.\<close>

definition load_gdt_segments ::
  "layout \<Rightarrow> 'a seg_machine_scheme \<Rightarrow> 'a seg_machine_scheme option" where
  "load_gdt_segments L s =
     (if \<not> load_check L s data_desc 0x10 then None
      else let s = s\<lparr>cpu_ds := 0x10, cpu_es := 0x10, cpu_ss := 0x10, cpu_fs := 0x10, cpu_gs := 0x10\<rparr> in
        if \<not> load_check L s code_desc 0x8 then None
        else Some (s\<lparr>cpu_cs := 0x8\<rparr>))"

definition load_gdt :: "layout \<Rightarrow> 'a seg_machine_scheme \<Rightarrow> 'a seg_machine_scheme option" where
  "load_gdt L s =
     (let s = s\<lparr>cpu_gdtr := gdtr s\<rparr> in
      if \<not> load_check L s tss_desc 0x28 then None
      else load_gdt_segments L (s\<lparr>cpu_tr := 0x28\<rparr>))"

section \<open>Correctness\<close>

lemma split_base:
  "(ucast (ucast (v AND 0xffffff) :: 24 word) :: u32) OR push_bit 24 (ucast (ucast (drop_bit 24 v) :: u8)) = v"
proof -
  have m: "(0xffffff :: u32) = mask 24" by (simp add: mask_eq_exp_minus_1)
  show ?thesis
    unfolding m by (rule bit_word_eqI) (auto simp: bit_simps)
qed

lemma length_init_gdt [simp]: "length (gdt (init_gdt L s)) = length (gdt s)"
  by (simp add: init_gdt_def Let_def)

text \<open>
  A descriptor the C code writes field by field is the descriptor the processor reads
  from the eight packed bytes: packing the fifteen bit fields into 64 bits loses nothing.
\<close>

theorem gdt_desc_roundtrip: "dec_desc (enc_desc d) = d"
  by (rule dec_enc_desc)

text \<open>
  (C16) \<open>init_gdt\<close> followed by \<open>load_gdt\<close> loads the table, the task register and
  all segment registers without a fault, and every selector the kernel uses resolves as it
  should: the code and data selectors of both rings to flat 4 GiB segments of the ring's
  privilege, 0x28 to the task state segment, base and limit.
\<close>

theorem load_gdt_resolves:
  assumes "length (gdt s) = GDT_LIMIT"
  shows "\<exists>s'. load_gdt L (init_gdt L s) = Some s'
    \<and> (cpu_cs s', cpu_ds s', cpu_es s', cpu_ss s', cpu_fs s', cpu_gs s', cpu_tr s')
        = (0x08, 0x10, 0x10, 0x10, 0x10, 0x10, 0x28)
    \<and> mem s' = mem s
    \<and> (\<exists>kc kd uc ud td.
         map (seg_lookup L s') [0x08, 0x10, 0x18 OR 3, 0x20 OR 3, 0x28]
           = [Some kc, Some kd, Some uc, Some ud, Some td]
       \<and> map seg_base [kc, kd, uc, ud, td] = [0, 0, 0, 0, tss_addr L]
       \<and> map seg_limit [kc, kd, uc, ud, td]
           = [0xffffffff, 0xffffffff, 0xffffffff, 0xffffffff, of_nat (TSS_SIZE - 1)]
       \<and> map sd_dpl [kc, kd, uc, ud, td] = [0, 0, 3, 3, 0]
       \<and> code_desc kc \<and> data_desc kd \<and> code_desc uc \<and> data_desc ud \<and> tss_desc td)"
  using assms
  by (simp add: init_gdt_def load_gdt_def load_gdt_segments_def load_check_def seg_lookup_def Let_def
      GDT_LIMIT_def TSS_SIZE_def code_desc_def data_desc_def tss_desc_def seg_base_def seg_limit_def
      split_base)

text \<open>
  \<open>set_tss_stack\<close> changes exactly bytes 4 to 7 of the task state segment, where the
  processor reads the stack pointer of ring 0, and nothing else of the machine.
\<close>

theorem set_tss_stack_bytes:
  "tss_bytes (tss (set_tss_stack esp0 s))
     = take 4 (tss_bytes (tss s)) @ le32 esp0 @ drop 8 (tss_bytes (tss s))
   \<and> (set_tss_stack esp0 s)\<lparr>tss := tss s\<rparr> = s"
  by (simp add: set_tss_stack_def tss_bytes_def)

text \<open>A machine before boot, for the concrete runs.\<close>

definition zero_tss :: tss_block where
  "zero_tss = \<lparr>t_link = 0, t_zero1 = 0, t_esp0 = 0, t_ss0 = 0, t_zero2 = 0, t_esp1 = 0, t_ss1 = 0,
     t_zero3 = 0, t_esp2 = 0, t_ss2 = 0, t_zero4 = 0, t_cr3 = 0, t_eip = 0, t_eflags = 0,
     t_eax = 0, t_ecx = 0, t_edx = 0, t_ebx = 0, t_esp = 0, t_ebp = 0, t_esi = 0, t_edi = 0,
     t_es = 0, t_zero5 = 0, t_cs = 0, t_zero6 = 0, t_ss = 0, t_zero7 = 0, t_ds = 0, t_zero8 = 0,
     t_fs = 0, t_zero9 = 0, t_gs = 0, t_zero10 = 0, t_ldtr = 0, t_zero11 = 0, t_iopb = 0, t_ssp = 0\<rparr>"

definition boot_seg :: seg_machine where
  "boot_seg = \<lparr>mem = \<lambda>a. 0, cr3 = 0, ports = [], gdt = replicate GDT_LIMIT zero_desc,
     gdtr = \<lparr>dt_size = 0, dt_offset = 0\<rparr>, tss = zero_tss,
     cpu_gdtr = \<lparr>dt_size = 0, dt_offset = 0\<rparr>, cpu_tr = 0, cpu_cs = 0, cpu_ds = 0, cpu_es = 0,
     cpu_ss = 0, cpu_fs = 0, cpu_gs = 0\<rparr>"

theorem load_gdt_resolves_witness:
  "\<forall>L. \<exists>s'. load_gdt L (init_gdt L boot_seg) = Some s' \<and> cpu_cs s' = 0x08 \<and> cpu_tr s' = 0x28"
proof -
  have "length (gdt boot_seg) = GDT_LIMIT" by (simp add: boot_seg_def)
  from load_gdt_resolves [OF this]
  show ?thesis
    apply (intro allI)
    subgoal for L
      apply (drule meta_spec [of _ L])
      apply (elim exE conjE)
      apply (rule exI, rule conjI, assumption)
      apply simp
      done
    done
qed

end
