(* ===== verification/Interrupts.thy ===== *)
theory Interrupts
  imports Gdt Kernel_Heap
begin

text \<open>
  Interrupts: the register sets (registers.h, isr.h), the interrupt descriptor table
  (idt.c), the programmable interrupt controllers and the exception handlers (isr.c,
  isr.s) and \<open>kernel_panic\<close> (panic.c).

  The table is memory of the kernel heap; \<open>set_id\<close> writes eight bytes of it. A C
  function that faults has no result (\<open>None\<close>); one that ends in the endless loop of
  \<open>kernel_panic\<close> has the outcome \<open>Panics\<close> with the arguments of the panic.
\<close>

section \<open>Register sets\<close>

record gen_register_set =
  edi :: u32
  esi :: u32
  ebp :: u32
  ebx :: u32
  edx :: u32
  ecx :: u32
  eax :: u32
  esp :: u32

record seg_register_set =
  ds :: u32
  es :: u32
  fs :: u32
  gs :: u32

record interrupt_frame =
  fr_eip :: u32
  fr_cs :: u32
  fr_eflags :: u32
  fr_esp :: u32
  fr_ss :: u32

section \<open>The interrupt descriptor table\<close>

record idt_desc =
  id_offset1 :: u16
  id_selector :: u16
  id_unused :: u8
  id_type :: "4 word"
  id_s :: "1 word"
  id_dpl :: "2 word"
  id_present :: "1 word"
  id_offset2 :: u16

definition id_widths :: "nat list" where
  "id_widths = [16, 16, 8, 4, 1, 2, 1, 16]"

definition enc_id :: "idt_desc \<Rightarrow> u64" where
  "enc_id d = of_nat (pack (zip id_widths
     [unat (id_offset1 d), unat (id_selector d), unat (id_unused d), unat (id_type d),
      unat (id_s d), unat (id_dpl d), unat (id_present d), unat (id_offset2 d)]))"

definition dec_id :: "u64 \<Rightarrow> idt_desc" where
  "dec_id w = (let f = (\<lambda>i. unpack id_widths (unat w) ! i) in
     \<lparr>id_offset1 = of_nat (f 0), id_selector = of_nat (f 1), id_unused = of_nat (f 2),
      id_type = of_nat (f 3), id_s = of_nat (f 4), id_dpl = of_nat (f 5),
      id_present = of_nat (f 6), id_offset2 = of_nat (f 7)\<rparr>)"

lemma dec_enc_id [simp]: "dec_id (enc_id d) = d"
proof -
  let ?vs = "[unat (id_offset1 d), unat (id_selector d), unat (id_unused d), unat (id_type d),
      unat (id_s d), unat (id_dpl d), unat (id_present d), unat (id_offset2 d)]"
  have "fits (zip id_widths ?vs)"
    unfolding id_widths_def zip_Cons_Cons zip.simps(1) fits_simps
    by (intro conjI unat_less_pow TrueI) simp_all
  moreover have "map fst (zip id_widths ?vs) = id_widths" "map snd (zip id_widths ?vs) = ?vs"
    "sum_list id_widths \<le> LENGTH(64)"
    by (simp_all add: id_widths_def)
  ultimately have "unpack id_widths (unat (enc_id d)) = ?vs"
    using unpack_pack_word [of "zip id_widths ?vs", where 'a = 64]
    unfolding enc_id_def by simp
  then show ?thesis
    by (simp add: dec_id_def)
qed

record idtr_desc =
  idtr_size :: u16
  idtr_offset :: u32

record intr_machine = seg_machine +
  idt :: u32
  idtr :: idtr_desc
  cpu_idtr :: idtr_desc
  iflag :: bool

definition IDT_LIMIT :: nat where
  "IDT_LIMIT = 256"

definition IDT_PROT_INTR :: u8 where
  "IDT_PROT_INTR = 0xe"

definition IRQ_OFFSET :: u8 where
  "IRQ_OFFSET = 0x20"

definition init_idt :: "'a intr_machine_scheme \<Rightarrow> 'a intr_machine_scheme option" where
  "init_idt s =
     (let idt_len = 8 * IDT_LIMIT in do {
        (p, s) \<leftarrow> kernel_allocate rd8 wr8 s (of_nat idt_len);
        let s = s\<lparr>idt := p\<rparr>;
        Some (s\<lparr>idtr := \<lparr>idtr_size = of_nat (idt_len - 1), idtr_offset = idt s\<rparr>\<rparr>)
      })"

definition set_id ::
  "u8 \<Rightarrow> u32 \<Rightarrow> u16 \<Rightarrow> u8 \<Rightarrow> u8 \<Rightarrow> u8 \<Rightarrow> 'a intr_machine_scheme \<Rightarrow> 'a intr_machine_scheme option" where
  "set_id idt_pos offset selector type dpl present s =
     wr64 wr8 s (idt s + 8 * ucast idt_pos) (enc_id
       \<lparr>id_offset1 = ucast (offset AND 0xffff), id_selector = selector, id_unused = 0,
        id_type = ucast type, id_s = 0, id_dpl = ucast dpl, id_present = ucast present,
        id_offset2 = ucast (drop_bit 16 offset AND 0xffff)\<rparr>)"

definition load_idt :: "'a intr_machine_scheme \<Rightarrow> 'a intr_machine_scheme" where
  "load_idt s = s\<lparr>cpu_idtr := idtr s\<rparr>"

definition enable_interrupts :: "'a intr_machine_scheme \<Rightarrow> 'a intr_machine_scheme" where
  "enable_interrupts s = s\<lparr>iflag := True\<rparr>"

definition disable_interrupts :: "'a intr_machine_scheme \<Rightarrow> 'a intr_machine_scheme" where
  "disable_interrupts s = s\<lparr>iflag := False\<rparr>"

section \<open>The interrupt controllers\<close>

definition PIC_EOI :: u8 where
  "PIC_EOI = 0x20"

definition PIC_COMMAND1 :: u32 where
  "PIC_COMMAND1 = KERNEL_BASE + 0x20"

definition PIC_DATA1 :: u32 where
  "PIC_DATA1 = KERNEL_BASE + 0x21"

definition PIC_COMMAND2 :: u32 where
  "PIC_COMMAND2 = KERNEL_BASE + 0xa0"

definition PIC_DATA2 :: u32 where
  "PIC_DATA2 = KERNEL_BASE + 0xa1"

definition init_pic :: "'a machine_scheme \<Rightarrow> 'a machine_scheme" where
  "init_pic s =
     (let s = outportb PIC_COMMAND1 0x11 s;
          s = outportb PIC_COMMAND2 0x11 s;
          s = outportb PIC_DATA1 IRQ_OFFSET s;
          s = outportb PIC_DATA2 IRQ_OFFSET s;
          s = outportb PIC_DATA1 0x04 s;
          s = outportb PIC_DATA2 2 s;
          s = outportb PIC_DATA1 1 s;
          s = outportb PIC_DATA2 1 s;
          s = outportb PIC_DATA1 0 s
      in outportb PIC_DATA2 0 s)"

section \<open>Exceptions\<close>

definition init_exceptions :: "layout \<Rightarrow> 'a intr_machine_scheme \<Rightarrow> 'a intr_machine_scheme option" where
  "init_exceptions L s = do {
     s \<leftarrow> set_id 0 (isr_addr L Divbyzero) 0x08 IDT_PROT_INTR 0 1 s;
     s \<leftarrow> set_id 1 (isr_addr L Debug) 0x08 IDT_PROT_INTR 0 1 s;
     s \<leftarrow> set_id 2 (isr_addr L Nonmask) 0x08 IDT_PROT_INTR 0 1 s;
     s \<leftarrow> set_id 3 (isr_addr L Breakpoint) 0x08 IDT_PROT_INTR 0 1 s;
     s \<leftarrow> set_id 4 (isr_addr L Overflow) 0x08 IDT_PROT_INTR 0 1 s;
     s \<leftarrow> set_id 5 (isr_addr L Boundrange) 0x08 IDT_PROT_INTR 0 1 s;
     s \<leftarrow> set_id 6 (isr_addr L Invalop) 0x08 IDT_PROT_INTR 0 1 s;
     s \<leftarrow> set_id 7 (isr_addr L Nodevice) 0x08 IDT_PROT_INTR 0 1 s;
     s \<leftarrow> set_id 8 (isr_addr L Doublefault) 0x08 IDT_PROT_INTR 0 1 s;
     s \<leftarrow> set_id 10 (isr_addr L Invaltss) 0x08 IDT_PROT_INTR 0 1 s;
     s \<leftarrow> set_id 11 (isr_addr L Nosegment) 0x08 IDT_PROT_INTR 0 1 s;
     s \<leftarrow> set_id 12 (isr_addr L Stackseg) 0x08 IDT_PROT_INTR 0 1 s;
     s \<leftarrow> set_id 13 (isr_addr L Genprotection) 0x08 IDT_PROT_INTR 0 1 s;
     set_id 39 (isr_addr L Divbyzero) 0x08 IDT_PROT_INTR 0 1 s
   }"

datatype panic = Panics string seg_register_set gen_register_set interrupt_frame u32

definition kernel_panic ::
  "string \<Rightarrow> seg_register_set \<Rightarrow> gen_register_set \<Rightarrow> interrupt_frame \<Rightarrow> u32 \<Rightarrow> panic" where
  "kernel_panic msg seg_regs gen_regs frame ecode = Panics msg seg_regs gen_regs frame ecode"

definition divbyzero_handler :: "seg_register_set \<Rightarrow> gen_register_set \<Rightarrow> interrupt_frame \<Rightarrow> panic" where
  "divbyzero_handler seg_regs gen_regs frame =
     kernel_panic ''Division-by-zero exception occured.'' seg_regs gen_regs frame 0"

definition debug_handler :: "seg_register_set \<Rightarrow> gen_register_set \<Rightarrow> interrupt_frame \<Rightarrow> panic" where
  "debug_handler seg_regs gen_regs frame =
     kernel_panic ''Debug exception.'' seg_regs gen_regs frame 0"

definition nonmask_handler :: "seg_register_set \<Rightarrow> gen_register_set \<Rightarrow> interrupt_frame \<Rightarrow> panic" where
  "nonmask_handler seg_regs gen_regs frame =
     kernel_panic ''Non-maskable interrupt.'' seg_regs gen_regs frame 0"

definition breakpoint_handler :: "seg_register_set \<Rightarrow> gen_register_set \<Rightarrow> interrupt_frame \<Rightarrow> panic" where
  "breakpoint_handler seg_regs gen_regs frame =
     kernel_panic ''Breakpoint exception.'' seg_regs gen_regs frame 0"

definition overflow_handler :: "seg_register_set \<Rightarrow> gen_register_set \<Rightarrow> interrupt_frame \<Rightarrow> panic" where
  "overflow_handler seg_regs gen_regs frame =
     kernel_panic ''Overflow exception.'' seg_regs gen_regs frame 0"

definition boundrange_handler :: "seg_register_set \<Rightarrow> gen_register_set \<Rightarrow> interrupt_frame \<Rightarrow> panic" where
  "boundrange_handler seg_regs gen_regs frame =
     kernel_panic ''Bound range exceeded exception.'' seg_regs gen_regs frame 0"

definition invalop_handler :: "seg_register_set \<Rightarrow> gen_register_set \<Rightarrow> interrupt_frame \<Rightarrow> panic" where
  "invalop_handler seg_regs gen_regs frame =
     kernel_panic ''Invalid opcode exception.'' seg_regs gen_regs frame 0"

definition nodevice_handler :: "seg_register_set \<Rightarrow> gen_register_set \<Rightarrow> interrupt_frame \<Rightarrow> panic" where
  "nodevice_handler seg_regs gen_regs frame =
     kernel_panic ''Device not available exception.'' seg_regs gen_regs frame 0"

definition doublefault_handler ::
  "seg_register_set \<Rightarrow> gen_register_set \<Rightarrow> u32 \<Rightarrow> interrupt_frame \<Rightarrow> panic" where
  "doublefault_handler seg_regs gen_regs ecode frame =
     kernel_panic ''Double fault exception.'' seg_regs gen_regs frame ecode"

definition invaltss_handler ::
  "seg_register_set \<Rightarrow> gen_register_set \<Rightarrow> u32 \<Rightarrow> interrupt_frame \<Rightarrow> panic" where
  "invaltss_handler seg_regs gen_regs ecode frame =
     kernel_panic ''Invalid TSS exception.'' seg_regs gen_regs frame ecode"

definition nosegment_handler ::
  "seg_register_set \<Rightarrow> gen_register_set \<Rightarrow> u32 \<Rightarrow> interrupt_frame \<Rightarrow> panic" where
  "nosegment_handler seg_regs gen_regs ecode frame =
     kernel_panic ''Segment not present exception.'' seg_regs gen_regs frame ecode"

definition stackseg_handler ::
  "seg_register_set \<Rightarrow> gen_register_set \<Rightarrow> u32 \<Rightarrow> interrupt_frame \<Rightarrow> panic" where
  "stackseg_handler seg_regs gen_regs ecode frame =
     kernel_panic ''Stack segment exception.'' seg_regs gen_regs frame ecode"

definition genprotection_handler ::
  "seg_register_set \<Rightarrow> gen_register_set \<Rightarrow> u32 \<Rightarrow> interrupt_frame \<Rightarrow> panic" where
  "genprotection_handler seg_regs gen_regs ecode frame =
     kernel_panic ''General protection exception.'' seg_regs gen_regs frame ecode"

text \<open>paging.c has the handler of page faults; its gate is set by \<open>init_paging\<close>.\<close>

definition pagefault_handler ::
  "seg_register_set \<Rightarrow> gen_register_set \<Rightarrow> u32 \<Rightarrow> interrupt_frame \<Rightarrow> panic" where
  "pagefault_handler seg_regs gen_regs eid frame =
     kernel_panic ''Page fault.'' seg_regs gen_regs frame eid"

section \<open>The interface of a table of gates\<close>

text \<open>
  What the code that installs handlers relies on: setting a gate succeeds, changes the
  lookup at that vector only, and keeps the table usable; \<open>frame\<close> says what else
  may change. \<open>install\<close> sets the gates of a list in order.
\<close>

fun install :: "('v \<Rightarrow> 'h \<Rightarrow> 's \<Rightarrow> 's option) \<Rightarrow> ('v \<times> 'h) list \<Rightarrow> 's \<Rightarrow> 's option" where
  "install set_gate [] s = Some s"
| "install set_gate ((v, h) # hs) s = do { s \<leftarrow> set_gate v h s; install set_gate hs s }"

fun upds :: "('v \<Rightarrow> 'h) \<Rightarrow> ('v \<times> 'h) list \<Rightarrow> 'v \<Rightarrow> 'h" where
  "upds f [] = f"
| "upds f ((v, h) # hs) = upds (f(v := h)) hs"

locale gate_table =
  fixes set_gate :: "'v \<Rightarrow> 'h \<Rightarrow> 's \<Rightarrow> 's option"
    and gate_of :: "'s \<Rightarrow> 'v \<Rightarrow> 'h"
    and ok :: "'s \<Rightarrow> bool"
    and frame :: "'s \<Rightarrow> 's \<Rightarrow> bool"
  assumes set_gate: "ok s \<Longrightarrow> \<exists>s'. set_gate v h s = Some s' \<and> ok s' \<and>
      gate_of s' = (gate_of s)(v := h) \<and> frame s s'"
    and frame_refl: "frame s s"
    and frame_trans: "frame s s' \<Longrightarrow> frame s' s'' \<Longrightarrow> frame s s''"
begin

lemma install_gates:
  "ok s \<Longrightarrow> \<exists>s'. install set_gate hs s = Some s' \<and> ok s' \<and> frame s s' \<and>
     gate_of s' = upds (gate_of s) hs"
proof (induction hs arbitrary: s)
  case Nil
  then show ?case by (simp add: frame_refl)
next
  case (Cons vh hs)
  obtain v h where vh: "vh = (v, h)" by (cases vh)
  obtain s1 where s1: "set_gate v h s = Some s1" "ok s1" "gate_of s1 = (gate_of s)(v := h)" "frame s s1"
    using set_gate [OF Cons.prems] by blast
  obtain s2 where "install set_gate hs s1 = Some s2" "ok s2" "frame s1 s2"
    "gate_of s2 = upds (gate_of s1) hs"
    using Cons.IH [OF s1(2)] by blast
  with s1 frame_trans show ?case by (auto simp: vh simp del: fun_upd_apply)
qed

end

section \<open>The table of the kernel provides it\<close>

definition gate :: "'a intr_machine_scheme \<Rightarrow> u8 \<Rightarrow> idt_desc" where
  "gate s v = dec_id (ld64 (mem s) (idt s + 8 * ucast v))"

definition set_desc :: "u8 \<Rightarrow> idt_desc \<Rightarrow> 'a intr_machine_scheme \<Rightarrow> 'a intr_machine_scheme option" where
  "set_desc v d s = wr64 wr8 s (idt s + 8 * ucast v) (enc_id d)"

text \<open>The table is a live region of the heap of at least 2048 bytes.\<close>

definition idt_live :: "(u32 \<times> nat) set \<Rightarrow> 'a intr_machine_scheme \<Rightarrow> bool" where
  "idt_live A s \<longleftrightarrow> kernel_live s A \<and> (\<exists>n \<ge> 8 * IDT_LIMIT. (idt s, n) \<in> A)"

definition idt_frame :: "'a intr_machine_scheme \<Rightarrow> 'a intr_machine_scheme \<Rightarrow> bool" where
  "idt_frame s s' \<longleftrightarrow> (\<exists>m. s' = s\<lparr>mem := m\<rparr> \<and> (\<forall>x. x \<notin> region (idt s) (8 * IDT_LIMIT) \<longrightarrow> m x = mem s x))"

lemma unat_gate_addr:
  assumes "unat p + 2048 \<le> 2 ^ 32" "i < 8"
  shows "unat (p + 8 * ucast (v :: u8) + of_nat i :: u32) = unat p + 8 * unat v + i"
proof -
  have v: "unat v < 256" using unsigned_less [of v] by simp
  have "p + 8 * ucast v + of_nat i = p + of_nat (8 * unat v + i)" by simp
  also have "unat \<dots> = unat p + (8 * unat v + i)"
    using assms v by (intro unat_add_of_nat) linarith
  finally show ?thesis by simp
qed

lemma gate_addr_disj:
  assumes "unat p + 2048 \<le> 2 ^ 32" "v \<noteq> w"
  shows "disj (p + 8 * ucast (v :: u8)) 8 (p + 8 * ucast (w :: u8) :: u32) 8"
proof -
  have *: "unat (p + 8 * ucast x :: u32) = unat p + 8 * unat x" for x :: u8
    using unat_gate_addr [OF assms(1), of 0 x] by simp
  have "unat v \<noteq> unat w" using assms(2) by (simp add: word_unat_eq_iff)
  moreover have "unat v < 256" "unat w < 256"
    using unsigned_less [of v] unsigned_less [of w] by simp_all
  ultimately show ?thesis
    using assms(1) by (intro disjI) (unfold *, linarith+)
qed

lemma set_desc_gate:
  assumes "idt_live A s"
  shows "\<exists>s'. set_desc v d s = Some s' \<and> idt_live A s' \<and> gate s' = (gate s)(v := d) \<and> idt_frame s s'"
proof -
  obtain n where n: "2048 \<le> n" "(idt s, n) \<in> A" and live: "kernel_live s A"
    using assms by (auto simp: idt_live_def IDT_LIMIT_def)
  note b = live_bounds [OF live n(2)]
  have p: "unat (idt s) + 2048 \<le> 2 ^ 32" using b n(1) by simp
  have v: "unat v < 256" using unsigned_less [of v] by simp
  let ?a = "idt s + 8 * ucast v" and ?m = "st64 (mem s) (idt s + 8 * ucast v) (enc_id d)"
  have "KERNEL_BASE \<le> ?a + of_nat i" if "i < 8" for i
    using b unat_gate_addr [OF p that, of v] by (simp add: word_le_nat_alt)
  then have w: "set_desc v d s = Some (s\<lparr>mem := ?m\<rparr>)"
    unfolding set_desc_def by (intro kmem.wr64_upd)
  have far: "8 \<le> unat (x - ?a)" if "x \<notin> region (idt s) 2048" for x
  proof (rule ccontr)
    assume "\<not> 8 \<le> unat (x - ?a)"
    then have i: "unat (x - ?a) < 8" by simp
    have "x = ?a + of_nat (unat (x - ?a))" by simp
    then have "unat x = unat (idt s) + 8 * unat v + unat (x - ?a)"
      using unat_gate_addr [OF p i, of v] by (simp only:)
    with i v that show False by (simp add: region_def inside_def)
  qed
  then have fr: "?m x = mem s x" if "x \<notin> region (idt s) 2048" for x
    using that by (simp add: st64_other)
  have "region (idt s) 2048 \<subseteq> region (idt s) n" using n(1) by (auto simp: region_def inside_def)
  also have "\<dots> \<subseteq> regions A" using n(2) by (auto simp: regions_def)
  finally have "kernel_live (s\<lparr>mem := ?m\<rparr>) A"
    using fr by (intro kheap.live_write [OF live]) blast
  moreover have "gate (s\<lparr>mem := ?m\<rparr>) = (gate s)(v := d)"
    proof (rule ext)
    fix w show "gate (s\<lparr>mem := ?m\<rparr>) w = ((gate s)(v := d)) w"
      using gate_addr_disj [OF p, of v w] by (cases "v = w") (simp_all add: gate_def ld64_st64_disj)
  qed
  moreover have "idt_frame s (s\<lparr>mem := ?m\<rparr>)"
    unfolding idt_frame_def IDT_LIMIT_def using fr by (intro exI [of _ ?m]) simp
  moreover have "idt (s\<lparr>mem := ?m\<rparr>) = idt s" by simp
  ultimately show ?thesis
    unfolding w idt_live_def IDT_LIMIT_def using n by (intro exI [of _ "s\<lparr>mem := ?m\<rparr>"]) auto
qed

lemma gate_cong:
  assumes "idt_live A s" "idt s' = idt s" "\<And>x. x \<in> region (idt s) 2048 \<Longrightarrow> mem s' x = mem s x"
  shows "gate s' = gate s"
proof
  fix v :: u8
  obtain n where n: "2048 \<le> n" "(idt s, n) \<in> A" and live: "kernel_live s A"
    using assms(1) by (auto simp: idt_live_def IDT_LIMIT_def)
  have p: "unat (idt s) + 2048 \<le> 2 ^ 32" using live_bounds [OF live n(2)] n(1) by simp
  have v: "unat v < 256" using unsigned_less [of v] by simp
  let ?a = "idt s + 8 * ucast v"
  have w0: "mem s' (?a + of_nat i) = mem s (?a + of_nat i)" if "i < 8" for i
    using unat_gate_addr [OF p that, of v] that v
    by (intro assms(3)) (simp add: region_def inside_def)
  have w: "mem s' (?a + of_nat i + of_nat j) = mem s (?a + of_nat i + of_nat j)" if "i + j < 8" for i j
    using w0 [OF that] by (simp only: of_nat_add add.assoc)
  have "ld32 (mem s') (?a + of_nat i) = ld32 (mem s) (?a + of_nat i)" if "i \<le> 4" for i
    using that by (intro ld32_cong w) simp
  from this [of 0] this [of 4] show "gate s' v = gate s v"
    by (simp add: gate_def ld64_def assms(2))
qed

interpretation gates: gate_table set_desc gate "idt_live A" idt_frame for A
proof
  show "idt_live A s \<Longrightarrow> \<exists>s'. set_desc v d s = Some s' \<and> idt_live A s' \<and> gate s' = (gate s)(v := d) \<and>
    idt_frame s s'" for s :: "'a intr_machine_scheme" and v d
    by (rule set_desc_gate)
  show "idt_frame s s" for s :: "'a intr_machine_scheme"
    by (auto simp: idt_frame_def intro!: exI [of _ "mem s"])
  show "idt_frame s s' \<Longrightarrow> idt_frame s' s'' \<Longrightarrow> idt_frame s s''" for s s' s'' :: "'a intr_machine_scheme"
    by (auto simp: idt_frame_def)
qed

section \<open>Correctness of the interrupt setup\<close>

text \<open>The gate of an interrupt handler of the kernel, and the address a gate leads to.\<close>

definition intr_gate :: "u32 \<Rightarrow> idt_desc" where
  "intr_gate offset =
     \<lparr>id_offset1 = ucast (offset AND 0xffff), id_selector = 0x08, id_unused = 0, id_type = 0xe,
      id_s = 0, id_dpl = 0, id_present = 1, id_offset2 = ucast (drop_bit 16 offset AND 0xffff)\<rparr>"

definition gate_target :: "idt_desc \<Rightarrow> u32" where
  "gate_target d = ucast (id_offset1 d) OR push_bit 16 (ucast (id_offset2 d))"

lemma gate_target_intr [simp]: "gate_target (intr_gate offset) = offset"
proof -
  have m: "(0xffff :: u32) = mask 16" by (simp add: mask_eq_exp_minus_1)
  show ?thesis
    unfolding gate_target_def intr_gate_def m
    by (simp, rule bit_word_eqI) (auto simp: bit_simps)
qed

lemma set_id_intr: "set_id v offset 0x08 IDT_PROT_INTR 0 1 s = set_desc v (intr_gate offset) s"
  by (simp add: set_id_def set_desc_def intr_gate_def IDT_PROT_INTR_def)

definition exception_table :: "(u8 \<times> isr) list" where
  "exception_table =
     [(0, Divbyzero), (1, Debug), (2, Nonmask), (3, Breakpoint), (4, Overflow), (5, Boundrange),
      (6, Invalop), (7, Nodevice), (8, Doublefault), (10, Invaltss), (11, Nosegment),
      (12, Stackseg), (13, Genprotection), (39, Divbyzero)]"

lemma install_eta:
  "install f [] = Some"
  "install f ((v, h) # hs) = (\<lambda>s. f v h s \<bind> install f hs)"
  by (rule ext, simp)+

lemma init_exceptions_install:
  "init_exceptions L s = install set_desc (map (\<lambda>(v, h). (v, intr_gate (isr_addr L h))) exception_table) s"
  by (simp add: init_exceptions_def exception_table_def set_id_intr install_eta del: install.simps)

lemma upds_map:
  "distinct (map fst hs) \<Longrightarrow>
   upds f hs v = (case map_of hs v of None \<Rightarrow> f v | Some h \<Rightarrow> h)"
proof (induction hs arbitrary: f)
  case (Cons vh hs)
  then show ?case
    by (cases vh) (auto split: option.splits simp: map_of_eq_None_iff dest!: map_of_SomeD intro: rev_image_eqI)
qed simp

text \<open>
  \<open>init_idt\<close> allocates the table: it is a live region of the heap of at least 2048
  bytes, apart from all others, and the limit of the register is 2047. When the heap has no
  block for it, the table is put at address 0 and nothing is allocated.
\<close>

theorem init_idt_allocates:
  assumes "kernel_live s A"
  shows "\<exists>s'. init_idt s = Some s' \<and> idtr s' = \<lparr>idtr_size = 2047, idtr_offset = idt s'\<rparr> \<and>
    (if idt s' = 0 then mem s' = mem s
     else \<exists>n \<ge> 2048. idt_live (insert (idt s', n) A) s' \<and> region (idt s') n \<inter> regions A = {} \<and>
       (\<forall>x \<in> regions A \<union> - kernel_area. mem s' x = mem s x))"
proof -
  have sz: "unat (2048 :: u32) + 1 < 2 ^ 31" by simp
  from kheap.alloc_cases [OF assms sz] show ?thesis
  proof (elim disjE exE conjE)
    assume "kernel_allocate rd8 wr8 s 2048 = Some (0, s)"
    then show ?thesis by (simp add: init_idt_def IDT_LIMIT_def)
  next
    fix p n m
    assume a: "kernel_allocate rd8 wr8 s 2048 = Some (p, s\<lparr>mem := m\<rparr>)" "p \<noteq> 0"
    obtain n where n: "2048 \<le> n" "kernel_live (s\<lparr>mem := m\<rparr>) (insert (p, n) A)"
      "region p n \<inter> regions A = {}" "\<forall>x \<in> regions A \<union> - kernel_area. m x = mem s x"
      using kheap.alloc_fresh [OF assms sz a] by auto
    show ?thesis
      using a n by (auto simp: init_idt_def IDT_LIMIT_def idt_live_def kernel_live_def intro!: exI [of _ n])
  qed
qed

text \<open>A machine with memory \<open>m\<close> and the table at \<open>p\<close>, for the concrete runs.\<close>

definition boot_intr :: "bytes \<Rightarrow> u32 \<Rightarrow> intr_machine" where
  "boot_intr m p = \<lparr>mem = m, cr3 = 0, ports = [], gdt = replicate GDT_LIMIT zero_desc,
     gdtr = \<lparr>dt_size = 0, dt_offset = 0\<rparr>, tss = zero_tss,
     cpu_gdtr = \<lparr>dt_size = 0, dt_offset = 0\<rparr>, cpu_tr = 0, cpu_cs = 0, cpu_ds = 0, cpu_es = 0,
     cpu_ss = 0, cpu_fs = 0, cpu_gs = 0, idt = p, idtr = \<lparr>idtr_size = 0, idtr_offset = 0\<rparr>,
     cpu_idtr = \<lparr>idtr_size = 0, idtr_offset = 0\<rparr>, iflag = False\<rparr>"

lemma boot_intr_fields [simp]: "mem (boot_intr m p) = m" "idt (boot_intr m p) = p"
  by (simp_all add: boot_intr_def)

theorem init_idt_allocates_witness:
  "kernel_live (boot_intr (mem one_free) 0) {} \<and>
   (\<exists>s'. init_idt (boot_intr (mem one_free) 0) = Some s' \<and> idtr_size (idtr s') = 2047)"
proof -
  have "kernel_live (boot_intr (mem one_free) 0) {}"
    using one_free_live by (simp add: kernel_live_def)
  from init_idt_allocates [OF this] this show ?thesis
    by (metis (no_types, lifting) idtr_desc.select_convs(1))
qed

definition used_region :: "(u32 \<times> nat) set" where
  "used_region = {(0xd0000000, 2 ^ 29 - 1)}"

lemma boot_intr_live: "idt_live used_region (boot_intr (mem one_used) 0xd0000000)"
proof -
  have "kernel_live (boot_intr (mem one_used) 0xd0000000) used_region"
    unfolding kernel_live_def used_region_def
    by (rule exI [of _ "[(29, True), (0, False)]"]) (simp add: one_used_heap_ok payload_def)
  then show ?thesis by (simp add: idt_live_def used_region_def IDT_LIMIT_def)
qed

text \<open>
  \<open>set_id\<close> on a table the kernel allocated succeeds and installs exactly the gate
  it was given, the type cut to four bits, the privilege level to two and the present flag
  to one: the handler's address is read back from the two halves, every other gate and every
  byte outside the table are unchanged, and the heap stays well formed.
\<close>

theorem set_id_installs_gate:
  assumes "idt_live A s"
  shows "\<exists>s' d. set_id v offset selector type dpl present s = Some s' \<and>
    gate s' = (gate s)(v := d) \<and> gate_target d = offset \<and> id_selector d = selector \<and>
    id_type d = ucast type \<and> id_dpl d = ucast dpl \<and> id_present d = ucast present \<and>
    idt_live A s' \<and> idt_frame s s'"
proof -
  let ?d = "\<lparr>id_offset1 = ucast (offset AND 0xffff), id_selector = selector, id_unused = 0,
        id_type = ucast type, id_s = 0, id_dpl = ucast dpl, id_present = ucast present,
        id_offset2 = ucast (drop_bit 16 offset AND 0xffff)\<rparr>"
  have e: "set_id v offset selector type dpl present s = set_desc v ?d s"
    by (simp add: set_id_def set_desc_def)
  have t: "gate_target ?d = offset"
    using gate_target_intr [of offset] by (simp add: gate_target_def intr_gate_def)
  obtain s' where "set_desc v ?d s = Some s'" "idt_live A s'" "gate s' = (gate s)(v := ?d)" "idt_frame s s'"
    using set_desc_gate [OF assms] by blast
  then show ?thesis
    unfolding e by (intro exI [of _ s'] exI [of _ ?d]) (simp add: t)
qed

theorem set_id_installs_gate_witness:
  "\<exists>s'. set_id 14 0xc0101234 0x08 0xe 0 1 (boot_intr (mem one_used) 0xd0000000) = Some s' \<and>
     gate_target (gate s' 14) = 0xc0101234 \<and> id_selector (gate s' 14) = 0x08"
  using set_id_installs_gate [OF boot_intr_live, of 14 "0xc0101234" "0x08" "0xe" 0 1]
  apply (elim exE conjE)
  subgoal for s' d by (rule exI [of _ s']) simp
  done

text \<open>
  (C19) \<open>init_exceptions\<close> installs all its handlers: afterwards each vector of the table
  leads to its wrapper through a present ring-0 interrupt gate, and the gates of all other
  vectors are unchanged.
\<close>

theorem init_exceptions_gates:
  assumes "idt_live A s"
  shows "\<exists>s'. init_exceptions L s = Some s' \<and> idt_live A s' \<and> idt_frame s s' \<and>
    (\<forall>v. gate s' v = (case map_of exception_table v of
        None \<Rightarrow> gate s v | Some h \<Rightarrow> intr_gate (isr_addr L h)))"
proof -
  let ?hs = "map (\<lambda>(v, h). (v, intr_gate (isr_addr L h))) exception_table"
  obtain s' where s': "install set_desc ?hs s = Some s'" "idt_live A s'" "idt_frame s s'"
    "gate s' = upds (gate s) ?hs"
    using gates.install_gates [OF assms] by blast
  have d: "distinct (map fst ?hs)" by (simp add: exception_table_def)
  have "map_of ?hs v = map_option (\<lambda>h. intr_gate (isr_addr L h)) (map_of exception_table v)" for v
    by (simp add: map_of_map)
  then have "gate s' v = (case map_of exception_table v of
        None \<Rightarrow> gate s v | Some h \<Rightarrow> intr_gate (isr_addr L h))" for v
    unfolding s'(4) upds_map [OF d] by (cases "map_of exception_table v") simp_all
  with s' show ?thesis by (simp add: init_exceptions_install)
qed

theorem init_exceptions_gates_witness:
  "\<forall>L. \<exists>s'. init_exceptions L (boot_intr (mem one_used) 0xd0000000) = Some s' \<and>
     gate s' 13 = intr_gate (isr_addr L Genprotection) \<and>
     gate s' 39 = intr_gate (isr_addr L Divbyzero)"
proof
  fix L
  have m: "map_of exception_table 13 = Some Genprotection" "map_of exception_table 39 = Some Divbyzero"
    by (simp_all add: exception_table_def)
  obtain s' where s': "init_exceptions L (boot_intr (mem one_used) 0xd0000000) = Some s'"
    and g: "\<And>v. gate s' v = (case map_of exception_table v of
        None \<Rightarrow> gate (boot_intr (mem one_used) 0xd0000000) v | Some h \<Rightarrow> intr_gate (isr_addr L h))"
    using init_exceptions_gates [OF boot_intr_live, of L] by blast
  show "\<exists>s'. init_exceptions L (boot_intr (mem one_used) 0xd0000000) = Some s' \<and>
     gate s' 13 = intr_gate (isr_addr L Genprotection) \<and> gate s' 39 = intr_gate (isr_addr L Divbyzero)"
    by (rule exI [of _ s']) (simp add: s' g m)
qed

section \<open>What the controllers make of their programming\<close>

text \<open>
  The 8259: a write to the command port with bit 4 set starts the initialisation; the next
  three writes to the data port are the vector offset, the cascade wiring and the mode, later
  ones the interrupt mask.
\<close>

record pic =
  pic_step :: nat
  pic_offset :: u8
  pic_cascade :: u8
  pic_mode :: u8
  pic_mask :: u8

definition pic_write :: "u16 \<Rightarrow> u16 \<Rightarrow> u16 \<times> u8 \<Rightarrow> pic \<Rightarrow> pic" where
  "pic_write cmd dat w p =
     (let (port, v) = w in
      if port = cmd then (if bit v 4 then p\<lparr>pic_step := 1\<rparr> else p)
      else if port \<noteq> dat then p
      else if pic_step p = 1 then p\<lparr>pic_offset := v, pic_step := 2\<rparr>
      else if pic_step p = 2 then p\<lparr>pic_cascade := v, pic_step := 3\<rparr>
      else if pic_step p = 3 then p\<lparr>pic_mode := v, pic_step := 0\<rparr>
      else p\<lparr>pic_mask := v\<rparr>)"

definition pic_run :: "u16 \<Rightarrow> u16 \<Rightarrow> (u16 \<times> u8) list \<Rightarrow> pic \<Rightarrow> pic" where
  "pic_run cmd dat ws p = fold (pic_write cmd dat) ws p"

text \<open>
  \<open>init_pic\<close> programs both interrupt controllers completely whatever state they were
  in: 8086 mode, cascaded on line 2, all lines unmasked. But both get the vector offset 0x20:
  line n of the second controller raises the vector of line n of the first.
\<close>

theorem init_pic_programs:
  "\<exists>ws. ports (init_pic s) = ports s @ ws \<and>
     pic_run 0x20 0x21 ws p = \<lparr>pic_step = 0, pic_offset = 0x20, pic_cascade = 4, pic_mode = 1, pic_mask = 0\<rparr> \<and>
     pic_run 0xa0 0xa1 ws q = \<lparr>pic_step = 0, pic_offset = 0x20, pic_cascade = 2, pic_mode = 1, pic_mask = 0\<rparr>"
proof -
  let ?ws = "[(0x20, 0x11), (0xa0, 0x11), (0x21, 0x20), (0xa1, 0x20), (0x21, 4), (0xa1, 2), (0x21, 1),
    (0xa1, 1), (0x21, 0), (0xa1, 0)] :: (u16 \<times> u8) list"
  have b: "bit (17 :: u8) 4" by (simp add: bit_iff_odd)
  have "ports (init_pic s) = ports s @ ?ws"
    by (simp add: init_pic_def outportb_def Let_def PIC_COMMAND1_def PIC_COMMAND2_def PIC_DATA1_def
        PIC_DATA2_def IRQ_OFFSET_def)
  moreover have "pic_run 0x20 0x21 ?ws p
      = \<lparr>pic_step = 0, pic_offset = 0x20, pic_cascade = 4, pic_mode = 1, pic_mask = 0\<rparr>"
    by (cases p) (simp add: pic_run_def pic_write_def b)
  moreover have "pic_run 0xa0 0xa1 ?ws q
      = \<lparr>pic_step = 0, pic_offset = 0x20, pic_cascade = 2, pic_mode = 1, pic_mask = 0\<rparr>"
    by (cases q) (simp add: pic_run_def pic_write_def b)
  ultimately show ?thesis by blast
qed

section \<open>The arguments of the handlers\<close>

text \<open>
  The wrappers of isr.s (macro \<open>START_ISR\<close>) push the general registers but
  \<open>esp\<close>, then the segment registers, and call the handler. The stack is the list of its
  words, the last pushed first; before the wrapper it holds what the processor pushed.
  The handler takes its arguments from consecutive words: four of \<open>seg_register_set\<close>,
  eight of \<open>gen_register_set\<close>, an error code where it has that parameter, and the frame.
\<close>

definition frame_words :: "interrupt_frame \<Rightarrow> u32 list" where
  "frame_words f = [fr_eip f, fr_cs f, fr_eflags f, fr_esp f, fr_ss f]"

definition START_ISR :: "seg_register_set \<Rightarrow> gen_register_set \<Rightarrow> u32 list \<Rightarrow> u32 list" where
  "START_ISR sr gr stack =
     [ds sr, es sr, fs sr, gs sr, edi gr, esi gr, ebp gr, ebx gr, edx gr, ecx gr, eax gr] @ stack"

fun reg_args :: "u32 list \<Rightarrow> (seg_register_set \<times> gen_register_set \<times> u32 list) option" where
  "reg_args (w0 # w1 # w2 # w3 # w4 # w5 # w6 # w7 # w8 # w9 # w10 # w11 # rest) = Some
     (\<lparr>ds = w0, es = w1, fs = w2, gs = w3\<rparr>,
      \<lparr>edi = w4, esi = w5, ebp = w6, ebx = w7, edx = w8, ecx = w9, eax = w10, esp = w11\<rparr>, rest)"
| "reg_args _ = None"

fun frame_arg :: "u32 list \<Rightarrow> interrupt_frame option" where
  "frame_arg (w0 # w1 # w2 # w3 # w4 # _) =
     Some \<lparr>fr_eip = w0, fr_cs = w1, fr_eflags = w2, fr_esp = w3, fr_ss = w4\<rparr>"
| "frame_arg _ = None"

definition call_handler ::
  "(seg_register_set \<Rightarrow> gen_register_set \<Rightarrow> interrupt_frame \<Rightarrow> 'r) \<Rightarrow> u32 list \<Rightarrow> 'r option" where
  "call_handler h stack = do {
     (sr, gr, rest) \<leftarrow> reg_args stack;
     f \<leftarrow> frame_arg rest;
     Some (h sr gr f)
   }"

definition call_handler_ecode ::
  "(seg_register_set \<Rightarrow> gen_register_set \<Rightarrow> u32 \<Rightarrow> interrupt_frame \<Rightarrow> 'r) \<Rightarrow> u32 list \<Rightarrow> 'r option" where
  "call_handler_ecode h stack = do {
     (sr, gr, rest) \<leftarrow> reg_args stack;
     ecode \<leftarrow> (case rest of [] \<Rightarrow> None | e # _ \<Rightarrow> Some e);
     f \<leftarrow> frame_arg (tl rest);
     Some (h sr gr ecode f)
   }"

text \<open>
  (C30) The exception wrappers push seven general registers where the handlers expect eight, so
  every argument behind them is off by one word: a handler of an exception with an error code
  gets the error code as \<open>esp\<close>, the interrupted address as error code and the code
  segment as interrupted address. (The handlers only pass them on to \<open>kernel_panic\<close>.)
\<close>

theorem isr_arguments_shifted:
  "call_handler_ecode genprotection_handler (START_ISR sr gr (e # frame_words f @ w # rest)) = Some
     (Panics ''General protection exception.'' sr (gr\<lparr>esp := e\<rparr>)
       \<lparr>fr_eip = fr_cs f, fr_cs = fr_eflags f, fr_eflags = fr_esp f, fr_esp = fr_ss f, fr_ss = w\<rparr>
       (fr_eip f)) \<and>
   call_handler divbyzero_handler (START_ISR sr gr (frame_words f @ w # rest)) = Some
     (Panics ''Division-by-zero exception occured.'' sr (gr\<lparr>esp := fr_eip f\<rparr>)
       \<lparr>fr_eip = fr_cs f, fr_cs = fr_eflags f, fr_eflags = fr_esp f, fr_esp = fr_ss f, fr_ss = w\<rparr> 0)"
  by (simp add: call_handler_ecode_def call_handler_def START_ISR_def frame_words_def
      genprotection_handler_def divbyzero_handler_def kernel_panic_def)

end
