(* ===== verification/Paging.thy ===== *)
theory Paging
  imports Interrupts
begin

text \<open>
  Paging, src/arch/x86/mm/paging.c and paging.h: the directory of the kernel
  (\<open>kernel_memory\<close>, in memory at the address the linker chose), the stack of free page
  frames threaded through the frames themselves, and the mapping and unmapping of pages.
\<close>

section \<open>Entries of directories and tables\<close>

record pde_4mib =
  m_present :: "1 word"
  m_rw :: "1 word"
  m_us :: "1 word"
  m_pwt :: "1 word"
  m_pcd :: "1 word"
  m_a :: "1 word"
  m_d :: "1 word"
  m_ps :: "1 word"
  m_g :: "1 word"
  m_ignored :: "3 word"
  m_pat :: "1 word"
  m_highaddr :: "9 word"
  m_lowaddr :: "10 word"

definition enc_4mib :: "pde_4mib \<Rightarrow> u32" where
  "enc_4mib d = ucast (m_present d) OR push_bit 1 (ucast (m_rw d)) OR push_bit 2 (ucast (m_us d))
     OR push_bit 3 (ucast (m_pwt d)) OR push_bit 4 (ucast (m_pcd d)) OR push_bit 5 (ucast (m_a d))
     OR push_bit 6 (ucast (m_d d)) OR push_bit 7 (ucast (m_ps d)) OR push_bit 8 (ucast (m_g d))
     OR push_bit 9 (ucast (m_ignored d)) OR push_bit 12 (ucast (m_pat d))
     OR push_bit 13 (ucast (m_highaddr d)) OR push_bit 22 (ucast (m_lowaddr d))"

record pde_4kib =
  k_present :: "1 word"
  k_rw :: "1 word"
  k_us :: "1 word"
  k_pwt :: "1 word"
  k_pcd :: "1 word"
  k_a :: "1 word"
  k_ignored :: "1 word"
  k_ps :: "1 word"
  k_ignored2 :: "4 word"
  k_addr :: "20 word"

definition enc_pde :: "pde_4kib \<Rightarrow> u32" where
  "enc_pde d = ucast (k_present d) OR push_bit 1 (ucast (k_rw d)) OR push_bit 2 (ucast (k_us d))
     OR push_bit 3 (ucast (k_pwt d)) OR push_bit 4 (ucast (k_pcd d)) OR push_bit 5 (ucast (k_a d))
     OR push_bit 6 (ucast (k_ignored d)) OR push_bit 7 (ucast (k_ps d))
     OR push_bit 8 (ucast (k_ignored2 d)) OR push_bit 12 (ucast (k_addr d))"

definition dec_pde :: "u32 \<Rightarrow> pde_4kib" where
  "dec_pde w = \<lparr>k_present = ucast w, k_rw = ucast (drop_bit 1 w), k_us = ucast (drop_bit 2 w),
     k_pwt = ucast (drop_bit 3 w), k_pcd = ucast (drop_bit 4 w), k_a = ucast (drop_bit 5 w),
     k_ignored = ucast (drop_bit 6 w), k_ps = ucast (drop_bit 7 w),
     k_ignored2 = ucast (drop_bit 8 w), k_addr = ucast (drop_bit 12 w)\<rparr>"

record pte_4kib =
  e_present :: "1 word"
  e_rw :: "1 word"
  e_us :: "1 word"
  e_pwt :: "1 word"
  e_pcd :: "1 word"
  e_a :: "1 word"
  e_d :: "1 word"
  e_pat :: "1 word"
  e_g :: "1 word"
  e_ignored :: "3 word"
  e_addr :: "20 word"

definition enc_pte :: "pte_4kib \<Rightarrow> u32" where
  "enc_pte d = ucast (e_present d) OR push_bit 1 (ucast (e_rw d)) OR push_bit 2 (ucast (e_us d))
     OR push_bit 3 (ucast (e_pwt d)) OR push_bit 4 (ucast (e_pcd d)) OR push_bit 5 (ucast (e_a d))
     OR push_bit 6 (ucast (e_d d)) OR push_bit 7 (ucast (e_pat d)) OR push_bit 8 (ucast (e_g d))
     OR push_bit 9 (ucast (e_ignored d)) OR push_bit 12 (ucast (e_addr d))"

definition dec_pte :: "u32 \<Rightarrow> pte_4kib" where
  "dec_pte w = \<lparr>e_present = ucast w, e_rw = ucast (drop_bit 1 w), e_us = ucast (drop_bit 2 w),
     e_pwt = ucast (drop_bit 3 w), e_pcd = ucast (drop_bit 4 w), e_a = ucast (drop_bit 5 w),
     e_d = ucast (drop_bit 6 w), e_pat = ucast (drop_bit 7 w), e_g = ucast (drop_bit 8 w),
     e_ignored = ucast (drop_bit 9 w), e_addr = ucast (drop_bit 12 w)\<rparr>"

section \<open>The kernel directory and the free pages\<close>

definition PAGE_SIZE_4K :: u32 where
  "PAGE_SIZE_4K = 0x1000"

definition PAGE_LENGTH_4M :: nat where
  "PAGE_LENGTH_4M = 1024"

definition PAGE_OFFSET :: u32 where
  "PAGE_OFFSET = 0x40000000"

record paging_machine = intr_machine +
  page_freelist :: u32

definition set_kernel_memory ::
  "layout \<Rightarrow> nat \<Rightarrow> pde_4mib \<Rightarrow> 'a machine_scheme \<Rightarrow> 'a machine_scheme option" where
  "set_kernel_memory L i d s = wr32 wr8 s (kernel_memory_addr L + 4 * of_nat i) (enc_4mib d)"

text \<open>The last loop of \<open>init_paging\<close>: each free page points to the next one.\<close>

function freelist_loop :: "u32 \<Rightarrow> 'a paging_machine_scheme \<Rightarrow> 'a paging_machine_scheme option" where
  "freelist_loop i s =
     (if i < KERNEL_BASE then do {
        let s = s\<lparr>page_freelist := i\<rparr>;
        s \<leftarrow> wr32 wr8 s (page_freelist s) (i + PAGE_SIZE_4K);
        freelist_loop (i + PAGE_SIZE_4K) s
      } else Some s)"
  by auto
termination
proof (relation "measure (\<lambda>(i, s). 2 ^ 32 - unat i)")
  fix i :: u32 and s x and y :: "'a paging_machine_scheme"
  assume "i < KERNEL_BASE"
  then have "unat i + 0x1000 < 2 ^ 32" by (simp add: word_less_nat_alt)
  then have "unat (i + PAGE_SIZE_4K) = unat i + 0x1000"
    using unat_add_of_nat [of i "0x1000"] by (simp add: PAGE_SIZE_4K_def)
  then show "((i + PAGE_SIZE_4K, y), i, s) \<in> measure (\<lambda>(i, s). 2 ^ 32 - unat i)"
    using \<open>unat i + 0x1000 < 2 ^ 32\<close> by simp
qed simp

declare freelist_loop.simps [simp del]

text \<open>Its first three loops clear the directory of the kernel and fill it.\<close>

definition fill_kernel_memory :: "layout \<Rightarrow> 'a machine_scheme \<Rightarrow> 'a machine_scheme option" where
  "fill_kernel_memory L s = do {
     s \<leftarrow> for_loop 0 PAGE_LENGTH_4M (\<lambda>i. set_kernel_memory L i
       \<lparr>m_present = 0, m_rw = 0, m_us = 0, m_pwt = 0, m_pcd = 0, m_a = 0, m_d = 0, m_ps = 0, m_g = 0,
        m_ignored = 0, m_pat = 0, m_highaddr = 0, m_lowaddr = 0\<rparr>) s;
     s \<leftarrow> for_loop 0 (3 * PAGE_LENGTH_4M div 4) (\<lambda>i. set_kernel_memory L i
       \<lparr>m_present = 1, m_rw = 1, m_us = 0, m_pwt = 0, m_pcd = 0, m_a = 0, m_d = 0, m_ps = 1, m_g = 0,
        m_ignored = 0, m_pat = 0, m_highaddr = 0, m_lowaddr = of_nat (i + PAGE_LENGTH_4M div 4)\<rparr>) s;
     for_loop 0 (PAGE_LENGTH_4M div 4) (\<lambda>i. set_kernel_memory L (i + 3 * PAGE_LENGTH_4M div 4)
       \<lparr>m_present = 1, m_rw = 1, m_us = 0, m_pwt = 0, m_pcd = 0, m_a = 0, m_d = 0, m_ps = 1, m_g = 1,
        m_ignored = 0, m_pat = 0, m_highaddr = 0, m_lowaddr = of_nat i\<rparr>) s
   }"

definition init_paging :: "layout \<Rightarrow> 'a paging_machine_scheme \<Rightarrow> 'a paging_machine_scheme option" where
  "init_paging L s = do {
     s \<leftarrow> fill_kernel_memory L s;
     s \<leftarrow> set_id 14 (isr_addr L Pagefault) 0x08 IDT_PROT_INTR 0 1 s;
     let s = enable_paging (kernel_memory_addr L - KERNEL_BASE) s;
     s \<leftarrow> freelist_loop 0 s;
     Some (s\<lparr>page_freelist := 0\<rparr>)
   }"

section \<open>Allocating and freeing a page\<close>

definition allocate_page ::
  "u32 \<Rightarrow> u32 \<Rightarrow> 'a paging_machine_scheme \<Rightarrow> 'a paging_machine_scheme option" where
  "allocate_page page_dir addr s =
     (if KERNEL_BASE \<le> page_freelist s \<or> KERNEL_BASE \<le> addr then Some s
      else let dir_index = drop_bit 22 addr;
               table_index = drop_bit 12 addr AND 0x3ff
      in do {
        pde \<leftarrow> rd32 rd8 s (page_dir + 4 * dir_index);
        if k_present (dec_pde pde) \<noteq> 0 \<and> k_ps (dec_pde pde) \<noteq> 0 then Some s
        else do {
          (page_table, s) \<leftarrow>
            (if k_present (dec_pde pde) \<noteq> 0
             then Some (push_bit 12 (ucast (k_addr (dec_pde pde))) + KERNEL_BASE, s)
             else do {
               (page_table, s) \<leftarrow> kernel_allocate rd8 wr8 s (4 * 1024);
               s \<leftarrow> wr32 wr8 s (page_dir + 4 * dir_index) (enc_pde
                 \<lparr>k_present = 1, k_rw = 1, k_us = 1, k_pwt = 0, k_pcd = 0, k_a = 0, k_ignored = 0,
                  k_ps = 0, k_ignored2 = 0, k_addr = ucast (drop_bit 12 (page_table - KERNEL_BASE))\<rparr>);
               Some (page_table, s)
             });
          pte \<leftarrow> rd32 rd8 s (page_table + 4 * table_index);
          if e_present (dec_pte pte) \<noteq> 0 then Some s
          else do {
            let available_page = page_freelist s + PAGE_OFFSET;
            nxt \<leftarrow> rd32 rd8 s (page_freelist s);
            let s = s\<lparr>page_freelist := nxt\<rparr>;
            wr32 wr8 s (page_table + 4 * table_index) (enc_pte
              \<lparr>e_present = 1, e_rw = 1, e_us = 1, e_pwt = 0, e_pcd = 0, e_a = 0, e_d = 0, e_pat = 0,
               e_g = 0, e_ignored = 0, e_addr = ucast (drop_bit 12 available_page)\<rparr>)
          }
        }
      })"

definition free_page ::
  "u32 \<Rightarrow> u32 \<Rightarrow> 'a paging_machine_scheme \<Rightarrow> 'a paging_machine_scheme option" where
  "free_page page_dir addr s =
     (let dir_index = drop_bit 22 addr;
          table_index = drop_bit 12 addr AND 0x3ff
      in do {
        pde \<leftarrow> rd32 rd8 s (page_dir + 4 * dir_index);
        if k_present (dec_pde pde) \<noteq> 0 then do {
          let page_table = push_bit 12 (ucast (k_addr (dec_pde pde))) - KERNEL_BASE;
          pte \<leftarrow> rd32 rd8 s (page_table + 4 * table_index);
          if e_present (dec_pte pte) \<noteq> 0 then do {
            let freed_page = push_bit 12 (ucast (e_addr (dec_pte pte))) - PAGE_OFFSET;
            s \<leftarrow> wr32 wr8 s freed_page (page_freelist s);
            let s = s\<lparr>page_freelist := freed_page\<rparr>;
            wr32 wr8 s (page_table + 4 * table_index) (enc_pte
              \<lparr>e_present = 0, e_rw = 0, e_us = 0, e_pwt = 0, e_pcd = 0, e_a = 0, e_d = 0, e_pat = 0,
               e_g = 0, e_ignored = 0, e_addr = 0\<rparr>)
          } else Some s
        } else Some s
      })"

section \<open>The bits of the entries\<close>

lemma bit_double_word: "bit (x * 2 :: u32) n \<longleftrightarrow> 0 < n \<and> n < 32 \<and> bit x (n - 1)"
  using bit_double_iff [of x n] by (auto simp: mult.commute possible_bit_def)

lemma bit_beyond: "LENGTH('a) \<le> n \<Longrightarrow> \<not> bit (x :: 'a :: len word) n"
  using bit_imp_le_length [of x n] by auto

lemma masks: "(0xfffff000 :: u32) = NOT (mask 12)" "(0xffc00000 :: u32) = NOT (mask 22)"
   "(0x3fffff :: u32) = mask 22" "(0xfff :: u32) = mask 12" "(0x3ff :: u32) = mask 10"
  by (simp_all add: mask_eq_exp_minus_1)

lemma bits_of_1: "(x :: 1 word) \<noteq> 0 \<longleftrightarrow> bit x 0"
proof
  assume "x \<noteq> 0"
  then obtain n where "bit x n" using bit_word_eqI [of x 0] by auto
  moreover from this have "n < 1" by (metis bit_imp_le_length len_num1)
  ultimately show "bit x 0" by simp
qed auto

lemma present_bit: "k_present (dec_pde w) \<noteq> 0 \<longleftrightarrow> bit w 0" "k_ps (dec_pde w) \<noteq> 0 \<longleftrightarrow> bit w 7"
   "e_present (dec_pte w) \<noteq> 0 \<longleftrightarrow> bit w 0"
  unfolding bits_of_1 by (simp_all add: dec_pde_def dec_pte_def bit_simps)

lemma addr_bits: "push_bit 12 (ucast (k_addr (dec_pde w))) = w AND 0xfffff000"
     "push_bit 12 (ucast (e_addr (dec_pte w))) = w AND 0xfffff000"
  unfolding masks by (rule bit_word_eqI; auto simp: bit_simps dec_pde_def dec_pte_def)+

lemma dec_enc_pde [simp]: "dec_pde (enc_pde d) = d"
proof -
  have "ucast (enc_pde d) = k_present d" "ucast (drop_bit 1 (enc_pde d)) = k_rw d"
    "ucast (drop_bit 2 (enc_pde d)) = k_us d" "ucast (drop_bit 3 (enc_pde d)) = k_pwt d"
    "ucast (drop_bit 4 (enc_pde d)) = k_pcd d" "ucast (drop_bit 5 (enc_pde d)) = k_a d"
    "ucast (drop_bit 6 (enc_pde d)) = k_ignored d" "ucast (drop_bit 7 (enc_pde d)) = k_ps d"
    "ucast (drop_bit 8 (enc_pde d)) = k_ignored2 d" "ucast (drop_bit 12 (enc_pde d)) = k_addr d"
    by (rule bit_word_eqI; simp add: enc_pde_def bit_simps bit_double_word bit_beyond)+
  then show ?thesis by (simp add: dec_pde_def)
qed

lemma dec_enc_pte [simp]: "dec_pte (enc_pte d) = d"
proof -
  have "ucast (enc_pte d) = e_present d" "ucast (drop_bit 1 (enc_pte d)) = e_rw d"
    "ucast (drop_bit 2 (enc_pte d)) = e_us d" "ucast (drop_bit 3 (enc_pte d)) = e_pwt d"
    "ucast (drop_bit 4 (enc_pte d)) = e_pcd d" "ucast (drop_bit 5 (enc_pte d)) = e_a d"
    "ucast (drop_bit 6 (enc_pte d)) = e_d d" "ucast (drop_bit 7 (enc_pte d)) = e_pat d"
    "ucast (drop_bit 8 (enc_pte d)) = e_g d" "ucast (drop_bit 9 (enc_pte d)) = e_ignored d"
    "ucast (drop_bit 12 (enc_pte d)) = e_addr d"
    by (rule bit_word_eqI; simp add: enc_pte_def bit_simps bit_double_word bit_beyond)+
  then show ?thesis by (simp add: dec_pte_def)
qed

lemma enc_pde_word: "enc_pde
  \<lparr>k_present = 1, k_rw = 1, k_us = 1, k_pwt = 0, k_pcd = 0, k_a = 0, k_ignored = 0,
   k_ps = 0, k_ignored2 = 0, k_addr = ucast (drop_bit 12 a)\<rparr> = 7 OR (a AND 0xfffff000)"
proof -
  have "push_bit 12 (ucast (ucast (drop_bit 12 a) :: 20 word)) = a AND (0xfffff000 :: u32)"
    unfolding masks by (rule bit_word_eqI) (auto simp: bit_simps)
  then show ?thesis by (simp add: enc_pde_def) (simp flip: or.assoc)
qed

lemma enc_pte_word: "enc_pte
  \<lparr>e_present = 1, e_rw = 1, e_us = 1, e_pwt = 0, e_pcd = 0, e_a = 0, e_d = 0, e_pat = 0, e_g = 0,
   e_ignored = 0, e_addr = ucast (drop_bit 12 a)\<rparr> = 7 OR (a AND 0xfffff000)"
proof -
  have "push_bit 12 (ucast (ucast (drop_bit 12 a) :: 20 word)) = a AND (0xfffff000 :: u32)"
    unfolding masks by (rule bit_word_eqI) (auto simp: bit_simps)
  then show ?thesis by (simp add: enc_pte_def) (simp flip: or.assoc)
qed

text \<open>The entries \<open>init_paging\<close> writes.\<close>

definition kernel_pde :: "nat \<Rightarrow> u32" where
  "kernel_pde k = (if k < 768 then 0x83 else 0x183) OR push_bit 22 (of_nat (k + 256))"

lemma enc_kernel_pde:
  "enc_4mib \<lparr>m_present = 1, m_rw = 1, m_us = 0, m_pwt = 0, m_pcd = 0, m_a = 0, m_d = 0, m_ps = 1, m_g = 0,
        m_ignored = 0, m_pat = 0, m_highaddr = 0, m_lowaddr = of_nat j\<rparr> = 0x83 OR push_bit 22 (of_nat j)"
  "enc_4mib \<lparr>m_present = 1, m_rw = 1, m_us = 0, m_pwt = 0, m_pcd = 0, m_a = 0, m_d = 0, m_ps = 1, m_g = 1,
        m_ignored = 0, m_pat = 0, m_highaddr = 0, m_lowaddr = of_nat j\<rparr> = 0x183 OR push_bit 22 (of_nat j)"
proof -
  have "push_bit 22 (ucast (of_nat j :: 10 word)) = (push_bit 22 (of_nat j) :: u32)"
    by (rule bit_word_eqI) (auto simp: bit_simps)
  then show 
  "enc_4mib \<lparr>m_present = 1, m_rw = 1, m_us = 0, m_pwt = 0, m_pcd = 0, m_a = 0, m_d = 0, m_ps = 1, m_g = 0,
        m_ignored = 0, m_pat = 0, m_highaddr = 0, m_lowaddr = of_nat j\<rparr> = 0x83 OR push_bit 22 (of_nat j)"
  "enc_4mib \<lparr>m_present = 1, m_rw = 1, m_us = 0, m_pwt = 0, m_pcd = 0, m_a = 0, m_d = 0, m_ps = 1, m_g = 1,
        m_ignored = 0, m_pat = 0, m_highaddr = 0, m_lowaddr = of_nat j\<rparr> = 0x183 OR push_bit 22 (of_nat j)"
   by (simp_all add: enc_4mib_def) (simp_all flip: or.assoc)
qed

lemma minus_base: "a - KERNEL_BASE = a + 0x40000000"
proof -
  have "(0x40000000 :: u32) = - 0xc0000000" by simp
  then show ?thesis by (simp only: KERNEL_BASE_def diff_conv_add_uminus)
qed

lemma page_split: "push_bit 22 (w + 256) OR (va AND 0x3fffff) = va - KERNEL_BASE"
  if "w = drop_bit 22 (va :: u32)"
proof -
  have A: "push_bit 22 (w + 256) OR take_bit 22 va = push_bit 22 (w + 256) + take_bit 22 va"
    by (rule disjunctive_add_eq_or [symmetric]) (rule bit_word_eqI, auto simp: bit_simps)
  have B: "push_bit 22 (w + 256) = push_bit 22 w + (push_bit 22 256 :: u32)"
    by (simp add: push_bit_eq_mult algebra_simps)
  have C: "push_bit 22 w + push_bit 22 256 + take_bit 22 va = va + push_bit 22 256"
    using bits_ident [of 22 va] by (simp add: that ac_simps)
  have D: "(push_bit 22 256 :: u32) = 0x40000000" by simp
  show ?thesis unfolding masks minus_base take_bit_eq_mask [symmetric] A unfolding B using C unfolding D .
qed

lemma dir_index_less: "unat (dir_index va) < 1024"
  using unat_u32_less [of va] unfolding dir_index_def unat_drop_bit_eq unfolding drop_bit_eq_div by simp

lemma kernel_pde_bits:
  "bit (kernel_pde k) 0" "bit (kernel_pde k) 1" "bit (kernel_pde k) 7" "\<not> bit (kernel_pde k) 2"
  "kernel_pde k AND 0xffc00000 = push_bit 22 (of_nat (k + 256))"
proof -
  have b: "bit (0x83 :: u32) 0" "bit (0x83 :: u32) 1" "bit (0x83 :: u32) 7" "\<not> bit (0x83 :: u32) 2"
    "bit (0x183 :: u32) 0" "bit (0x183 :: u32) 1" "bit (0x183 :: u32) 7" "\<not> bit (0x183 :: u32) 2"
    by (simp_all add: bit_iff_odd)
  show "bit (kernel_pde k) 0" "bit (kernel_pde k) 1" "bit (kernel_pde k) 7" "\<not> bit (kernel_pde k) 2"
    using b by (simp_all add: kernel_pde_def bit_or_iff bit_push_bit_iff del: bit_0)
  have "push_bit 22 x AND 0xffc00000 = push_bit 22 (x :: u32)" for x
    unfolding masks by (rule bit_word_eqI) (auto simp: bit_simps)
  then show "kernel_pde k AND 0xffc00000 = push_bit 22 (of_nat (k + 256))"
    by (simp add: kernel_pde_def bit.conj_disj_distrib2)
qed

definition page_aligned :: "u32 \<Rightarrow> bool" where
  "page_aligned a \<longleftrightarrow> take_bit 12 a = 0"

lemma page_aligned_bit: "page_aligned a \<Longrightarrow> n < 12 \<Longrightarrow> \<not> bit a n"
proof -
  assume a: "page_aligned a" and n: "n < 12"
  have "bit (take_bit 12 a) n = bit a n" using n by (simp add: bit_take_bit_iff)
  with a show ?thesis by (simp add: page_aligned_def)
qed

lemma page_aligned_mask: "page_aligned a \<Longrightarrow> a AND 0xfffff000 = a"
  unfolding masks by (rule bit_word_eqI) (auto simp: bit_simps dest: page_aligned_bit)

lemma page_aligned_iff: "page_aligned a \<longleftrightarrow> a = push_bit 12 (drop_bit 12 a)"
proof
  assume "page_aligned a"
  then show "a = push_bit 12 (drop_bit 12 a)" using bits_ident [of 12 a] by (simp add: page_aligned_def)
next
  assume "a = push_bit 12 (drop_bit 12 a)"
  moreover have "take_bit 12 (push_bit 12 (drop_bit 12 a)) = 0" by (simp add: take_bit_push_bit)
  ultimately show "page_aligned a" unfolding page_aligned_def by metis
qed

lemma page_aligned_add: "page_aligned a \<Longrightarrow> page_aligned b \<Longrightarrow> page_aligned (a + b)"
proof -
  assume "page_aligned a" "page_aligned b"
  then have "a + b = push_bit 12 (drop_bit 12 a + drop_bit 12 b)"
    using push_bit_add [of 12 "drop_bit 12 a" "drop_bit 12 b"] by (simp only: page_aligned_iff [symmetric]) (metis page_aligned_iff)
  moreover have "take_bit 12 (push_bit 12 (drop_bit 12 a + drop_bit 12 b)) = 0" by (simp add: take_bit_push_bit)
  ultimately show "page_aligned (a + b)" unfolding page_aligned_def by metis
qed

lemma page_aligned_base: "page_aligned a \<Longrightarrow> page_aligned (a - KERNEL_BASE)"
  unfolding minus_base by (intro page_aligned_add) (simp_all add: page_aligned_def)

section \<open>The kernel half of an address space\<close>

text \<open>
  \<open>maps_kernel lo m D\<close>: from entry \<open>lo\<close> on the directory at \<open>D\<close> is that of
  \<open>init_paging\<close>. The kernel's own directory has \<open>lo = 0\<close>, that of a process 768.
\<close>

definition maps_kernel :: "nat \<Rightarrow> bytes \<Rightarrow> u32 \<Rightarrow> bool" where
  "maps_kernel lo m D \<longleftrightarrow> (\<forall>k. lo \<le> k \<and> k < 1024 \<longrightarrow> ld32 m (D + 4 * of_nat k) = kernel_pde k)"

lemma phys32_dir [simp]: "phys32 m (D - KERNEL_BASE + x) = ld32 m (D + x)"
  by (simp add: phys32_def)

lemma walk_kernel:
  assumes "maps_kernel lo m D" "page_aligned D" "lo \<le> unat (dir_index va)"
  shows "walk m (D - KERNEL_BASE) va = Some (va - KERNEL_BASE, False, True)"
proof -
  let ?k = "unat (dir_index va)"
  have "(D - KERNEL_BASE) AND 0xfffff000 = D - KERNEL_BASE"
    by (intro page_aligned_mask page_aligned_base assms(2))
  moreover have "ld32 m (D + 4 * dir_index va) = kernel_pde ?k"
    using assms(1,3) dir_index_less [of va] by (auto simp: maps_kernel_def dest: spec [of _ ?k])
  moreover have "push_bit 22 (of_nat (?k + 256)) OR (va AND 0x3fffff) = va - KERNEL_BASE"
    using page_split [of "dir_index va" va] by (simp add: dir_index_def)
  ultimately show ?thesis
    by (simp add: walk_def Let_def kernel_pde_bits kernel_pde_bits [unfolded One_nat_def]
        del: bit_0 KERNEL_BASE_def)
qed

lemma high_dir_index: "KERNEL_BASE \<le> va \<Longrightarrow> 768 \<le> unat (dir_index va)"
  unfolding dir_index_def unat_drop_bit_eq unfolding drop_bit_eq_div
  by (simp add: word_le_nat_alt)

lemma translate_kernel:
  assumes "maps_kernel 768 m D" "page_aligned D" "KERNEL_BASE \<le> va"
  shows "translate m (D - KERNEL_BASE) va = Some (va - KERNEL_BASE)"
  using walk_kernel [OF assms(1,2) high_dir_index [OF assms(3)]] by (simp add: translate_def)

section \<open>Memory under the directory of the kernel\<close>

text \<open>
  The linker puts the directory of the kernel on a page boundary, between the start of the
  kernel half and the heap.
\<close>

definition layout_ok :: "layout \<Rightarrow> bool" where
  "layout_ok L \<longleftrightarrow> page_aligned (kernel_memory_addr L) \<and> 0xc0000000 \<le> unat (kernel_memory_addr L) \<and>
     unat (kernel_memory_addr L) + 4096 \<le> 0xcfffffff"

definition kernel_space :: "layout \<Rightarrow> 'a machine_scheme \<Rightarrow> bool" where
  "kernel_space L s \<longleftrightarrow> layout_ok L \<and> cr3 s = kernel_memory_addr L - KERNEL_BASE \<and>
     maps_kernel 0 (mem s) (kernel_memory_addr L)"

lemma kernel_space_translate:
  "kernel_space L s \<Longrightarrow> translate (mem s) (cr3 s) va = Some (va - KERNEL_BASE)"
  using walk_kernel [of 0 "mem s" "kernel_memory_addr L" va]
  by (simp add: kernel_space_def layout_ok_def translate_def)

lemma rd8_kernel: "kernel_space L s \<Longrightarrow> rd8 s va = Some (mem s va)"
  by (simp add: rd8_def kernel_space_translate del: KERNEL_BASE_def)

lemma wr8_kernel: "kernel_space L s \<Longrightarrow> wr8 s va v = Some (s\<lparr>mem := (mem s)(va := v)\<rparr>)"
  by (simp add: wr8_def kernel_space_translate del: KERNEL_BASE_def)

lemma rd32_kernel: "kernel_space L s \<Longrightarrow> rd32 rd8 s a = Some (ld32 (mem s) a)"
  by (simp add: rd32_def ld32_def rd8_kernel)

definition dir_bytes :: "layout \<Rightarrow> u32 set" where
  "dir_bytes L = bytes_at (kernel_memory_addr L) 4096"

lemma in_dir_bytes:
  "layout_ok L \<Longrightarrow> x \<in> dir_bytes L \<longleftrightarrow>
    unat (kernel_memory_addr L) \<le> unat x \<and> unat x < unat (kernel_memory_addr L) + 4096"
  unfolding dir_bytes_def by (rule bytes_at_unat) (simp add: layout_ok_def)

lemma unat_entry:
  assumes "unat D + 4096 \<le> 2 ^ 32" "k < 1024"
  shows "unat (D + 4 * of_nat k :: u32) = unat D + 4 * k"
  using unat_add_of_nat [of D "4 * k"] assms by simp

lemma entry_bytes:
  assumes "unat D + 4096 \<le> 2 ^ 32" "k < 1024"
  shows "x \<in> bytes_at (D + 4 * of_nat k :: u32) 4 \<longleftrightarrow> unat D + 4 * k \<le> unat x \<and> unat x < unat D + 4 * k + 4"
  using bytes_at_unat [of "D + 4 * of_nat k" 4 x] assms unfolding unat_entry [OF assms] by simp

lemma maps_kernel_eq_off:
  assumes "maps_kernel lo m D" "eq_off X m m'" "bytes_at D 4096 \<inter> X = {}" "unat D + 4096 \<le> 2 ^ 32"
  shows "maps_kernel lo m' D"
proof -
  have "ld32 m' (D + 4 * of_nat k) = ld32 m (D + 4 * of_nat k)" if "k < 1024" for k
  proof (rule ld32_eq_off [OF assms(2)])
    have "bytes_at (D + 4 * of_nat k) 4 \<subseteq> bytes_at D 4096"
      using that by (auto simp: entry_bytes [OF assms(4) that] bytes_at_unat [OF assms(4)])
    with assms(3) show "bytes_at (D + 4 * of_nat k) 4 \<inter> X = {}" by blast
  qed
  with assms(1) show ?thesis by (simp add: maps_kernel_def)
qed

lemma kernel_space_write:
  assumes "kernel_space L s" "eq_off X (mem s) m" "dir_bytes L \<inter> X = {}"
  shows "kernel_space L (s\<lparr>mem := m\<rparr>)"
proof -
  have "unat (kernel_memory_addr L) + 4096 \<le> 2 ^ 32" using assms(1) by (simp add: kernel_space_def layout_ok_def)
  with assms show ?thesis
    by (auto simp: kernel_space_def dir_bytes_def intro: maps_kernel_eq_off)
qed

lemma wr32_kernel:
  assumes "kernel_space L s" "dir_bytes L \<inter> bytes_at a 4 = {}"
  shows "wr32 wr8 s a v = Some (s\<lparr>mem := st32 (mem s) a v\<rparr>)"
proof -
  have b: "a + of_nat i \<in> bytes_at a 4" if "i < 4" for i
    using that by (simp add: bytes_at_def unat_of_nat_u32)
  have in4: "a \<in> bytes_at a 4" "a + 1 \<in> bytes_at a 4" "a + 2 \<in> bytes_at a 4" "a + 3 \<in> bytes_at a 4"
    using b [of 0] b [of 1] b [of 2] b [of 3] by simp_all
  have k: "kernel_space L (s\<lparr>mem := m\<rparr>)" if "eq_off (bytes_at a 4) (mem s) m" for m
    by (rule kernel_space_write [OF assms(1) that assms(2)])
  show ?thesis
    using in4 by (simp add: wr32_def st32_def wr8_kernel [OF assms(1)] wr8_kernel [OF k] eq_off_def)
qed


section \<open>What \<open>init_paging\<close> builds\<close>

lemma set_kernel_memory_ok:
  assumes "layout_ok L" "i < 1024"
  shows "set_kernel_memory L i d s =
    Some (s\<lparr>mem := st32 (mem s) (kernel_memory_addr L + 4 * of_nat i) (enc_4mib d)\<rparr>)"
proof -
  let ?a = "kernel_memory_addr L + 4 * of_nat i"
  have b: "unat (kernel_memory_addr L) + 4096 \<le> 2 ^ 32" using assms(1) by (simp add: layout_ok_def)
  have "KERNEL_BASE \<le> ?a + of_nat j" if "j < 4" for j
  proof -
    have "unat (?a + of_nat j) = unat ?a + j"
      using that b assms(2) by (intro unat_add_of_nat) (simp add: unat_entry [OF b])
    then show ?thesis
      using assms by (simp add: word_le_nat_alt unat_entry [OF b] layout_ok_def)
  qed
  from this [of 0] this [of 1] this [of 2] this [of 3] show ?thesis
    unfolding set_kernel_memory_def by (intro kmem.wr32_upd) simp_all
qed

lemma entries_disj:
  assumes "unat D + 4096 \<le> 2 ^ 32" "i < 1024" "k < 1024" "i \<noteq> k"
  shows "disj (D + 4 * of_nat i) 4 (D + 4 * of_nat k) 4"
  using assms by (intro disjI) (auto simp: unat_entry)

lemma fill_dir:
  assumes "layout_ok L" "off + n \<le> 1024"
  shows "\<exists>m. for_loop 0 n (\<lambda>i. set_kernel_memory L (i + off) (f i)) s = Some (s\<lparr>mem := m\<rparr>) \<and>
    eq_off (dir_bytes L) (mem s) m \<and>
    (\<forall>k < 1024. ld32 m (kernel_memory_addr L + 4 * of_nat k) =
       (if off \<le> k \<and> k < off + n then enc_4mib (f (k - off))
        else ld32 (mem s) (kernel_memory_addr L + 4 * of_nat k)))"
proof -
  let ?D = "kernel_memory_addr L"
  have b: "unat ?D + 4096 \<le> 2 ^ 32" using assms(1) by (simp add: layout_ok_def)
  define P where "P i s' \<longleftrightarrow> (\<exists>m. s' = s\<lparr>mem := m\<rparr> \<and> eq_off (dir_bytes L) (mem s) m \<and>
    (\<forall>k < 1024. ld32 m (?D + 4 * of_nat k) =
       (if off \<le> k \<and> k < off + i then enc_4mib (f (k - off)) else ld32 (mem s) (?D + 4 * of_nat k))))" for i s'
  have "\<exists>s'. for_loop 0 n (\<lambda>i. set_kernel_memory L (i + off) (f i)) s = Some s' \<and> P n s'"
  proof (rule for_loop_rule)
    show "P 0 s" by (auto simp: P_def intro!: exI [of _ "mem s"])
    fix j s1 assume j: "j < n" and "P j s1"
    then obtain m where m: "s1 = s\<lparr>mem := m\<rparr>" "eq_off (dir_bytes L) (mem s) m"
      "\<forall>k < 1024. ld32 m (?D + 4 * of_nat k) =
        (if off \<le> k \<and> k < off + j then enc_4mib (f (k - off)) else ld32 (mem s) (?D + 4 * of_nat k))"
      by (auto simp: P_def)
    have jo: "j + off < 1024" using j assms(2) by simp
    let ?m = "st32 m (?D + 4 * of_nat (j + off)) (enc_4mib (f j))"
    have "bytes_at (?D + 4 * of_nat (j + off)) 4 \<subseteq> dir_bytes L"
      using jo by (auto simp: entry_bytes [OF b jo] in_dir_bytes [OF assms(1)] simp del: of_nat_add)
    then have "eq_off (dir_bytes L) (mem s) ?m"
      by (intro eq_off_mono [OF eq_off_trans [OF m(2) eq_off_st32]]) auto
    moreover have "ld32 ?m (?D + 4 * of_nat k) =
       (if off \<le> k \<and> k < off + Suc j then enc_4mib (f (k - off)) else ld32 (mem s) (?D + 4 * of_nat k))"
      if k: "k < 1024" for k
    proof (cases "k = j + off")
      case True
      then show ?thesis by (simp del: of_nat_add)
    next
      case False
      then show ?thesis
        using ld32_st32_disj [OF entries_disj [OF b jo k]] m(3) k by (auto simp del: of_nat_add)
    qed
    ultimately have "P (Suc j) (s\<lparr>mem := ?m\<rparr>)" unfolding P_def by blast
    moreover have "set_kernel_memory L (j + off) (f j) s1 = Some (s\<lparr>mem := ?m\<rparr>)"
      unfolding set_kernel_memory_ok [OF assms(1) jo] m(1) by simp
    ultimately show "\<exists>s'. set_kernel_memory L (j + off) (f j) s1 = Some s' \<and> P (Suc j) s'" by blast
  qed simp
  then show ?thesis unfolding P_def by blast
qed

text \<open>The free pages: a list through the first word of each, ended by any kernel address.\<close>

fun page_list :: "bytes \<Rightarrow> u32 \<Rightarrow> u32 list \<Rightarrow> bool" where
  "page_list m p [] \<longleftrightarrow> KERNEL_BASE \<le> p"
| "page_list m p (q # qs) \<longleftrightarrow>
     p = q \<and> q < KERNEL_BASE \<and> page_aligned q \<and> page_list m (ld32 m q) qs"

definition page_at :: "nat \<Rightarrow> u32" where
  "page_at j = of_nat (4096 * j)"

definition all_pages :: "u32 list" where
  "all_pages = map page_at [0..<786432]"

lemma unat_page: "j \<le> 786432 \<Longrightarrow> unat (page_at j) = 4096 * j"
  unfolding page_at_def by (rule unat_of_nat_u32) simp

lemma page_at_next: "page_at j + PAGE_SIZE_4K = page_at (Suc j)"
  by (simp add: page_at_def PAGE_SIZE_4K_def)

lemma page_bytes:
  "j < 786432 \<Longrightarrow> x \<in> bytes_at (page_at j) 4 \<longleftrightarrow> 4096 * j \<le> unat x \<and> unat x < 4096 * j + 4"
  using bytes_at_unat [of "page_at j" 4 x] unat_page [of j] by simp

lemma page_at_less: "j < 786432 \<Longrightarrow> page_at j < KERNEL_BASE"
  using unat_page [of j] by (simp add: word_less_nat_alt)

lemma page_at_aligned: "page_aligned (page_at j)"
proof -
  have "page_at j = push_bit 12 (of_nat j)" by (simp add: page_at_def push_bit_eq_mult)
  then show ?thesis by (simp add: page_aligned_def take_bit_push_bit)
qed

lemma page_at_end: "page_at 786432 = KERNEL_BASE"
  by (simp add: page_at_def)

lemma page_at_bound: "j < 786432 \<Longrightarrow> x \<in> bytes_at (page_at j) 4 \<Longrightarrow> x < KERNEL_BASE"
proof -
  assume j: "j < 786432" and x: "x \<in> bytes_at (page_at j) 4"
  then have "unat x < 3221225472" using page_bytes [OF j, of x] by linarith
  then show "x < KERNEL_BASE" by (simp add: word_less_nat_alt)
qed

lemma freelist_loop_ok:
  "kernel_space L s \<Longrightarrow> j \<le> 786432 \<Longrightarrow>
   \<exists>p m. freelist_loop (page_at j) s = Some (s\<lparr>page_freelist := p, mem := m\<rparr>) \<and>
     eq_off {x. 4096 * j \<le> unat x \<and> x < KERNEL_BASE} (mem s) m \<and>
     (\<forall>k. j \<le> k \<and> k < 786432 \<longrightarrow> ld32 m (page_at k) = page_at (Suc k))"
proof (induction "786432 - j" arbitrary: j s)
  case 0
  then have "j = 786432" by simp
  then show ?case
    by (subst freelist_loop.simps)
      (auto simp: page_at_end intro!: exI [of _ "page_freelist s"] exI [of _ "mem s"])
next
  case (Suc n)
  then have j: "j < 786432" by simp
  let ?i = "page_at j"
  let ?m = "st32 (mem s) ?i (page_at (Suc j))"
  let ?s = "s\<lparr>page_freelist := ?i, mem := ?m\<rparr>"
  have off: "eq_off (bytes_at ?i 4) (mem s) ?m" by (rule eq_off_st32)
  have d: "dir_bytes L \<inter> bytes_at ?i 4 = {}"
    using Suc.prems(1) j page_bytes [OF j]
    by (auto simp: kernel_space_def in_dir_bytes layout_ok_def)
  have k: "kernel_space L ?s"
    using kernel_space_write [OF Suc.prems(1) off d] by (simp add: kernel_space_def)
  have ks: "kernel_space L (s\<lparr>page_freelist := ?i\<rparr>)" using Suc.prems(1) by (simp add: kernel_space_def)
  have step: "freelist_loop ?i s = freelist_loop (page_at (Suc j)) ?s"
    using page_at_less [OF j] wr32_kernel [OF ks d, of "?i + PAGE_SIZE_4K"]
    by (subst freelist_loop.simps) (simp add: page_at_next del: KERNEL_BASE_def)
  have n: "n = 786432 - Suc j" using Suc.hyps(2) by simp
  obtain p m where m: "freelist_loop (page_at (Suc j)) ?s = Some (?s\<lparr>page_freelist := p, mem := m\<rparr>)"
    "eq_off {x. 4096 * Suc j \<le> unat x \<and> x < KERNEL_BASE} (mem ?s) m"
    "\<And>k. Suc j \<le> k \<Longrightarrow> k < 786432 \<Longrightarrow> ld32 m (page_at k) = page_at (Suc k)"
    using Suc.hyps(1) [OF n k Suc_leI [OF j]] by blast
  have ms: "mem ?s = ?m" by simp
  note m2 = m(2) [unfolded ms]
  have "ld32 m ?i = ld32 ?m ?i"
    by (rule ld32_eq_off [OF m2]) (use page_bytes [OF j] in auto)
  then have "ld32 m (page_at k) = page_at (Suc k)" if "j \<le> k" "k < 786432" for k
    using that m(3) [of k] by (cases "k = j") auto
  moreover have "eq_off {x. 4096 * j \<le> unat x \<and> x < KERNEL_BASE} (mem s) m"
  proof (rule eq_off_mono [OF eq_off_trans [OF off m2]])
    show "bytes_at ?i 4 \<union> {x. 4096 * Suc j \<le> unat x \<and> x < KERNEL_BASE} \<subseteq>
        {x. 4096 * j \<le> unat x \<and> x < KERNEL_BASE}"
      using page_bytes [OF j] page_at_bound [OF j] by (intro Un_least subsetI) simp_all
  qed
  ultimately show ?case unfolding step m(1) by (intro exI [of _ p] exI [of _ m]) simp
qed

lemma page_list_from:
  assumes "\<And>k. j \<le> k \<Longrightarrow> k < 786432 \<Longrightarrow> ld32 m (page_at k) = page_at (Suc k)" "j \<le> 786432"
  shows "page_list m (page_at j) (map page_at [j..<786432])"
  using assms
proof (induction "786432 - j" arbitrary: j)
  case 0
  then have "j = 786432" by simp
  then show ?case by (simp add: page_at_end)
next
  case (Suc n)
  then have j: "j < 786432" by simp
  have "page_list m (page_at (Suc j)) (map page_at [Suc j..<786432])"
    using Suc.hyps(2) Suc.prems(1) j by (intro Suc.hyps(1)) simp_all
  then show ?case
    using page_at_less [OF j] page_at_aligned Suc.prems(1) [of j] j by (simp add: upt_rec [of j] del: KERNEL_BASE_def)
qed


lemma fill_kernel_dir:
  assumes "layout_ok L"
  shows "\<exists>m. fill_kernel_memory L s = Some (s\<lparr>mem := m\<rparr>) \<and> eq_off (dir_bytes L) (mem s) m \<and>
    maps_kernel 0 m (kernel_memory_addr L)"
proof -
  let ?D = "kernel_memory_addr L"
  let ?z = "\<lparr>m_present = 0, m_rw = 0, m_us = 0, m_pwt = 0, m_pcd = 0, m_a = 0, m_d = 0, m_ps = 0,
    m_g = 0, m_ignored = 0, m_pat = 0, m_highaddr = 0, m_lowaddr = 0\<rparr> :: pde_4mib"
  let ?low = "\<lambda>i. \<lparr>m_present = 1, m_rw = 1, m_us = 0, m_pwt = 0, m_pcd = 0, m_a = 0, m_d = 0, m_ps = 1,
    m_g = 0, m_ignored = 0, m_pat = 0, m_highaddr = 0, m_lowaddr = of_nat (i + 256)\<rparr> :: pde_4mib"
  let ?high = "\<lambda>i. \<lparr>m_present = 1, m_rw = 1, m_us = 0, m_pwt = 0, m_pcd = 0, m_a = 0, m_d = 0, m_ps = 1,
    m_g = 1, m_ignored = 0, m_pat = 0, m_highaddr = 0, m_lowaddr = of_nat i\<rparr> :: pde_4mib"
  obtain m1 where m1: "for_loop 0 1024 (\<lambda>i. set_kernel_memory L i ?z) s = Some (s\<lparr>mem := m1\<rparr>)"
    "eq_off (dir_bytes L) (mem s) m1"
    using fill_dir [OF assms, of 0 1024 "\<lambda>i. ?z" s] by auto
  obtain m2 where m2: "for_loop 0 768 (\<lambda>i. set_kernel_memory L i (?low i)) (s\<lparr>mem := m1\<rparr>) = Some (s\<lparr>mem := m2\<rparr>)"
    "eq_off (dir_bytes L) m1 m2"
    "\<forall>k < 1024. k < 768 \<longrightarrow> ld32 m2 (?D + 4 * of_nat k) = enc_4mib (?low k)"
    using fill_dir [OF assms, of 0 768 ?low "s\<lparr>mem := m1\<rparr>"] by auto
  obtain m3 where m3: "for_loop 0 256 (\<lambda>i. set_kernel_memory L (i + 768) (?high i)) (s\<lparr>mem := m2\<rparr>) = Some (s\<lparr>mem := m3\<rparr>)"
    "eq_off (dir_bytes L) m2 m3"
    "\<forall>k < 1024. ld32 m3 (?D + 4 * of_nat k) =
       (if 768 \<le> k then enc_4mib (?high (k - 768)) else ld32 m2 (?D + 4 * of_nat k))"
    using fill_dir [OF assms, of 768 256 ?high "s\<lparr>mem := m2\<rparr>"] by auto
  have "push_bit 22 (of_nat (k - 768) :: u32) = push_bit 22 (of_nat (k + 256))" if "768 \<le> k" for k
  proof -
    have "push_bit 22 (1024 :: u32) = 0" by simp
    moreover have "(of_nat (k + 256) :: u32) = of_nat (k - 768) + 1024"
    proof -
      have "k + 256 = (k - 768) + 1024" using that by simp
      then show ?thesis by (metis of_nat_add of_nat_numeral)
    qed
    ultimately show ?thesis by (simp add: push_bit_add)
  qed
  then have "maps_kernel 0 m3 ?D"
    using m2(3) m3(3) by (auto simp: maps_kernel_def enc_kernel_pde kernel_pde_def simp del: of_nat_add of_nat_diff)
  moreover have "eq_off (dir_bytes L) (mem s) m3"
    using eq_off_trans [OF eq_off_trans [OF m1(2) m2(2)] m3(2)] by simp
  ultimately show ?thesis
    using m1(1) m2(1) m3(1) by (intro exI [of _ m3]) (simp add: fill_kernel_memory_def PAGE_LENGTH_4M_def)
qed

text \<open>The addresses \<open>init_paging\<close> writes: the directory, the table of gates and the user half.\<close>

definition paging_bytes :: "layout \<Rightarrow> u32 \<Rightarrow> u32 set" where
  "paging_bytes L p = dir_bytes L \<union> region p 2048 \<union> {x. x < KERNEL_BASE}"

lemma dir_bytes_outside:
  "layout_ok L \<Longrightarrow> dir_bytes L \<inter> kernel_area = {}"
  "layout_ok L \<Longrightarrow> dir_bytes L \<inter> {x. x < KERNEL_BASE} = {}"
  by (auto simp: in_dir_bytes layout_ok_def kernel_area_def word_le_nat_alt word_less_nat_alt)

lemma region_area:
  "kernel_live s A \<Longrightarrow> (p, n) \<in> A \<Longrightarrow> k \<le> n \<Longrightarrow> region p k \<subseteq> regions A"
  "kernel_live s A \<Longrightarrow> (p, n) \<in> A \<Longrightarrow> k \<le> n \<Longrightarrow> region p k \<subseteq> kernel_area"
proof -
  assume a: "kernel_live s A" "(p, n) \<in> A" "k \<le> n"
  then have "region p k \<subseteq> region p n" by (auto simp: region_def inside_def)
  also have "\<dots> \<subseteq> regions A" using a(2) by (auto simp: regions_def)
  finally show "region p k \<subseteq> regions A" .
  also have "\<dots> \<subseteq> kernel_area" by (rule kernel_live_area [OF a(1)])
  finally show "region p k \<subseteq> kernel_area" .
qed

lemma area_not_low: "x \<in> kernel_area \<Longrightarrow> \<not> x < KERNEL_BASE"
  by (auto simp: kernel_area_def word_le_nat_alt word_less_nat_alt)

lemma init_paging_ok:
  assumes "layout_ok L" "idt_live A s"
  shows "\<exists>m. let s' = s\<lparr>mem := m, cr3 := kernel_memory_addr L - KERNEL_BASE, page_freelist := 0\<rparr> in
    init_paging L s = Some s' \<and> kernel_space L s' \<and> idt_live A s' \<and> page_list m 0 all_pages \<and>
    gate s' = (gate s)(14 := intr_gate (isr_addr L Pagefault)) \<and>
    eq_off (paging_bytes L (idt s)) (mem s) m"
proof -
  obtain n where n: "2048 \<le> n" "(idt s, n) \<in> A" and live: "kernel_live s A"
    using assms(2) by (auto simp: idt_live_def IDT_LIMIT_def)
  note ra = region_area(1) [OF live n(2,1)] region_area(2) [OF live n(2,1)]
  let ?D = "kernel_memory_addr L"
  obtain m1 where m1: "fill_kernel_memory L s = Some (s\<lparr>mem := m1\<rparr>)" "eq_off (dir_bytes L) (mem s) m1"
    "maps_kernel 0 m1 ?D"
    using fill_kernel_dir [OF assms(1), of s] by blast
  have "kernel_live (s\<lparr>mem := m1\<rparr>) A"
    using m1(2) dir_bytes_outside(1) [OF assms(1)]
    by (intro kernel_live_write [OF live]) (auto simp: eq_off_def)
  then have i1: "idt_live A (s\<lparr>mem := m1\<rparr>)" using assms(2) by (simp add: idt_live_def)
  have g1: "gate (s\<lparr>mem := m1\<rparr>) = gate s"
    by (rule gate_cong [OF assms(2)])
      (use m1(2) dir_bytes_outside(1) [OF assms(1)] ra(2) in \<open>auto simp: eq_off_def\<close>)
  obtain m2 where m2: "set_desc 14 (intr_gate (isr_addr L Pagefault)) (s\<lparr>mem := m1\<rparr>) = Some (s\<lparr>mem := m2\<rparr>)"
    "idt_live A (s\<lparr>mem := m2\<rparr>)" "gate (s\<lparr>mem := m2\<rparr>) = (gate s)(14 := intr_gate (isr_addr L Pagefault))"
    "eq_off (region (idt s) 2048) m1 m2"
    using set_desc_gate [OF i1, of 14 "intr_gate (isr_addr L Pagefault)"]
    by (auto simp: idt_frame_def g1 eq_off_def IDT_LIMIT_def)
  let ?s = "enable_paging (?D - KERNEL_BASE) (s\<lparr>mem := m2\<rparr>)"
  have b: "unat ?D + 4096 \<le> 2 ^ 32" using assms(1) by (simp add: layout_ok_def)
  have d: "bytes_at ?D 4096 \<inter> region (idt s) 2048 = {}"
    using dir_bytes_outside(1) [OF assms(1)] ra(2) unfolding dir_bytes_def by blast
  have ks: "kernel_space L ?s"
    using assms(1) maps_kernel_eq_off [OF m1(3) m2(4) d b] by (simp add: kernel_space_def enable_paging_def)
  obtain p m3 where m3: "freelist_loop 0 ?s = Some (?s\<lparr>page_freelist := p, mem := m3\<rparr>)"
    "eq_off {x. x < KERNEL_BASE} m2 m3" "\<And>k. k < 786432 \<Longrightarrow> ld32 m3 (page_at k) = page_at (Suc k)"
    using freelist_loop_ok [OF ks, of 0] by (auto simp: page_at_def enable_paging_def)
  let ?s' = "s\<lparr>mem := m3, cr3 := ?D - KERNEL_BASE, page_freelist := 0\<rparr>"
  have low: "x \<notin> {x. x < KERNEL_BASE}" if "x \<in> kernel_area" for x
    using area_not_low [OF that] by simp
  have "kernel_space L (?s\<lparr>mem := m3\<rparr>)"
    by (rule kernel_space_write [OF ks, of "{x. x < KERNEL_BASE}"])
      (use m3(2) dir_bytes_outside(2) [OF assms(1)] in \<open>simp_all add: enable_paging_def\<close>)
  then have k': "kernel_space L ?s'" by (simp add: kernel_space_def enable_paging_def)
  have l2: "kernel_live (s\<lparr>mem := m2\<rparr>) A" using m2(2) by (simp add: idt_live_def)
  have "kernel_live (s\<lparr>mem := m2, mem := m3\<rparr>) A"
    by (rule kernel_live_write [OF l2]) (use low m3(2) in \<open>auto simp: eq_off_def\<close>)
  then have i': "idt_live A ?s'" using m2(2) by (simp add: idt_live_def kernel_live_def)
  have g': "gate ?s' = gate (s\<lparr>mem := m2\<rparr>)"
    by (rule gate_cong [OF m2(2)]) (use eq_offD [OF m3(2) low] ra(2) in auto)
  have pl: "page_list m3 0 all_pages"
    using page_list_from [of 0 m3] m3(3) by (simp add: all_pages_def page_at_def)
  have e: "eq_off (paging_bytes L (idt s)) (mem s) m3"
    using eq_off_trans [OF eq_off_trans [OF m1(2) m2(4)] m3(2)] by (simp add: paging_bytes_def)
  have "init_paging L s = Some ?s'"
    using m1(1) m2(1) m3(1) by (simp add: init_paging_def set_id_intr enable_paging_def)
  then show ?thesis
    using k' i' g' pl e m2(3) by (intro exI [of _ m3]) (simp add: Let_def)
qed

end
