(* ===== verification/Page_Allocation.thy ===== *)
theory Page_Allocation
  imports Paging
begin

text \<open>
  What \<open>init_paging\<close>, \<open>allocate_page\<close> and \<open>free_page\<close> (paging.c) do to the
  translation of addresses and to the list of free pages: the two cases of
  \<open>allocate_page\<close> over the kernel heap, a booted machine for the concrete runs, and the
  properties of paging.
\<close>

section \<open>What \<open>allocate_page\<close> does\<close>

lemma page_aligned_dvd: "page_aligned a \<longleftrightarrow> 4096 dvd unat a"
proof -
  have "unat (take_bit 12 a) = take_bit 12 (unat a)" by (rule unsigned_take_bit_eq)
  also have "\<dots> = unat a mod 4096" by (simp add: take_bit_eq_mod)
  finally have "unat (take_bit 12 a) = unat a mod 4096" .
  then show ?thesis
    unfolding page_aligned_def dvd_eq_mod_eq_0 by (metis unsigned_0 unat_eq_zero)
qed

lemma page_low:
  assumes "q < KERNEL_BASE" "page_aligned q"
  shows "bytes_at q 4 \<subseteq> {x. x < KERNEL_BASE}"
proof
  fix x assume x: "x \<in> bytes_at q 4"
  obtain k where k: "unat q = 4096 * k" using assms(2) by (auto simp: page_aligned_dvd)
  have "k < 786432" using assms(1) k by (simp add: word_less_nat_alt)
  moreover have "q = page_at k"
    by (rule u32_eqI) (use k unat_page [of k] \<open>k < 786432\<close> in simp)
  ultimately show "x \<in> {x. x < KERNEL_BASE}" using x page_at_bound by simp
qed

lemma page_list_eq_off:
  "page_list m p qs \<Longrightarrow> eq_off X m m' \<Longrightarrow> X \<inter> {x. x < KERNEL_BASE} = {} \<Longrightarrow> page_list m' p qs"
proof (induction qs arbitrary: p)
  case (Cons q qs)
  then have q: "q < KERNEL_BASE" "page_aligned q" by simp_all
  have "ld32 m' q = ld32 m q"
    using Cons.prems(3) page_low [OF q] by (intro ld32_eq_off [OF Cons.prems(2)]) blast
  then show ?case using Cons by simp
qed simp

lemma bit_7_or [simp]:
  "bit (7 OR w :: u32) 0" "bit (7 OR w :: u32) (Suc 0)" "bit (7 OR w :: u32) 2"
  "bit (7 OR w :: u32) 7 \<longleftrightarrow> bit w 7"
proof -
  have "bit (7 :: u32) 0" "bit (7 :: u32) (Suc 0)" "bit (7 :: u32) 2" "\<not> bit (7 :: u32) 7"
    by (simp_all add: bit_iff_odd)
  then show "bit (7 OR w :: u32) 0" "bit (7 OR w :: u32) (Suc 0)" "bit (7 OR w :: u32) 2"
    "bit (7 OR w :: u32) 7 \<longleftrightarrow> bit w 7"
    by (simp_all add: bit_or_iff del: bit_0)
qed

lemma entry_addr: "page_aligned a \<Longrightarrow> (7 OR a) AND 0xfffff000 = a"
proof -
  assume a: "page_aligned a"
  have "(7 :: u32) AND 0xfffff000 = 0" by simp
  then show "(7 OR a) AND 0xfffff000 = a"
    using page_aligned_mask [OF a] by (simp only: bit.conj_disj_distrib2 or.left_neutral)
qed

text \<open>The walk through a directory entry and a table entry as \<open>allocate_page\<close> writes them.\<close>

lemma walk_user:
  assumes "page_aligned D" "page_aligned T" "page_aligned f"
    "ld32 m (D + 4 * dir_index va) = 7 OR (T - KERNEL_BASE)"
    "ld32 m (T + 4 * table_index va) = 7 OR f"
  shows "walk m (D - KERNEL_BASE) va = Some (f OR (va AND 0xfff), True, True)"
proof -
  have D: "(D - KERNEL_BASE) AND 0xfffff000 = D - KERNEL_BASE"
    by (intro page_aligned_mask page_aligned_base assms(1))
  have T: "page_aligned (T - KERNEL_BASE)" by (rule page_aligned_base [OF assms(2)])
  have "\<not> bit (T - KERNEL_BASE) 7" by (rule page_aligned_bit [OF T]) simp
  then show ?thesis
    unfolding walk_def Let_def D phys32_dir assms(4) entry_addr [OF T] assms(5) entry_addr [OF assms(3)]
    by (simp del: KERNEL_BASE_def)
qed

lemma walk_absent:
  assumes "page_aligned D" "\<not> bit (ld32 m (D + 4 * dir_index va)) 0"
  shows "walk m (D - KERNEL_BASE) va = None"
proof -
  have D: "(D - KERNEL_BASE) AND 0xfffff000 = D - KERNEL_BASE"
    by (intro page_aligned_mask page_aligned_base assms(1))
  show ?thesis unfolding walk_def Let_def D phys32_dir using assms(2) by simp
qed

lemma walk_unmapped:
  assumes "page_aligned D" "page_aligned T"
    "ld32 m (D + 4 * dir_index va) = 7 OR (T - KERNEL_BASE)"
    "\<not> bit (ld32 m (T + 4 * table_index va)) 0"
  shows "walk m (D - KERNEL_BASE) va = None"
proof -
  have D: "(D - KERNEL_BASE) AND 0xfffff000 = D - KERNEL_BASE"
    by (intro page_aligned_mask page_aligned_base assms(1))
  have T: "page_aligned (T - KERNEL_BASE)" by (rule page_aligned_base [OF assms(2)])
  have "\<not> bit (T - KERNEL_BASE) 7" by (rule page_aligned_bit [OF T]) simp
  then show ?thesis
    unfolding walk_def Let_def D phys32_dir assms(3) entry_addr [OF T] using assms(4)
    by (simp del: KERNEL_BASE_def)
qed

text \<open>One page into an existing table; then one that needs a new table.\<close>

lemma allocate_page_table:
  assumes "kernel_space L s" "page_freelist s < KERNEL_BASE" "addr < KERNEL_BASE"
    "ld32 (mem s) (D + 4 * dir_index addr) = pde" "bit pde 0" "\<not> bit pde 7"
    "(pde AND 0xfffff000) + KERNEL_BASE = T"
    "\<not> bit (ld32 (mem s) (T + 4 * table_index addr)) 0"
    "dir_bytes L \<inter> bytes_at (T + 4 * table_index addr) 4 = {}"
    "page_aligned (page_freelist s + PAGE_OFFSET)"
  shows "allocate_page D addr s = Some (s\<lparr>page_freelist := ld32 (mem s) (page_freelist s),
    mem := st32 (mem s) (T + 4 * table_index addr) (7 OR (page_freelist s + PAGE_OFFSET))\<rparr>)"
proof -
  have k: "kernel_space L (s\<lparr>page_freelist := p\<rparr>)" for p
    using assms(1) by (simp add: kernel_space_def)
  have f: "(page_freelist s + PAGE_OFFSET) AND 0xfffff000 = page_freelist s + PAGE_OFFSET"
    by (rule page_aligned_mask [OF assms(10)])
  note w = wr32_kernel [OF k assms(9)]
  show ?thesis
    unfolding allocate_page_def Let_def dir_index_def [symmetric] table_index_def [symmetric]
      rd32_kernel [OF assms(1)] assms(4) present_bit addr_bits enc_pte_word
    using assms(2-3,5-8) f w
    by (simp add: not_le rd32_kernel [OF assms(1)] present_bit addr_bits del: KERNEL_BASE_def)
qed

lemma allocate_page_new_table:
  assumes "kernel_space L s" "page_freelist s < KERNEL_BASE" "addr < KERNEL_BASE"
    "\<not> bit (ld32 (mem s) (D + 4 * dir_index addr)) 0"
    "kernel_allocate rd8 wr8 s 4096 = Some (T, s\<lparr>mem := m\<rparr>)" "page_aligned T"
    "kernel_space L (s\<lparr>mem := m\<rparr>)" "dir_bytes L \<inter> bytes_at (D + 4 * dir_index addr) 4 = {}"
    "m1 = st32 m (D + 4 * dir_index addr) (7 OR (T - KERNEL_BASE))"
    "\<not> bit (ld32 m1 (T + 4 * table_index addr)) 0"
    "dir_bytes L \<inter> bytes_at (T + 4 * table_index addr) 4 = {}"
    "page_aligned (page_freelist s + PAGE_OFFSET)"
  shows "allocate_page D addr s = Some (s\<lparr>page_freelist := ld32 m1 (page_freelist s),
    mem := st32 m1 (T + 4 * table_index addr) (7 OR (page_freelist s + PAGE_OFFSET))\<rparr>)"
proof -
  have w1: "wr32 wr8 (s\<lparr>mem := m\<rparr>) (D + 4 * dir_index addr) (7 OR (T - KERNEL_BASE)) = Some (s\<lparr>mem := m1\<rparr>)"
    using wr32_kernel [OF assms(7,8)] by (simp add: assms(9) del: KERNEL_BASE_def)
  have k: "kernel_space L (s\<lparr>mem := m1\<rparr>)"
    using kernel_space_write [OF assms(7), of "bytes_at (D + 4 * dir_index addr) 4" m1] assms(8,9)
    by (simp add: eq_off_st32 del: KERNEL_BASE_def)
  have k': "kernel_space L (s\<lparr>mem := m1, page_freelist := p\<rparr>)" for p
    using k by (simp add: kernel_space_def)
  have f: "(page_freelist s + PAGE_OFFSET) AND 0xfffff000 = page_freelist s + PAGE_OFFSET"
    by (rule page_aligned_mask [OF assms(12)])
  have T: "(T - KERNEL_BASE) AND 0xfffff000 = T - KERNEL_BASE"
    by (intro page_aligned_mask page_aligned_base assms(6))
  have sz: "(4 * 1024 :: u32) = 4096" by simp
  note w2 = wr32_kernel [OF k' assms(11)]
  show ?thesis
    unfolding allocate_page_def Let_def dir_index_def [symmetric] table_index_def [symmetric]
      rd32_kernel [OF assms(1)] present_bit addr_bits enc_pte_word enc_pde_word sz assms(5)
    using assms(2-4,10) f T w1 w2
    by (simp add: not_le rd32_kernel [OF k] present_bit addr_bits del: KERNEL_BASE_def)
qed

text \<open>A table of 1024 entries within a live region.\<close>

lemma index_less: "unat (dir_index va) < 1024" "unat (table_index va) < 1024"
proof -
  show "unat (dir_index va) < 1024" by (rule dir_index_less)
  have "table_index va = take_bit 10 (drop_bit 12 va)"
    by (simp add: table_index_def masks(5) take_bit_eq_mask)
  then have "unat (table_index va) = take_bit 10 (unat (drop_bit 12 va))"
    by (simp only: unsigned_take_bit_eq)
  then show "unat (table_index va) < 1024" by (simp add: take_bit_eq_mod)
qed

lemma unat_index:
  assumes "unat P + 4096 \<le> 2 ^ 32" "unat (i :: u32) < 1024"
  shows "unat (P + 4 * i :: u32) = unat P + 4 * unat i"
  using unat_entry [OF assms] by simp

lemma index_bytes:
  assumes "unat P + 4096 \<le> 2 ^ 32" "unat (i :: u32) < 1024"
  shows "x \<in> bytes_at (P + 4 * i :: u32) 4 \<longleftrightarrow> unat P + 4 * unat i \<le> unat x \<and> unat x < unat P + 4 * unat i + 4"
  using entry_bytes [OF assms] by simp

lemma index_region:
  assumes "unat P + 4096 \<le> 2 ^ 32" "unat (i :: u32) < 1024"
  shows "bytes_at (P + 4 * i) 4 \<subseteq> region P 4096"
  using assms(2) by (auto simp: index_bytes [OF assms] region_def inside_def)

lemma index_disj:
  assumes "unat P + 4096 \<le> 2 ^ 32" "unat i < 1024" "unat k < 1024" "i \<noteq> k"
  shows "disj (P + 4 * i) 4 (P + 4 * k) 4"
  using entries_disj [OF assms(1-3)] assms(4) by (simp add: word_unat_eq_iff)

lemma heap_entry:
  assumes "kernel_live s A" "(P, n) \<in> A" "4096 \<le> n" "unat i < 1024"
  shows "bytes_at (P + 4 * i) 4 \<subseteq> regions A" "bytes_at (P + 4 * i) 4 \<subseteq> kernel_area"
proof -
  have b: "unat P + 4096 \<le> 2 ^ 32" using live_bounds [OF assms(1,2)] assms(3) by simp
  note r = index_region [OF b assms(4)]
  show "bytes_at (P + 4 * i) 4 \<subseteq> regions A" "bytes_at (P + 4 * i) 4 \<subseteq> kernel_area"
    using r region_area [OF assms(1-3)] by blast+
qed

lemma area_not_dir: "layout_ok L \<Longrightarrow> X \<subseteq> kernel_area \<Longrightarrow> dir_bytes L \<inter> X = {}"
  using dir_bytes_outside(1) by blast

lemma block_bits_page: "block_bits 4097 = 13"
  by (simp add: block_bits_def compute_floorlog)

lemma page_offset_aligned: "page_aligned q \<Longrightarrow> page_aligned (q + PAGE_OFFSET)"
  by (intro page_aligned_add) (simp_all add: page_aligned_dvd PAGE_OFFSET_def)

text \<open>A page of the heap: fresh, zero, on a page boundary.\<close>

lemma zheap_page:
  assumes "zheap s A (Suc j)" "13 \<le> j"
  shows "\<exists>T n m. kernel_allocate rd8 wr8 s 4096 = Some (T, s\<lparr>mem := m\<rparr>) \<and> T \<noteq> 0 \<and> 4096 \<le> n \<and>
    zheap (s\<lparr>mem := m\<rparr>) (insert (T, n) A) j \<and> (T, n) \<notin> A \<and> page_aligned T \<and>
    eq_off (- (regions A \<union> - kernel_area)) (mem s) m \<and> (\<forall>x \<in> region T n. m x = 0)"
proof -
  have sz: "unat (4096 :: u32) + 1 = 4097" by simp
  have "block_bits (unat (4096 :: u32) + 1) \<le> j" "unat (4096 :: u32) + 1 < 2 ^ 28"
    using assms(2) unfolding sz block_bits_page by simp_all
  from zheap_alloc [OF assms(1) this]
  obtain T n m where T: "kernel_allocate rd8 wr8 s 4096 = Some (T, s\<lparr>mem := m\<rparr>)" "T \<noteq> 0"
    "4096 \<le> n" "zheap (s\<lparr>mem := m\<rparr>) (insert (T, n) A) j" "(T, n) \<notin> A" "2 ^ 13 dvd unat T"
    "\<forall>x \<in> regions A \<union> - kernel_area. m x = mem s x" "\<forall>x \<in> region T n. m x = 0"
    unfolding sz block_bits_page by auto
  have "(4096 :: nat) dvd 2 ^ 13" by simp
  then have "page_aligned T" unfolding page_aligned_dvd using T(6) by (rule dvd_trans)
  with T show ?thesis unfolding eq_off_def by blast
qed

lemma live_apart:
  assumes "kernel_live s (insert (T, n) A)" "(T, n) \<notin> A"
  shows "region T n \<inter> regions A = {}"
  using kernel_live_disjoint [OF assms(1), of T n] assms(2) by (fastforce simp: regions_def)

lemma zero_word: "\<forall>x \<in> X. m x = 0 \<Longrightarrow> bytes_at a 4 \<subseteq> X \<Longrightarrow> ld32 m a = 0"
proof -
  assume z: "\<forall>x \<in> X. m x = 0" and a: "bytes_at a 4 \<subseteq> X"
  have "ld32 m a = ld32 (\<lambda>_. 0) a"
  proof (rule ld32_cong)
    fix i :: nat assume "i < 4"
    then have "a + of_nat i \<in> bytes_at a 4" by (simp add: bytes_at_def unat_of_nat_u32)
    with z a show "m (a + of_nat i) = 0" by blast
  qed
  then show ?thesis by (simp add: ld32_def)
qed

lemma allocate_page_zheap:
  assumes ks: "kernel_space L s" and z: "zheap s A (Suc j)" "13 \<le> j"
    and D: "(D, n) \<in> A" "4096 \<le> n" and pl: "page_list (mem s) (page_freelist s) (q # qs)"
    and addr: "addr < KERNEL_BASE" and absent: "\<not> bit (ld32 (mem s) (D + 4 * dir_index addr)) 0"
  shows "\<exists>T n' p m. let s' = s\<lparr>page_freelist := p, mem := m\<rparr> in
    allocate_page D addr s = Some s' \<and> zheap s' (insert (T, n') A) j \<and> kernel_space L s' \<and>
    4096 \<le> n' \<and> (T, n') \<notin> A \<and> page_aligned T \<and> page_list m p qs \<and>
    ld32 m (D + 4 * dir_index addr) = 7 OR (T - KERNEL_BASE) \<and>
    ld32 m (T + 4 * table_index addr) = 7 OR (q + PAGE_OFFSET) \<and>
    (\<forall>i. unat i < 1024 \<and> i \<noteq> table_index addr \<longrightarrow> ld32 m (T + 4 * i) = 0) \<and>
    eq_off (bytes_at (D + 4 * dir_index addr) 4 \<union> - (regions A \<union> - kernel_area)) (mem s) m"
proof -
  have L: "layout_ok L" using ks by (simp add: kernel_space_def)
  obtain T n' m where T: "kernel_allocate rd8 wr8 s 4096 = Some (T, s\<lparr>mem := m\<rparr>)" "4096 \<le> n'"
    "zheap (s\<lparr>mem := m\<rparr>) (insert (T, n') A) j" "(T, n') \<notin> A" "page_aligned T"
    "eq_off (- (regions A \<union> - kernel_area)) (mem s) m" "\<forall>x \<in> region T n'. m x = 0"
    using zheap_page [OF z] by blast
  let ?d = "D + 4 * dir_index addr" and ?t = "T + 4 * table_index addr"
  let ?A = "insert (T, n') A"
  note l1 = zheap_live [OF T(3)]
  have bT: "unat T + 4096 \<le> 2 ^ 32" using live_bounds [OF l1, of T n'] T(2) by simp
  have D': "(D, n) \<in> ?A" and T': "(T, n') \<in> ?A" using D(1) by simp_all
  note dA = heap_entry [OF l1 D' D(2) index_less(1)] and tA = heap_entry [OF l1 T' T(2) index_less(2)]
  note dA0 = heap_entry(1) [OF zheap_live [OF z(1)] D index_less(1)]
  define m1 where "m1 = st32 m ?d (7 OR (T - KERNEL_BASE))"
  define m2 where "m2 = st32 m1 ?t (7 OR (q + PAGE_OFFSET))"
  have e1: "eq_off (bytes_at ?d 4) m m1" and e2: "eq_off (bytes_at ?t 4) m1 m2"
    unfolding m1_def m2_def by (rule eq_off_st32)+
  have k1: "kernel_space L (s\<lparr>mem := m\<rparr>)"
    using kernel_space_write [OF ks T(6)] dir_bytes_outside(1) [OF L] by blast
  have rT: "region T 4096 \<subseteq> region T n'" using T(2) by (auto simp: region_def inside_def)
  have apart: "region T n' \<inter> regions A = {}" by (rule live_apart [OF l1 T(4)])
  have dT: "bytes_at ?d 4 \<inter> region T n' = {}" using dA0 apart by blast
  have z1: "\<forall>x \<in> region T n'. m1 x = 0"
    using T(7) e1 dT by (auto simp: eq_off_def)
  have w0: "ld32 m1 (T + 4 * i) = 0" if "unat i < 1024" for i
    by (rule zero_word [OF z1]) (use index_region [OF bT that] rT in blast)
  have q: "q < KERNEL_BASE" "page_freelist s = q" "page_aligned q" using pl by simp_all
  have al: "allocate_page D addr s = Some (s\<lparr>page_freelist := ld32 m1 (page_freelist s),
    mem := st32 m1 ?t (7 OR (page_freelist s + PAGE_OFFSET))\<rparr>)"
    using w0 [OF index_less(2)] q page_offset_aligned [OF q(3)]
    by (intro allocate_page_new_table [OF ks _ addr absent T(1,5) k1 area_not_dir [OF L dA(2)] m1_def
          _ area_not_dir [OF L tA(2)]]) simp_all
  let ?s = "s\<lparr>page_freelist := ld32 m1 q, mem := m2\<rparr>"
  have "zheap (s\<lparr>mem := m, mem := m2\<rparr>) ?A j"
  proof (rule zheap_write [OF T(3)])
    fix x assume "m2 x \<noteq> mem (s\<lparr>mem := m\<rparr>) x"
    then have "x \<in> bytes_at ?d 4 \<union> bytes_at ?t 4" using e1 e2 by (auto simp: eq_off_def)
    with dA(1) tA(1) show "x \<in> regions ?A \<union> - kernel_area" by blast
  qed
  then have zz: "zheap ?s ?A j" by (simp add: zheap_def)
  have kk: "kernel_space L ?s"
  proof -
    have "kernel_space L (s\<lparr>mem := m, mem := m2\<rparr>)"
      using eq_off_trans [OF e1 e2] area_not_dir [OF L dA(2)] area_not_dir [OF L tA(2)]
      by (intro kernel_space_write [OF k1, of "bytes_at ?d 4 \<union> bytes_at ?t 4"]) auto
    then show ?thesis by (simp add: kernel_space_def)
  qed
  have low: "kernel_area \<inter> {x. x < KERNEL_BASE} = {}" using area_not_low by blast
  let ?X = "bytes_at ?d 4 \<union> - (regions A \<union> - kernel_area)"
  have tX: "bytes_at ?t 4 \<subseteq> ?X"
    using index_region [OF bT index_less(2)] rT apart tA(2) by blast
  have f1: "eq_off ?X (mem s) m1" by (rule eq_off_mono [OF eq_off_trans [OF T(6) e1]]) blast
  have f2: "eq_off ?X (mem s) m2" by (rule eq_off_mono [OF eq_off_trans [OF f1 e2]]) (use tX in blast)
  have Xlow: "?X \<inter> {x. x < KERNEL_BASE} = {}" using dA(2) low by blast
  have "ld32 m1 q = ld32 (mem s) q"
    by (rule ld32_eq_off [OF f1]) (use page_low [OF q(1,3)] Xlow in blast)
  then have pl': "page_list m2 (ld32 m1 q) qs"
    using page_list_eq_off [OF _ f2 Xlow] pl by simp
  have "bytes_at ?t 4 \<subseteq> region T n'" using index_region [OF bT index_less(2)] rT by blast
  then have "ld32 m2 ?d = ld32 m1 ?d"
    by (intro ld32_eq_off [OF e2]) (use dT in blast)
  then have ld: "ld32 m2 ?d = 7 OR (T - KERNEL_BASE)" by (simp add: m1_def)
  have lt: "ld32 m2 ?t = 7 OR (q + PAGE_OFFSET)" by (simp add: m2_def)
  have lz: "ld32 m2 (T + 4 * i) = 0" if i: "unat i < 1024" "i \<noteq> table_index addr" for i
  proof -
    have "disj ?t 4 (T + 4 * i) 4" by (rule index_disj [OF bT index_less(2) i(1)]) (use i(2) in simp)
    then show ?thesis using w0 [OF i(1)] by (simp add: m2_def ld32_st32_disj)
  qed
  have "allocate_page D addr s = Some ?s" using al q(2) by (simp add: m2_def)
  then show ?thesis
    using zz kk T(2,4,5) pl' ld lt lz f2 unfolding Let_def
    by (intro exI [of _ T] exI [of _ n'] exI [of _ "ld32 m1 q"] exI [of _ m2]) blast
qed


section \<open>A booted machine\<close>

text \<open>The states the concrete runs start from: zero memory, and a layout as the linker makes it.\<close>

definition boot_layout :: layout where
  "boot_layout = \<lparr>gdt_addr = 0xc0110000, tss_addr = 0xc0111000, kernel_memory_addr = 0xc0112000,
     isr_addr = (\<lambda>_. 0xc0100800)\<rparr>"

definition boot_paging :: paging_machine where
  "boot_paging = \<lparr>mem = \<lambda>_. 0, cr3 = 0, ports = [], gdt = replicate GDT_LIMIT zero_desc,
     gdtr = \<lparr>dt_size = 0, dt_offset = 0\<rparr>, tss = zero_tss,
     cpu_gdtr = \<lparr>dt_size = 0, dt_offset = 0\<rparr>, cpu_tr = 0, cpu_cs = 0, cpu_ds = 0, cpu_es = 0,
     cpu_ss = 0, cpu_fs = 0, cpu_gs = 0, idt = 0, idtr = \<lparr>idtr_size = 0, idtr_offset = 0\<rparr>,
     cpu_idtr = \<lparr>idtr_size = 0, idtr_offset = 0\<rparr>, iflag = False, page_freelist = 0\<rparr>"

lemma boot_layout_ok: "layout_ok boot_layout"
  by (simp add: layout_ok_def boot_layout_def page_aligned_dvd)

lemma init_idt_zheap:
  assumes "zheap s A (Suc j)" "12 \<le> j"
  shows "\<exists>p n m. init_idt s = Some (s\<lparr>mem := m, idt := p, idtr := \<lparr>idtr_size = 2047, idtr_offset = p\<rparr>\<rparr>) \<and>
    2048 \<le> n \<and> (p, n) \<notin> A \<and> zheap (s\<lparr>mem := m\<rparr>) (insert (p, n) A) j \<and>
    idt_live (insert (p, n) A) (s\<lparr>mem := m, idt := p\<rparr>) \<and> (\<forall>x \<in> region p n. m x = 0) \<and>
    eq_off (- (regions A \<union> - kernel_area)) (mem s) m"
proof -
  have sz: "unat (2048 :: u32) + 1 = 2049" by simp
  have b: "block_bits 2049 = 12" by (simp add: block_bits_def compute_floorlog)
  have "block_bits (unat (2048 :: u32) + 1) \<le> j" "unat (2048 :: u32) + 1 < 2 ^ 28"
    using assms(2) unfolding sz b by simp_all
  from zheap_alloc [OF assms(1) this]
  obtain p n m where a: "kernel_allocate rd8 wr8 s 2048 = Some (p, s\<lparr>mem := m\<rparr>)" "unat (2048 :: u32) \<le> n"
    "zheap (s\<lparr>mem := m\<rparr>) (insert (p, n) A) j" "(p, n) \<notin> A"
    "\<forall>x \<in> regions A \<union> - kernel_area. m x = mem s x" "\<forall>x \<in> region p n. m x = 0" by blast
  have "kernel_live (s\<lparr>mem := m, idt := p\<rparr>) (insert (p, n) A)"
    using zheap_live [OF a(3)] by (simp add: kernel_live_def)
  then have "idt_live (insert (p, n) A) (s\<lparr>mem := m, idt := p\<rparr>)"
    using a(2) by (auto simp: idt_live_def IDT_LIMIT_def)
  moreover have "init_idt s = Some (s\<lparr>mem := m, idt := p, idtr := \<lparr>idtr_size = 2047, idtr_offset = p\<rparr>\<rparr>)"
    using a(1) by (simp add: init_idt_def IDT_LIMIT_def)
  ultimately show ?thesis using a by (auto simp: eq_off_def)
qed

lemma init_paging_zheap:
  assumes "layout_ok L" "idt_live A s" "zheap s A j"
  shows "\<exists>m. let s' = s\<lparr>mem := m, cr3 := kernel_memory_addr L - KERNEL_BASE, page_freelist := 0\<rparr> in
    init_paging L s = Some s' \<and> kernel_space L s' \<and> idt_live A s' \<and> zheap s' A j \<and>
    page_list m 0 all_pages \<and> gate s' = (gate s)(14 := intr_gate (isr_addr L Pagefault)) \<and>
    eq_off (paging_bytes L (idt s)) (mem s) m"
proof -
  obtain n where n: "2048 \<le> n" "(idt s, n) \<in> A" and live: "kernel_live s A"
    using assms(2) by (auto simp: idt_live_def IDT_LIMIT_def)
  obtain m where m: "let s' = s\<lparr>mem := m, cr3 := kernel_memory_addr L - KERNEL_BASE, page_freelist := 0\<rparr> in
    init_paging L s = Some s' \<and> kernel_space L s' \<and> idt_live A s' \<and> page_list m 0 all_pages \<and>
    gate s' = (gate s)(14 := intr_gate (isr_addr L Pagefault)) \<and>
    eq_off (paging_bytes L (idt s)) (mem s) m"
    using init_paging_ok [OF assms(1,2)] by blast
  then have e: "eq_off (paging_bytes L (idt s)) (mem s) m" by (simp add: Let_def)
  have "paging_bytes L (idt s) \<subseteq> regions A \<union> - kernel_area"
    using region_area(1) [OF live n(2,1)] dir_bytes_outside(1) [OF assms(1)] area_not_low
    unfolding paging_bytes_def by blast
  then have "zheap (s\<lparr>mem := m\<rparr>) A j"
    using e by (intro zheap_write [OF assms(3)]) (auto simp: eq_off_def)
  then show ?thesis using m by (intro exI [of _ m]) (simp add: Let_def zheap_def)
qed

lemma boot_paging_state:
  "\<exists>s A. kernel_space boot_layout s \<and> zheap s A 28 \<and> page_list (mem s) (page_freelist s) all_pages \<and>
     idt_live A (s :: paging_machine)"
proof -
  obtain m0 where m0: "zheap (boot_paging\<lparr>mem := m0\<rparr>) {} 29"
    using init_kernel_heap_zheap [of boot_paging] by (auto simp: boot_paging_def)
  have z: "zheap (boot_paging\<lparr>mem := m0\<rparr>) {} (Suc 28)" using m0 by simp
  from init_idt_zheap [OF this] obtain p n m1 where
    i: "zheap (boot_paging\<lparr>mem := m1\<rparr>) {(p, n)} 28" "idt_live {(p, n)} (boot_paging\<lparr>mem := m1, idt := p\<rparr>)"
    by auto
  let ?s = "boot_paging\<lparr>mem := m1, idt := p\<rparr>"
  have "zheap ?s {(p, n)} 28" using i(1) by (simp add: zheap_def)
  from init_paging_zheap [OF boot_layout_ok i(2) this] show ?thesis
    unfolding Let_def by (elim exE conjE) (intro exI conjI, assumption, assumption, simp_all)
qed

section \<open>Correctness of paging\<close>

lemma distinct_pages: "n \<le> 786432 \<Longrightarrow> distinct (map page_at [0..<n])"
proof (induction n)
  case (Suc n)
  have "page_at n \<notin> page_at ` {0..<n}"
  proof
    assume "page_at n \<in> page_at ` {0..<n}"
    then obtain i where i: "i < n" "page_at n = page_at i" by auto
    then have "4096 * n = 4096 * i" using Suc.prems unat_page [of n] unat_page [of i] by simp
    with i(1) show False by simp
  qed
  with Suc show ?case by simp
qed simp

lemma all_pages_distinct: "distinct all_pages"
  unfolding all_pages_def by (rule distinct_pages) simp

lemma all_pages_length: "length all_pages = 786432"
  unfolding all_pages_def length_map length_upt by simp

text \<open>
  (C13) \<open>init_paging\<close> ends without a fault in the address space it builds: every address
  translates to itself minus \<open>KERNEL_BASE\<close>, supervisor only and writable, so the kernel half
  is mapped to low physical memory and the rest of memory lies below it. All 786432 pages
  below \<open>KERNEL_BASE\<close> are on the free list, each once and in order, vector 14 leads to the
  page fault handler, and the heap and all data outside the directory and the table of gates
  are untouched.
\<close>

theorem init_paging_identity:
  assumes "layout_ok L" "idt_live A s"
  shows "\<exists>s'. init_paging L s = Some s' \<and>
    (\<forall>va. walk (mem s') (cr3 s') va = Some (va - KERNEL_BASE, False, True)) \<and>
    page_list (mem s') (page_freelist s') all_pages \<and> distinct all_pages \<and> length all_pages = 786432 \<and>
    gate s' = (gate s)(14 := intr_gate (isr_addr L Pagefault)) \<and> idt_live A s' \<and>
    eq_off (paging_bytes L (idt s)) (mem s) (mem s')"
proof -
  obtain m where m: "let s' = s\<lparr>mem := m, cr3 := kernel_memory_addr L - KERNEL_BASE, page_freelist := 0\<rparr> in
    init_paging L s = Some s' \<and> kernel_space L s' \<and> idt_live A s' \<and> page_list m 0 all_pages \<and>
    gate s' = (gate s)(14 := intr_gate (isr_addr L Pagefault)) \<and>
    eq_off (paging_bytes L (idt s)) (mem s) m"
    using init_paging_ok [OF assms] by blast
  let ?s = "s\<lparr>mem := m, cr3 := kernel_memory_addr L - KERNEL_BASE, page_freelist := 0\<rparr>"
  have ks: "kernel_space L ?s" using m by (simp add: Let_def)
  have "walk (mem ?s) (cr3 ?s) va = Some (va - KERNEL_BASE, False, True)" for va
    using walk_kernel [of 0 "mem ?s" "kernel_memory_addr L" va] ks
    by (simp add: kernel_space_def layout_ok_def)
  then show ?thesis
    using m all_pages_distinct all_pages_length
    by (intro exI [of _ ?s]) (simp add: Let_def del: KERNEL_BASE_def)
qed

theorem init_paging_identity_witness:
  "\<exists>s s' :: paging_machine. init_paging boot_layout s = Some s' \<and>
     walk (mem s') (cr3 s') 0xc0100000 = Some (0x100000, False, True) \<and>
     walk (mem s') (cr3 s') 0 = Some (0x40000000, False, True)"
proof -
  obtain s :: paging_machine and A where "idt_live A s" using boot_paging_state by blast
  from init_paging_identity [OF boot_layout_ok this] obtain s' where
    "init_paging boot_layout s = Some s'"
    "\<forall>va. walk (mem s') (cr3 s') va = Some (va - KERNEL_BASE, False, True)"
    by (elim exE conjE)
  then show ?thesis by (intro exI [of _ s] exI [of _ s']) (simp del: One_nat_def)
qed

text \<open>
  The entry of a directory for the page at \<open>addr\<close>, and the table it names, in the kernel half. A
  table that is there already has to be open to ring 3 and a live page of the heap other than the
  directory.
\<close>

definition dir_entry_at :: "bytes \<Rightarrow> u32 \<Rightarrow> u32 \<Rightarrow> u32" where
  "dir_entry_at m D addr = ld32 m (D + 4 * dir_index addr)"

definition table_of :: "u32 \<Rightarrow> u32" where
  "table_of pde = (pde AND 0xfffff000) + KERNEL_BASE"

definition own_table :: "(u32 \<times> nat) set \<Rightarrow> u32 \<times> nat \<Rightarrow> u32 \<Rightarrow> bool" where
  "own_table A d pde \<longleftrightarrow> bit pde 0 \<and> bit pde 1 \<and> bit pde 2 \<and> \<not> bit pde 7 \<and> (\<exists>n \<ge> 4096. (table_of pde, n) \<in> A - {d})"

lemma walk_table:
  assumes "page_aligned D" "dir_entry_at m D va = pde" "bit pde 0" "bit pde 1" "bit pde 2" "\<not> bit pde 7"
  shows "walk m (D - KERNEL_BASE) va = (let pte = ld32 m (table_of pde + 4 * table_index va) in
    if bit pte 0 then Some ((pte AND 0xfffff000) OR (va AND 0xfff), bit pte 2, bit pte 1) else None)"
proof -
  have D: "(D - KERNEL_BASE) AND 0xfffff000 = D - KERNEL_BASE"
    by (intro page_aligned_mask page_aligned_base assms(1))
  have "phys32 m ((pde AND 0xfffff000) + 4 * table_index va) = ld32 m (table_of pde + 4 * table_index va)"
    by (simp add: phys32_def table_of_def ac_simps)
  then show ?thesis
    unfolding walk_def Let_def D phys32_dir assms(2) [unfolded dir_entry_at_def] using assms(3-6)
    by (simp del: KERNEL_BASE_def bit_0)
qed

text \<open>A page in a table that is there.\<close>

lemma allocate_page_existing:
  assumes ks: "kernel_space L s" and z: "zheap s A (Suc j)" and D: "(D, n) \<in> A" "4096 \<le> n" "page_aligned D"
    and pl: "page_list (mem s) (page_freelist s) (q # qs)" and addr: "addr < KERNEL_BASE"
    and un: "walk (mem s) (D - KERNEL_BASE) addr = None"
    and own: "own_table A (D, n) pde" "dir_entry_at (mem s) D addr = pde"
  shows "\<exists>s'. allocate_page D addr s = Some s' \<and>
    (\<forall>va. dir_index va = dir_index addr \<longrightarrow> walk (mem s') (D - KERNEL_BASE) va =
       (if table_index va = table_index addr then Some ((q + PAGE_OFFSET) OR (va AND 0xfff), True, True)
        else walk (mem s) (D - KERNEL_BASE) va)) \<and>
    page_list (mem s') (page_freelist s') qs \<and> kernel_space L s' \<and> zheap s' A (Suc j) \<and>
    dir_entry_at (mem s') D addr = pde \<and> eq_off (bytes_at (table_of pde + 4 * table_index addr) 4) (mem s) (mem s')"
proof -
  let ?T = "table_of pde" and ?d = "D + 4 * dir_index addr"
  let ?t = "?T + 4 * table_index addr"
  have L: "layout_ok L" using ks by (simp add: kernel_space_def)
  have bits: "bit pde 0" "bit pde 1" "bit pde 2" "\<not> bit pde 7" using own(1) by (simp_all add: own_table_def del: bit_0)
  obtain nT where T: "(?T, nT) \<in> A" "4096 \<le> nT" "(?T, nT) \<noteq> (D, n)" using own(1) by (auto simp: own_table_def)
  note live = zheap_live [OF z]
  have bT: "unat ?T + 4096 \<le> 2 ^ 32" using live_bounds [OF live T(1)] T(2) by simp
  have bD: "unat D + 4096 \<le> 2 ^ 32" using live_bounds [OF live D(1)] D(2) by simp
  note tA = heap_entry [OF live T(1,2) index_less(2)]
  have q: "q < KERNEL_BASE" "page_freelist s = q" "page_aligned q" using pl by simp_all
  have free: "\<not> bit (ld32 (mem s) ?t) 0"
    using un unfolding walk_table [OF D(3) own(2) bits] Let_def by (simp split: if_splits del: bit_0)
  define m where "m = st32 (mem s) ?t (7 OR (q + PAGE_OFFSET))"
  define s' where "s' = s\<lparr>page_freelist := ld32 (mem s) q, mem := m\<rparr>"
  have al: "allocate_page D addr s = Some s'"
    using allocate_page_table [OF ks _ addr own(2) [unfolded dir_entry_at_def] bits(1,4) table_of_def [symmetric] free
        area_not_dir [OF L tA(2)]] q page_offset_aligned [OF q(3)] by (simp add: s'_def m_def)
  have e: "eq_off (bytes_at ?t 4) (mem s) m" unfolding m_def by (rule eq_off_st32)
  have "region D 4096 \<inter> region ?T 4096 = {}"
  proof -
    have "region D 4096 \<subseteq> region D n" "region ?T 4096 \<subseteq> region ?T nT" using D(2) T(2) by (auto simp: region_def inside_def)
    then show ?thesis using kernel_live_disjoint [OF live D(1) T(1)] T(3) by blast
  qed
  then have dT: "bytes_at ?d 4 \<inter> bytes_at ?t 4 = {}"
    using index_region [OF bD index_less(1)] index_region [OF bT index_less(2)] by blast
  have de: "dir_entry_at m D va = pde" if "dir_index va = dir_index addr" for va
    using ld32_eq_off [OF e, of ?d] dT own(2) that by (simp add: dir_entry_at_def)
  have w: "walk m (D - KERNEL_BASE) va = (if table_index va = table_index addr
      then Some ((q + PAGE_OFFSET) OR (va AND 0xfff), True, True) else walk (mem s) (D - KERNEL_BASE) va)"
    if va: "dir_index va = dir_index addr" for va
  proof (cases "table_index va = table_index addr")
    case True
    then have "ld32 m (?T + 4 * table_index va) = 7 OR (q + PAGE_OFFSET)" by (simp add: m_def)
    moreover have "bit (7 OR (q + PAGE_OFFSET)) 0" "bit (7 OR (q + PAGE_OFFSET)) 1" "bit (7 OR (q + PAGE_OFFSET)) 2"
      by (simp_all add: bit_or_iff bit_iff_odd [of 7] del: bit_0)
    ultimately show ?thesis
      using True entry_addr [OF page_offset_aligned [OF q(3)]]
      unfolding walk_table [OF D(3) de [OF va] bits] by (simp add: Let_def del: bit_0)
  next
    case False
    have "disj ?t 4 (?T + 4 * table_index va) 4" by (rule index_disj [OF bT index_less(2) index_less(2)]) (use False in simp)
    then have "ld32 m (?T + 4 * table_index va) = ld32 (mem s) (?T + 4 * table_index va)" by (simp add: m_def ld32_st32_disj)
    moreover have "dir_entry_at (mem s) D va = pde" using own(2) va by (simp add: dir_entry_at_def)
    ultimately show ?thesis using False walk_table [OF D(3) de [OF va] bits] walk_table [OF D(3) _ bits, of "mem s" va] by simp
  qed
  have zz: "zheap (s\<lparr>mem := m\<rparr>) A (Suc j)"
    by (rule zheap_write [OF z]) (use e tA(1) in \<open>auto simp: eq_off_def\<close>)
  have kk: "kernel_space L (s\<lparr>mem := m\<rparr>)" by (rule kernel_space_write [OF ks e area_not_dir [OF L tA(2)]])
  have low: "bytes_at ?t 4 \<inter> {x. x < KERNEL_BASE} = {}" using tA(2) area_not_low by blast
  have "page_list m (ld32 (mem s) q) qs" using page_list_eq_off [OF _ e low] pl by simp
  then show ?thesis
    using al w zz kk de [OF refl] e unfolding s'_def
    by (intro exI [of _ "s\<lparr>page_freelist := ld32 (mem s) q, mem := m\<rparr>"]) (simp add: zheap_def kernel_space_def)
qed

text \<open>A page that needs a new table.\<close>

lemma allocate_page_absent:
  assumes ks: "kernel_space L s" and z: "zheap s A (Suc j)" "13 \<le> j" and D: "(D, n) \<in> A" "4096 \<le> n" "page_aligned D"
    and pl: "page_list (mem s) (page_freelist s) (q # qs)" and addr: "addr < KERNEL_BASE"
    and absent: "\<not> bit (dir_entry_at (mem s) D addr) 0"
  shows "\<exists>s' T n'. allocate_page D addr s = Some s' \<and>
    (\<forall>va. dir_index va = dir_index addr \<longrightarrow> walk (mem s') (D - KERNEL_BASE) va =
       (if table_index va = table_index addr then Some ((q + PAGE_OFFSET) OR (va AND 0xfff), True, True)
        else walk (mem s) (D - KERNEL_BASE) va)) \<and>
    page_list (mem s') (page_freelist s') qs \<and> kernel_space L s' \<and> zheap s' (insert (T, n') A) j \<and> (T, n') \<notin> A \<and>
    own_table (insert (T, n') A) (D, n) (dir_entry_at (mem s') D addr) \<and>
    eq_off (bytes_at (D + 4 * dir_index addr) 4 \<union> - (regions A \<union> - kernel_area)) (mem s) (mem s')"
proof -
  obtain T n' p m where *: "let s' = s\<lparr>page_freelist := p, mem := m\<rparr> in
    allocate_page D addr s = Some s' \<and> zheap s' (insert (T, n') A) j \<and> kernel_space L s' \<and>
    4096 \<le> n' \<and> (T, n') \<notin> A \<and> page_aligned T \<and> page_list m p qs \<and>
    ld32 m (D + 4 * dir_index addr) = 7 OR (T - KERNEL_BASE) \<and>
    ld32 m (T + 4 * table_index addr) = 7 OR (q + PAGE_OFFSET) \<and>
    (\<forall>i. unat i < 1024 \<and> i \<noteq> table_index addr \<longrightarrow> ld32 m (T + 4 * i) = 0) \<and>
    eq_off (bytes_at (D + 4 * dir_index addr) 4 \<union> - (regions A \<union> - kernel_area)) (mem s) m"
    using allocate_page_zheap [OF ks z D(1,2) pl addr absent [unfolded dir_entry_at_def]] by blast
  then have T: "page_aligned T" "4096 \<le> n'" "(T, n') \<notin> A" and d: "ld32 m (D + 4 * dir_index addr) = 7 OR (T - KERNEL_BASE)"
    and e: "ld32 m (T + 4 * table_index addr) = 7 OR (q + PAGE_OFFSET)"
    and zero: "\<And>i. unat i < 1024 \<Longrightarrow> i \<noteq> table_index addr \<Longrightarrow> ld32 m (T + 4 * i) = 0"
    by (simp_all add: Let_def)
  have q: "page_aligned (q + PAGE_OFFSET)" using pl by (intro page_offset_aligned) simp
  have w: "walk m (D - KERNEL_BASE) va =
       (if table_index va = table_index addr then Some ((q + PAGE_OFFSET) OR (va AND 0xfff), True, True)
        else walk (mem s) (D - KERNEL_BASE) va)" if va: "dir_index va = dir_index addr" for va
  proof (cases "table_index va = table_index addr")
    case True
    then show ?thesis using walk_user [OF D(3) T(1) q, of m va] d e va by simp
  next
    case False
    have "walk (mem s) (D - KERNEL_BASE) va = None"
      using absent va by (intro walk_absent [OF D(3)]) (simp add: dir_entry_at_def del: bit_0)
    then show ?thesis
      using walk_unmapped [OF D(3) T(1), of m va] d zero [OF index_less(2) False] va False by simp
  qed
  have TB: "page_aligned (T - KERNEL_BASE)" by (rule page_aligned_base [OF T(1)])
  have bits: "bit (7 OR (T - KERNEL_BASE)) 0" "bit (7 OR (T - KERNEL_BASE)) 1" "bit (7 OR (T - KERNEL_BASE)) 2"
    "\<not> bit (7 OR (T - KERNEL_BASE)) 7"
    using page_aligned_bit [OF TB, of 7] by (simp_all add: bit_or_iff bit_iff_odd [of 7] del: bit_0 KERNEL_BASE_def)
  have "table_of (7 OR (T - KERNEL_BASE)) = T" unfolding table_of_def entry_addr [OF TB] by simp
  then have own: "own_table (insert (T, n') A) (D, n) (7 OR (T - KERNEL_BASE))"
    using bits T(2,3) D(1) by (auto simp: own_table_def simp del: bit_0)
  show ?thesis
    using * w own unfolding Let_def dir_entry_at_def d
    by - (rule exI [of _ "s\<lparr>page_freelist := p, mem := m\<rparr>"], rule exI [of _ T], rule exI [of _ n'], simp add: d del: bit_0)
qed

text \<open>
  (C12) \<open>allocate_page\<close> maps a page that is not mapped yet, in a new table or in the one that is there:
  it takes the first page of the free list, and afterwards the addresses of that page translate to
  the page taken, user accessible and writable, and the others of the 4 MiB around it as before. The
  free list loses exactly that page. With a table in place only its one entry is written. Otherwise
  the table is a fresh live region of the heap, and of the other live memory only the directory
  entry is changed; it names a table in the sense of the hypothesis for the pages to come. (The
  heap's free memory is zero: the C code does not clear the new table.)
\<close>

theorem allocate_page_maps:
  assumes "kernel_space L s" "zheap s A (Suc j)" "13 \<le> j" "(D, n) \<in> A" "4096 \<le> n" "page_aligned D"
    "page_list (mem s) (page_freelist s) (q # qs)" "addr < KERNEL_BASE" "walk (mem s) (D - KERNEL_BASE) addr = None"
    "dir_entry_at (mem s) D addr = pde" "bit pde 0 \<longrightarrow> own_table A (D, n) pde"
  shows "\<exists>s' A'. allocate_page D addr s = Some s' \<and>
    (\<forall>va. dir_index va = dir_index addr \<longrightarrow> walk (mem s') (D - KERNEL_BASE) va =
       (if table_index va = table_index addr then Some ((q + PAGE_OFFSET) OR (va AND 0xfff), True, True)
        else walk (mem s) (D - KERNEL_BASE) va)) \<and>
    page_list (mem s') (page_freelist s') qs \<and> kernel_space L s' \<and> own_table A' (D, n) (dir_entry_at (mem s') D addr) \<and>
    (if bit pde 0 then A' = A \<and> zheap s' A (Suc j) \<and>
       eq_off (bytes_at (table_of pde + 4 * table_index addr) 4) (mem s) (mem s')
     else (\<exists>T n'. A' = insert (T, n') A \<and> (T, n') \<notin> A) \<and> zheap s' A' j \<and>
       eq_off (bytes_at (D + 4 * dir_index addr) 4 \<union> - (regions A \<union> - kernel_area)) (mem s) (mem s'))"
proof (cases "bit pde 0")
  case True
  then have own: "own_table A (D, n) pde" using assms(11) by blast
  from allocate_page_existing [OF assms(1,2,4-9) own assms(10)] own True
  show ?thesis by (elim exE conjE) (rule exI, rule exI [of _ A], auto simp del: bit_0)
next
  case False
  from allocate_page_absent [OF assms(1-8)] False assms(10)
  obtain s' T n' where s': "allocate_page D addr s = Some s'"
    "\<forall>va. dir_index va = dir_index addr \<longrightarrow> walk (mem s') (D - KERNEL_BASE) va =
       (if table_index va = table_index addr then Some ((q + PAGE_OFFSET) OR (va AND 0xfff), True, True)
        else walk (mem s) (D - KERNEL_BASE) va)"
    "page_list (mem s') (page_freelist s') qs" "kernel_space L s'" "zheap s' (insert (T, n') A) j" "(T, n') \<notin> A"
    "own_table (insert (T, n') A) (D, n) (dir_entry_at (mem s') D addr)"
    "eq_off (bytes_at (D + 4 * dir_index addr) 4 \<union> - (regions A \<union> - kernel_area)) (mem s) (mem s')"
    by blast
  with False show ?thesis by (intro exI [of _ s'] exI [of _ "insert (T, n') A"]) auto
qed

lemma all_pages_Cons: "all_pages = 0 # map page_at [1..<786432]"
  unfolding all_pages_def by (subst upt_conv_Cons) (simp_all add: page_at_def del: upt_rec_numeral)

lemma all_pages_two: "\<exists>qs. all_pages = 0 # page_at 1 # qs"
  unfolding all_pages_Cons by (subst upt_conv_Cons) (simp_all del: upt_rec_numeral)

text \<open>A booted machine with an empty page directory.\<close>

lemma boot_dir_state:
  "\<exists>s A D n. kernel_space boot_layout s \<and> zheap s A 27 \<and> page_list (mem s) (page_freelist s) all_pages \<and>
     (D, n) \<in> A \<and> 4096 \<le> n \<and> page_aligned D \<and> (\<forall>x \<in> region D n. mem s x = 0) \<and>
     unat D + 4096 \<le> 2 ^ 32 \<and> KERNEL_BASE \<le> D \<and> page_freelist (s :: paging_machine) = 0"
proof -
  obtain s :: paging_machine and A where s: "kernel_space boot_layout s" "zheap s A 28"
    "page_list (mem s) (page_freelist s) all_pages"
    using boot_paging_state by blast
  have "zheap s A (Suc 27)" using s(2) by simp
  from zheap_page [OF this] obtain D n m where D: "4096 \<le> n"
    "zheap (s\<lparr>mem := m\<rparr>) (insert (D, n) A) 27" "page_aligned D"
    "eq_off (- (regions A \<union> - kernel_area)) (mem s) m" "\<forall>x \<in> region D n. m x = 0"
    by auto
  have "kernel_space boot_layout (s\<lparr>mem := m\<rparr>)"
    using kernel_space_write [OF s(1) D(4)] dir_bytes_outside(1) [OF boot_layout_ok] by blast
  moreover have "page_list m (page_freelist s) all_pages"
    by (rule page_list_eq_off [OF s(3) D(4)]) (use area_not_low in blast)
  moreover have "unat D + 4096 \<le> 2 ^ 32 \<and> KERNEL_BASE \<le> D"
    using live_bounds [OF zheap_live [OF D(2)], of D n] D(1) by (simp add: word_le_nat_alt)
  moreover have "page_freelist s = 0" using s(3) unfolding all_pages_Cons by simp
  ultimately show ?thesis
    using D by (intro exI [of _ "s\<lparr>mem := m\<rparr>"] exI [of _ "insert (D, n) A"] exI [of _ D] exI [of _ n])
      (simp del: KERNEL_BASE_def)
qed

text \<open>Two pages in a row: the first needs a table, the second finds it.\<close>

theorem allocate_page_maps_witness:
  "\<exists>s D s1 s2 :: paging_machine. allocate_page D 0x123 s = Some s1 \<and> allocate_page D 0x1123 s1 = Some s2 \<and>
     walk (mem s1) (D - KERNEL_BASE) 0x456 = Some (0x40000456, True, True) \<and>
     walk (mem s1) (D - KERNEL_BASE) 0x1456 = None \<and>
     walk (mem s2) (D - KERNEL_BASE) 0x456 = Some (0x40000456, True, True) \<and>
     walk (mem s2) (D - KERNEL_BASE) 0x1456 = Some (0x40001456, True, True)"
proof -
  obtain s :: paging_machine and A D n where s: "kernel_space boot_layout s" "zheap s A 27"
    "page_list (mem s) (page_freelist s) all_pages" "(D, n) \<in> A" "4096 \<le> n" "page_aligned D"
    "\<forall>x \<in> region D n. mem s x = 0" "unat D + 4096 \<le> 2 ^ 32"
    using boot_dir_state by blast
  obtain qs where pages: "all_pages = 0 # page_at 1 # qs" using all_pages_two by blast
  have z: "zheap s A (Suc 26)" using s(2) by simp
  have i: "dir_index 0x123 = 0" "dir_index 0x456 = 0" "dir_index 0x1123 = 0" "dir_index 0x1456 = 0"
    "table_index 0x123 = 0" "table_index 0x456 = 0" "table_index 0x1123 = 1" "table_index 0x1456 = 1"
    by (simp_all add: dir_index_def table_index_def)
  have "region D 4096 \<subseteq> region D n" using s(5) by (auto simp: region_def inside_def)
  then have w0: "ld32 (mem s) (D + 4 * 0) = 0"
    using index_region [OF s(8), of 0] by (intro zero_word [OF s(7)]) auto
  have none: "walk (mem s) (D - KERNEL_BASE) va = None" if "dir_index va = 0" for va
    using w0 that by (intro walk_absent [OF s(6)]) simp
  have e: "dir_entry_at (mem s) D 0x123 = 0" using w0 by (simp add: dir_entry_at_def i)
  have h: "(13 :: nat) \<le> 26" "(0x123 :: u32) < KERNEL_BASE" "bit (0 :: u32) 0 \<longrightarrow> own_table A (D, n) 0" by simp_all
  from allocate_page_maps [OF s(1) z h(1) s(4-6) s(3) [unfolded pages] h(2) none [OF i(1)] e h(3)]
  obtain s1 A1 where s1: "allocate_page D 0x123 s = Some s1"
    "\<forall>va. dir_index va = dir_index 0x123 \<longrightarrow> walk (mem s1) (D - KERNEL_BASE) va =
       (if table_index va = table_index 0x123 then Some ((0 + PAGE_OFFSET) OR (va AND 0xfff), True, True)
        else walk (mem s) (D - KERNEL_BASE) va)"
    "page_list (mem s1) (page_freelist s1) (page_at 1 # qs)" "kernel_space boot_layout s1"
    "own_table A1 (D, n) (dir_entry_at (mem s1) D 0x123)" "zheap s1 A1 26" "A \<subseteq> A1"
    by (elim exE conjE) (rule that; simp; blast)
  have D1: "(D, n) \<in> A1" using s(4) s1(7) by blast
  have z1: "zheap s1 A1 (Suc 25)" using s1(6) by simp
  have n1: "walk (mem s1) (D - KERNEL_BASE) 0x1123 = None"
    using s1(2) [rule_format, of "0x1123"] none [of "0x1123"] by (simp add: i)
  have e1: "dir_entry_at (mem s1) D 0x1123 = dir_entry_at (mem s1) D 0x123" by (simp add: dir_entry_at_def i)
  have h1: "(13 :: nat) \<le> 25" "(0x1123 :: u32) < KERNEL_BASE"
    and own: "bit (dir_entry_at (mem s1) D 0x123) 0 \<longrightarrow> own_table A1 (D, n) (dir_entry_at (mem s1) D 0x123)"
    using s1(5) by simp_all
  from allocate_page_maps [OF s1(4) z1 h1(1) D1 s(5,6) s1(3) h1(2) n1 e1 own]
  obtain s2 where s2: "allocate_page D 0x1123 s1 = Some s2"
    "\<forall>va. dir_index va = dir_index 0x1123 \<longrightarrow> walk (mem s2) (D - KERNEL_BASE) va =
       (if table_index va = table_index 0x1123 then Some ((page_at 1 + PAGE_OFFSET) OR (va AND 0xfff), True, True)
        else walk (mem s1) (D - KERNEL_BASE) va)"
    by (elim exE conjE) (rule that; assumption)
  show ?thesis
    using s1(1) s2(1) s1(2) [rule_format, of "0x456"] s1(2) [rule_format, of "0x1456"] none [of "0x1456"]
      s2(2) [rule_format, of "0x456"] s2(2) [rule_format, of "0x1456"]
    by (intro exI [of _ s] exI [of _ D] exI [of _ s1] exI [of _ s2]) (simp add: i PAGE_OFFSET_def page_at_def)
qed

text \<open>
  (C40) \<open>allocate_page\<close> changes nothing when no free page is left, when the address lies in
  the kernel half, and when the address is mapped already, by a 4 KiB or a 4 MiB page.
\<close>

theorem allocate_page_refuses:
  assumes "kernel_space L s" "page_aligned D"
    "KERNEL_BASE \<le> page_freelist s \<or> KERNEL_BASE \<le> addr \<or> walk (mem s) (D - KERNEL_BASE) addr \<noteq> None"
  shows "allocate_page D addr s = Some s"
proof (cases "KERNEL_BASE \<le> page_freelist s \<or> KERNEL_BASE \<le> addr")
  case True
  then show ?thesis by (simp add: allocate_page_def del: KERNEL_BASE_def)
next
  case False
  let ?pde = "ld32 (mem s) (D + 4 * dir_index addr)"
  let ?T = "(?pde AND 0xfffff000) + KERNEL_BASE"
  have D: "(D - KERNEL_BASE) AND 0xfffff000 = D - KERNEL_BASE"
    by (intro page_aligned_mask page_aligned_base assms(2))
  have p: "phys32 (mem s) ((?pde AND 0xfffff000) + 4 * table_index addr) = ld32 (mem s) (?T + 4 * table_index addr)"
    by (simp add: phys32_def ac_simps)
  have "walk (mem s) (D - KERNEL_BASE) addr \<noteq> None" using assms(3) False by blast
  then have "bit ?pde 0" "bit ?pde 7 \<or> bit (ld32 (mem s) (?T + 4 * table_index addr)) 0"
    unfolding walk_def Let_def D phys32_dir p by (auto split: if_splits)
  then show ?thesis
    unfolding allocate_page_def Let_def dir_index_def [symmetric] table_index_def [symmetric]
      rd32_kernel [OF assms(1)] present_bit addr_bits
    using False
    by (auto simp: rd32_kernel [OF assms(1)] present_bit addr_bits simp del: KERNEL_BASE_def bit_0)
qed

theorem allocate_page_refuses_witness:
  "\<exists>s :: paging_machine. kernel_space boot_layout s \<and> allocate_page 0xc0112000 0x1000 s = Some s"
proof -
  obtain s :: paging_machine where s: "kernel_space boot_layout s" using boot_paging_state by blast
  have "walk (mem s) (0xc0112000 - KERNEL_BASE) 0x1000 \<noteq> None"
    using walk_kernel [of 0 "mem s" "0xc0112000" "0x1000"] s
    by (auto simp: kernel_space_def boot_layout_def page_aligned_dvd)
  then have "allocate_page 0xc0112000 0x1000 s = Some s"
    by (intro allocate_page_refuses [OF s]) (simp_all add: page_aligned_dvd del: KERNEL_BASE_def)
  with s show ?thesis by blast
qed

text \<open>
  (C31) \<open>free_page\<close> does not free the page: it computes the address of the table with
  \<open>- KERNEL_BASE\<close> where the table lies at \<open>+ KERNEL_BASE\<close>, so it examines a word that is not
  the table entry. When that word is not marked present, as in memory that is zero, nothing
  changes, though the page is mapped.
\<close>

theorem free_page_misses:
  assumes "kernel_space L s" "page_aligned T" "ld32 (mem s) (D + 4 * dir_index addr) = 7 OR (T - KERNEL_BASE)"
    "\<not> bit (ld32 (mem s) (T - 2 * KERNEL_BASE + 4 * table_index addr)) 0"
  shows "free_page D addr s = Some s"
proof -
  have t: "(7 OR (T - KERNEL_BASE)) AND 0xfffff000 = T - KERNEL_BASE"
    by (rule entry_addr [OF page_aligned_base [OF assms(2)]])
  have a: "T - KERNEL_BASE - KERNEL_BASE = T - 2 * KERNEL_BASE" by simp
  show ?thesis
    unfolding free_page_def Let_def dir_index_def [symmetric] table_index_def [symmetric]
      rd32_kernel [OF assms(1)] assms(3) present_bit addr_bits t a
    using assms(4) by (simp add: rd32_kernel [OF assms(1)] assms(3) present_bit addr_bits t a del: KERNEL_BASE_def)
qed

lemma page_list_nth: "page_list m p qs \<Longrightarrow> Suc i < length qs \<Longrightarrow> ld32 m (qs ! i) = qs ! Suc i"
proof (induction qs arbitrary: p i)
  case (Cons q qs)
  then show ?case by (cases i; cases qs) auto
qed simp

lemma all_pages_nth: "i < 786432 \<Longrightarrow> all_pages ! i = page_at i"
  unfolding all_pages_def by (subst nth_map) (simp_all del: upt_rec_numeral)

theorem free_page_misses_witness:
  "\<exists>s D :: u32. free_page D 0 (s :: paging_machine) = Some s \<and>
     ld32 (mem s) D = 7 OR (0xd0002000 - KERNEL_BASE)"
proof -
  obtain s :: paging_machine and A D n where s: "kernel_space boot_layout s" "zheap s A 27"
    "page_list (mem s) (page_freelist s) all_pages" "(D, n) \<in> A" "4096 \<le> n"
    using boot_dir_state by blast
  have i: "dir_index 0 = 0" "table_index 0 = 0" by (simp_all add: dir_index_def table_index_def)
  let ?m = "st32 (mem s) D (7 OR (0xd0002000 - KERNEL_BASE))"
  let ?s = "s\<lparr>mem := ?m\<rparr>"
  have D: "bytes_at D 4 \<subseteq> kernel_area"
    using heap_entry(2) [OF zheap_live [OF s(2)] s(4,5), of 0] by simp
  have k: "kernel_space boot_layout ?s"
    using kernel_space_write [OF s(1) eq_off_st32] area_not_dir [OF boot_layout_ok D] by blast
  have pl: "page_list ?m (page_freelist s) all_pages"
    by (rule page_list_eq_off [OF s(3) eq_off_st32]) (use D area_not_low in blast)
  have "ld32 ?m (page_at 0x50002) = page_at (Suc 0x50002)"
    using page_list_nth [OF pl, of "0x50002"] unfolding all_pages_length by (simp add: all_pages_nth)
  moreover have "page_at 0x50002 = 0xd0002000 - 2 * KERNEL_BASE + 4 * table_index 0"
    by (simp add: page_at_def i)
  ultimately have "\<not> bit (ld32 (mem ?s) (0xd0002000 - 2 * KERNEL_BASE + 4 * table_index 0)) 0"
    using page_aligned_bit [OF page_at_aligned [of "Suc 0x50002"], of 0] by (simp del: KERNEL_BASE_def)
  moreover have "ld32 (mem ?s) (D + 4 * dir_index 0) = 7 OR (0xd0002000 - KERNEL_BASE)" by (simp add: i)
  moreover have "page_aligned 0xd0002000" by (simp add: page_aligned_dvd)
  ultimately have "free_page D 0 ?s = Some ?s" by (intro free_page_misses [OF k])
  moreover have "ld32 (mem ?s) D = 7 OR (0xd0002000 - KERNEL_BASE)" by simp
  ultimately show ?thesis by blast
qed

text \<open>
  The 32-bit entries keep every field: a directory or table entry written field by field
  reads back as it was written.
\<close>

theorem entries_roundtrip: "dec_pde (enc_pde d) = d \<and> dec_pte (enc_pte e) = e"
  by simp

end
