(* ===== verification/Process.thy ===== *)
theory Process
  imports Page_Allocation
begin

text \<open>
  Processes and the scheduler: src/kernel/proc/process.c, process.h and process.s. A process
  descriptor is 85 packed bytes of the kernel heap; the descriptors form a ring through their
  \<open>next\<close> and \<open>prev\<close> fields, and \<open>current_process\<close> points to the one that runs.
\<close>

section \<open>Process descriptors\<close>

text \<open>Offsets of the fields of \<open>process_desc\<close>.\<close>

definition PD_frame :: u32 where "PD_frame = 0"
definition PD_gen_regs :: u32 where "PD_gen_regs = 20"
definition PD_seg_regs :: u32 where "PD_seg_regs = 52"
definition PD_esp0 :: u32 where "PD_esp0 = 68"
definition PD_page_directory :: u32 where "PD_page_directory = 72"
definition PD_prev :: u32 where "PD_prev = 76"
definition PD_next :: u32 where "PD_next = 80"
definition PD_state :: u32 where "PD_state = 84"

definition PD_size :: u32 where
  "PD_size = 85"

named_theorems pd_offsets "the offsets of the fields of a process descriptor"

declare PD_frame_def [pd_offsets] PD_gen_regs_def [pd_offsets] PD_seg_regs_def [pd_offsets]
  PD_esp0_def [pd_offsets] PD_page_directory_def [pd_offsets] PD_prev_def [pd_offsets]
  PD_next_def [pd_offsets] PD_state_def [pd_offsets]

definition PROCESS_RUNNING :: u8 where "PROCESS_RUNNING = 0"
definition PROCESS_HALTED :: u8 where "PROCESS_HALTED = 1"
definition RING_KERNEL :: u8 where "RING_KERNEL = 0"

record proc_machine = paging_machine +
  current_process :: u32

text \<open>Structures of words are read and written word by word.\<close>

fun wr_words :: "u32 \<Rightarrow> u32 list \<Rightarrow> 'a machine_scheme \<Rightarrow> 'a machine_scheme option" where
  "wr_words a [] s = Some s"
| "wr_words a (w # ws) s = do { s \<leftarrow> wr32 wr8 s a w; wr_words (a + 4) ws s }"

fun rd_words :: "u32 \<Rightarrow> nat \<Rightarrow> 'a machine_scheme \<Rightarrow> u32 list option" where
  "rd_words a 0 s = Some []"
| "rd_words a (Suc n) s = do { w \<leftarrow> rd32 rd8 s a; ws \<leftarrow> rd_words (a + 4) n s; Some (w # ws) }"

definition gen_words :: "gen_register_set \<Rightarrow> u32 list" where
  "gen_words g = [edi g, esi g, ebp g, ebx g, edx g, ecx g, eax g, esp g]"

definition seg_words :: "seg_register_set \<Rightarrow> u32 list" where
  "seg_words g = [ds g, es g, fs g, gs g]"

definition words_frame :: "u32 list \<Rightarrow> interrupt_frame" where
  "words_frame w = \<lparr>fr_eip = w ! 0, fr_cs = w ! 1, fr_eflags = w ! 2, fr_esp = w ! 3, fr_ss = w ! 4\<rparr>"

definition words_gen :: "u32 list \<Rightarrow> gen_register_set" where
  "words_gen w = \<lparr>edi = w ! 0, esi = w ! 1, ebp = w ! 2, ebx = w ! 3, edx = w ! 4, ecx = w ! 5,
     eax = w ! 6, esp = w ! 7\<rparr>"

definition words_seg :: "u32 list \<Rightarrow> seg_register_set" where
  "words_seg w = \<lparr>ds = w ! 0, es = w ! 1, fs = w ! 2, gs = w ! 3\<rparr>"

section \<open>Switching to a context\<close>

text \<open>
  \<open>switch_context\<close> (process.s) never returns: it ends the interrupt, loads the page
  directory and the registers it was given and executes \<open>iret\<close>. The result is the context
  the processor goes on in. An \<open>iret\<close> to an outer ring also loads the stack pointer and
  segment; without a change of ring the stack goes on above the three words it popped:
  \<open>ctx_esp\<close> is \<open>None\<close> when that stack is the one \<open>switch_context\<close> was called on.
\<close>

record cpu_context =
  ctx_eip :: u32
  ctx_cs :: u32
  ctx_eflags :: u32
  ctx_esp :: "u32 option"
  ctx_ss :: "u32 option"
  ctx_gen :: gen_register_set
  ctx_seg :: seg_register_set

definition iret_to ::
  "gen_register_set \<Rightarrow> seg_register_set \<Rightarrow> interrupt_frame \<Rightarrow> u32 option \<Rightarrow> cpu_context" where
  "iret_to gr sr f stay =
     (if fr_cs f AND 3 = 0 then
        \<lparr>ctx_eip = fr_eip f, ctx_cs = fr_cs f, ctx_eflags = fr_eflags f, ctx_esp = stay, ctx_ss = None,
         ctx_gen = gr, ctx_seg = sr\<rparr>
      else
        \<lparr>ctx_eip = fr_eip f, ctx_cs = fr_cs f, ctx_eflags = fr_eflags f, ctx_esp = Some (fr_esp f),
         ctx_ss = Some (fr_ss f), ctx_gen = gr, ctx_seg = sr\<rparr>)"

definition switch_context ::
  "seg_register_set \<Rightarrow> gen_register_set \<Rightarrow> interrupt_frame \<Rightarrow> u32 \<Rightarrow> 'a intr_machine_scheme \<Rightarrow>
   (cpu_context \<times> 'a intr_machine_scheme) option" where
  "switch_context seg_regs gen_regs frame page_directory s =
     (let s = outportb 0x20 0x20 s;
          s = s\<lparr>cr3 := page_directory\<rparr>
      in if esp gen_regs = 0 then
           let c = iret_to gen_regs seg_regs frame None
           in Some (c, s\<lparr>iflag := bit (ctx_eflags c) 9\<rparr>)
         else do {
           ws \<leftarrow> rd_words (esp gen_regs) 3 s;
           outer \<leftarrow> (if ws ! 1 AND 3 = 0 then Some [0, 0] else rd_words (esp gen_regs + 12) 2 s);
           let c = iret_to gen_regs seg_regs (words_frame (ws @ outer)) (Some (esp gen_regs + 12));
           Some (c, s\<lparr>iflag := bit (ctx_eflags c) 9\<rparr>)
         })"

section \<open>The scheduler\<close>

text \<open>A call that either returns or leaves for another context.\<close>

datatype 's outcome = Returns 's | Resumes cpu_context 's

definition init_processes :: "'a proc_machine_scheme \<Rightarrow> 'a proc_machine_scheme" where
  "init_processes s = s\<lparr>current_process := 0\<rparr>"

text \<open>The call of \<open>switch_context\<close> with the saved context of the current process.\<close>

definition enter_current :: "'a proc_machine_scheme \<Rightarrow> 'a proc_machine_scheme outcome option" where
  "enter_current s = do {
     esp0 \<leftarrow> rd32 rd8 s (current_process s + PD_esp0);
     let s = set_tss_stack esp0 s;
     sr \<leftarrow> rd_words (current_process s + PD_seg_regs) 4 s;
     gr \<leftarrow> rd_words (current_process s + PD_gen_regs) 8 s;
     fr \<leftarrow> rd_words (current_process s + PD_frame) 5 s;
     dir \<leftarrow> rd32 rd8 s (current_process s + PD_page_directory);
     (c, s) \<leftarrow> switch_context (words_seg sr) (words_gen gr) (words_frame fr) (dir - KERNEL_BASE) s;
     Some (Resumes c s)
   }"

definition force_enter_userland :: "'a proc_machine_scheme \<Rightarrow> 'a proc_machine_scheme outcome option" where
  "force_enter_userland s = enter_current s"

text \<open>
  The loop that skips halted processes: \<open>None\<close> when a read faults or the loop does not end.
\<close>

partial_function (option) skip_halted :: "'a proc_machine_scheme \<Rightarrow> 'a proc_machine_scheme option" where
  "skip_halted s = do {
     nxt \<leftarrow> rd32 rd8 s (current_process s + PD_next);
     let s = s\<lparr>current_process := nxt\<rparr>;
     st \<leftarrow> rd8 s (current_process s + PD_state);
     if st = PROCESS_HALTED then skip_halted s else Some s
   }"

definition save_or_delete ::
  "seg_register_set \<Rightarrow> gen_register_set \<Rightarrow> interrupt_frame \<Rightarrow> 'a proc_machine_scheme \<Rightarrow>
   'a proc_machine_scheme option" where
  "save_or_delete seg_regs gen_regs frame s = do {
     st \<leftarrow> rd8 s (current_process s + PD_state);
     if st = PROCESS_RUNNING then do {
       s \<leftarrow> wr_words (current_process s + PD_frame) (frame_words frame) s;
       s \<leftarrow> wr_words (current_process s + PD_seg_regs) (seg_words seg_regs) s;
       wr_words (current_process s + PD_gen_regs) (gen_words gen_regs) s
     } else if st = 2 then do {
       stack \<leftarrow> rd32 rd8 s (current_process s + PD_frame + 12);
       s \<leftarrow> kernel_free rd8 wr8 s stack;
       s \<leftarrow> kernel_free rd8 wr8 s (current_process s);
       nxt \<leftarrow> rd32 rd8 s (current_process s + PD_next);
       if current_process s = nxt then Some (s\<lparr>current_process := 0\<rparr>)
       else do {
         prv \<leftarrow> rd32 rd8 s (current_process s + PD_prev);
         s \<leftarrow> wr32 wr8 s (prv + PD_next) nxt;
         nxt \<leftarrow> rd32 rd8 s (current_process s + PD_next);
         prv \<leftarrow> rd32 rd8 s (current_process s + PD_prev);
         wr32 wr8 s (nxt + PD_prev) prv
       }
     } else Some s
   }"

definition fix_stack :: "u8 \<Rightarrow> 'a proc_machine_scheme \<Rightarrow> 'a proc_machine_scheme option" where
  "fix_stack priv_level s =
     (if priv_level = RING_KERNEL then do {
        s \<leftarrow> wr32 wr8 s (current_process s + PD_frame + 16) 0x10;
        e \<leftarrow> rd32 rd8 s (current_process s + PD_gen_regs + 28);
        wr32 wr8 s (current_process s + PD_frame + 12) e
      } else wr32 wr8 s (current_process s + PD_gen_regs + 28) 0)"

definition switch_process ::
  "seg_register_set \<Rightarrow> gen_register_set \<Rightarrow> interrupt_frame \<Rightarrow> 'a proc_machine_scheme \<Rightarrow>
   'a proc_machine_scheme outcome option" where
  "switch_process seg_regs gen_regs frame s = do {
     alone \<leftarrow> (if current_process s = 0 then Some True
               else do { nxt \<leftarrow> rd32 rd8 s (current_process s + PD_next); Some (nxt = current_process s) });
     if alone then Some (Returns s)
     else do {
       let priv_level = ucast (fr_cs frame AND 3);
       s \<leftarrow> save_or_delete seg_regs gen_regs frame s;
       s \<leftarrow> fix_stack priv_level s;
       s \<leftarrow> skip_halted s;
       enter_current s
     }
   }"

section \<open>Creating and updating processes\<close>

definition CODE_SEGMENT :: u32 where "CODE_SEGMENT = 0x18 OR 3"
definition DATA_SEGMENT :: u32 where "DATA_SEGMENT = 0x20 OR 3"

definition set_fields :: "u32 \<Rightarrow> u32 \<Rightarrow> 'a machine_scheme \<Rightarrow> 'a machine_scheme option" where
  "set_fields p eip s = do {
     s \<leftarrow> wr32 wr8 s (p + PD_frame) eip;
     s \<leftarrow> wr32 wr8 s (p + PD_frame + 4) CODE_SEGMENT;
     s \<leftarrow> wr32 wr8 s (p + PD_frame + 8) (push_bit 9 1);
     s \<leftarrow> wr32 wr8 s (p + PD_frame + 12) (KERNEL_BASE - 4);
     s \<leftarrow> wr32 wr8 s (p + PD_frame + 16) DATA_SEGMENT;
     s \<leftarrow> wr32 wr8 s (p + PD_seg_regs) DATA_SEGMENT;
     s \<leftarrow> wr32 wr8 s (p + PD_seg_regs + 4) DATA_SEGMENT;
     s \<leftarrow> wr32 wr8 s (p + PD_seg_regs + 8) DATA_SEGMENT;
     s \<leftarrow> wr32 wr8 s (p + PD_seg_regs + 12) DATA_SEGMENT;
     s \<leftarrow> wr32 wr8 s (p + PD_gen_regs) 0;
     s \<leftarrow> wr32 wr8 s (p + PD_gen_regs + 4) 0;
     e \<leftarrow> rd32 rd8 s (p + PD_frame + 12);
     s \<leftarrow> wr32 wr8 s (p + PD_gen_regs + 8) e;
     s \<leftarrow> wr32 wr8 s (p + PD_gen_regs + 12) 0;
     s \<leftarrow> wr32 wr8 s (p + PD_gen_regs + 16) 0;
     s \<leftarrow> wr32 wr8 s (p + PD_gen_regs + 20) 0;
     s \<leftarrow> wr32 wr8 s (p + PD_gen_regs + 24) 0;
     wr32 wr8 s (p + PD_gen_regs + 28) 0
   }"

text \<open>The loop that copies the kernel half of \<open>kernel_memory\<close> into a new directory.\<close>

definition copy_kernel_half :: "layout \<Rightarrow> u32 \<Rightarrow> 'a machine_scheme \<Rightarrow> 'a machine_scheme option" where
  "copy_kernel_half L p s =
     for_loop 0 256 (\<lambda>i s. do {
       dir \<leftarrow> rd32 rd8 s (p + PD_page_directory);
       e \<leftarrow> rd32 rd8 s (kernel_memory_addr L + 4 * of_nat (i + 768));
       wr32 wr8 s (dir + 4 * of_nat (i + 768)) e
     }) s"

text \<open>The first instruction of a process: a jump to itself.\<close>

definition write_code :: "'a machine_scheme \<Rightarrow> 'a machine_scheme option" where
  "write_code s = do {
     s \<leftarrow> wr8 s 0 0xe9;
     s \<leftarrow> wr8 s 1 0xfb;
     s \<leftarrow> wr8 s 2 0xff;
     s \<leftarrow> wr8 s 3 0xff;
     wr8 s 4 0xff
   }"

definition insert_process :: "u32 \<Rightarrow> 'a proc_machine_scheme \<Rightarrow> 'a proc_machine_scheme option" where
  "insert_process p s =
     (if current_process s = 0 then do {
        let s = s\<lparr>current_process := p\<rparr>;
        s \<leftarrow> wr32 wr8 s (current_process s + PD_next) p;
        wr32 wr8 s (current_process s + PD_prev) p
      } else do {
        s \<leftarrow> wr32 wr8 s (p + PD_next) (current_process s);
        prv \<leftarrow> rd32 rd8 s (current_process s + PD_prev);
        s \<leftarrow> wr32 wr8 s (p + PD_prev) prv;
        prv \<leftarrow> rd32 rd8 s (current_process s + PD_prev);
        s \<leftarrow> wr32 wr8 s (prv + PD_next) p;
        wr32 wr8 s (current_process s + PD_prev) p
      })"

definition create_process :: "layout \<Rightarrow> u32 \<Rightarrow> 'a proc_machine_scheme \<Rightarrow> 'a proc_machine_scheme option" where
  "create_process L eip s = do {
     (p, s) \<leftarrow> kernel_allocate rd8 wr8 s PD_size;
     s \<leftarrow> set_fields p eip s;
     (stack, s) \<leftarrow> kernel_allocate rd8 wr8 s 4096;
     s \<leftarrow> wr32 wr8 s (p + PD_esp0) (stack + 4092);
     (dir, s) \<leftarrow> kernel_allocate rd8 wr8 s (4 * 1024);
     s \<leftarrow> wr32 wr8 s (p + PD_page_directory) dir;
     s \<leftarrow> copy_kernel_half L p s;
     dir \<leftarrow> rd32 rd8 s (p + PD_page_directory);
     s \<leftarrow> allocate_page dir (KERNEL_BASE - PAGE_SIZE_4K) s;
     dir \<leftarrow> rd32 rd8 s (p + PD_page_directory);
     s \<leftarrow> allocate_page dir 0 s;
     dir \<leftarrow> rd32 rd8 s (p + PD_page_directory);
     let s = enable_paging (dir - KERNEL_BASE) s;
     s \<leftarrow> write_code s;
     let s = enable_paging (kernel_memory_addr L - KERNEL_BASE) s;
     s \<leftarrow> wr8 s (p + PD_state) 0;
     insert_process p s
   }"

definition update_process :: "u8 \<Rightarrow> 'a proc_machine_scheme \<Rightarrow> 'a proc_machine_scheme option" where
  "update_process state s = wr8 s (current_process s + PD_state) state"

end
