(* ===== verification/Process_Queue.thy ===== *)
theory Process_Queue
  imports Process
begin

text \<open>
  The ring of process descriptors: descriptors as arrays of words that do not overlap (the
  locale \<open>word_store\<close>), the ring the \<open>next\<close> and \<open>prev\<close> words form (the locale
  \<open>ring_store\<close>), and their interpretation by the memory of the kernel.
\<close>

section \<open>Arrays of words\<close>

text \<open>
  \<open>get m p i\<close> is word \<open>i\<close> of the object at \<open>p\<close>; a write changes that word of that
  object only, as long as the objects of the set \<open>P\<close> lie apart.
\<close>

fun puts :: "('p \<Rightarrow> nat \<Rightarrow> 'v \<Rightarrow> 'm \<Rightarrow> 'm) \<Rightarrow> 'p \<Rightarrow> nat \<Rightarrow> 'v list \<Rightarrow> 'm \<Rightarrow> 'm" where
  "puts put p i [] m = m"
| "puts put p i (v # vs) m = puts put p (Suc i) vs (put p i v m)"

locale word_store =
  fixes get :: "'m \<Rightarrow> 'p \<Rightarrow> nat \<Rightarrow> 'p"
    and put :: "'p \<Rightarrow> nat \<Rightarrow> 'p \<Rightarrow> 'm \<Rightarrow> 'm"
    and apart :: "'p set \<Rightarrow> bool"
    and N :: nat
  assumes get_put: "apart P \<Longrightarrow> p \<in> P \<Longrightarrow> q \<in> P \<Longrightarrow> i < N \<Longrightarrow> j < N \<Longrightarrow>
      get (put p i v m) q j = (if q = p \<and> j = i then v else get m q j)"
begin

lemma get_puts:
  "apart P \<Longrightarrow> p \<in> P \<Longrightarrow> q \<in> P \<Longrightarrow> i + length vs \<le> N \<Longrightarrow> j < N \<Longrightarrow>
   get (puts put p i vs m) q j = (if q = p \<and> i \<le> j \<and> j < i + length vs then vs ! (j - i) else get m q j)"
proof (induction vs arbitrary: i m)
  case (Cons v vs)
  then show ?case
    by (auto simp: get_put nth_Cons' not_less_eq_eq intro!: arg_cong [where f = "(!) vs"])
qed auto

end

section \<open>Rings\<close>

text \<open>
  \<open>linked get nx pv m ps\<close>: the objects \<open>ps\<close> are linked in this order, the last to the first, by
  their \<open>nx\<close> words, and backwards by their \<open>pv\<close> words.
\<close>

definition linked :: "('m \<Rightarrow> 'p \<Rightarrow> nat \<Rightarrow> 'p) \<Rightarrow> nat \<Rightarrow> nat \<Rightarrow> 'm \<Rightarrow> 'p list \<Rightarrow> bool" where
  "linked get nx pv m ps \<longleftrightarrow> ps \<noteq> [] \<and> distinct ps \<and>
     (\<forall>i < length ps. get m (ps ! i) nx = ps ! (Suc i mod length ps) \<and>
        get m (ps ! (Suc i mod length ps)) pv = ps ! i)"

locale ring_store = word_store get put apart N
  for get :: "'m \<Rightarrow> 'p \<Rightarrow> nat \<Rightarrow> 'p" and put apart N +
  fixes nx pv :: nat
  assumes nx: "nx < N" and pv: "pv < N" and nx_pv: "nx \<noteq> pv"
begin

abbreviation ring :: "'m \<Rightarrow> 'p list \<Rightarrow> bool" where
  "ring \<equiv> linked get nx pv"

lemma ring_next: "ring m (p # ps) \<Longrightarrow> get m p nx = hd (ps @ [p])"
  by (cases ps) (auto simp: linked_def dest: spec [of _ 0])

lemma ring_prev: "ring m ps \<Longrightarrow> get m (hd ps) pv = last ps"
proof -
  assume r: "ring m ps"
  then have n: "ps \<noteq> []" by (simp add: linked_def)
  then have l: "length ps - 1 < length ps" "Suc (length ps - 1) mod length ps = 0" by simp_all
  have "get m (ps ! (Suc (length ps - 1) mod length ps)) pv = ps ! (length ps - 1)"
    using r l(1) unfolding linked_def by blast
  then have "get m (ps ! 0) pv = ps ! (length ps - 1)" unfolding l(2) .
  then show ?thesis using n by (simp add: hd_conv_nth last_conv_nth)
qed

lemma ring_rotate1: "ring m ps \<Longrightarrow> ring m (rotate1 ps)"
proof -
  assume r: "ring m ps"
  then have n: "0 < length ps" by (simp add: linked_def)
  have "rotate1 ps ! i = ps ! (Suc i mod length ps)" if "i < length ps" for i
    using that nth_rotate1 by blast
  moreover have "Suc i mod length ps < length ps" for i using n by simp
  ultimately show ?thesis
    using r by (simp add: linked_def)
qed

lemma ring_rotate: "ring m ps \<Longrightarrow> ring m (rotate n ps)"
  by (induction n) (simp_all add: ring_rotate1)

lemma ring_cong:
  "ring m ps \<Longrightarrow> (\<And>p. p \<in> set ps \<Longrightarrow> get m' p nx = get m p nx \<and> get m' p pv = get m p pv) \<Longrightarrow> ring m' ps"
  by (auto simp: linked_def)

lemma ring_single:
  "apart {p} \<Longrightarrow> ring (put p pv p (put p nx p m)) [p]"
  using nx pv nx_pv by (simp add: linked_def get_put [of "{p}"])

text \<open>The writes of \<open>create_process\<close>: the new object goes before the first one.\<close>

lemma ring_insert:
  assumes r: "ring m (c # ps)" and a: "apart (insert p (set (c # ps)))" and p: "p \<notin> set (c # ps)"
    and m': "m' = put c pv p (put (last (c # ps)) nx p (put p pv (last (c # ps)) (put p nx c m)))"
  shows "ring m' (c # ps @ [p])"
proof -
  let ?qs = "c # ps" and ?n = "Suc (length ps)"
  define l where "l = last (c # ps)"
  define P where "P = insert p (set (c # ps))"
  have aP: "apart P" using a by (simp add: P_def)
  have l: "l \<in> set ?qs" unfolding l_def by (rule last_in_set) simp
  have in_P: "c \<in> P" "p \<in> P" "l \<in> P" using l by (auto simp: P_def)
  have g: "get m' q j = (if q = c \<and> j = pv then p else if q = l \<and> j = nx then p
      else if q = p \<and> j = pv then l else if q = p \<and> j = nx then c else get m q j)"
    if "q \<in> P" "j < N" for q j
    using that in_P nx pv unfolding m' l_def [symmetric] by (simp add: get_put [OF aP])
  have n: "get m (?qs ! i) nx = ?qs ! (Suc i mod ?n)"
    "get m (?qs ! (Suc i mod ?n)) pv = ?qs ! i" if "i < ?n" for i
    using r that by (simp_all add: linked_def)
  have dd: "distinct ?qs" using r by (simp add: linked_def)
  have lq: "?qs ! length ps = l" by (simp add: l_def last_conv_nth)
  have S: "get m' (?qs ! i) nx = (?qs @ [p]) ! Suc i \<and> get m' ((?qs @ [p]) ! Suc i) pv = ?qs ! i"
    if i: "i < ?n" for i
  proof (cases "i = length ps")
    case True
    then show ?thesis using g [OF in_P(3) nx] g [OF in_P(2) pv] l p lq nx_pv by (auto simp: nth_append)
  next
    case False
    then have j: "Suc i < ?n" using i by simp
    have ne: "?qs ! i \<noteq> l" "?qs ! Suc i \<noteq> c" "?qs ! i \<noteq> p" "?qs ! Suc i \<noteq> p"
      using nth_eq_iff_index_eq [OF dd, of i "length ps"] nth_eq_iff_index_eq [OF dd, of "Suc i" 0]
        i j False p nth_mem [of i ?qs] nth_mem [of "Suc i" ?qs] lq by auto
    have "get m (?qs ! i) nx = ?qs ! Suc i" "get m (?qs ! Suc i) pv = ?qs ! i"
      using n [OF i] j by simp_all
    moreover have "(?qs @ [p]) ! Suc i = ?qs ! Suc i" using j by (simp only: nth_append) simp
    moreover have "?qs ! i \<in> P"
      unfolding P_def by (rule insertI2, rule nth_mem) (use i in simp)
    moreover have "?qs ! Suc i \<in> P"
      unfolding P_def by (rule insertI2, rule nth_mem) (use j in simp)
    ultimately show ?thesis using g [of "?qs ! i" nx] g [of "?qs ! Suc i" pv] ne nx pv nx_pv by simp
  qed
  have E: "get m' p nx = c" "get m' c pv = p"
    using g [OF in_P(2) nx] g [OF in_P(1) pv] p l nx_pv by auto
  let ?rs = "?qs @ [p]"
  have "get m' (?rs ! i) nx = ?rs ! (Suc i mod Suc ?n) \<and> get m' (?rs ! (Suc i mod Suc ?n)) pv = ?rs ! i"
    if "i < Suc ?n" for i
  proof (cases "i = ?n")
    case True
    then have "?rs ! i = p" "Suc i mod Suc ?n = 0" by (simp_all add: nth_append)
    with E show ?thesis by simp
  next
    case False
    then have "i < ?n" using that by simp
    then have "?rs ! i = ?qs ! i" "Suc i mod Suc ?n = Suc i" by (simp_all only: nth_append) simp_all
    with S [OF \<open>i < ?n\<close>] show ?thesis by metis
  qed
  moreover have "distinct ?rs" "length ?rs = Suc ?n" using dd p by auto
  ultimately have "ring m' ?rs" unfolding linked_def by (simp only: append_is_Nil_conv) simp
  then show ?thesis by simp
qed

end

section \<open>Descriptors in memory\<close>

text \<open>The 21 words of a descriptor: frame, general registers, segments, \<open>esp0\<close>, directory, links.\<close>

definition pd_get :: "bytes \<Rightarrow> u32 \<Rightarrow> nat \<Rightarrow> u32" where
  "pd_get m p i = ld32 m (p + 4 * of_nat i)"

definition pd_put :: "u32 \<Rightarrow> nat \<Rightarrow> u32 \<Rightarrow> bytes \<Rightarrow> bytes" where
  "pd_put p i v m = st32 m (p + 4 * of_nat i) v"

definition pd_state :: "bytes \<Rightarrow> u32 \<Rightarrow> u8" where
  "pd_state m p = m (p + PD_state)"

definition pd_ok :: "u32 \<Rightarrow> bool" where
  "pd_ok p \<longleftrightarrow> 0xd0000000 \<le> unat p \<and> unat p + 85 \<le> 0xf0000000"

definition pds_apart :: "u32 set \<Rightarrow> bool" where
  "pds_apart P \<longleftrightarrow> (\<forall>p \<in> P. pd_ok p \<and> (\<forall>q \<in> P. p \<noteq> q \<longrightarrow> unat p + 85 \<le> unat q \<or> unat q + 85 \<le> unat p))"

lemma unat_pd: "pd_ok p \<Longrightarrow> k \<le> 85 \<Longrightarrow> unat (p + of_nat k) = unat p + k"
  by (intro unat_add_of_nat) (simp add: pd_ok_def)

lemma unat_pd_word: "pd_ok p \<Longrightarrow> i < 21 \<Longrightarrow> unat (p + 4 * of_nat i) = unat p + 4 * i"
  using unat_pd [of p "4 * i"] by simp

lemma pd_get_put:
  assumes "pds_apart P" "p \<in> P" "q \<in> P" "i < 21" "j < 21"
  shows "pd_get (pd_put p i v m) q j = (if q = p \<and> j = i then v else pd_get m q j)"
proof (cases "q = p \<and> j = i")
  case True
  then show ?thesis by (simp add: pd_get_def pd_put_def)
next
  case False
  have ok: "pd_ok p" "pd_ok q" using assms(1-3) by (auto simp: pds_apart_def)
  have ap: "q \<noteq> p \<Longrightarrow> unat p + 85 \<le> unat q \<or> unat q + 85 \<le> unat p"
    using assms(1-3) unfolding pds_apart_def by blast
  have lt: "4 * i + 4 \<le> 85" "4 * j + 4 \<le> 85" using assms(4,5) by simp_all
  have "disj (p + 4 * of_nat i) 4 (q + 4 * of_nat j) 4"
  proof (rule disjI)
    show "unat (p + 4 * of_nat i) + 4 \<le> unat (q + 4 * of_nat j) \<or>
        unat (q + 4 * of_nat j) + 4 \<le> unat (p + 4 * of_nat i)"
      unfolding unat_pd_word [OF ok(1) assms(4)] unat_pd_word [OF ok(2) assms(5)]
      using False ap lt by (cases "q = p") (auto simp: linorder_neq_iff)
    show "unat (p + 4 * of_nat i) + 4 \<le> 2 ^ 32" "unat (q + 4 * of_nat j) + 4 \<le> 2 ^ 32"
      unfolding unat_pd_word [OF ok(1) assms(4)] unat_pd_word [OF ok(2) assms(5)]
      using ok lt by (simp_all add: pd_ok_def)
  qed simp_all
  from ld32_st32_disj [OF this] show ?thesis using False by (auto simp: pd_get_def pd_put_def)
qed

lemma pd_put_state:
  assumes "pds_apart P" "p \<in> P" "q \<in> P" "i < 21"
  shows "pd_state (pd_put p i v m) q = pd_state m q"
proof -
  have ok: "pd_ok p" "pd_ok q" using assms(1-3) by (auto simp: pds_apart_def)
  have ap: "q \<noteq> p \<Longrightarrow> unat p + 85 \<le> unat q \<or> unat q + 85 \<le> unat p"
    using assms(1-3) unfolding pds_apart_def by blast
  have u: "unat (q + 84) = unat q + 84" using unat_pd [OF ok(2), of 84] by simp
  have w: "unat (p + 4 * of_nat i) = unat p + 4 * i" by (rule unat_pd_word [OF ok(1) assms(4)])
  have "q + 84 \<in> bytes_at (p + 4 * of_nat i) 4 \<longleftrightarrow> unat p + 4 * i \<le> unat q + 84 \<and> unat q + 84 < unat p + 4 * i + 4"
    using ok(1) assms(4) bytes_at_unat [of "p + 4 * of_nat i" 4 "q + 84"] unfolding w u by (simp add: pd_ok_def)
  then have "q + 84 \<notin> bytes_at (p + 4 * of_nat i) 4"
    using ap assms(4) by (cases "q = p") auto
  then show ?thesis
    using eq_off_st32 by (simp add: pd_state_def pd_put_def PD_state_def eq_off_def)
qed

interpretation procq: ring_store pd_get pd_put pds_apart 21 20 19
  by unfold_locales (simp_all add: pd_get_put)

lemma pd_puts_state:
  "pds_apart P \<Longrightarrow> p \<in> P \<Longrightarrow> q \<in> P \<Longrightarrow> i + length vs \<le> 21 \<Longrightarrow>
   pd_state (puts pd_put p i vs m) q = pd_state m q"
proof (induction vs arbitrary: i m)
  case (Cons v vs)
  then show ?case using pd_put_state [of P p q i v m] by simp
qed simp

text \<open>Access through pointers.\<close>

lemma pd_high:
  assumes "pd_ok p" "k < 85"
  shows "KERNEL_BASE \<le> p + of_nat k"
  using unat_pd [OF assms(1), of k] assms by (simp add: word_le_nat_alt pd_ok_def)

lemma pd_rd32:
  assumes "pd_ok p" "k + 4 \<le> 85"
  shows "rd32 rd8 s (p + of_nat k) = Some (ld32 (mem s) (p + of_nat k))"
  using pd_high [OF assms(1), of k] pd_high [OF assms(1), of "k + 1"] pd_high [OF assms(1), of "k + 2"]
    pd_high [OF assms(1), of "k + 3"] assms(2)
  by (intro kmem.rd32_view) (simp_all add: add.assoc add.commute add.left_commute)

lemma pd_wr32:
  assumes "pd_ok p" "k + 4 \<le> 85"
  shows "wr32 wr8 s (p + of_nat k) v = Some (s\<lparr>mem := st32 (mem s) (p + of_nat k) v\<rparr>)"
  using pd_high [OF assms(1), of k] pd_high [OF assms(1), of "k + 1"] pd_high [OF assms(1), of "k + 2"]
    pd_high [OF assms(1), of "k + 3"] assms(2)
  by (intro kmem.wr32_upd) (simp_all add: add.assoc add.commute add.left_commute)

lemma pd_rd_word:
  "pd_ok p \<Longrightarrow> i < 21 \<Longrightarrow> rd32 rd8 s (p + 4 * of_nat i) = Some (pd_get (mem s) p i)"
  using pd_rd32 [of p "4 * i" s] by (simp add: pd_get_def)

lemma pd_wr_word:
  "pd_ok p \<Longrightarrow> i < 21 \<Longrightarrow> wr32 wr8 s (p + 4 * of_nat i) v = Some (s\<lparr>mem := pd_put p i v (mem s)\<rparr>)"
  using pd_wr32 [of p "4 * i" s v] by (simp add: pd_put_def)

lemma pd_rd_state: "pd_ok p \<Longrightarrow> rd8 s (p + PD_state) = Some (pd_state (mem s) p)"
  using pd_high [of p 84] by (simp add: rd8_def pd_state_def PD_state_def)

lemma wr_words_pd:
  "pd_ok p \<Longrightarrow> i + length ws \<le> 21 \<Longrightarrow>
   wr_words (p + 4 * of_nat i) ws s = Some (s\<lparr>mem := puts pd_put p i ws (mem s)\<rparr>)"
proof (induction ws arbitrary: i s)
  case (Cons w ws)
  have e: "p + 4 * of_nat i + 4 = p + 4 * of_nat (Suc i)" by simp
  from Cons show ?case by (simp add: pd_wr_word e del: of_nat_Suc)
qed simp

lemma rd_words_pd:
  "pd_ok p \<Longrightarrow> i + n \<le> 21 \<Longrightarrow>
   rd_words (p + 4 * of_nat i) n s = Some (map (pd_get (mem s) p) [i..<i + n])"
proof (induction n arbitrary: i)
  case (Suc n)
  have e: "p + 4 * of_nat i + 4 = p + 4 * of_nat (Suc i)" by simp
  have u: "[i..<i + Suc n] = i # [Suc i..<Suc i + n]" by (simp add: upt_conv_Cons del: upt_Suc)
  from Suc show ?case unfolding u by (simp add: pd_rd_word e del: of_nat_Suc upt_Suc)
qed simp

end
