(* ===== verification/Scheduler.thy ===== *)
theory Scheduler
  imports Process_Queue
begin

text \<open>
  The abstract scheduler, a queue of processes whose head runs, and the proof that
  \<open>switch_process\<close>, \<open>update_process\<close> and the insertion of \<open>create_process\<close>
  implement it on the ring of descriptors.
\<close>

section \<open>The abstract scheduler\<close>

record proc =
  pr_frame :: interrupt_frame
  pr_gen :: gen_register_set
  pr_seg :: seg_register_set
  pr_esp0 :: u32
  pr_dir :: u32
  pr_state :: u8

text \<open>
  A process that is switched out: one that runs keeps the registers of the interrupt. When the
  interrupt came in ring 0 the stack to return to is the interrupted one; a return to ring 3
  takes the stack of the frame, which a saved \<open>esp\<close> of 0 stands for.
\<close>

definition save_context ::
  "seg_register_set \<Rightarrow> gen_register_set \<Rightarrow> interrupt_frame \<Rightarrow> proc \<Rightarrow> proc" where
  "save_context sr gr fr p =
     (if pr_state p = 0 then p\<lparr>pr_frame := fr, pr_gen := gr, pr_seg := sr\<rparr> else p)"

definition mark_stack :: "bool \<Rightarrow> proc \<Rightarrow> proc" where
  "mark_stack ring0 p =
     (if ring0 then p\<lparr>pr_frame := (pr_frame p)\<lparr>fr_ss := 0x10, fr_esp := esp (pr_gen p)\<rparr>\<rparr>
      else p\<lparr>pr_gen := (pr_gen p)\<lparr>esp := 0\<rparr>\<rparr>)"

definition preempt ::
  "seg_register_set \<Rightarrow> gen_register_set \<Rightarrow> interrupt_frame \<Rightarrow> proc \<Rightarrow> proc" where
  "preempt sr gr fr p = mark_stack (ucast (fr_cs fr AND 3) = RING_KERNEL) (save_context sr gr fr p)"

definition halted :: "proc \<Rightarrow> bool" where
  "halted p \<longleftrightarrow> pr_state p = PROCESS_HALTED"

text \<open>How far the queue advances: past the head and the halted processes behind it.\<close>

definition turns :: "proc list \<Rightarrow> nat" where
  "turns ps = Suc (length (takeWhile halted (tl ps @ [hd ps])))"

section \<open>The processes in memory\<close>

definition proc_of :: "bytes \<Rightarrow> u32 \<Rightarrow> proc" where
  "proc_of m p =
     \<lparr>pr_frame = words_frame (map (pd_get m p) [0..<5]), pr_gen = words_gen (map (pd_get m p) [5..<13]),
      pr_seg = words_seg (map (pd_get m p) [13..<17]), pr_esp0 = pd_get m p 17, pr_dir = pd_get m p 18,
      pr_state = pd_state m p\<rparr>"

lemmas proc_words = words_frame_def words_gen_def words_seg_def

lemma proc_of_cong:
  "(\<And>j. j < 19 \<Longrightarrow> pd_get m' p j = pd_get m p j) \<Longrightarrow> pd_state m' p = pd_state m p \<Longrightarrow>
   proc_of m' p = proc_of m p"
  by (simp add: proc_of_def proc_words)

text \<open>The memory of a descriptor, and writes to it.\<close>

definition pd_bytes :: "u32 \<Rightarrow> u32 set" where
  "pd_bytes p = bytes_at p 85"

lemma pd_word_bytes: "pd_ok p \<Longrightarrow> i < 21 \<Longrightarrow> bytes_at (p + 4 * of_nat i) 4 \<subseteq> pd_bytes p"
proof -
  assume p: "pd_ok p" and i: "i < 21"
  have "unat p + 85 \<le> 2 ^ 32" "unat (p + 4 * of_nat i) + 4 \<le> 2 ^ 32"
    using p i unat_pd_word [OF p i] by (simp_all add: pd_ok_def)
  then show "bytes_at (p + 4 * of_nat i) 4 \<subseteq> pd_bytes p"
    using i by (auto simp: pd_bytes_def bytes_at_unat unat_pd_word [OF p i])
qed

lemma pd_state_byte: "pd_ok p \<Longrightarrow> p + PD_state \<in> pd_bytes p"
  using unat_pd [of p 84] by (auto simp: pd_bytes_def bytes_at_unat pd_ok_def PD_state_def)

lemma pd_get_state_byte:
  assumes "pd_ok p" "i < 21"
  shows "pd_get (m(p + PD_state := v)) p i = pd_get m p i"
proof -
  have "bytes_at (p + 4 * of_nat i) 4 \<inter> {p + PD_state} = {}"
    using assms unat_pd [OF assms(1), of 84]
    by (auto simp: bytes_at_unat unat_pd_word PD_state_def pd_ok_def)
  moreover have "eq_off {p + PD_state} m (m(p + PD_state := v))" by (simp add: eq_off_def)
  ultimately show ?thesis unfolding pd_get_def by (rule ld32_eq_off [rotated])
qed

lemma pd_put_off: "pd_ok p \<Longrightarrow> i < 21 \<Longrightarrow> eq_off (pd_bytes p) m (pd_put p i v m)"
  unfolding pd_put_def by (rule eq_off_mono [OF eq_off_st32 pd_word_bytes])

text \<open>Writes elsewhere keep the descriptors and the ring.\<close>

lemma pd_get_eq_off:
  "eq_off X m m' \<Longrightarrow> pd_ok p \<Longrightarrow> i < 21 \<Longrightarrow> pd_bytes p \<inter> X = {} \<Longrightarrow> pd_get m' p i = pd_get m p i"
  unfolding pd_get_def by (rule ld32_eq_off) (use pd_word_bytes in blast)+

lemma proc_of_eq_off:
  "eq_off X m m' \<Longrightarrow> pd_ok p \<Longrightarrow> pd_bytes p \<inter> X = {} \<Longrightarrow> proc_of m' p = proc_of m p"
  using pd_state_byte [of p]
  by (intro proc_of_cong) (auto simp: pd_get_eq_off pd_state_def elim!: eq_offD)

lemma ring_eq_off:
  assumes "eq_off X m m'" "\<And>p. p \<in> set ps \<Longrightarrow> pd_ok p \<and> pd_bytes p \<inter> X = {}" "procq.ring m ps"
  shows "procq.ring m' ps"
  using assms by (intro procq.ring_cong [OF assms(3)]) (simp add: pd_get_eq_off)

lemma pd_puts_off:
  "pd_ok p \<Longrightarrow> i + length vs \<le> 21 \<Longrightarrow> eq_off (pd_bytes p) m (puts pd_put p i vs m)"
proof (induction vs arbitrary: i m)
  case (Cons v vs)
  then show ?case
    using eq_off_trans [OF pd_put_off [of p i m v] Cons.IH [of "Suc i" "pd_put p i v m"]] by simp
qed simp

text \<open>
  Memory in which only the process \<open>p\<close> of the set \<open>P\<close> is changed, to \<open>x\<close>, and the links
  are the same.
\<close>

definition updates :: "u32 set \<Rightarrow> u32 \<Rightarrow> proc \<Rightarrow> bytes \<Rightarrow> bytes \<Rightarrow> bool" where
  "updates P p x m m' \<longleftrightarrow> proc_of m' p = x \<and> (\<forall>q \<in> P. q \<noteq> p \<longrightarrow> proc_of m' q = proc_of m q) \<and>
     (\<forall>q \<in> P. pd_get m' q 19 = pd_get m q 19 \<and> pd_get m' q 20 = pd_get m q 20) \<and>
     eq_off (pd_bytes p) m m'"

lemma updates_trans:
  "updates P p x m m' \<Longrightarrow> updates P p y m' m'' \<Longrightarrow> updates P p y m m''"
  using eq_off_trans [of "pd_bytes p" m m' "pd_bytes p" m''] by (auto simp: updates_def)

lemma updates_puts:
  assumes P: "pds_apart P" "p \<in> P" and i: "i + length vs \<le> 19"
  shows "updates P p (proc_of (puts pd_put p i vs m) p) m (puts pd_put p i vs m)"
proof -
  have ok: "pd_ok p" using P by (auto simp: pds_apart_def)
  have le: "i + length vs \<le> 21" using i by simp
  have "proc_of (puts pd_put p i vs m) q = proc_of m q" if "q \<in> P" "q \<noteq> p" for q
    using that i by (intro proc_of_cong) (simp_all add: procq.get_puts [OF P] pd_puts_state [OF P])
  then show ?thesis
    using i pd_puts_off [OF ok le] by (simp add: updates_def procq.get_puts [OF P])
qed

lemma update_ring:
  "updates P p x m m' \<Longrightarrow> set ps \<subseteq> P \<Longrightarrow> procq.ring m ps \<Longrightarrow> procq.ring m' ps"
  by (erule procq.ring_cong) (auto simp: updates_def)

section \<open>The steps of \<open>switch_process\<close>\<close>

lemma pd_words:
  "p + PD_frame = p + 4 * of_nat 0" "p + PD_gen_regs = p + 4 * of_nat 5"
  "p + PD_seg_regs = p + 4 * of_nat 13" "p + PD_esp0 = p + 4 * of_nat 17"
  "p + PD_page_directory = p + 4 * of_nat 18" "p + PD_prev = p + 4 * of_nat 19"
  "p + PD_next = p + 4 * of_nat 20" "p + PD_frame + 12 = p + 4 * of_nat 3"
  "p + PD_frame + 16 = p + 4 * of_nat 4" "p + PD_gen_regs + 28 = p + 4 * of_nat 12"
  by (simp_all add: pd_offsets)

lemma save_context_ok:
  assumes P: "pds_apart P" "p \<in> P" and s: "current_process s = p" "pd_state (mem s) p \<noteq> 2"
  shows "\<exists>m. save_or_delete sr gr fr s = Some (s\<lparr>mem := m\<rparr>) \<and>
    updates P p (save_context sr gr fr (proc_of (mem s) p)) (mem s) m"
proof -
  have ok: "pd_ok p" using P by (auto simp: pds_apart_def)
  show ?thesis
  proof (cases "pd_state (mem s) p = 0")
    case True
    let ?m1 = "puts pd_put p 0 (frame_words fr) (mem s)"
    let ?m2 = "puts pd_put p 13 (seg_words sr) ?m1"
    let ?m3 = "puts pd_put p 5 (gen_words gr) ?m2"
    have l: "length (frame_words fr) = 5" "length (seg_words sr) = 4" "length (gen_words gr) = 8"
      by (simp_all add: frame_words_def seg_words_def gen_words_def)
    have w: "wr_words (p + PD_frame) (frame_words fr) s' = Some (s'\<lparr>mem := puts pd_put p 0 (frame_words fr) (mem s')\<rparr>)"
      "wr_words (p + PD_seg_regs) (seg_words sr) s' = Some (s'\<lparr>mem := puts pd_put p 13 (seg_words sr) (mem s')\<rparr>)"
      "wr_words (p + PD_gen_regs) (gen_words gr) s' = Some (s'\<lparr>mem := puts pd_put p 5 (gen_words gr) (mem s')\<rparr>)"
      for s' :: "'a proc_machine_scheme"
      unfolding pd_words by (rule wr_words_pd [OF ok], simp add: l)+
    have w: "save_or_delete sr gr fr s = Some (s\<lparr>mem := ?m3\<rparr>)"
      using s True by (simp add: save_or_delete_def pd_rd_state [OF ok] PROCESS_RUNNING_def w)
    have "updates P p (proc_of ?m3 p) (mem s) ?m3"
      by (rule updates_trans [OF updates_trans]; rule updates_puts [OF P]) (simp_all add: l)
    moreover have "proc_of ?m3 p = save_context sr gr fr (proc_of (mem s) p)"
      using True by (simp add: proc_of_def proc_words save_context_def procq.get_puts [OF P P(2)]
          pd_puts_state [OF P P(2)] l frame_words_def seg_words_def gen_words_def del: puts.simps)
    ultimately show ?thesis using w by auto
  next
    case False
    have "updates P p (proc_of (mem s) p) (mem s) (mem s)" by (simp add: updates_def)
    moreover have "save_context sr gr fr (proc_of (mem s) p) = proc_of (mem s) p"
      using False by (simp add: save_context_def proc_of_def)
    moreover have "save_or_delete sr gr fr s = Some (s\<lparr>mem := mem s\<rparr>)"
      using False s by (simp add: save_or_delete_def pd_rd_state [OF ok] PROCESS_RUNNING_def)
    ultimately show ?thesis by (intro exI [of _ "mem s"]) simp
  qed
qed

lemma fix_stack_ok:
  assumes P: "pds_apart P" "p \<in> P" and s: "current_process s = p"
  shows "\<exists>m. fix_stack priv s = Some (s\<lparr>mem := m\<rparr>) \<and>
    updates P p (mark_stack (priv = RING_KERNEL) (proc_of (mem s) p)) (mem s) m"
proof -
  have ok: "pd_ok p" using P by (auto simp: pds_apart_def)
  have w: "wr32 wr8 s' (p + PD_frame + 12) v = Some (s'\<lparr>mem := pd_put p 3 v (mem s')\<rparr>)"
    "wr32 wr8 s' (p + PD_frame + 16) v = Some (s'\<lparr>mem := pd_put p 4 v (mem s')\<rparr>)"
    "wr32 wr8 s' (p + PD_gen_regs + 28) v = Some (s'\<lparr>mem := pd_put p 12 v (mem s')\<rparr>)"
    "rd32 rd8 s' (p + PD_gen_regs + 28) = Some (pd_get (mem s') p 12)"
    for s' :: "'a proc_machine_scheme" and v
    using pd_wr_word [OF ok, of 3 s' v] pd_wr_word [OF ok, of 4 s' v] pd_wr_word [OF ok, of 12 s' v]
      pd_rd_word [OF ok, of 12 s'] unfolding pd_words(8-10) by simp_all
  show ?thesis
  proof (cases "priv = RING_KERNEL")
    case True
    let ?m1 = "puts pd_put p 4 [0x10] (mem s)"
    let ?m2 = "puts pd_put p 3 [pd_get ?m1 p 12] ?m1"
    have "fix_stack priv s = Some (s\<lparr>mem := ?m2\<rparr>)"
      using True s by (simp add: fix_stack_def w)
    moreover have "updates P p (proc_of ?m2 p) (mem s) ?m2"
      by (rule updates_trans; rule updates_puts [OF P]) simp_all
    moreover have "proc_of ?m2 p = mark_stack True (proc_of (mem s) p)"
      by (simp add: proc_of_def proc_words mark_stack_def procq.get_put [OF P P(2)] pd_put_state [OF P P(2)])
    ultimately show ?thesis using True by (intro exI [of _ ?m2]) simp
  next
    case False
    let ?m = "puts pd_put p 12 [0] (mem s)"
    have "fix_stack priv s = Some (s\<lparr>mem := ?m\<rparr>)"
      using False s by (simp add: fix_stack_def w)
    moreover have "updates P p (proc_of ?m p) (mem s) ?m"
      by (rule updates_puts [OF P]) simp
    moreover have "proc_of ?m p = mark_stack False (proc_of (mem s) p)"
      by (simp add: proc_of_def proc_words mark_stack_def procq.get_put [OF P P(2)] pd_put_state [OF P P(2)])
    ultimately show ?thesis using False by (intro exI [of _ ?m]) simp
  qed
qed

text \<open>The loop over halted processes.\<close>

lemma skip_halted_step:
  assumes P: "pds_apart P" "set (p # ps) \<subseteq> P" and r: "procq.ring (mem s) (p # ps)" "current_process s = p"
  shows "skip_halted s =
    (let q = hd (ps @ [p]); s' = s\<lparr>current_process := q\<rparr> in
     if pd_state (mem s) q = PROCESS_HALTED then skip_halted s' else Some s')"
proof -
  have ok: "pd_ok p" "pd_ok (hd (ps @ [p]))"
    using P by (auto simp: pds_apart_def subset_iff hd_append split: if_splits)
  have "rd32 rd8 s (p + PD_next) = Some (hd (ps @ [p]))"
    unfolding pd_words using pd_rd_word [OF ok(1), of 20 s] procq.ring_next [OF r(1)] by simp
  then show ?thesis
    by (subst skip_halted.simps) (simp add: r(2) pd_rd_state [OF ok(2)] Let_def)
qed

lemma ring_turn: "procq.ring m (p # ps) \<Longrightarrow> ps @ [p] = q # qs \<Longrightarrow> procq.ring m (q # qs)"
  using procq.ring_rotate1 [of m "p # ps"] by simp

lemma skip_halted_finds:
  assumes "pds_apart P" "set (p # ps) \<subseteq> P" "procq.ring (mem s) (p # ps)" "current_process s = p"
    "ps @ [p] = xs @ q # ys" "\<And>x. x \<in> set xs \<Longrightarrow> pd_state (mem s) x = PROCESS_HALTED"
    "pd_state (mem s) q \<noteq> PROCESS_HALTED"
  shows "skip_halted s = Some (s\<lparr>current_process := q\<rparr>)"
  using assms(2-)
proof (induction xs arbitrary: s p ps ys)
  case Nil
  then show ?case using skip_halted_step [OF assms(1) Nil.prems(1-3)] by (simp add: Let_def)
next
  case (Cons x xs)
  let ?s = "s\<lparr>current_process := x\<rparr>"
  have e: "ps @ [p] = x # (xs @ q # ys)" using Cons.prems(4) by simp
  have "set (x # (xs @ q # ys)) \<subseteq> P" using Cons.prems(1) unfolding e [symmetric] by auto
  then have "skip_halted ?s = Some (?s\<lparr>current_process := q\<rparr>)"
    using Cons.prems(5,6) ring_turn [OF Cons.prems(2) e]
    by (intro Cons.IH [of x "xs @ q # ys" _ "ys @ [x]"]) simp_all
  then show ?case
    using skip_halted_step [OF assms(1) Cons.prems(1-3)] Cons.prems(5) unfolding e by (simp add: Let_def)
qed

lemma skip_halted_diverges:
  assumes "pds_apart P" "set (p # ps) \<subseteq> P" "procq.ring (mem s) (p # ps)" "current_process s = p"
    "\<And>x. x \<in> set (p # ps) \<Longrightarrow> pd_state (mem s) x = PROCESS_HALTED"
  shows "skip_halted s = None"
proof -
  have "False" if "skip_halted s = Some y" for y
    using that assms(2-)
  proof (induction arbitrary: p ps rule: skip_halted.raw_induct [rotated, consumes 1])
    case (1 skip s y)
    let ?q = "hd (ps @ [p])"
    have ok: "pd_ok p" "pd_ok ?q"
      using assms(1) "1.prems"(1) by (auto simp: pds_apart_def subset_iff hd_append split: if_splits)
    have q: "?q \<in> set (p # ps)" by (cases ps) auto
    have n: "rd32 rd8 s (p + PD_next) = Some ?q"
      unfolding pd_words using pd_rd_word [OF ok(1), of 20 s] procq.ring_next [OF "1.prems"(2)] by simp
    have h: "pd_state (mem s) ?q = PROCESS_HALTED" using "1.prems"(4) q by blast
    have sk: "skip (s\<lparr>current_process := ?q\<rparr>) = Some y"
      using "1.hyps" by (simp add: "1.prems"(3) n pd_rd_state [OF ok(2)] h)
    obtain qs where qs: "ps @ [p] = ?q # qs" by (cases "ps @ [p]") auto
    have st: "set (?q # qs) = set (p # ps)" unfolding qs [symmetric] by auto
    show ?case
    proof (rule "1.IH" [OF sk, of ?q qs])
      show "set (?q # qs) \<subseteq> P" using "1.prems"(1) st by simp
      show "procq.ring (mem (s\<lparr>current_process := ?q\<rparr>)) (?q # qs)"
        using ring_turn [OF "1.prems"(2) qs] by simp
      fix x assume "x \<in> set (?q # qs)"
      then have "x \<in> set (p # ps)" unfolding st .
      from "1.prems"(4) [OF this]
      show "pd_state (mem (s\<lparr>current_process := ?q\<rparr>)) x = PROCESS_HALTED" by simp
    qed simp
  qed
  then show ?thesis by (cases "skip_halted s") auto
qed

section \<open>The refinement\<close>

lemma hd_rotate_turns:
  assumes "\<not> list_all halted prs" "prs \<noteq> []" "length prs = length qs"
  shows "hd (rotate (turns prs) qs) = (tl qs @ [hd qs]) ! length (takeWhile halted (tl prs @ [hd prs]))"
    and "length (takeWhile halted (tl prs @ [hd prs])) < length qs"
    and "\<not> halted ((tl prs @ [hd prs]) ! length (takeWhile halted (tl prs @ [hd prs])))"
proof -
  let ?r = "tl prs @ [hd prs]" and ?k = "length (takeWhile halted (tl prs @ [hd prs]))"
  have "set ?r = set prs" using assms(2) by (cases prs) auto
  then have "\<exists>x \<in> set ?r. \<not> halted x" using assms(1) by (auto simp: list_all_iff)
  then have "takeWhile halted ?r \<noteq> ?r" using takeWhile_eq_all_conv [of halted ?r] by blast
  then have k: "?k < length ?r"
    by (metis length_takeWhile_le le_neq_implies_less takeWhile_eq_take take_all_iff order_refl)
  then show "?k < length qs" using assms(2,3) by (cases qs) auto
  show "\<not> halted (?r ! ?k)" using nth_length_takeWhile [OF k] .
  have q: "qs \<noteq> []" using assms(2,3) by auto
  then have r1: "rotate1 qs = tl qs @ [hd qs]" by (cases qs) auto
  have "rotate (turns prs) qs = rotate ?k (rotate1 qs)"
    unfolding turns_def by (simp add: rotate1_rotate_swap)
  then show "hd (rotate (turns prs) qs) = (tl qs @ [hd qs]) ! ?k"
    using hd_rotate_conv_nth [of "rotate1 qs" ?k] k q assms(2,3) r1 by (cases qs) auto
qed

lemma halted_state: "halted (proc_of m p) \<longleftrightarrow> pd_state m p = PROCESS_HALTED"
  by (simp add: halted_def proc_of_def)

lemma skip_halted_ring:
  assumes P: "pds_apart P" "set (p # ps) \<subseteq> P" and r: "procq.ring (mem s) (p # ps)" "current_process s = p"
  shows "skip_halted s = (let prs = map (proc_of (mem s)) (p # ps) in
    if list_all halted prs then None
    else Some (s\<lparr>current_process := hd (rotate (turns prs) (p # ps))\<rparr>))"
proof -
  let ?prs = "map (proc_of (mem s)) (p # ps)"
  show ?thesis
  proof (cases "list_all halted ?prs")
    case True
    then have "skip_halted s = None"
      by (intro skip_halted_diverges [OF P r]) (auto simp: list_all_iff halted_state)
    with True show ?thesis by simp
  next
    case False
    define k where "k = length (takeWhile halted (tl ?prs @ [hd ?prs]))"
    let ?q = "(ps @ [p]) ! k"
    have m: "tl ?prs @ [hd ?prs] = map (proc_of (mem s)) (ps @ [p])" by simp
    have h: "hd (rotate (turns ?prs) (p # ps)) = ?q" "k < length (ps @ [p])"
      "\<not> halted (map (proc_of (mem s)) (ps @ [p]) ! k)"
      using hd_rotate_turns [OF False, of "p # ps"] unfolding k_def m by simp_all
    have sp: "ps @ [p] = take k (ps @ [p]) @ ?q # drop (Suc k) (ps @ [p])"
      by (rule id_take_nth_drop [OF h(2)])
    have "pd_state (mem s) x = PROCESS_HALTED" if x: "x \<in> set (take k (ps @ [p]))" for x
    proof -
      obtain i where "i < length (take k (ps @ [p]))" "take k (ps @ [p]) ! i = x"
        using x unfolding in_set_conv_nth by blast
      then have i: "i < k" "x = (ps @ [p]) ! i" by (auto simp del: take_append)
      have "halted (map (proc_of (mem s)) (ps @ [p]) ! i)"
        using i(1) unfolding k_def m by (metis nth_mem set_takeWhileD takeWhile_nth)
      moreover have "map (proc_of (mem s)) (ps @ [p]) ! i = proc_of (mem s) x"
        unfolding i(2) by (rule nth_map) (use i(1) h(2) in simp)
      ultimately show ?thesis by (simp add: halted_state)
    qed
    moreover have "pd_state (mem s) ?q \<noteq> PROCESS_HALTED"
      using h(3) unfolding nth_map [OF h(2)] halted_state .
    ultimately have "skip_halted s = Some (s\<lparr>current_process := ?q\<rparr>)"
      using skip_halted_finds [OF P r sp] by blast
    then show ?thesis using False h(1) by (simp add: Let_def)
  qed
qed

text \<open>The whole of \<open>switch_process\<close>, up to entering the process chosen.\<close>

lemma switch_process_ok:
  assumes P: "pds_apart P" "set (p # ps) \<subseteq> P" and r: "procq.ring (mem s) (p # ps)" "current_process s = p"
    and ps: "ps \<noteq> []" and st: "pr_state (proc_of (mem s) p) \<noteq> 2"
    and prs: "prs = preempt sr gr fr (proc_of (mem s) p) # map (proc_of (mem s)) ps"
  shows "\<exists>m. switch_process sr gr fr s = (if list_all halted prs then None
      else enter_current (s\<lparr>mem := m, current_process := hd (rotate (turns prs) (p # ps))\<rparr>)) \<and>
    map (proc_of m) (p # ps) = prs \<and> procq.ring m (p # ps) \<and> eq_off (pd_bytes p) (mem s) m"
proof -
  have pP: "p \<in> P" using P(2) by simp
  have ok: "pd_ok p" using P(1) pP by (auto simp: pds_apart_def)
  have d: "distinct (p # ps)" using r(1) by (simp add: linked_def)
  have p0: "p \<noteq> 0" using ok by (auto simp: pd_ok_def)
  have "hd (ps @ [p]) \<noteq> p" using d ps by (cases ps) auto
  then have n: "rd32 rd8 s (p + PD_next) = Some (hd (ps @ [p]))" "hd (ps @ [p]) \<noteq> p"
    unfolding pd_words using pd_rd_word [OF ok, of 20 s] procq.ring_next [OF r(1)] by simp_all
  have st': "pd_state (mem s) p \<noteq> 2" using st by (simp add: proc_of_def)
  obtain m1 where m1: "save_or_delete sr gr fr s = Some (s\<lparr>mem := m1\<rparr>)"
    "updates P p (save_context sr gr fr (proc_of (mem s) p)) (mem s) m1"
    using save_context_ok [OF P(1) pP r(2) st'] by blast
  obtain m2 where m2: "fix_stack (ucast (fr_cs fr AND 3)) (s\<lparr>mem := m1\<rparr>) = Some (s\<lparr>mem := m2\<rparr>)"
    "updates P p (mark_stack (ucast (fr_cs fr AND 3) = RING_KERNEL) (proc_of m1 p)) m1 m2"
    using fix_stack_ok [OF P(1) pP, of "s\<lparr>mem := m1\<rparr>" "ucast (fr_cs fr AND 3)"] r(2) by auto
  have u: "updates P p (preempt sr gr fr (proc_of (mem s) p)) (mem s) m2"
    using updates_trans [OF m1(2) m2(2)] m1(2) by (simp add: preempt_def updates_def)
  have mp: "map (proc_of m2) (p # ps) = prs"
    using u P(2) d by (auto simp: prs updates_def)
  have r2: "procq.ring m2 (p # ps)" by (rule update_ring [OF u P(2) r(1)])
  have e: "map (proc_of (mem (s\<lparr>mem := m2\<rparr>))) (p # ps) = prs" using mp by simp
  have sk: "skip_halted (s\<lparr>mem := m2\<rparr>) = (if list_all halted prs then None
      else Some (s\<lparr>mem := m2, current_process := hd (rotate (turns prs) (p # ps))\<rparr>))"
    using skip_halted_ring [OF P, of "s\<lparr>mem := m2\<rparr>"] r2 r(2) unfolding e by (simp add: Let_def)
  have "switch_process sr gr fr s = do { s \<leftarrow> skip_halted (s\<lparr>mem := m2\<rparr>); enter_current s }"
    using p0 n m1(1) m2(1) by (simp add: switch_process_def r(2))
  also have "\<dots> = (if list_all halted prs then None
      else enter_current (s\<lparr>mem := m2, current_process := hd (rotate (turns prs) (p # ps))\<rparr>))"
    unfolding sk by simp
  finally show ?thesis using mp r2 u by (intro exI [of _ m2]) (simp add: updates_def)
qed

lemma enter_current_ok:
  assumes "pd_ok p" "current_process s = p" "x = proc_of (mem s) p"
  shows "enter_current s = do {
     (c, s) \<leftarrow> switch_context (pr_seg x) (pr_gen x) (pr_frame x) (pr_dir x - KERNEL_BASE)
       (set_tss_stack (pr_esp0 x) s);
     Some (Resumes c s)
   }"
proof -
  have r: "rd32 rd8 s' (p + PD_esp0) = Some (pd_get (mem s') p 17)"
    "rd32 rd8 s' (p + PD_page_directory) = Some (pd_get (mem s') p 18)"
    "rd_words (p + PD_frame) 5 s' = Some (map (pd_get (mem s') p) [0..<0 + 5])"
    "rd_words (p + PD_gen_regs) 8 s' = Some (map (pd_get (mem s') p) [5..<5 + 8])"
    "rd_words (p + PD_seg_regs) 4 s' = Some (map (pd_get (mem s') p) [13..<13 + 4])"
    for s' :: "'a proc_machine_scheme"
    unfolding pd_words by (rule pd_rd_word [OF assms(1)] rd_words_pd [OF assms(1)], simp)+
  have m: "mem (set_tss_stack v s) = mem s" "current_process (set_tss_stack v s) = current_process s" for v
    by (simp_all add: set_tss_stack_def)
  show ?thesis
    unfolding enter_current_def assms(2) r m by (simp add: assms(2,3) proc_of_def r m Let_def)
qed

text \<open>A process that was interrupted in ring 3, or that starts there, is entered by one \<open>iret\<close>.\<close>

definition user_ready :: "proc \<Rightarrow> bool" where
  "user_ready x \<longleftrightarrow> esp (pr_gen x) = 0 \<and> fr_cs (pr_frame x) AND 3 \<noteq> 0"

definition user_context :: "proc \<Rightarrow> cpu_context" where
  "user_context x =
     \<lparr>ctx_eip = fr_eip (pr_frame x), ctx_cs = fr_cs (pr_frame x), ctx_eflags = fr_eflags (pr_frame x),
      ctx_esp = Some (fr_esp (pr_frame x)), ctx_ss = Some (fr_ss (pr_frame x)), ctx_gen = pr_gen x,
      ctx_seg = pr_seg x\<rparr>"

definition enter_state :: "u32 \<Rightarrow> proc \<Rightarrow> 'a proc_machine_scheme \<Rightarrow> 'a proc_machine_scheme" where
  "enter_state p x s = s\<lparr>current_process := p, cr3 := pr_dir x - KERNEL_BASE,
     tss := (tss s)\<lparr>t_esp0 := pr_esp0 x\<rparr>, iflag := bit (fr_eflags (pr_frame x)) 9,
     ports := ports s @ [(0x20, 0x20)]\<rparr>"

lemma enter_user:
  assumes "pd_ok p" "current_process s = p" "x = proc_of (mem s) p" "user_ready x"
  shows "enter_current s = Some (Resumes (user_context x) (enter_state p x s))"
  unfolding enter_current_ok [OF assms(1-3)] using assms(2,4)
  by (simp add: switch_context_def user_ready_def iret_to_def user_context_def Let_def outportb_def
      set_tss_stack_def enter_state_def)

section \<open>Correctness of the scheduler\<close>

text \<open>A machine with two processes in ring 3, for the concrete runs.\<close>

definition two_pds :: "u32 list" where
  "two_pds = [0xd0000100, 0xd0000200]"

definition two_ring :: bytes where
  "two_ring = (let m = pd_put 0xd0000100 19 0xd0000100 (pd_put 0xd0000100 20 0xd0000100 (\<lambda>_. 0)) in
     pd_put 0xd0000100 19 0xd0000200 (pd_put 0xd0000100 20 0xd0000200
       (pd_put 0xd0000200 19 0xd0000100 (pd_put 0xd0000200 20 0xd0000100 m))))"

definition two_mem :: bytes where
  "two_mem = puts pd_put 0xd0000200 0 [0x2000, 0x1b] (puts pd_put 0xd0000100 0 [0x1000, 0x1b] two_ring)"

definition two_procs :: proc_machine where
  "two_procs = \<lparr>mem = two_mem, cr3 = 0, ports = [], gdt = replicate GDT_LIMIT zero_desc,
     gdtr = \<lparr>dt_size = 0, dt_offset = 0\<rparr>, tss = zero_tss,
     cpu_gdtr = \<lparr>dt_size = 0, dt_offset = 0\<rparr>, cpu_tr = 0, cpu_cs = 0, cpu_ds = 0, cpu_es = 0,
     cpu_ss = 0, cpu_fs = 0, cpu_gs = 0, idt = 0, idtr = \<lparr>idtr_size = 0, idtr_offset = 0\<rparr>,
     cpu_idtr = \<lparr>idtr_size = 0, idtr_offset = 0\<rparr>, iflag = False, page_freelist = 0,
     current_process = 0xd0000100\<rparr>"

lemma two_apart: "pds_apart (set two_pds)" "pds_apart {0xd0000100, 0xd0000200}"
  "pds_apart {0xd0000200, 0xd0000100}"
  by (auto simp: two_pds_def pds_apart_def pd_ok_def)

lemma two_apart_in: "0xd0000100 \<in> set two_pds" "0xd0000200 \<in> set two_pds"
  by (simp_all add: two_pds_def)

lemma two_mem_ring: "procq.ring two_mem two_pds"
proof -
  have a: "pds_apart {0xd0000100}" by (simp add: pds_apart_def pd_ok_def)
  let ?m = "pd_put 0xd0000100 19 0xd0000100 (pd_put 0xd0000100 20 0xd0000100 (\<lambda>_. 0))"
  have "procq.ring ?m [0xd0000100]" by (rule procq.ring_single [OF a])
  then have "procq.ring two_ring (0xd0000100 # [] @ [0xd0000200])"
    by (rule procq.ring_insert) (simp_all add: two_ring_def Let_def two_apart)
  then have r: "procq.ring two_ring two_pds" by (simp add: two_pds_def)
  note u = updates_puts [OF two_apart(1)]
  show ?thesis
    unfolding two_mem_def
    by (rule update_ring [OF u subset_refl update_ring [OF u subset_refl r]])
      (simp_all add: two_apart_in)
qed

lemma two_mem_words:
  "j < 19 \<Longrightarrow> pd_get two_mem 0xd0000100 j = (if j = 0 then 0x1000 else if j = 1 then 0x1b else 0)"
  "j < 19 \<Longrightarrow> pd_get two_mem 0xd0000200 j = (if j = 0 then 0x2000 else if j = 1 then 0x1b else 0)"
  "pd_state two_mem 0xd0000100 = 0" "pd_state two_mem 0xd0000200 = 0"
proof -
  have z: "pd_get (\<lambda>_. 0) p j = 0" for p j by (simp add: pd_get_def ld32_def)
  note gp = procq.get_put [OF two_apart(2)] and sp = pd_put_state [OF two_apart(2)]
  show "j < 19 \<Longrightarrow> pd_get two_mem 0xd0000100 j = (if j = 0 then 0x1000 else if j = 1 then 0x1b else 0)"
    "j < 19 \<Longrightarrow> pd_get two_mem 0xd0000200 j = (if j = 0 then 0x2000 else if j = 1 then 0x1b else 0)"
    by (simp_all add: two_mem_def two_ring_def Let_def gp z)
  show "pd_state two_mem 0xd0000100 = 0" "pd_state two_mem 0xd0000200 = 0"
    by (simp_all add: two_mem_def two_ring_def Let_def sp pd_state_def [of "\<lambda>_. 0"])
qed

definition user_frame :: interrupt_frame where
  "user_frame = \<lparr>fr_eip = 0x1234, fr_cs = 0x1b, fr_eflags = 0x202, fr_esp = 0xbffffff0, fr_ss = 0x23\<rparr>"

definition some_gen :: gen_register_set where
  "some_gen = \<lparr>edi = 1, esi = 2, ebp = 3, ebx = 4, edx = 5, ecx = 6, eax = 7, esp = 8\<rparr>"

definition some_seg :: seg_register_set where
  "some_seg = \<lparr>ds = 0x23, es = 0x23, fs = 0x23, gs = 0x23\<rparr>"

lemma preempt_user:
  "fr_cs fr AND 3 \<noteq> 0 \<Longrightarrow> pr_state x = 0 \<Longrightarrow>
   preempt sr gr fr x = x\<lparr>pr_frame := fr, pr_gen := gr\<lparr>esp := 0\<rparr>, pr_seg := sr\<rparr>"
proof -
  assume f: "fr_cs fr AND 3 \<noteq> 0" and x: "pr_state x = 0"
  have "(ucast (fr_cs fr AND 3) :: u8) \<noteq> 0"
  proof
    assume z: "(ucast (fr_cs fr AND 3) :: u8) = 0"
    have "fr_cs fr AND 3 = take_bit 2 (fr_cs fr)" by (simp add: take_bit_eq_mask mask_eq_exp_minus_1)
    moreover have "take_bit 2 (fr_cs fr) = ucast (ucast (take_bit 2 (fr_cs fr)) :: u8)"
      by (rule bit_word_eqI) (auto simp: bit_simps)
    ultimately show False using f z by simp
  qed
  with x show ?thesis by (simp add: preempt_def mark_stack_def save_context_def RING_KERNEL_def)
qed

lemma switch_process_resumes:
  assumes "pds_apart (set (p # ps))" "procq.ring (mem s) (p # ps)" "current_process s = p" "ps \<noteq> []"
    "pr_state (proc_of (mem s) p) \<noteq> 2"
    "prs = preempt sr gr fr (proc_of (mem s) p) # map (proc_of (mem s)) ps"
    "\<not> list_all halted prs" "x = hd (rotate (turns prs) prs)" "user_ready x"
  shows "\<exists>m. switch_process sr gr fr s =
      Some (Resumes (user_context x) (enter_state (hd (rotate (turns prs) (p # ps))) x (s\<lparr>mem := m\<rparr>))) \<and>
    \<not> halted x \<and> procq.ring m (rotate (turns prs) (p # ps)) \<and>
    map (proc_of m) (rotate (turns prs) (p # ps)) = rotate (turns prs) prs \<and>
    eq_off (pd_bytes p) (mem s) m"
proof -
  let ?qs = "rotate (turns prs) (p # ps)"
  obtain m where m: "switch_process sr gr fr s = enter_current (s\<lparr>mem := m, current_process := hd ?qs\<rparr>)"
    "map (proc_of m) (p # ps) = prs" "procq.ring m (p # ps)" "eq_off (pd_bytes p) (mem s) m"
    using switch_process_ok [OF assms(1) subset_refl assms(2-6)] assms(7) by auto
  have ne: "?qs \<noteq> []" "prs \<noteq> []" using assms(6) by simp_all
  have mq: "map (proc_of m) ?qs = rotate (turns prs) prs" unfolding rotate_map [symmetric] m(2) ..
  have x: "x = proc_of m (hd ?qs)" unfolding assms(8) mq [symmetric] by (rule hd_map [OF ne(1)])
  have "hd ?qs \<in> set (p # ps)" using hd_in_set [OF ne(1)] by simp
  then have ok: "pd_ok (hd ?qs)" using assms(1) by (auto simp: pds_apart_def)
  have "x = (tl prs @ [hd prs]) ! length (takeWhile halted (tl prs @ [hd prs]))"
    unfolding assms(8) by (rule hd_rotate_turns(1) [OF assms(7) ne(2) refl])
  then have h: "\<not> halted x" using hd_rotate_turns(3) [OF assms(7) ne(2) refl] by simp
  have "switch_process sr gr fr s = Some (Resumes (user_context x) (enter_state (hd ?qs) x (s\<lparr>mem := m\<rparr>)))"
    using enter_user [OF ok, of "s\<lparr>mem := m, current_process := hd ?qs\<rparr>" x] x assms(9) m(1)
    by (simp add: enter_state_def)
  then show ?thesis
    using m mq h procq.ring_rotate [OF m(3)] by blast
qed

text \<open>
  (C10) \<open>switch_process\<close> implements the abstract scheduler: the registers of the interrupt
  are saved with the process that ran, the queue advances past the halted processes to the next
  that is not, and the machine goes on in exactly the context saved there, in its address
  space and with its kernel stack in the task state segment. The ring keeps its order and the
  other processes, and all memory but the descriptor of the process that ran, are untouched.
\<close>

theorem switch_process_refines:
  assumes "pds_apart (set (p # ps))" "procq.ring (mem s) (p # ps)" "current_process s = p" "ps \<noteq> []"
    "pr_state (proc_of (mem s) p) \<noteq> 2"
    "prs = preempt sr gr fr (proc_of (mem s) p) # map (proc_of (mem s)) ps"
    "\<not> list_all halted prs" "x = hd (rotate (turns prs) prs)" "user_ready x"
  shows "\<exists>m. switch_process sr gr fr s =
      Some (Resumes (user_context x) (enter_state (hd (rotate (turns prs) (p # ps))) x (s\<lparr>mem := m\<rparr>))) \<and>
    \<not> halted x \<and> procq.ring m (rotate (turns prs) (p # ps)) \<and>
    map (proc_of m) (rotate (turns prs) (p # ps)) = rotate (turns prs) prs \<and>
    eq_off (pd_bytes p) (mem s) m"
  by (rule switch_process_resumes [OF assms])

theorem switch_process_refines_witness:
  "\<exists>c s'. switch_process some_seg some_gen user_frame two_procs = Some (Resumes c s') \<and>
     ctx_eip c = 0x2000 \<and> current_process s' = 0xd0000200 \<and>
     pr_frame (proc_of (mem s') 0xd0000100) = user_frame"
proof -
  let ?a = "0xd0000100 :: u32" and ?b = "0xd0000200 :: u32"
  have P: "pds_apart (set (?a # [?b]))" using two_apart by simp
  have r: "procq.ring (mem two_procs) (?a # [?b])" using two_mem_ring by (simp add: two_procs_def two_pds_def)
  let ?x = "preempt some_seg some_gen user_frame (proc_of two_mem ?a)" and ?y = "proc_of two_mem ?b"
  have st: "pr_state (proc_of two_mem ?a) = 0" by (simp add: proc_of_def two_mem_words)
  have x: "?x = (proc_of two_mem ?a)\<lparr>pr_frame := user_frame, pr_gen := some_gen\<lparr>esp := 0\<rparr>, pr_seg := some_seg\<rparr>"
    by (rule preempt_user [OF _ st]) (simp add: user_frame_def)
  have y: "\<not> halted ?y" "user_ready ?y" "fr_eip (pr_frame ?y) = 0x2000"
    by (simp_all add: halted_def user_ready_def PROCESS_HALTED_def proc_of_def proc_words two_mem_words)
  have t: "turns [?x, ?y] = 1" using y(1) by (simp add: turns_def)
  have m: "mem two_procs = two_mem" "current_process two_procs = ?a" by (simp_all add: two_procs_def)
  obtain s' where s': "switch_process some_seg some_gen user_frame two_procs = Some (Resumes (user_context ?y) s')"
    "current_process s' = ?b" "map (proc_of (mem s')) [?b, ?a] = [?y, ?x]"
    using switch_process_refines [OF P r m(2), of "[?x, ?y]" some_seg some_gen user_frame ?y] st y(1,2)
    by (auto simp: m t enter_state_def)
  then have "pr_frame (proc_of (mem s') ?a) = user_frame" by (simp add: x)
  with s' y(3) show ?thesis by (auto simp: user_context_def)
qed

section \<open>Termination of the loop over halted processes\<close>

text \<open>
  The first \<open>n\<close> iterations of the loop of \<open>switch_process\<close>: \<open>Inl\<close> when the loop still runs
  after them, \<open>Inr\<close> when it has ended.
\<close>

fun skip_rounds ::
  "nat \<Rightarrow> 'a proc_machine_scheme \<Rightarrow> ('a proc_machine_scheme + 'a proc_machine_scheme) option" where
  "skip_rounds 0 s = Some (Inl s)"
| "skip_rounds (Suc n) s = do {
     nxt \<leftarrow> rd32 rd8 s (current_process s + PD_next);
     let s = s\<lparr>current_process := nxt\<rparr>;
     st \<leftarrow> rd8 s (current_process s + PD_state);
     if st = PROCESS_HALTED then skip_rounds n s else Some (Inr s)
   }"

lemma skip_rounds_step:
  assumes P: "pds_apart P" "set (p # ps) \<subseteq> P" and r: "procq.ring (mem s) (p # ps)" "current_process s = p"
  shows "skip_rounds (Suc n) s =
    (let q = hd (ps @ [p]); s' = s\<lparr>current_process := q\<rparr> in
     if pd_state (mem s) q = PROCESS_HALTED then skip_rounds n s' else Some (Inr s'))"
proof -
  have ok: "pd_ok p" "pd_ok (hd (ps @ [p]))"
    using P by (auto simp: pds_apart_def subset_iff hd_append split: if_splits)
  have "rd32 rd8 s (p + PD_next) = Some (hd (ps @ [p]))"
    unfolding pd_words using pd_rd_word [OF ok(1), of 20 s] procq.ring_next [OF r(1)] by simp
  then show ?thesis by (simp add: r(2) pd_rd_state [OF ok(2)] Let_def)
qed

lemma skip_rounds_finds:
  assumes "pds_apart P" "set (p # ps) \<subseteq> P" "procq.ring (mem s) (p # ps)" "current_process s = p"
    "ps @ [p] = xs @ q # ys" "\<And>x. x \<in> set xs \<Longrightarrow> pd_state (mem s) x = PROCESS_HALTED"
    "pd_state (mem s) q \<noteq> PROCESS_HALTED" "length xs \<le> n"
  shows "skip_rounds (Suc n) s = Some (Inr (s\<lparr>current_process := q\<rparr>))"
  using assms(2-)
proof (induction xs arbitrary: s p ps ys n)
  case Nil
  then show ?case using skip_rounds_step [OF assms(1) Nil.prems(1-3)] by (simp add: Let_def)
next
  case (Cons x xs)
  let ?s = "s\<lparr>current_process := x\<rparr>"
  have e: "ps @ [p] = x # (xs @ q # ys)" using Cons.prems(4) by simp
  have "set (x # (xs @ q # ys)) \<subseteq> P" using Cons.prems(1) unfolding e [symmetric] by auto
  then have "skip_rounds (Suc (n - 1)) ?s = Some (Inr (?s\<lparr>current_process := q\<rparr>))"
    using Cons.prems(5-7) ring_turn [OF Cons.prems(2) e]
    by (intro Cons.IH [of x "xs @ q # ys" _ "ys @ [x]"]) simp_all
  moreover have "Suc (n - 1) = n" using Cons.prems(7) by simp
  ultimately show ?case
    using skip_rounds_step [OF assms(1) Cons.prems(1-3), of n] Cons.prems(5) unfolding e
    by (simp add: Let_def del: skip_rounds.simps)
qed

lemma skip_rounds_diverges:
  assumes "pds_apart P" "set (p # ps) \<subseteq> P" "procq.ring (mem s) (p # ps)" "current_process s = p"
    "\<And>x. x \<in> set (p # ps) \<Longrightarrow> pd_state (mem s) x = PROCESS_HALTED"
  shows "\<exists>q \<in> set (p # ps). skip_rounds n s = Some (Inl (s\<lparr>current_process := q\<rparr>))"
  using assms(2-)
proof (induction n arbitrary: s p ps)
  case 0
  then show ?case by (intro bexI [of _ p]) simp_all
next
  case (Suc n)
  let ?q = "hd (ps @ [p])" and ?s = "s\<lparr>current_process := hd (ps @ [p])\<rparr>"
  obtain qs where qs: "ps @ [p] = ?q # qs" by (cases "ps @ [p]") auto
  have st: "set (?q # qs) = set (p # ps)" unfolding qs [symmetric] by auto
  have "?q \<in> set (p # ps)" unfolding st [symmetric] by simp
  then have h: "pd_state (mem s) ?q = PROCESS_HALTED" using Suc.prems(4) by blast
  have "\<exists>q' \<in> set (?q # qs). skip_rounds n ?s = Some (Inl (?s\<lparr>current_process := q'\<rparr>))"
  proof (rule Suc.IH)
    show "set (?q # qs) \<subseteq> P" using Suc.prems(1) st by simp
    show "procq.ring (mem ?s) (?q # qs)" using ring_turn [OF Suc.prems(2) qs] by simp
    fix x assume "x \<in> set (?q # qs)"
    then have "x \<in> set (p # ps)" unfolding st .
    from Suc.prems(4) [OF this] show "pd_state (mem ?s) x = PROCESS_HALTED" by simp
  qed simp
  then show ?case
    using skip_rounds_step [OF assms(1) Suc.prems(1-3), of n] h unfolding st
    by (simp add: Let_def del: skip_rounds.simps)
qed

text \<open>
  (C17) The loop of \<open>switch_process\<close> ends within as many iterations as there are processes when
  one of them is not halted, at the first one after the current that is not. When all are
  halted it never ends: after any number of iterations it has not failed and still runs, in an
  interrupt handler with interrupts off.
\<close>

theorem skip_halted_terminates:
  assumes "pds_apart (set (p # ps))" "procq.ring (mem s) (p # ps)" "current_process s = p"
  shows "(case dropWhile (\<lambda>x. pd_state (mem s) x = PROCESS_HALTED) (ps @ [p]) of
      q # _ \<Rightarrow> skip_halted s = Some (s\<lparr>current_process := q\<rparr>) \<and>
        skip_rounds (length (p # ps)) s = Some (Inr (s\<lparr>current_process := q\<rparr>))
    | [] \<Rightarrow> skip_halted s = None \<and>
        (\<forall>n. \<exists>q \<in> set (p # ps). skip_rounds n s = Some (Inl (s\<lparr>current_process := q\<rparr>))))"
proof -
  let ?h = "\<lambda>x. pd_state (mem s) x = PROCESS_HALTED"
  note A = assms(1) subset_refl assms(2,3)
  show ?thesis
  proof (cases "dropWhile ?h (ps @ [p])")
    case Nil
    then have h: "?h x" if "x \<in> set (p # ps)" for x using that by (auto simp: dropWhile_eq_Nil_conv)
    show ?thesis
      unfolding Nil using skip_halted_diverges [OF A h] skip_rounds_diverges [OF A h] by auto
  next
    case (Cons q ys)
    then have sp: "ps @ [p] = takeWhile ?h (ps @ [p]) @ q # ys"
      using takeWhile_dropWhile_id [of ?h "ps @ [p]"] by simp
    have q: "\<not> ?h q" using hd_dropWhile [of ?h "ps @ [p]"] Cons by simp
    have t: "?h x" if "x \<in> set (takeWhile ?h (ps @ [p]))" for x using set_takeWhileD [OF that] by simp
    have l: "length (takeWhile ?h (ps @ [p])) \<le> length ps"
      using arg_cong [OF sp, of length] by simp
    show ?thesis
      unfolding Cons using skip_halted_finds [OF A sp t q] skip_rounds_finds [OF A sp t q l] by simp
  qed
qed

theorem skip_halted_terminates_witness:
  "skip_rounds 2 two_procs = Some (Inr (two_procs\<lparr>current_process := 0xd0000200\<rparr>))"
proof -
  have "procq.ring (mem two_procs) (0xd0000100 # [0xd0000200])" "current_process two_procs = 0xd0000100"
    using two_mem_ring by (simp_all add: two_procs_def two_pds_def)
  from skip_halted_terminates [OF _ this] show ?thesis
    using two_apart by (simp add: PROCESS_HALTED_def two_procs_def two_mem_words numeral_2_eq_2
        del: skip_rounds.simps)
qed

section \<open>No switch, insertion and change of state\<close>

lemma switch_process_alone:
  assumes "current_process s = 0 \<or> (pd_ok p \<and> current_process s = p \<and> procq.ring (mem s) [p])"
  shows "switch_process sr gr fr s = Some (Returns s)"
proof (cases "current_process s = 0")
  case True
  then show ?thesis by (simp add: switch_process_def)
next
  case False
  then have p: "pd_ok p" "current_process s = p" "procq.ring (mem s) [p]" using assms by blast+
  have "rd32 rd8 s (p + PD_next) = Some p"
    unfolding pd_words using pd_rd_word [OF p(1), of 20 s] procq.ring_next [OF p(3)] by simp
  then show ?thesis using False by (simp add: switch_process_def p(2))
qed

lemma pd_link_puts:
  assumes P: "pds_apart P" "p \<in> P" "q \<in> P"
  shows "proc_of (pd_put p 19 v m) q = proc_of m q" "proc_of (pd_put p 20 v m) q = proc_of m q"
  by (rule proc_of_cong; simp add: procq.get_put [OF P] pd_put_state [OF P])+

lemma insert_process_first:
  assumes "pd_ok p" "current_process s = 0"
  shows "\<exists>m. insert_process p s = Some (s\<lparr>mem := m, current_process := p\<rparr>) \<and> procq.ring m [p] \<and>
    proc_of m p = proc_of (mem s) p \<and> eq_off (pd_bytes p) (mem s) m"
proof -
  have P: "pds_apart {p}" using assms(1) by (simp add: pds_apart_def)
  have w: "wr32 wr8 s' (p + PD_prev) v = Some (s'\<lparr>mem := pd_put p 19 v (mem s')\<rparr>)"
    "wr32 wr8 s' (p + PD_next) v = Some (s'\<lparr>mem := pd_put p 20 v (mem s')\<rparr>)"
    for s' :: "'a proc_machine_scheme" and v
    using pd_wr_word [OF assms(1), of 19 s' v] pd_wr_word [OF assms(1), of 20 s' v]
    unfolding pd_words by simp_all
  let ?m = "pd_put p 19 p (pd_put p 20 p (mem s))"
  have "insert_process p s = Some (s\<lparr>mem := ?m, current_process := p\<rparr>)"
    using assms(2) by (simp add: insert_process_def w)
  moreover have "eq_off (pd_bytes p) (mem s) ?m"
    using eq_off_trans [OF pd_put_off [OF assms(1), of 20] pd_put_off [OF assms(1), of 19]] by simp
  ultimately show ?thesis
    using procq.ring_single [OF P] by (intro exI [of _ ?m]) (simp add: pd_link_puts [OF P])
qed

lemma insert_process_ring:
  assumes P: "pds_apart (insert p (set (c # ps)))" "p \<notin> set (c # ps)"
    and r: "procq.ring (mem s) (c # ps)" "current_process s = c"
  shows "\<exists>m. insert_process p s = Some (s\<lparr>mem := m\<rparr>) \<and> procq.ring m (c # ps @ [p]) \<and>
    (\<forall>q \<in> insert p (set (c # ps)). proc_of m q = proc_of (mem s) q) \<and>
    eq_off (\<Union> (pd_bytes ` insert p (set (c # ps)))) (mem s) m"
proof -
  let ?P = "insert p (set (c # ps))" and ?l = "last (c # ps)"
  have l: "?l \<in> ?P" using last_in_set [of "c # ps"] by blast
  have ok: "pd_ok q" if "q \<in> ?P" for q using P(1) that unfolding pds_apart_def by blast
  have okp: "pd_ok p" "pd_ok c" "pd_ok ?l" using ok l by auto
  have w: "wr32 wr8 s' (q + PD_prev) v = Some (s'\<lparr>mem := pd_put q 19 v (mem s')\<rparr>)"
    "wr32 wr8 s' (q + PD_next) v = Some (s'\<lparr>mem := pd_put q 20 v (mem s')\<rparr>)"
    "rd32 rd8 s' (q + PD_prev) = Some (pd_get (mem s') q 19)"
    if "pd_ok q" for s' :: "'a proc_machine_scheme" and v q
    using pd_wr_word [OF that, of 19 s' v] pd_wr_word [OF that, of 20 s' v] pd_rd_word [OF that, of 19 s']
    unfolding pd_words by simp_all
  have c0: "c \<noteq> 0" using okp(2) by (auto simp: pd_ok_def)
  have cp: "c \<noteq> p" using P(2) by auto
  have pv: "pd_get (mem s) c 19 = ?l" using procq.ring_prev [OF r(1)] by simp
  let ?m1 = "pd_put p 20 c (mem s)"
  let ?m2 = "pd_put p 19 ?l ?m1"
  let ?m3 = "pd_put ?l 20 p ?m2"
  let ?m4 = "pd_put c 19 p ?m3"
  have cP: "c \<in> ?P" "p \<in> ?P" by simp_all
  have pv': "pd_get ?m1 c 19 = ?l" "pd_get ?m2 c 19 = ?l"
    using cp pv by (simp_all add: procq.get_put [OF P(1) cP(2,1)])
  have "insert_process p s = Some (s\<lparr>mem := ?m4\<rparr>)"
    unfolding insert_process_def r(2) using c0
    by (simp add: w okp r(2) pv' del: last.simps)
  moreover have "procq.ring ?m4 (c # ps @ [p])"
    by (rule procq.ring_insert [OF r(1) P]) (rule refl)
  moreover have "proc_of ?m4 q = proc_of (mem s) q" if "q \<in> ?P" for q
    unfolding pd_link_puts(1) [OF P(1) cP(1) that] pd_link_puts(2) [OF P(1) l that]
      pd_link_puts(1) [OF P(1) cP(2) that] pd_link_puts(2) [OF P(1) cP(2) that] ..
  moreover have "eq_off (\<Union> (pd_bytes ` ?P)) m (pd_put q i v m)" if "q \<in> ?P" "i < 21" for q i v m
    using that by (intro eq_off_mono [OF pd_put_off [OF ok]]) auto
  then have "eq_off (\<Union> (pd_bytes ` ?P)) (mem s) ?m4"
    unfolding eq_off_def using cP l by simp
  ultimately show ?thesis by blast
qed

lemma insert_process_queue:
  assumes "pds_apart (insert p (set ps))" "p \<notin> set ps"
    "if ps = [] then current_process s = 0 else procq.ring (mem s) ps \<and> current_process s = hd ps"
  shows "\<exists>m. insert_process p s = Some (s\<lparr>mem := m, current_process := hd (ps @ [p])\<rparr>) \<and>
    procq.ring m (ps @ [p]) \<and> map (proc_of m) (ps @ [p]) = map (proc_of (mem s)) (ps @ [p]) \<and>
    eq_off (\<Union> (pd_bytes ` set (ps @ [p]))) (mem s) m"
proof (cases ps)
  case Nil
  have "pd_ok p" "current_process s = 0" using assms by (simp_all add: Nil pds_apart_def)
  from insert_process_first [OF this] show ?thesis by (simp add: Nil)
next
  case (Cons c cs)
  have c: "procq.ring (mem s) (c # cs)" "current_process s = c" using assms(3) by (simp_all add: Cons)
  obtain m where m: "insert_process p s = Some (s\<lparr>mem := m\<rparr>)" "procq.ring m (c # cs @ [p])"
    "\<forall>q \<in> insert p (set (c # cs)). proc_of m q = proc_of (mem s) q"
    "eq_off (\<Union> (pd_bytes ` insert p (set (c # cs)))) (mem s) m"
    using insert_process_ring [OF assms(1,2) [unfolded Cons] c] by blast
  have "s\<lparr>mem := m\<rparr> = s\<lparr>mem := m, current_process := c\<rparr>" using c(2) by simp
  then show ?thesis using m by (intro exI [of _ m]) (simp add: Cons insert_commute)
qed

text \<open>
  \<open>insert_process\<close>, the end of \<open>create_process\<close>, puts the new process at the end of the
  queue, the last to get its turn: the ring of the processes that were there is extended, none of
  them changes, and no memory but their descriptors is written.
\<close>

theorem insert_process_appends:
  assumes "pds_apart (insert p (set ps))" "p \<notin> set ps"
    "if ps = [] then current_process s = 0 else procq.ring (mem s) ps \<and> current_process s = hd ps"
  shows "\<exists>m. insert_process p s = Some (s\<lparr>mem := m, current_process := hd (ps @ [p])\<rparr>) \<and>
    procq.ring m (ps @ [p]) \<and> map (proc_of m) (ps @ [p]) = map (proc_of (mem s)) (ps @ [p]) \<and>
    eq_off (\<Union> (pd_bytes ` set (ps @ [p]))) (mem s) m"
  by (rule insert_process_queue [OF assms])

text \<open>
  \<open>update_process\<close> sets the state of the process that runs and nothing else: its
  registers, the ring, every other process and all other memory are unchanged.
\<close>

theorem update_process_state:
  assumes "pds_apart (set (p # ps))" "procq.ring (mem s) (p # ps)" "current_process s = p"
  shows "\<exists>m. update_process st s = Some (s\<lparr>mem := m\<rparr>) \<and> procq.ring m (p # ps) \<and>
    map (proc_of m) (p # ps) = (proc_of (mem s) p)\<lparr>pr_state := st\<rparr> # map (proc_of (mem s)) ps \<and>
    eq_off {p + PD_state} (mem s) m"
proof -
  let ?m = "(mem s)(p + PD_state := st)"
  have ok: "pd_ok q" if "q \<in> set (p # ps)" for q using assms(1) that by (auto simp: pds_apart_def)
  have pP: "p \<in> set (p # ps)" by simp
  have ap: "pd_bytes q \<inter> {p + PD_state} = {}" if "q \<in> set (p # ps)" "q \<noteq> p" for q
    using assms(1) that ok [OF that(1)] ok [OF pP] unat_pd [OF ok [OF pP], of 84]
    by (auto simp: pds_apart_def pd_bytes_def bytes_at_unat PD_state_def pd_ok_def)
  have off: "eq_off {p + PD_state} (mem s) ?m" by (simp add: eq_off_def)
  have gp: "pd_get ?m p i = pd_get (mem s) p i" if "i < 21" for i
    by (rule pd_get_state_byte [OF ok [OF pP] that])
  have g: "pd_get ?m q i = pd_get (mem s) q i" if "q \<in> set (p # ps)" "i < 21" for q i
    using gp pd_get_eq_off [OF off ok [OF that(1)] that(2) ap [OF that(1)]] that(2) by (cases "q = p") auto
  have "KERNEL_BASE \<le> p + PD_state" using pd_high [OF ok [OF pP], of 84] by (simp add: PD_state_def)
  then have "update_process st s = Some (s\<lparr>mem := ?m\<rparr>)"
    by (simp add: update_process_def assms(3) wr8_def del: KERNEL_BASE_def)
  moreover have "procq.ring ?m (p # ps)" by (rule procq.ring_cong [OF assms(2)]) (simp add: g)
  moreover have "proc_of ?m p = (proc_of (mem s) p)\<lparr>pr_state := st\<rparr>"
    by (simp add: proc_of_def proc_words gp pd_state_def)
  moreover have "distinct (p # ps)" using assms(2) by (simp add: linked_def)
  then have "map (proc_of ?m) ps = map (proc_of (mem s)) ps"
    using proc_of_eq_off [OF off ok ap] by auto
  ultimately show ?thesis using off by (intro exI [of _ ?m]) (simp del: fun_upd_apply)
qed

theorem update_process_state_witness:
  "\<exists>m. update_process 1 two_procs = Some (two_procs\<lparr>mem := m\<rparr>) \<and> pr_state (proc_of m 0xd0000100) = 1"
  using update_process_state [of "0xd0000100" "[0xd0000200]" two_procs 1] two_mem_ring two_apart
  by (fastforce simp: two_pds_def two_procs_def)

theorem insert_process_appends_witness:
  "\<exists>m. insert_process 0xd0000300 two_procs = Some (two_procs\<lparr>mem := m, current_process := 0xd0000100\<rparr>) \<and>
     procq.ring m [0xd0000100, 0xd0000200, 0xd0000300]"
proof -
  have "pds_apart (insert 0xd0000300 (set two_pds))"
    by (auto simp: two_pds_def pds_apart_def pd_ok_def)
  moreover have "0xd0000300 \<notin> set two_pds" by (simp add: two_pds_def)
  moreover have "if two_pds = [] then current_process two_procs = 0
      else procq.ring (mem two_procs) two_pds \<and> current_process two_procs = hd two_pds"
    using two_mem_ring by (simp add: two_pds_def two_procs_def)
  ultimately show ?thesis using insert_process_appends by (fastforce simp: two_pds_def)
qed

end
