(* ===== verification/Timer.thy ===== *)
theory Timer
  imports Scheduler
begin

text \<open>
  The timer, src/arch/x86/drivers/timer.c, timer.h and timer.s: the programming of the interval
  timer, the handler that drives the scheduler, and its wrapper, from the words the processor
  pushed for the interrupt to the context the machine goes on in.
\<close>

record timer_machine = proc_machine +
  switching_enabled :: u8

definition TIMER_CHANNEL0 :: u32 where
  "TIMER_CHANNEL0 = KERNEL_BASE + 0x40"

definition TIMER_MODE :: u32 where
  "TIMER_MODE = KERNEL_BASE + 0x43"

definition TIMER_FREQ :: nat where
  "TIMER_FREQ = 1193182"

definition TIMER_INT_FREQ :: nat where
  "TIMER_INT_FREQ = 1000"

definition init_timer :: "layout \<Rightarrow> 'a timer_machine_scheme \<Rightarrow> 'a timer_machine_scheme option" where
  "init_timer L s = do {
     let s = s\<lparr>switching_enabled := 0\<rparr>;
     let divider = (of_nat (TIMER_FREQ div TIMER_INT_FREQ) :: u16);
     s \<leftarrow> set_id IRQ_OFFSET (isr_addr L Timer) 0x08 IDT_PROT_INTR 0 1 s;
     let s = outportb TIMER_MODE 0x34 s;
     let s = outportb TIMER_CHANNEL0 (ucast (divider AND 0xff)) s;
     let s = outportb TIMER_CHANNEL0 (ucast (drop_bit 8 divider AND 0xff)) s;
     Some s
   }"

definition enable_switching :: "'a timer_machine_scheme \<Rightarrow> 'a timer_machine_scheme" where
  "enable_switching s = s\<lparr>switching_enabled := 1\<rparr>"

definition timer_handler ::
  "seg_register_set \<Rightarrow> gen_register_set \<Rightarrow> interrupt_frame \<Rightarrow> 'a timer_machine_scheme \<Rightarrow>
   'a timer_machine_scheme outcome option" where
  "timer_handler seg_regs gen_regs frame s = do {
     r \<leftarrow> (if switching_enabled s \<noteq> 0 then switch_process seg_regs gen_regs frame s
            else Some (Returns s));
     case r of
       Returns s \<Rightarrow> Some (Returns (outportb PIC_COMMAND1 PIC_EOI s))
     | Resumes c s \<Rightarrow> Some (Resumes c s)
   }"

text \<open>
  The wrapper clears the interrupt flag, pushes all eight general registers (\<open>esp\<close> first: the
  address of the frame the processor pushed) and the segment registers, and calls the handler.
  When the handler returns it restores the registers and executes \<open>iret\<close> on that frame.
  \<open>stack\<close> is the stack at the entry of the wrapper, beginning with the frame.
\<close>

definition timer_pushes :: "seg_register_set \<Rightarrow> gen_register_set \<Rightarrow> u32 list \<Rightarrow> u32 list" where
  "timer_pushes sr gr stack =
     [ds sr, es sr, fs sr, gs sr, edi gr, esi gr, ebp gr, ebx gr, edx gr, ecx gr, eax gr, esp gr] @ stack"

definition timer_handler_wrapper ::
  "seg_register_set \<Rightarrow> gen_register_set \<Rightarrow> u32 list \<Rightarrow> 'a timer_machine_scheme \<Rightarrow>
   (cpu_context \<times> 'a timer_machine_scheme) option" where
  "timer_handler_wrapper sr gr stack s = do {
     let s = disable_interrupts s;
     let stack = timer_pushes sr gr stack;
     (sr, gr, rest) \<leftarrow> reg_args stack;
     f \<leftarrow> frame_arg rest;
     r \<leftarrow> timer_handler sr gr f s;
     case r of
       Resumes c s \<Rightarrow> Some (c, s)
     | Returns s \<Rightarrow>
         (let c = iret_to gr sr f (Some (esp gr + 12))
          in Some (c, s\<lparr>iflag := bit (ctx_eflags c) 9\<rparr>))
   }"

section \<open>The interval timer\<close>

text \<open>
  Channel 0 of the 8254: a mode byte with access mode 3 in bits 4 and 5 expects the low and
  then the high byte of the divisor.
\<close>

record pit =
  pit_mode :: "3 word"
  pit_divisor :: u16
  pit_low :: "u8 option"

definition pit_write :: "u16 \<times> u8 \<Rightarrow> pit \<Rightarrow> pit" where
  "pit_write w p = (let (port, v) = w in
     if port = 0x43 then
       (if drop_bit 6 v = 0 \<and> drop_bit 4 v AND 3 = 3
        then p\<lparr>pit_mode := ucast (drop_bit 1 v), pit_low := None\<rparr> else p)
     else if port = 0x40 then
       (case pit_low p of
          None \<Rightarrow> p\<lparr>pit_low := Some v\<rparr>
        | Some l \<Rightarrow> p\<lparr>pit_divisor := push_bit 8 (ucast v) OR ucast l, pit_low := None\<rparr>)
     else p)"

lemma init_timer_eq:
  "init_timer L s = map_option (\<lambda>s'. s'\<lparr>ports := ports s' @ [(0x43, 0x34), (0x40, 0xa9), (0x40, 4)]\<rparr>)
     (set_desc 0x20 (intr_gate (isr_addr L Timer)) (s\<lparr>switching_enabled := 0\<rparr>))"
  unfolding init_timer_def set_id_intr IRQ_OFFSET_def
  by (cases "set_desc 0x20 (intr_gate (isr_addr L Timer)) (s\<lparr>switching_enabled := 0\<rparr>)")
    (simp_all add: outportb_def TIMER_MODE_def TIMER_CHANNEL0_def TIMER_FREQ_def TIMER_INT_FREQ_def)

lemma init_timer_ok:
  assumes "idt_live A s"
  shows "\<exists>m. let s' = s\<lparr>switching_enabled := 0, mem := m,
      ports := ports s @ [(0x43, 0x34), (0x40, 0xa9), (0x40, 4)]\<rparr> in
    init_timer L s = Some s' \<and> gate s' = (gate s)(0x20 := intr_gate (isr_addr L Timer)) \<and> idt_live A s' \<and>
    eq_off (region (idt s) (8 * IDT_LIMIT)) (mem s) m"
proof -
  let ?s = "s\<lparr>switching_enabled := 0\<rparr>"
  let ?ws = "[(0x43, 0x34), (0x40, 0xa9), (0x40, 4)] :: (u16 \<times> u8) list"
  have "idt_live A ?s" using assms by (simp add: idt_live_def kernel_live_def)
  from set_desc_gate [OF this, of "0x20" "intr_gate (isr_addr L Timer)"] obtain s' where
    s': "set_desc 0x20 (intr_gate (isr_addr L Timer)) ?s = Some s'" "idt_live A s'"
      "gate s' = (gate ?s)(0x20 := intr_gate (isr_addr L Timer))" "idt_frame ?s s'"
    by blast
  obtain m where m: "s' = ?s\<lparr>mem := m\<rparr>" "\<forall>x. x \<notin> region (idt s) (8 * IDT_LIMIT) \<longrightarrow> m x = mem s x"
    using s'(4) by (auto simp: idt_frame_def)
  have g: "gate ?s = gate s" by (rule ext) (simp add: gate_def)
  let ?r = "s'\<lparr>ports := ports s' @ ?ws\<rparr>"
  have "gate ?r = gate s'" by (rule ext) (simp add: gate_def)
  moreover have "idt_live A ?r" using s'(2) by (simp add: idt_live_def kernel_live_def)
  moreover have "?r = s\<lparr>switching_enabled := 0, mem := m, ports := ports s @ ?ws\<rparr>" using m(1) by simp
  ultimately show ?thesis
    using s' m by (intro exI [of _ m]) (simp add: init_timer_eq g eq_off_def Let_def)
qed

text \<open>
  \<open>init_timer\<close> makes vector 0x20 lead to the wrapper of the timer, keeps every other gate
  and all other memory, switches scheduling off, and programs the interval timer, whatever state
  it was in, as a rate generator whose rate is 1000 interrupts a second to within one.
\<close>

theorem init_timer_programs:
  assumes "idt_live A s"
  shows "\<exists>s' ws. init_timer L s = Some s' \<and> switching_enabled s' = 0 \<and>
    gate s' = (gate s)(0x20 := intr_gate (isr_addr L Timer)) \<and> idt_live A s' \<and>
    eq_off (region (idt s) (8 * IDT_LIMIT)) (mem s) (mem s') \<and> ports s' = ports s @ ws \<and>
    (\<forall>p. \<exists>p'. fold pit_write ws p = p' \<and> pit_mode p' = 2 \<and>
       TIMER_FREQ div unat (pit_divisor p') = 1000)"
proof -
  let ?ws = "[(0x43, 0x34), (0x40, 0xa9), (0x40, 4)] :: (u16 \<times> u8) list"
  have p: "pit_mode (fold pit_write ?ws p) = 2 \<and> TIMER_FREQ div unat (pit_divisor (fold pit_write ?ws p)) = 1000" for p
    by (cases p) (simp add: pit_write_def TIMER_FREQ_def)
  obtain m where "let s' = s\<lparr>switching_enabled := 0, mem := m, ports := ports s @ ?ws\<rparr> in
    init_timer L s = Some s' \<and> gate s' = (gate s)(0x20 := intr_gate (isr_addr L Timer)) \<and> idt_live A s' \<and>
    eq_off (region (idt s) (8 * IDT_LIMIT)) (mem s) m"
    using init_timer_ok [OF assms, of L] by blast
  then show ?thesis
    using p by (intro exI [of _ "s\<lparr>switching_enabled := 0, mem := m, ports := ports s @ ?ws\<rparr>"] exI [of _ ?ws])
      (simp add: Let_def)
qed

definition boot_timer :: timer_machine where
  "boot_timer = proc_machine.extend (two_procs\<lparr>mem := mem one_used, idt := 0xd0000000\<rparr>)
     (timer_machine.fields 1)"

lemma boot_timer_live: "idt_live used_region boot_timer"
proof -
  have "mem boot_timer = mem one_used" "idt boot_timer = 0xd0000000"
    by (simp_all add: boot_timer_def proc_machine.defs timer_machine.defs)
  then show ?thesis
    using boot_intr_live by (simp add: idt_live_def kernel_live_def boot_intr_def)
qed

theorem init_timer_programs_witness:
  "\<forall>L. \<exists>s'. init_timer L boot_timer = Some s' \<and> switching_enabled s' = 0 \<and>
     gate_target (gate s' 0x20) = isr_addr L Timer"
proof
  fix L
  show "\<exists>s'. init_timer L boot_timer = Some s' \<and> switching_enabled s' = 0 \<and>
     gate_target (gate s' 0x20) = isr_addr L Timer"
    using init_timer_programs [OF boot_timer_live, of L] by (elim exE conjE) simp
qed

section \<open>Interrupts without a switch\<close>

lemma reg_args_pushes: "reg_args (timer_pushes sr gr stack) = Some (sr, gr, stack)"
  by (cases sr; cases gr) (simp add: timer_pushes_def)

lemma frame_arg_words [simp]: "frame_arg (frame_words f @ rest) = Some f"
  by (cases f) (simp add: frame_words_def)

lemma wrapper_handler:
  "timer_handler_wrapper sr gr (frame_words f @ rest) s =
   do {
     r \<leftarrow> timer_handler sr gr f (disable_interrupts s);
     case r of
       Resumes c s \<Rightarrow> Some (c, s)
     | Returns s \<Rightarrow>
         (let c = iret_to gr sr f (Some (esp gr + 12))
          in Some (c, s\<lparr>iflag := bit (ctx_eflags c) 9\<rparr>))
   }"
  by (simp add: timer_handler_wrapper_def reg_args_pushes)

text \<open>
  (C21) A timer interrupt that switches nothing, because switching is off, or there is no process
  or only one, is transparent: the interrupted code goes on with the registers, the frame and,
  in ring 0, the stack it had, the controller gets its end of interrupt, and nothing else
  changes. In particular the wrapper of the timer, unlike those of isr.s, hands its handler the
  registers where it expects them.
\<close>

theorem timer_transparent:
  assumes "switching_enabled s = 0 \<or> current_process s = 0 \<or>
    pd_ok (current_process s) \<and> procq.ring (mem s) [current_process s]"
  shows "timer_handler_wrapper sr gr (frame_words fr @ rest) s =
    Some (iret_to gr sr fr (Some (esp gr + 12)),
      s\<lparr>iflag := bit (fr_eflags fr) 9, ports := ports s @ [(0x20, 0x20)]\<rparr>)"
proof -
  let ?s = "disable_interrupts s"
  have "timer_handler sr gr fr ?s = Some (Returns (outportb PIC_COMMAND1 PIC_EOI ?s))"
  proof (cases "switching_enabled ?s = 0")
    case False
    then have "current_process ?s = 0 \<or>
        pd_ok (current_process s) \<and> current_process ?s = current_process s \<and> procq.ring (mem ?s) [current_process s]"
      using assms by (auto simp: disable_interrupts_def)
    from switch_process_alone [OF this, of sr gr fr] False show ?thesis by (simp add: timer_handler_def)
  qed (simp add: timer_handler_def)
  then show ?thesis
    by (simp add: wrapper_handler disable_interrupts_def outportb_def PIC_COMMAND1_def PIC_EOI_def
        iret_to_def Let_def)
qed

theorem timer_transparent_witness:
  "\<exists>s. timer_handler_wrapper some_seg some_gen (frame_words user_frame)
     (boot_timer\<lparr>switching_enabled := 0\<rparr>) = Some (iret_to some_gen some_seg user_frame (Some 20), s) \<and> iflag s"
  using timer_transparent [of "boot_timer\<lparr>switching_enabled := 0\<rparr>" some_seg some_gen user_frame "[]"]
  by (simp add: some_gen_def user_frame_def bit_iff_odd)

end
