(* ===== verification/Round_Robin.thy ===== *)
theory Round_Robin
  imports Timer
begin

text \<open>
  Repeated timer interrupts: the machine as a transition system whose steps are the interrupts
  of the timer, with arbitrary execution of the processes between them, and the proof that every
  process gets its turn and goes on with exactly the registers it was interrupted with.
\<close>

section \<open>Runs\<close>

text \<open>The registers the processor had when an interrupt came.\<close>

type_synonym interrupted = "seg_register_set \<times> gen_register_set \<times> interrupt_frame"

text \<open>Code that runs between two interrupts may change any memory but the descriptors \<open>P\<close>.\<close>

definition other_code :: "u32 set \<Rightarrow> timer_machine \<Rightarrow> timer_machine \<Rightarrow> bool" where
  "other_code P s s' \<longleftrightarrow> (\<exists>m. s' = s\<lparr>mem := m\<rparr> \<and> (\<forall>p \<in> P. \<forall>x \<in> pd_bytes p. m x = mem s x))"

text \<open>
  A run: interrupts in ring 3, each with the registers it interrupted, whatever they are, and
  the context the machine went on in.
\<close>

inductive ticks :: "u32 set \<Rightarrow> timer_machine \<Rightarrow> (interrupted \<times> cpu_context) list \<Rightarrow> timer_machine \<Rightarrow> bool"
  for P :: "u32 set" and s :: timer_machine where
  ticks_none: "ticks P s [] s"
| ticks_tick: "ticks P s ts s1 \<Longrightarrow> other_code P s1 s2 \<Longrightarrow> fr_cs fr AND 3 \<noteq> 0 \<Longrightarrow>
    timer_handler_wrapper sr gr (frame_words fr @ rest) s2 = Some (c, s3) \<Longrightarrow>
    ticks P s (ts @ [((sr, gr, fr), c)]) s3"

text \<open>The context a process goes on in that was interrupted with these registers.\<close>

definition resumed :: "interrupted \<Rightarrow> cpu_context" where
  "resumed e = (let (sr, gr, fr) = e in
     \<lparr>ctx_eip = fr_eip fr, ctx_cs = fr_cs fr, ctx_eflags = fr_eflags fr, ctx_esp = Some (fr_esp fr),
      ctx_ss = Some (fr_ss fr), ctx_gen = gr\<lparr>esp := 0\<rparr>, ctx_seg = sr\<rparr>)"

section \<open>The abstract round robin\<close>

definition saved :: "interrupted \<Rightarrow> proc \<Rightarrow> proc" where
  "saved e x = (let (sr, gr, fr) = e in x\<lparr>pr_frame := fr, pr_gen := gr\<lparr>esp := 0\<rparr>, pr_seg := sr\<rparr>)"

definition turn :: "interrupted \<Rightarrow> proc list \<Rightarrow> proc list" where
  "turn e prs = tl prs @ [saved e (hd prs)]"

definition round_robin :: "interrupted list \<Rightarrow> proc list \<Rightarrow> proc list" where
  "round_robin ts prs = fold turn ts prs"

lemma round_robin_snoc [simp]: "round_robin (ts @ [e]) prs = turn e (round_robin ts prs)"
  by (simp add: round_robin_def)

lemma round_robin_Nil [simp]: "round_robin [] prs = prs"
  by (simp add: round_robin_def)

lemma length_round_robin [simp]: "prs \<noteq> [] \<Longrightarrow> length (round_robin ts prs) = length prs"
  by (induction ts rule: rev_induct) (auto simp: turn_def)

lemma user_context_saved [simp]: "user_context (saved e x) = resumed e"
  by (simp add: saved_def resumed_def user_context_def split_beta)

text \<open>Where each process of the queue comes from.\<close>

lemma round_robin_nth:
  "i < length prs \<Longrightarrow> user_context (round_robin ts prs ! i) =
    (if length ts + i < length prs then user_context (prs ! (length ts + i))
     else resumed (ts ! (length ts + i - length prs)))"
proof (induction ts arbitrary: i rule: rev_induct)
  case (snoc e ts)
  have ne: "prs \<noteq> []" using snoc.prems by auto
  have l: "length (tl (round_robin ts prs)) = length prs - 1" using ne by simp
  show ?case
  proof (cases "i < length prs - 1")
    case True
    then have "round_robin (ts @ [e]) prs ! i = round_robin ts prs ! Suc i"
      using l by (simp add: turn_def nth_append nth_tl)
    moreover have "length ts + Suc i - length prs < length ts" if "\<not> length ts + Suc i < length prs"
      using that True by simp
    ultimately show ?thesis using snoc.IH [of "Suc i"] True by (simp add: nth_append)
  next
    case False
    then have i: "i = length prs - 1" using snoc.prems by simp
    then have "round_robin (ts @ [e]) prs ! i = saved e (hd (round_robin ts prs))"
      using l by (simp add: turn_def nth_append)
    moreover have "length (ts @ [e]) + i - length prs = length ts" "\<not> length (ts @ [e]) + i < length prs"
      using i ne by (auto simp: neq_Nil_conv)
    ultimately show ?thesis by simp
  qed
qed simp

text \<open>Processes that can be scheduled in ring 3.\<close>

definition runnable :: "proc \<Rightarrow> bool" where
  "runnable x \<longleftrightarrow> pr_state x = 0 \<and> user_ready x"

lemma runnable_saved:
  "fr_cs fr AND 3 \<noteq> 0 \<Longrightarrow> runnable x \<Longrightarrow> runnable (saved (sr, gr, fr) x)"
  by (simp add: runnable_def saved_def user_ready_def)

lemma runnable_not_halted: "runnable x \<Longrightarrow> \<not> halted x"
  by (simp add: runnable_def halted_def PROCESS_HALTED_def)

lemma preempt_saved:
  "fr_cs fr AND 3 \<noteq> 0 \<Longrightarrow> runnable x \<Longrightarrow> preempt sr gr fr x = saved (sr, gr, fr) x"
  by (simp add: runnable_def preempt_user saved_def)

section \<open>One interrupt\<close>

lemma other_code_procs:
  assumes "other_code P s s'" "pds_apart P"
  shows "current_process s' = current_process s" "switching_enabled s' = switching_enabled s"
    "p \<in> P \<Longrightarrow> proc_of (mem s') p = proc_of (mem s) p"
    "set ps \<subseteq> P \<Longrightarrow> procq.ring (mem s) ps \<Longrightarrow> procq.ring (mem s') ps"
proof -
  obtain m where m: "s' = s\<lparr>mem := m\<rparr>" "\<forall>p \<in> P. \<forall>x \<in> pd_bytes p. m x = mem s x"
    using assms(1) by (auto simp: other_code_def)
  have off: "eq_off (- \<Union> (pd_bytes ` P)) (mem s) (mem s')" using m by (auto simp: eq_off_def)
  have ok: "pd_ok q" "pd_bytes q \<inter> (- \<Union> (pd_bytes ` P)) = {}" if "q \<in> P" for q
    using assms(2) that by (auto simp: pds_apart_def)
  show "current_process s' = current_process s" "switching_enabled s' = switching_enabled s"
    by (simp_all add: m(1))
  show "proc_of (mem s') p = proc_of (mem s) p" if "p \<in> P"
    by (rule proc_of_eq_off [OF off ok [OF that]])
  show "procq.ring (mem s') ps" if "set ps \<subseteq> P" "procq.ring (mem s) ps"
    using that ok by (intro ring_eq_off [OF off _ that(2)]) blast
qed

lemma tick_step:
  assumes P: "pds_apart (set ps)" and r: "procq.ring (mem s) ps" "current_process s = hd ps"
    and l: "2 \<le> length ps" and sw: "switching_enabled s \<noteq> 0" and fr: "fr_cs fr AND 3 \<noteq> 0"
    and x: "\<forall>p \<in> set ps. runnable (proc_of (mem s) p)"
    and xs: "xs = turn (sr, gr, fr) (map (proc_of (mem s)) ps)"
  shows "\<exists>s'. timer_handler_wrapper sr gr (frame_words fr @ rest) s = Some (user_context (hd xs), s') \<and>
    procq.ring (mem s') (rotate1 ps) \<and> current_process s' = hd (rotate1 ps) \<and>
    map (proc_of (mem s')) (rotate1 ps) = xs \<and> switching_enabled s' \<noteq> 0 \<and>
    (\<forall>p \<in> set ps. runnable (proc_of (mem s') p))"
proof -
  obtain p q qs where ps: "ps = p # q # qs"
    using l by (cases ps; cases "tl ps") auto
  let ?s = "disable_interrupts s"
  have m: "mem ?s = mem s" "current_process ?s = p" using r(2) by (simp_all add: disable_interrupts_def ps)
  let ?prs = "preempt sr gr fr (proc_of (mem s) p) # map (proc_of (mem s)) (q # qs)"
  have rp: "runnable (proc_of (mem s) p)" "runnable (proc_of (mem s) q)" using x by (simp_all add: ps)
  have e: "?prs = saved (sr, gr, fr) (proc_of (mem s) p) # map (proc_of (mem s)) (q # qs)"
    by (simp add: preempt_saved [OF fr rp(1)])
  have t: "turns ?prs = 1" using runnable_not_halted [OF rp(2)] by (simp add: turns_def)
  have xs': "xs = rotate (turns ?prs) ?prs" unfolding t by (simp add: xs turn_def ps preempt_saved [OF fr rp(1)])
  have hx: "hd xs = proc_of (mem s) q" by (simp add: xs turn_def ps)
  have st: "pr_state (proc_of (mem s) p) \<noteq> 2" "\<not> list_all halted ?prs" "user_ready (hd xs)"
    using rp runnable_not_halted [OF rp(2)] by (simp_all add: runnable_def hx)
  have tr: "rotate (turns ?prs) (p # q # qs) = rotate1 ps" unfolding t by (simp add: ps)
  have st2: "pr_state (proc_of (mem ?s) p) \<noteq> 2" using st(1) by (simp add: m(1))
  have prs: "?prs = preempt sr gr fr (proc_of (mem ?s) p) # map (proc_of (mem ?s)) (q # qs)"
    by (simp add: m(1))
  have r': "procq.ring (mem ?s) (p # q # qs)" using r(1) by (simp add: m(1) ps)
  have hd: "hd xs = hd (rotate (turns ?prs) ?prs)" unfolding xs' ..
  have hq: "hd (rotate1 ps) = q" by (simp add: ps)
  obtain m' where s': "switch_process sr gr fr ?s =
      Some (Resumes (user_context (hd xs)) (enter_state q (hd xs) (?s\<lparr>mem := m'\<rparr>)))"
    "procq.ring m' (rotate1 ps)" "map (proc_of m') (rotate1 ps) = xs"
    using switch_process_resumes [OF P [unfolded ps] r' m(2) list.distinct(2) st2 prs st(2) hd st(3)]
    unfolding tr xs' [symmetric] hq by blast
  let ?r = "enter_state q (hd xs) (?s\<lparr>mem := m'\<rparr>)"
  have "timer_handler_wrapper sr gr (frame_words fr @ rest) s = Some (user_context (hd xs), ?r)"
  proof -
    have "switching_enabled ?s \<noteq> 0" using sw by (simp add: disable_interrupts_def)
    then show ?thesis by (simp add: wrapper_handler timer_handler_def s'(1))
  qed
  moreover have "runnable (saved (sr, gr, fr) (proc_of (mem s) p))" by (rule runnable_saved [OF fr rp(1)])
  then have "\<forall>y \<in> set xs. runnable y" using x by (auto simp: xs turn_def ps)
  then have "\<forall>p \<in> set ps. runnable (proc_of m' p)" unfolding s'(3) [symmetric] by simp
  ultimately show ?thesis
    using s'(2,3) sw by (intro exI [of _ ?r]) (simp add: enter_state_def disable_interrupts_def ps)
qed

section \<open>Runs implement the abstract round robin\<close>

text \<open>The invariant of a run that began with the ring \<open>ps\<close>.\<close>

definition scheduled :: "u32 list \<Rightarrow> timer_machine \<Rightarrow> bool" where
  "scheduled ps s \<longleftrightarrow> procq.ring (mem s) ps \<and> current_process s = hd ps \<and> switching_enabled s \<noteq> 0 \<and>
     (\<forall>p \<in> set ps. runnable (proc_of (mem s) p))"

lemma scheduled_other_code:
  "scheduled ps s \<Longrightarrow> other_code (set ps) s s' \<Longrightarrow> pds_apart (set ps) \<Longrightarrow>
   scheduled ps s' \<and> map (proc_of (mem s')) ps = map (proc_of (mem s)) ps"
  using other_code_procs [of "set ps" s s'] by (simp add: scheduled_def)

lemma scheduled_tick:
  assumes "scheduled ps s" "pds_apart (set ps)" "2 \<le> length ps" "fr_cs fr AND 3 \<noteq> 0"
  shows "\<exists>s'. timer_handler_wrapper sr gr (frame_words fr @ rest) s =
      Some (user_context (hd (turn (sr, gr, fr) (map (proc_of (mem s)) ps))), s') \<and>
    scheduled (rotate1 ps) s' \<and>
    map (proc_of (mem s')) (rotate1 ps) = turn (sr, gr, fr) (map (proc_of (mem s)) ps)"
  using tick_step [OF assms(2) _ _ assms(3) _ assms(4) _ refl, of s sr gr rest] assms(1)
  by (auto simp: scheduled_def)

lemma ticks_round_robin:
  assumes "ticks P s ts s'" "P = set ps" "scheduled ps s" "pds_apart (set ps)" "2 \<le> length ps"
  shows "scheduled (rotate (length ts) ps) s' \<and>
    map (proc_of (mem s')) (rotate (length ts) ps) = round_robin (map fst ts) (map (proc_of (mem s)) ps) \<and>
    (\<forall>i < length ts. snd (ts ! i) =
       user_context (hd (round_robin (take (Suc i) (map fst ts)) (map (proc_of (mem s)) ps))))"
  using assms
proof (induction rule: ticks.induct)
  case ticks_none
  then show ?case by simp
next
  case (ticks_tick ts s1 s2 fr sr gr rest c s3)
  let ?qs = "rotate (length ts) ps" and ?prs = "map (proc_of (mem s)) ps"
  have IH: "scheduled ?qs s1" "map (proc_of (mem s1)) ?qs = round_robin (map fst ts) ?prs"
    "\<And>i. i < length ts \<Longrightarrow> snd (ts ! i) = user_context (hd (round_robin (take (Suc i) (map fst ts)) ?prs))"
    using ticks_tick.IH [OF ticks_tick.prems] by blast+
  have q: "set ?qs = set ps" "length ?qs = length ps" by simp_all
  have P: "pds_apart (set ?qs)" "2 \<le> length ?qs" using ticks_tick.prems by simp_all
  have oc: "other_code (set ?qs) s1 s2" using ticks_tick.hyps ticks_tick.prems by simp
  have s2: "scheduled ?qs s2" "map (proc_of (mem s2)) ?qs = round_robin (map fst ts) ?prs"
    using scheduled_other_code [OF IH(1) oc P(1)] IH(2) by simp_all
  obtain t where t: "timer_handler_wrapper sr gr (frame_words fr @ rest) s2 =
      Some (user_context (hd (turn (sr, gr, fr) (round_robin (map fst ts) ?prs))), t)"
    "scheduled (rotate1 ?qs) t"
    "map (proc_of (mem t)) (rotate1 ?qs) = turn (sr, gr, fr) (round_robin (map fst ts) ?prs)"
    using scheduled_tick [OF s2(1) P ticks_tick.hyps(3), of sr gr rest] unfolding s2(2) by blast
  let ?ts = "ts @ [((sr, gr, fr), c)]"
  have c: "c = user_context (hd (turn (sr, gr, fr) (round_robin (map fst ts) ?prs)))" "t = s3"
    using t(1) ticks_tick.hyps(4) by simp_all
  have rl: "rotate (length ?ts) ps = rotate1 ?qs" by simp
  have rr: "round_robin (map fst ?ts) ?prs = turn (sr, gr, fr) (round_robin (map fst ts) ?prs)" by simp
  have "snd (?ts ! i) = user_context (hd (round_robin (take (Suc i) (map fst ?ts)) ?prs))"
    if "i < length ?ts" for i
  proof (cases "i = length ts")
    case True
    then have "take (Suc i) (map fst ?ts) = map fst ?ts" by simp
    then show ?thesis unfolding rr using c(1) True by simp
  next
    case False
    then have "i < length ts" using that by simp
    then show ?thesis using IH(3) [of i] by (simp add: nth_append)
  qed
  then show ?case using t(2,3) unfolding rl rr c(2) by blast
qed

text \<open>
  (C6) Round robin, over every run of timer interrupts, with any code running between them that
  leaves the descriptors alone, from a machine with at least two processes that all run in
  ring 3: at the first turn each process starts in the context of its descriptor, and from then
  on the process interrupted by one tick goes on, as many ticks later as there are processes
  less one, with exactly the registers it was interrupted with. So no process starves, none
  runs in another's context, and the ring stays intact. The scheduler is never stuck: whatever
  the next interrupt in ring 3 is, its handler ends.
\<close>

theorem round_robin_resumes:
  assumes "pds_apart (set ps)" "scheduled ps s" "2 \<le> length ps" "ticks (set ps) s ts s'"
  shows "(\<forall>i < length ts. snd (ts ! i) =
      (if Suc i < length ps then user_context (proc_of (mem s) (ps ! Suc i))
       else resumed (fst (ts ! (Suc i - length ps))))) \<and>
    current_process s' = ps ! (length ts mod length ps) \<and>
    scheduled (rotate (length ts) ps) s' \<and>
    (\<forall>s2 sr gr fr rest. other_code (set ps) s' s2 \<and> fr_cs fr AND 3 \<noteq> 0 \<longrightarrow>
       (\<exists>c s3. timer_handler_wrapper sr gr (frame_words fr @ rest) s2 = Some (c, s3)))"
proof (intro conjI allI impI)
  let ?prs = "map (proc_of (mem s)) ps"
  have ne: "ps \<noteq> []" "?prs \<noteq> []" using assms(3) by auto
  note R = ticks_round_robin [OF assms(4) refl assms(2,1,3)]
  show sch: "scheduled (rotate (length ts) ps) s'" using R by blast
  then show "current_process s' = ps ! (length ts mod length ps)"
    using ne by (simp add: scheduled_def hd_rotate_conv_nth)
  fix i assume i: "i < length ts"
  have "snd (ts ! i) = user_context (round_robin (take (Suc i) (map fst ts)) ?prs ! 0)"
  proof -
    have "round_robin xs ?prs \<noteq> []" for xs
      using length_round_robin [OF ne(2), of xs] ne(2) by (metis length_0_conv)
    from hd_conv_nth [OF this] show ?thesis using R i by simp
  qed
  also have "\<dots> = (if Suc i < length ps then user_context (proc_of (mem s) (ps ! Suc i))
       else resumed (fst (ts ! (Suc i - length ps))))"
  proof -
    have l: "length (take (Suc i) (map fst ts)) = Suc i" "0 < length ?prs" using i ne by simp_all
    have t: "take (Suc i) (map fst ts) ! (Suc i - length ps) = fst (ts ! (Suc i - length ps))"
      using i assms(3) by (subst nth_take) simp_all
    show ?thesis using assms(3) unfolding round_robin_nth [OF l(2)] l(1) by (auto simp: t)
  qed
  finally show "snd (ts ! i) = (if Suc i < length ps then user_context (proc_of (mem s) (ps ! Suc i))
       else resumed (fst (ts ! (Suc i - length ps))))" .
next
  fix s2 sr gr and fr :: interrupt_frame and rest
  assume a: "other_code (set ps) s' s2 \<and> fr_cs fr AND 3 \<noteq> 0"
  let ?qs = "rotate (length ts) ps"
  have "scheduled ?qs s'" using ticks_round_robin [OF assms(4) refl assms(2,1,3)] by blast
  then have "scheduled ?qs s2" using scheduled_other_code [of ?qs s' s2] a assms(1) by simp
  then show "\<exists>c s3. timer_handler_wrapper sr gr (frame_words fr @ rest) s2 = Some (c, s3)"
    using scheduled_tick [of ?qs s2 fr sr gr rest] a assms(1,3) by force
qed

definition two_timer :: timer_machine where
  "two_timer = proc_machine.extend two_procs (timer_machine.fields 1)"

lemma two_timer_simps:
  "mem two_timer = two_mem" "current_process two_timer = 0xd0000100" "switching_enabled two_timer = 1"
  by (simp_all add: two_timer_def two_procs_def proc_machine.defs timer_machine.defs)

lemma two_scheduled: "scheduled two_pds two_timer"
  using two_mem_ring
  by (simp add: scheduled_def two_timer_simps two_pds_def runnable_def user_ready_def proc_of_def
      proc_words two_mem_words)

theorem round_robin_resumes_witness:
  "\<exists>ts s'. ticks (set two_pds) two_timer ts s' \<and> length ts = 2 \<and>
     fst (ts ! 0) = (some_seg, some_gen, user_frame) \<and>
     ctx_eip (snd (ts ! 0)) = 0x2000 \<and> snd (ts ! 1) = resumed (fst (ts ! 0)) \<and>
     current_process s' = 0xd0000100"
proof -
  let ?e = "(some_seg, some_gen, user_frame)"
  have u: "fr_cs user_frame AND 3 \<noteq> 0" by (simp add: user_frame_def)
  have l: "2 \<le> length two_pds" "2 \<le> length (rotate1 two_pds)" by (simp_all add: two_pds_def)
  have oc: "other_code P s s" for P s by (auto simp: other_code_def intro!: exI [of _ "mem s"])
  obtain c1 s1 where s1: "timer_handler_wrapper some_seg some_gen (frame_words user_frame @ []) two_timer = Some (c1, s1)"
    "scheduled (rotate1 two_pds) s1"
    using scheduled_tick [OF two_scheduled two_apart(1) l(1) u, of some_seg some_gen "[]"] by blast
  have a: "pds_apart (set (rotate1 two_pds))" using two_apart(1) by simp
  obtain c2 s2 where s2: "timer_handler_wrapper some_seg some_gen (frame_words user_frame @ []) s1 = Some (c2, s2)"
    using scheduled_tick [OF s1(2) a l(2) u, of some_seg some_gen "[]"] by blast
  have T: "ticks (set two_pds) two_timer (([] @ [(?e, c1)]) @ [(?e, c2)]) s2"
    by (rule ticks_tick [OF ticks_tick [OF ticks_none oc u s1(1)] oc u s2])
  let ?ts = "[(?e, c1), (?e, c2)]"
  have "\<forall>i < length ?ts. snd (?ts ! i) =
      (if Suc i < length two_pds then user_context (proc_of (mem two_timer) (two_pds ! Suc i))
       else resumed (fst (?ts ! (Suc i - length two_pds))))"
    "current_process s2 = two_pds ! (length ?ts mod length two_pds)"
    using round_robin_resumes [OF two_apart(1) two_scheduled l(1) T] by simp_all
  note R = this
  have "c1 = user_context (proc_of two_mem 0xd0000200)" "c2 = resumed ?e" "current_process s2 = 0xd0000100"
    using spec [OF R(1), of 0] spec [OF R(1), of 1] R(2) by (simp_all add: two_pds_def two_timer_simps)
  then show ?thesis using T
    by (intro exI [of _ ?ts] exI [of _ s2]) (simp add: user_context_def proc_of_def proc_words two_mem_words)
qed

end
