(* ===== verification/Address_Space.thy ===== *)
theory Address_Space
  imports Process
begin

text \<open>
  The address space of a process as \<open>create_process\<close> (process.c) builds it with
  \<open>allocate_page\<close>: a page of code at address 0, a page of stack below the kernel half, the
  kernel half, and nothing else.
\<close>

section \<open>Directories of processes\<close>

text \<open>
  The directory \<open>D\<close> has two tables; \<open>f\<close> and \<open>g\<close> are the physical addresses of the page of
  code and the page of stack. Directory and tables lie in the regions \<open>B\<close>.
\<close>

definition table_in :: "(u32 \<times> nat) set \<Rightarrow> u32 \<Rightarrow> bool" where
  "table_in B T \<longleftrightarrow> page_aligned T \<and> (\<exists>n \<ge> 4096. (T, n) \<in> B)"

definition space :: "bytes \<Rightarrow> (u32 \<times> nat) set \<Rightarrow> u32 \<Rightarrow> u32 \<Rightarrow> u32 \<Rightarrow> bool" where
  "space m B D f g \<longleftrightarrow> page_aligned f \<and> page_aligned g \<and> table_in B D \<and> maps_kernel 768 m D \<and>
     (\<exists>T U. table_in B T \<and> table_in B U \<and>
        (\<forall>i. unat i < 768 \<longrightarrow> ld32 m (D + 4 * i) =
           (if i = 0 then 7 OR (T - KERNEL_BASE) else if i = 767 then 7 OR (U - KERNEL_BASE) else 0)) \<and>
        (\<forall>i. unat i < 1024 \<longrightarrow> ld32 m (T + 4 * i) = (if i = 0 then 7 OR f else 0)) \<and>
        (\<forall>i. unat i < 1024 \<longrightarrow> ld32 m (U + 4 * i) = (if i = 1023 then 7 OR g else 0)))"

text \<open>What an address means in it: the physical address and the user and write permissions.\<close>

definition user_walk :: "u32 \<Rightarrow> u32 \<Rightarrow> u32 \<Rightarrow> (u32 \<times> bool \<times> bool) option" where
  "user_walk f g va =
     (if KERNEL_BASE \<le> va then Some (va - KERNEL_BASE, False, True)
      else if va < 0x1000 then Some (f OR (va AND 0xfff), True, True)
      else if KERNEL_BASE - 0x1000 \<le> va then Some (g OR (va AND 0xfff), True, True)
      else None)"

lemma unat_dir_index: "unat (dir_index va) = unat va div 4194304"
  unfolding dir_index_def unat_drop_bit_eq by (simp add: drop_bit_eq_div)

lemma unat_table_index: "unat (table_index va) = unat va div 4096 mod 1024"
proof -
  have "table_index va = take_bit 10 (drop_bit 12 va)"
    by (simp add: table_index_def masks(5) take_bit_eq_mask)
  then have "unat (table_index va) = take_bit 10 (drop_bit 12 (unat va))"
    by (simp only: unsigned_take_bit_eq unat_drop_bit_eq)
  then show ?thesis by (simp add: take_bit_eq_mod drop_bit_eq_div)
qed

lemma page_number: "unat (dir_index va) * 1024 + unat (table_index va) = unat va div 4096"
proof -
  have "unat va div 4194304 = unat va div 4096 div 1024"
    unfolding div_mult2_eq [symmetric] by simp
  then show ?thesis by (simp add: unat_dir_index unat_table_index)
qed

lemma radix_eq: "(a :: nat) * 1024 + b = c * 1024 + d \<Longrightarrow> d < 1024 \<Longrightarrow> b < 1024 \<Longrightarrow> a = c \<and> b = d"
proof -
  assume e: "a * 1024 + b = c * 1024 + d" and d: "d < 1024" and b: "b < 1024"
  have "(a * 1024 + b) div 1024 = a" using b by simp
  moreover have "(c * 1024 + d) div 1024 = c" using d by simp
  ultimately show ?thesis using e by simp
qed

lemma page_indices:
  assumes "unat (d :: u32) < 1024" "unat (t :: u32) < 1024"
  shows "dir_index va = d \<and> table_index va = t \<longleftrightarrow> unat va div 4096 = unat d * 1024 + unat t"
proof (rule iffI)
  assume a: "dir_index va = d \<and> table_index va = t"
  note b = conjunct1 [OF a] conjunct2 [OF a]
  show "unat va div 4096 = unat d * 1024 + unat t" by (rule page_number [of va, unfolded b, symmetric])
next
  assume a: "unat va div 4096 = unat d * 1024 + unat t"
  have "unat (dir_index va) * 1024 + unat (table_index va) = unat d * 1024 + unat t"
    by (rule trans [OF page_number a])
  note c = radix_eq [OF this assms(2) index_less(2)]
  show "dir_index va = d \<and> table_index va = t"
    by (rule conjI) (rule u32_eqI, rule conjunct1 [OF c], rule u32_eqI, rule conjunct2 [OF c])
qed

lemma first_page: "va < 0x1000 \<longleftrightarrow> dir_index va = 0 \<and> table_index va = 0"
proof -
  have "va < 0x1000 \<longleftrightarrow> unat va < 4096" by (simp add: word_less_nat_alt)
  also have "\<dots> \<longleftrightarrow> unat va div 4096 = 0" by (simp add: div_eq_0_iff)
  finally show ?thesis using page_indices [of 0 0 va] by simp
qed

lemma last_page:
  "va < KERNEL_BASE \<Longrightarrow> KERNEL_BASE - 0x1000 \<le> va \<longleftrightarrow> dir_index va = 767 \<and> table_index va = 1023"
proof -
  assume "va < KERNEL_BASE"
  then have b: "unat va < 3221225472" by (simp add: word_less_nat_alt)
  have "KERNEL_BASE - 0x1000 \<le> va \<longleftrightarrow> 3221221376 \<le> unat va" by (simp add: word_le_nat_alt)
  also have "\<dots> \<longleftrightarrow> unat va div 4096 = 786431"
    using b div_nat_eqI [of 4096 786431 "unat va"] div_times_less_eq_dividend [of "unat va" 4096] by auto
  finally show ?thesis using page_indices [of 767 1023 va] by simp
qed

lemma low_dir_index: "va < KERNEL_BASE \<Longrightarrow> unat (dir_index va) < 768"
  unfolding unat_dir_index by (simp add: word_less_nat_alt)

lemma space_walk: "space m B D f g \<Longrightarrow> walk m (D - KERNEL_BASE) va = user_walk f g va"
proof -
  assume s: "space m B D f g"
  then have al: "page_aligned f" "page_aligned g" "page_aligned D" and mk: "maps_kernel 768 m D"
    by (simp_all add: space_def table_in_def)
  obtain T U where T: "page_aligned T" "page_aligned U"
    and d: "\<And>i. unat i < 768 \<Longrightarrow> ld32 m (D + 4 * i) =
      (if i = 0 then 7 OR (T - KERNEL_BASE) else if i = 767 then 7 OR (U - KERNEL_BASE) else 0)"
    and t: "\<And>i. unat i < 1024 \<Longrightarrow> ld32 m (T + 4 * i) = (if i = 0 then 7 OR f else 0)"
    and u: "\<And>i. unat i < 1024 \<Longrightarrow> ld32 m (U + 4 * i) = (if i = 1023 then 7 OR g else 0)"
    using s unfolding space_def table_in_def by blast
  show ?thesis
  proof (cases "KERNEL_BASE \<le> va")
    case True
    then show ?thesis
      using walk_kernel [OF mk al(3) high_dir_index [OF True]] by (simp add: user_walk_def)
  next
    case False
    then have low: "va < KERNEL_BASE" by simp
    note di = d [OF low_dir_index [OF low]] and ti = t [OF index_less(2), of va] and ui = u [OF index_less(2), of va]
    note fp = first_page [of va] and lp = last_page [OF low]
    have n: "\<not> KERNEL_BASE \<le> va" using False .
    consider (c) "dir_index va = 0" | (s) "dir_index va = 767" | (o) "dir_index va \<noteq> 0" "dir_index va \<noteq> 767"
      by blast
    then show ?thesis
    proof cases
      case c
      then have e: "ld32 m (D + 4 * dir_index va) = 7 OR (T - KERNEL_BASE)" using di by simp
      have ns: "\<not> KERNEL_BASE - 0x1000 \<le> va" using lp c by simp
      show ?thesis
      proof (cases "table_index va = 0")
        case True
        then show ?thesis
          using walk_user [OF al(3) T(1) al(1) e] ti fp c n by (simp add: user_walk_def del: KERNEL_BASE_def)
      next
        case False
        then show ?thesis
          using walk_unmapped [OF al(3) T(1) e] ti fp c n ns by (simp add: user_walk_def del: KERNEL_BASE_def)
      qed
    next
      case s
      then have e: "ld32 m (D + 4 * dir_index va) = 7 OR (U - KERNEL_BASE)" using di by simp
      have ns: "\<not> va < 0x1000" using fp s by simp
      show ?thesis
      proof (cases "table_index va = 1023")
        case True
        then have "KERNEL_BASE - 0x1000 \<le> va" using lp s by simp
        then show ?thesis
          using walk_user [OF al(3) T(2) al(2) e] ui True n ns by (simp add: user_walk_def del: KERNEL_BASE_def)
      next
        case False
        then have "\<not> KERNEL_BASE - 0x1000 \<le> va" using lp by simp
        then show ?thesis
          using walk_unmapped [OF al(3) T(2) e] ui False n ns by (simp add: user_walk_def del: KERNEL_BASE_def)
      qed
    next
      case o
      then have "\<not> bit (ld32 m (D + 4 * dir_index va)) 0" using di by simp
      moreover have "\<not> va < 0x1000" "\<not> KERNEL_BASE - 0x1000 \<le> va" using fp lp o by simp_all
      ultimately show ?thesis using walk_absent [OF al(3)] n by (simp add: user_walk_def del: KERNEL_BASE_def)
    qed
  qed
qed

text \<open>Writes outside the directory and its tables keep the address space.\<close>

definition bounded :: "(u32 \<times> nat) set \<Rightarrow> bool" where
  "bounded B \<longleftrightarrow> (\<forall>(p, n) \<in> B. unat p + n \<le> 2 ^ 32)"

lemma live_bounded: "kernel_live s A \<Longrightarrow> B \<subseteq> A \<Longrightarrow> bounded B"
  unfolding bounded_def
proof clarify
  fix p n assume "kernel_live s A" "B \<subseteq> A" "(p, n) \<in> B"
  then show "unat p + n \<le> 2 ^ 32" using live_bounds [of s A p n] by auto
qed

lemma bounded_table:
  assumes "bounded B" "table_in B T"
  shows "unat T + 4096 \<le> 2 ^ 32" "bytes_at T 4096 \<subseteq> regions B"
    "unat i < 1024 \<Longrightarrow> bytes_at (T + 4 * i) 4 \<subseteq> regions B"
proof -
  obtain n where n: "4096 \<le> n" "(T, n) \<in> B" using assms(2) by (auto simp: table_in_def)
  then have "unat T + n \<le> 2 ^ 32" using assms(1) unfolding bounded_def by blast
  then show b: "unat T + 4096 \<le> 2 ^ 32" using n by simp
  have "region T n \<subseteq> regions B" using n(2) by (auto simp: regions_def)
  moreover have "region T 4096 \<subseteq> region T n" using n(1) by (auto simp: region_def inside_def)
  ultimately have r: "region T 4096 \<subseteq> regions B" by blast
  moreover have "bytes_at T 4096 = region T 4096"
    by (auto simp: bytes_at_unat [OF b] region_def inside_def)
  ultimately show "bytes_at T 4096 \<subseteq> regions B" by simp
  show "bytes_at (T + 4 * i) 4 \<subseteq> regions B" if "unat i < 1024"
    using index_region [OF b that] r by blast
qed

lemma table_in_mono: "table_in B T \<Longrightarrow> B \<subseteq> B' \<Longrightarrow> table_in B' T"
  by (auto simp: table_in_def)

lemma space_eq_off:
  assumes "space m B D f g" "eq_off X m m'" "bounded B" "regions B \<inter> X = {}" "B \<subseteq> B'"
  shows "space m' B' D f g"
proof -
  have al: "page_aligned f" "page_aligned g" "table_in B D" and mk: "maps_kernel 768 m D"
    using assms(1) by (simp_all add: space_def)
  obtain T U where T: "table_in B T" "table_in B U"
    and d: "\<forall>i. unat i < 768 \<longrightarrow> ld32 m (D + 4 * i) =
      (if i = 0 then 7 OR (T - KERNEL_BASE) else if i = 767 then 7 OR (U - KERNEL_BASE) else 0)"
    and t: "\<forall>i. unat i < 1024 \<longrightarrow> ld32 m (T + 4 * i) = (if i = 0 then 7 OR f else 0)"
    and u: "\<forall>i. unat i < 1024 \<longrightarrow> ld32 m (U + 4 * i) = (if i = 1023 then 7 OR g else 0)"
    using assms(1) unfolding space_def by blast
  have e: "ld32 m' (V + 4 * i) = ld32 m (V + 4 * i)" if "table_in B V" "unat i < 1024" for V i
    by (rule ld32_eq_off [OF assms(2)]) (use bounded_table(3) [OF assms(3) that] assms(4) in blast)
  have "maps_kernel 768 m' D"
    by (rule maps_kernel_eq_off [OF mk assms(2) _ bounded_table(1) [OF assms(3) al(3)]])
      (use bounded_table(2) [OF assms(3) al(3)] assms(4) in blast)
  moreover have "\<forall>i. unat i < 768 \<longrightarrow> ld32 m' (D + 4 * i) =
      (if i = 0 then 7 OR (T - KERNEL_BASE) else if i = 767 then 7 OR (U - KERNEL_BASE) else 0)"
    using d e [OF al(3)] by simp
  moreover have "\<forall>i. unat i < 1024 \<longrightarrow> ld32 m' (T + 4 * i) = (if i = 0 then 7 OR f else 0)"
    "\<forall>i. unat i < 1024 \<longrightarrow> ld32 m' (U + 4 * i) = (if i = 1023 then 7 OR g else 0)"
    using t u e [OF T(1)] e [OF T(2)] by simp_all
  moreover note al(1,2) table_in_mono [OF al(3) assms(5)] table_in_mono [OF T(1) assms(5)]
    table_in_mono [OF T(2) assms(5)]
  ultimately show ?thesis unfolding space_def by blast
qed

section \<open>The code of a new process\<close>

lemma page_or: "page_aligned f \<Longrightarrow> va < 0x1000 \<Longrightarrow> f OR (va AND 0xfff) = f + va"
proof -
  assume f: "page_aligned f" and va: "va < 0x1000"
  have m: "va AND 0xfff = take_bit 12 va" by (simp add: take_bit_eq_mask mask_eq_exp_minus_1)
  have "take_bit 12 va = va"
  proof (rule u32_eqI)
    have "unat va < 4096" using va by (simp add: word_less_nat_alt)
    then show "unat (take_bit 12 va) = unat va" unfolding unsigned_take_bit_eq by (simp add: take_bit_eq_mod)
  qed
  moreover have "f + take_bit 12 va = f OR take_bit 12 va"
    by (rule disjunctive_add_eq_or) (rule bit_word_eqI, auto simp: bit_simps dest: page_aligned_bit [OF f])
  ultimately show ?thesis unfolding m by simp
qed

lemma wr8_user:
  assumes "space (mem s) B D (q + PAGE_OFFSET) g" "cr3 s = D - KERNEL_BASE" "va < 0x1000"
  shows "wr8 s va v = Some (s\<lparr>mem := (mem s)(q + va := v)\<rparr>)"
proof -
  have low: "\<not> KERNEL_BASE \<le> va" using assms(3) by (simp add: word_le_nat_alt word_less_nat_alt)
  have f: "page_aligned (q + PAGE_OFFSET)" using assms(1) by (simp add: space_def)
  have "translate (mem s) (cr3 s) va = Some (q + PAGE_OFFSET + va)"
    unfolding translate_def assms(2) space_walk [OF assms(1)] user_walk_def
    using low assms(3) by (simp add: page_or [OF f assms(3)] del: KERNEL_BASE_def)
  moreover have e: "q + PAGE_OFFSET + va + KERNEL_BASE = q + va"
  proof -
    have "PAGE_OFFSET + KERNEL_BASE = 0" by (simp add: PAGE_OFFSET_def)
    then have "(q + va) + (PAGE_OFFSET + KERNEL_BASE) = q + va" by (simp only: add_0_right)
    then show ?thesis by (simp only: ac_simps)
  qed
  ultimately show ?thesis using low by (simp add: wr8_def e del: KERNEL_BASE_def)
qed

definition self_jump :: "u8 list" where
  "self_jump = [0xe9, 0xfb, 0xff, 0xff, 0xff]"

definition page_set :: "u32 \<Rightarrow> u32 set" where
  "page_set q = bytes_at q 4096"

lemma page_set_low: "q < KERNEL_BASE \<Longrightarrow> page_aligned q \<Longrightarrow> page_set q \<subseteq> {x. x < KERNEL_BASE}"
proof
  fix x assume q: "q < KERNEL_BASE" "page_aligned q" and x: "x \<in> page_set q"
  obtain k where k: "unat q = 4096 * k" using q(2) by (auto simp: page_aligned_dvd)
  have "k < 786432" using q(1) k by (simp add: word_less_nat_alt)
  moreover have "unat x < unat q + 4096"
    using x bytes_at_unat [of q 4096 x] k \<open>k < 786432\<close> by (simp add: page_set_def)
  ultimately show "x \<in> {x. x < KERNEL_BASE}" using k by (simp add: word_less_nat_alt)
qed

lemma write_code_ok:
  assumes "space (mem s) B D (q + PAGE_OFFSET) g" "cr3 s = D - KERNEL_BASE" "bounded B"
    "regions B \<inter> page_set q = {}" "unat q + 4096 \<le> 2 ^ 32"
  shows "\<exists>m. write_code s = Some (s\<lparr>mem := m\<rparr>) \<and> eq_off (page_set q) (mem s) m \<and>
    (\<forall>i < 5. m (q + of_nat i) = self_jump ! i)"
proof -
  have step: "\<exists>m'. wr8 (s\<lparr>mem := m\<rparr>) va v = Some (s\<lparr>mem := m'\<rparr>) \<and> m' = m(q + va := v) \<and>
      space m' B D (q + PAGE_OFFSET) g"
    if "space m B D (q + PAGE_OFFSET) g" "va < 0x1000" for m va v
  proof -
    have "q + va \<in> page_set q"
      unfolding page_set_def bytes_at_unat [OF assms(5)]
      using that(2) assms(5) unat_add_of_nat [of q "unat va"] by (simp add: word_less_nat_alt)
    then have "eq_off (page_set q) m (m(q + va := v))" by (auto simp: eq_off_def)
    from space_eq_off [OF that(1) this assms(3,4) subset_refl]
    show ?thesis using wr8_user [of "s\<lparr>mem := m\<rparr>", of B D q g va v] that assms(2) by simp
  qed
  let ?m1 = "(mem s)(q := 0xe9)"
  let ?m2 = "?m1(q + 1 := 0xfb)"
  let ?m3 = "?m2(q + 2 := 0xff)"
  let ?m4 = "?m3(q + 3 := 0xff)"
  let ?m5 = "?m4(q + 4 := 0xff)"
  have s: "s = s\<lparr>mem := mem s\<rparr>" by simp
  have w1: "wr8 s 0 0xe9 = Some (s\<lparr>mem := ?m1\<rparr>)" "space ?m1 B D (q + PAGE_OFFSET) g"
    using step [OF assms(1), of 0 "0xe9"] by auto
  have w2: "wr8 (s\<lparr>mem := ?m1\<rparr>) 1 0xfb = Some (s\<lparr>mem := ?m2\<rparr>)" "space ?m2 B D (q + PAGE_OFFSET) g"
    using step [OF w1(2), of 1 "0xfb"] by auto
  have w3: "wr8 (s\<lparr>mem := ?m2\<rparr>) 2 0xff = Some (s\<lparr>mem := ?m3\<rparr>)" "space ?m3 B D (q + PAGE_OFFSET) g"
    using step [OF w2(2), of 2 "0xff"] by auto
  have w4: "wr8 (s\<lparr>mem := ?m3\<rparr>) 3 0xff = Some (s\<lparr>mem := ?m4\<rparr>)" "space ?m4 B D (q + PAGE_OFFSET) g"
    using step [OF w3(2), of 3 "0xff"] by auto
  have w5: "wr8 (s\<lparr>mem := ?m4\<rparr>) 4 0xff = Some (s\<lparr>mem := ?m5\<rparr>)" "space ?m5 B D (q + PAGE_OFFSET) g"
    using step [OF w4(2), of 4 "0xff"] by auto
  have "write_code s = Some (s\<lparr>mem := ?m5\<rparr>)"
    unfolding write_code_def w1(1) Option.bind.bind_lunit w2(1) w3(1) w4(1) w5(1) ..
  moreover have "?m5 (q + of_nat i) = self_jump ! i" if "i < 5" for i
  proof -
    have "i = 0 \<or> i = 1 \<or> i = 2 \<or> i = 3 \<or> i = 4" using that by linarith
    then show ?thesis by (elim disjE) (simp_all add: self_jump_def)
  qed
  moreover have "q + of_nat i \<in> page_set q" if "i < 5" for i
    unfolding page_set_def bytes_at_unat [OF assms(5)] using that assms(5) unat_add_of_nat [of q i] by simp
  from this [of 0] this [of 1] this [of 2] this [of 3] this [of 4]
  have "eq_off (page_set q) (mem s) ?m5" by (auto simp: eq_off_def)
  ultimately show ?thesis by blast
qed

section \<open>The two pages of a process\<close>

lemma other_entry:
  assumes "kernel_live s A" "(D, n) \<in> A" "4096 \<le> n" "unat i < 1024" "unat k < 1024" "i \<noteq> k"
    "eq_off (bytes_at (D + 4 * k) 4 \<union> - (regions A \<union> - kernel_area)) m m'"
  shows "ld32 m' (D + 4 * i) = ld32 m (D + 4 * i)"
proof -
  have b: "unat D + 4096 \<le> 2 ^ 32" using live_bounds [OF assms(1,2)] assms(3) by simp
  have "unat i \<noteq> unat k" using assms(6) by (simp add: word_unat_eq_iff)
  then have "bytes_at (D + 4 * i) 4 \<inter> bytes_at (D + 4 * k) 4 = {}"
    by (auto simp: index_bytes [OF b assms(4)] index_bytes [OF b assms(5)])
  with heap_entry(1) [OF assms(1-4)] show ?thesis by (intro ld32_eq_off [OF assms(7)]) blast
qed

lemma live_entry:
  assumes "kernel_live s A" "(U, n) \<in> A" "4096 \<le> n" "unat i < 1024" "X \<inter> region U n = {}"
    "eq_off (X \<union> - (regions A \<union> - kernel_area)) m m'"
  shows "ld32 m' (U + 4 * i) = ld32 m (U + 4 * i)"
proof -
  have b: "unat U + 4096 \<le> 2 ^ 32" using live_bounds [OF assms(1,2)] assms(3) by simp
  have "region U 4096 \<subseteq> region U n" using assms(3) by (auto simp: region_def inside_def)
  with index_region [OF b assms(4)] assms(5) heap_entry(1) [OF assms(1-4)]
  show ?thesis by (intro ld32_eq_off [OF assms(6)]) blast
qed

lemma page_indices_0 [simp]: "dir_index 0 = 0" "table_index 0 = 0"
  by (simp_all add: dir_index_def table_index_def)

lemma page_indices_stack [simp]: "dir_index 0xbffff000 = 767" "table_index 0xbffff000 = 1023"
  by (simp_all add: dir_index_def table_index_def)

lemma two_pages:
  assumes ks: "kernel_space L s" and z: "zheap s A (Suc (Suc j))" "13 \<le> j"
    and D: "(D, n) \<in> A" "4096 \<le> n" "page_aligned D"
    and pl: "page_list (mem s) (page_freelist s) (q1 # q2 # qs)"
    and mk: "maps_kernel 768 (mem s) D" and zero: "\<forall>k < 768. ld32 (mem s) (D + 4 * of_nat k) = 0"
  shows "\<exists>p1 m1 p m T U nT nU. allocate_page D 0xbffff000 s = Some (s\<lparr>page_freelist := p1, mem := m1\<rparr>) \<and>
    allocate_page D 0 (s\<lparr>page_freelist := p1, mem := m1\<rparr>) = Some (s\<lparr>page_freelist := p, mem := m\<rparr>) \<and>
    kernel_space L (s\<lparr>page_freelist := p, mem := m\<rparr>) \<and>
    zheap (s\<lparr>page_freelist := p, mem := m\<rparr>) (insert (T, nT) (insert (U, nU) A)) j \<and>
    (T, nT) \<notin> A \<and> (U, nU) \<notin> A \<and> page_list m p qs \<and>
    space m {(D, n), (T, nT), (U, nU)} D (q2 + PAGE_OFFSET) (q1 + PAGE_OFFSET) \<and>
    eq_off (region D n \<union> - (regions A \<union> - kernel_area)) (mem s) m1 \<and>
    eq_off (region D n \<union> - (regions A \<union> - kernel_area)) (mem s) m"
proof -
  have z0: "ld32 (mem s) (D + 4 * i) = 0" if "unat i < 768" for i
    using spec [OF zero, of "unat i"] that by simp
  have al: "page_aligned (q1 + PAGE_OFFSET)" "page_aligned (q2 + PAGE_OFFSET)"
    using pl by (auto intro: page_offset_aligned)
  obtain U nU p1 m1 where 1: "allocate_page D 0xbffff000 s = Some (s\<lparr>page_freelist := p1, mem := m1\<rparr>)"
    "zheap (s\<lparr>page_freelist := p1, mem := m1\<rparr>) (insert (U, nU) A) (Suc j)"
    "kernel_space L (s\<lparr>page_freelist := p1, mem := m1\<rparr>)"
    "4096 \<le> nU" "(U, nU) \<notin> A" "page_aligned U" "page_list m1 p1 (q2 # qs)"
    "ld32 m1 (D + 4 * 767) = 7 OR (U - KERNEL_BASE)" "ld32 m1 (U + 4 * 1023) = 7 OR (q1 + PAGE_OFFSET)"
    "\<And>i. unat i < 1024 \<Longrightarrow> i \<noteq> 1023 \<Longrightarrow> ld32 m1 (U + 4 * i) = 0"
    "eq_off (bytes_at (D + 4 * 767) 4 \<union> - (regions A \<union> - kernel_area)) (mem s) m1"
    using allocate_page_zheap [OF ks z(1) _ D(1,2) pl, of "0xbffff000"] z(2) z0 [of 767]
    unfolding Let_def page_indices_stack by auto
  let ?s1 = "s\<lparr>page_freelist := p1, mem := m1\<rparr>" and ?A1 = "insert (U, nU) A"
  have DA: "(D, n) \<in> ?A1" and UA: "(U, nU) \<in> ?A1" using D(1) by simp_all
  note l0 = zheap_live [OF z(1)] and l1 = zheap_live [OF 1(2)]
  have d1: "ld32 m1 (D + 4 * i) = ld32 (mem s) (D + 4 * i)" if "unat i < 1024" "i \<noteq> 767" for i
    by (rule other_entry [OF l0 D(1,2) that(1) _ that(2) 1(11)]) simp
  have pl1: "page_list (mem ?s1) (page_freelist ?s1) (q2 # qs)" using 1(7) by simp
  have ab: "\<not> bit (ld32 (mem ?s1) (D + 4 * dir_index 0)) 0" using d1 [of 0] z0 [of 0] by simp
  obtain T nT p m where 2: "allocate_page D 0 ?s1 = Some (s\<lparr>page_freelist := p, mem := m\<rparr>)"
    "zheap (s\<lparr>page_freelist := p, mem := m\<rparr>) (insert (T, nT) ?A1) j"
    "kernel_space L (s\<lparr>page_freelist := p, mem := m\<rparr>)"
    "4096 \<le> nT" "(T, nT) \<notin> ?A1" "page_aligned T" "page_list m p qs"
    "ld32 m (D + 4 * 0) = 7 OR (T - KERNEL_BASE)" "ld32 m (T + 4 * 0) = 7 OR (q2 + PAGE_OFFSET)"
    "\<And>i. unat i < 1024 \<Longrightarrow> i \<noteq> 0 \<Longrightarrow> ld32 m (T + 4 * i) = 0"
    "eq_off (bytes_at (D + 4 * 0) 4 \<union> - (regions ?A1 \<union> - kernel_area)) m1 m"
    using allocate_page_zheap [OF 1(3,2) z(2) DA D(2) pl1 _ ab] unfolding Let_def page_indices_0 by auto
  let ?B = "{(D, n), (T, nT), (U, nU)}"
  have d2: "ld32 m (D + 4 * i) = ld32 m1 (D + 4 * i)" if "unat i < 1024" "i \<noteq> 0" for i
    by (rule other_entry [OF l1 DA D(2) that(1) _ that(2) 2(11)]) simp
  have ne: "(D, n) \<noteq> (U, nU)" using 1(5) D(1) by auto
  have bD: "unat D + 4096 \<le> 2 ^ 32" using live_bounds [OF l0 D(1)] D(2) by simp
  have sub: "bytes_at (D + 4 * i) 4 \<subseteq> region D n" if "unat i < 1024" for i
    using index_region [OF bD that] D(2) by (auto simp: region_def inside_def)
  have dis: "bytes_at (D + 4 * 0) 4 \<inter> region U nU = {}"
    using sub [of 0] kernel_live_disjoint [OF l1 DA UA ne] by auto
  have u2: "ld32 m (U + 4 * i) = ld32 m1 (U + 4 * i)" if "unat i < 1024" for i
    by (rule live_entry [OF l1 UA 1(4) that dis 2(11)])
  have "maps_kernel 768 m D"
    unfolding maps_kernel_def
  proof (intro allI impI)
    fix k :: nat assume k: "768 \<le> k \<and> k < 1024"
    then have u: "unat (of_nat k :: u32) = k" by (intro unat_of_nat_u32) simp
    then have "(of_nat k :: u32) \<noteq> 0" "(of_nat k :: u32) \<noteq> 767" using k by auto
    with u k mk show "ld32 m (D + 4 * of_nat k) = kernel_pde k" by (simp add: d1 d2 maps_kernel_def)
  qed
  moreover have "table_in ?B D" "table_in ?B T" "table_in ?B U"
    using D(2,3) 1(4,6) 2(4,6) by (auto simp: table_in_def)
  moreover have "\<forall>i. unat i < 768 \<longrightarrow> ld32 m (D + 4 * i) =
      (if i = 0 then 7 OR (T - KERNEL_BASE) else if i = 767 then 7 OR (U - KERNEL_BASE) else 0)"
    using 1(8) 2(8) z0 by (auto simp: d1 d2)
  moreover have "\<forall>i. unat i < 1024 \<longrightarrow> ld32 m (T + 4 * i) = (if i = 0 then 7 OR (q2 + PAGE_OFFSET) else 0)"
    using 2(9,10) by auto
  moreover have "\<forall>i. unat i < 1024 \<longrightarrow> ld32 m (U + 4 * i) = (if i = 1023 then 7 OR (q1 + PAGE_OFFSET) else 0)"
    using 1(9,10) by (auto simp: u2)
  ultimately have sp: "space m ?B D (q2 + PAGE_OFFSET) (q1 + PAGE_OFFSET)"
    using al unfolding space_def by blast
  have e1: "eq_off (region D n \<union> - (regions A \<union> - kernel_area)) (mem s) m1"
    by (rule eq_off_mono [OF 1(11)]) (use sub [of 767] in auto)
  have "regions A \<subseteq> regions ?A1" by (auto simp: regions_def)
  then have e2: "eq_off (region D n \<union> - (regions A \<union> - kernel_area)) (mem s) m"
    by (intro eq_off_mono [OF eq_off_trans [OF e1 2(11)]]) (use sub [of 0] in auto)
  have "(T, nT) \<notin> A" using 2(5) by simp
  then show ?thesis
    by (intro exI [of _ p1] exI [of _ m1] exI [of _ p] exI [of _ m] exI [of _ T] exI [of _ U]
        exI [of _ nT] exI [of _ nU] conjI 1(1) 2(1) 2(3) 2(2) 1(5) 2(7) sp e1 e2)
qed

end
