(* ===== verification/Process_Creation.thy ===== *)
theory Process_Creation
  imports Address_Space Round_Robin
begin

text \<open>
  The creation of a process, \<open>create_process\<close> of src/kernel/proc/process.c: the address space
  it builds, the invariant of the kernel it keeps, and the isolation of the processes from each
  other and from the kernel.
\<close>

section \<open>The parts of \<open>create_process\<close>\<close>

text \<open>The words of a new descriptor: frame, general registers, segments.\<close>

definition new_words :: "u32 \<Rightarrow> u32 list" where
  "new_words eip = [eip, 0x1b, 0x200, 0xbffffffc, 0x23, 0, 0, 0xbffffffc, 0, 0, 0, 0, 0, 0x23, 0x23, 0x23, 0x23]"

lemma pd_wr_at:
  "pd_ok p \<Longrightarrow> a = p + 4 * of_nat i \<Longrightarrow> i < 21 \<Longrightarrow> wr32 wr8 s a v = Some (s\<lparr>mem := pd_put p i v (mem s)\<rparr>)"
  by (simp add: pd_wr_word)

lemma pd_rd_at: "pd_ok p \<Longrightarrow> a = p + 4 * of_nat i \<Longrightarrow> i < 21 \<Longrightarrow> rd32 rd8 s a = Some (pd_get (mem s) p i)"
  by (simp add: pd_rd_word)

lemma set_fields_ok:
  assumes ok: "pd_ok p"
  shows "\<exists>m. set_fields p eip s = Some (s\<lparr>mem := m\<rparr>) \<and> eq_off (pd_bytes p) (mem s) m \<and>
    map (pd_get m p) [0..<17] = new_words eip"
proof -
  have w: "wr32 wr8 s' (p + PD_frame) v = Some (s'\<lparr>mem := pd_put p 0 v (mem s')\<rparr>)"
    "wr32 wr8 s' (p + PD_frame + 4) v = Some (s'\<lparr>mem := pd_put p 1 v (mem s')\<rparr>)"
    "wr32 wr8 s' (p + PD_frame + 8) v = Some (s'\<lparr>mem := pd_put p 2 v (mem s')\<rparr>)"
    "wr32 wr8 s' (p + PD_frame + 12) v = Some (s'\<lparr>mem := pd_put p 3 v (mem s')\<rparr>)"
    "wr32 wr8 s' (p + PD_frame + 16) v = Some (s'\<lparr>mem := pd_put p 4 v (mem s')\<rparr>)"
    "wr32 wr8 s' (p + PD_gen_regs) v = Some (s'\<lparr>mem := pd_put p 5 v (mem s')\<rparr>)"
    "wr32 wr8 s' (p + PD_gen_regs + 4) v = Some (s'\<lparr>mem := pd_put p 6 v (mem s')\<rparr>)"
    "wr32 wr8 s' (p + PD_gen_regs + 8) v = Some (s'\<lparr>mem := pd_put p 7 v (mem s')\<rparr>)"
    "wr32 wr8 s' (p + PD_gen_regs + 12) v = Some (s'\<lparr>mem := pd_put p 8 v (mem s')\<rparr>)"
    "wr32 wr8 s' (p + PD_gen_regs + 16) v = Some (s'\<lparr>mem := pd_put p 9 v (mem s')\<rparr>)"
    "wr32 wr8 s' (p + PD_gen_regs + 20) v = Some (s'\<lparr>mem := pd_put p 10 v (mem s')\<rparr>)"
    "wr32 wr8 s' (p + PD_gen_regs + 24) v = Some (s'\<lparr>mem := pd_put p 11 v (mem s')\<rparr>)"
    "wr32 wr8 s' (p + PD_gen_regs + 28) v = Some (s'\<lparr>mem := pd_put p 12 v (mem s')\<rparr>)"
    "wr32 wr8 s' (p + PD_seg_regs) v = Some (s'\<lparr>mem := pd_put p 13 v (mem s')\<rparr>)"
    "wr32 wr8 s' (p + PD_seg_regs + 4) v = Some (s'\<lparr>mem := pd_put p 14 v (mem s')\<rparr>)"
    "wr32 wr8 s' (p + PD_seg_regs + 8) v = Some (s'\<lparr>mem := pd_put p 15 v (mem s')\<rparr>)"
    "wr32 wr8 s' (p + PD_seg_regs + 12) v = Some (s'\<lparr>mem := pd_put p 16 v (mem s')\<rparr>)"
    "rd32 rd8 s' (p + PD_frame + 12) = Some (pd_get (mem s') p 3)"
    for s' :: "'a machine_scheme" and v
    by (rule pd_wr_at [OF ok] pd_rd_at [OF ok]; simp add: pd_offsets)+
  have P: "pds_apart {p}" using ok by (simp add: pds_apart_def)
  note g = procq.get_put [OF P singletonI singletonI]
  define ws where "ws = [(0 :: nat, eip), (1, CODE_SEGMENT), (2, push_bit 9 1), (3, KERNEL_BASE - 4),
    (4, DATA_SEGMENT), (13, DATA_SEGMENT), (14, DATA_SEGMENT), (15, DATA_SEGMENT), (16, DATA_SEGMENT),
    (5, 0), (6, 0), (7, KERNEL_BASE - 4), (8, 0), (9, 0), (10, 0), (11, 0), (12, 0 :: u32)]"
  let ?m = "fold (\<lambda>(i, v). pd_put p i v) ws (mem s)"
  have "set_fields p eip s = Some (s\<lparr>mem := ?m\<rparr>)"
    unfolding set_fields_def by (simp add: w g ws_def)
  moreover have off: "eq_off (pd_bytes p) m (fold (\<lambda>(i, v). pd_put p i v) vs m)"
    if "\<forall>(i, v) \<in> set vs. i < 21" for vs m
    using that
  proof (induction vs arbitrary: m)
    case (Cons iv vs)
    obtain i v where iv: "iv = (i, v)" by (cases iv)
    then have i: "i < 21" using Cons.prems by simp
    have "eq_off (pd_bytes p) (pd_put p i v m) (fold (\<lambda>(i, v). pd_put p i v) vs (pd_put p i v m))"
      using Cons.prems by (intro Cons.IH) simp
    from eq_off_trans [OF pd_put_off [OF ok i] this] show ?case by (simp add: iv)
  qed simp
  have "eq_off (pd_bytes p) (mem s) ?m" by (rule off) (simp add: ws_def)
  moreover have "map (pd_get ?m p) [0..<17] = new_words eip"
    by (simp add: ws_def upt_rec g new_words_def CODE_SEGMENT_def DATA_SEGMENT_def)
  ultimately show ?thesis by blast
qed

lemma copy_kernel_half_ok:
  assumes ks: "kernel_space L s" and D: "bytes_at D 4096 \<subseteq> kernel_area" "unat D + 4096 \<le> 2 ^ 32"
    and p: "pd_ok p" "pd_get (mem s) p 18 = D" "pd_bytes p \<inter> bytes_at D 4096 = {}"
  shows "\<exists>m. copy_kernel_half L p s = Some (s\<lparr>mem := m\<rparr>) \<and> eq_off (bytes_at D 4096) (mem s) m \<and>
    maps_kernel 768 m D \<and> (\<forall>k < 768. ld32 m (D + 4 * of_nat k) = ld32 (mem s) (D + 4 * of_nat k))"
proof -
  have L: "layout_ok L" using ks by (simp add: kernel_space_def)
  define P where "P i s' \<longleftrightarrow> (\<exists>m. s' = s\<lparr>mem := m\<rparr> \<and> eq_off (bytes_at D 4096) (mem s) m \<and>
    (\<forall>k < 1024. ld32 m (D + 4 * of_nat k) =
       (if 768 \<le> k \<and> k < 768 + i then kernel_pde k else ld32 (mem s) (D + 4 * of_nat k))))" for i s'
  have "\<exists>s'. copy_kernel_half L p s = Some s' \<and> P 256 s'"
    unfolding copy_kernel_half_def
  proof (rule for_loop_rule)
    show "P 0 s" by (auto simp: P_def intro!: exI [of _ "mem s"])
    fix j s1 assume j: "j < 256" and "P j s1"
    then obtain m where m: "s1 = s\<lparr>mem := m\<rparr>" "eq_off (bytes_at D 4096) (mem s) m"
      "\<forall>k < 1024. ld32 m (D + 4 * of_nat k) =
        (if 768 \<le> k \<and> k < 768 + j then kernel_pde k else ld32 (mem s) (D + 4 * of_nat k))"
      by (auto simp: P_def)
    have jo: "j + 768 < 1024" using j by simp
    let ?a = "D + 4 * of_nat (j + 768)"
    let ?m = "st32 m ?a (kernel_pde (j + 768))"
    have sub: "bytes_at ?a 4 \<subseteq> bytes_at D 4096"
      using jo by (auto simp: entry_bytes [OF D(2) jo] bytes_at_unat [OF D(2)] simp del: of_nat_add)
    have k1: "kernel_space L s1"
      unfolding m(1) by (rule kernel_space_write [OF ks m(2) area_not_dir [OF L D(1)]])
    have "pd_get m p 18 = D" using pd_get_eq_off [OF m(2) p(1) _ p(3), of 18] p(2) by simp
    then have r1: "rd32 rd8 s1 (p + PD_page_directory) = Some D"
      using pd_rd_at [OF p(1), of "p + PD_page_directory" 18 s1] by (simp add: pd_offsets m(1))
    have "maps_kernel 0 (mem s1) (kernel_memory_addr L)" using k1 by (simp add: kernel_space_def)
    then have r2: "rd32 rd8 s1 (kernel_memory_addr L + 4 * of_nat (j + 768)) = Some (kernel_pde (j + 768))"
      using jo unfolding rd32_kernel [OF k1] maps_kernel_def by blast
    have w: "wr32 wr8 s1 ?a v = Some (s1\<lparr>mem := st32 m ?a v\<rparr>)" for v
      using wr32_kernel [OF k1 area_not_dir [OF L], of ?a v] sub D(1) by (simp add: m(1) subset_trans)
    have "eq_off (bytes_at D 4096) (mem s) ?m"
      by (rule eq_off_mono [OF eq_off_trans [OF m(2) eq_off_st32]]) (use sub in blast)
    moreover have "ld32 ?m (D + 4 * of_nat k) =
       (if 768 \<le> k \<and> k < 768 + Suc j then kernel_pde k else ld32 (mem s) (D + 4 * of_nat k))"
      if k: "k < 1024" for k
    proof (cases "k = j + 768")
      case True
      then show ?thesis by (simp del: of_nat_add)
    next
      case False
      then show ?thesis
        using ld32_st32_disj [OF entries_disj [OF D(2) jo k]] m(3) k by (auto simp del: of_nat_add)
    qed
    ultimately have "P (Suc j) (s\<lparr>mem := ?m\<rparr>)" unfolding P_def by blast
    then show "\<exists>s'. (do {
       dir \<leftarrow> rd32 rd8 s1 (p + PD_page_directory);
       e \<leftarrow> rd32 rd8 s1 (kernel_memory_addr L + 4 * of_nat (j + 768));
       wr32 wr8 s1 (dir + 4 * of_nat (j + 768)) e
     }) = Some s' \<and> P (Suc j) s'"
      unfolding r1 r2 Option.bind.bind_lunit w by (simp add: m(1))
  qed simp
  then obtain m where m: "copy_kernel_half L p s = Some (s\<lparr>mem := m\<rparr>)" "eq_off (bytes_at D 4096) (mem s) m"
    "\<forall>k < 1024. ld32 m (D + 4 * of_nat k) =
       (if 768 \<le> k \<and> k < 768 + 256 then kernel_pde k else ld32 (mem s) (D + 4 * of_nat k))"
    by (auto simp: P_def)
  then show ?thesis by (intro exI [of _ m]) (auto simp: maps_kernel_def)
qed

section \<open>Descriptor, stack and directory\<close>

lemma zheap_off:
  "zheap s A j \<Longrightarrow> eq_off X (mem s) m \<Longrightarrow> X \<subseteq> regions A \<union> - kernel_area \<Longrightarrow> zheap (s\<lparr>mem := m\<rparr>) A j"
  by (rule zheap_write) (auto simp: eq_off_def)

lemma live_pd:
  assumes "kernel_live s A" "(p, n) \<in> A" "85 \<le> n"
  shows "pd_ok p" "pd_bytes p \<subseteq> region p n" "pd_bytes p \<subseteq> regions A"
proof -
  have b: "0xd0000000 \<le> unat p \<and> unat p + n \<le> 0xf0000000" by (rule live_bounds [OF assms(1,2)])
  then show "pd_ok p" using assms(3) by (simp add: pd_ok_def)
  have b85: "unat p + 85 \<le> 2 ^ 32" using b assms(3) by simp
  show r: "pd_bytes p \<subseteq> region p n"
    using assms(3) by (auto simp: pd_bytes_def bytes_at_unat [OF b85] region_def inside_def)
  show "pd_bytes p \<subseteq> regions A" using r assms(2) by (auto simp: regions_def)
qed

lemma live_pds_apart:
  assumes "kernel_live s A" "\<forall>p \<in> P. \<exists>n \<ge> 85. (p, n) \<in> A"
  shows "pds_apart P"
  unfolding pds_apart_def
proof (intro ballI conjI impI)
  fix p assume "p \<in> P"
  then obtain n where n: "85 \<le> n" "(p, n) \<in> A" using assms(2) by blast
  show "pd_ok p" by (rule live_pd(1) [OF assms(1) n(2,1)])
  fix q assume "q \<in> P" and pq: "p \<noteq> q"
  then obtain k where k: "85 \<le> k" "(q, k) \<in> A" using assms(2) by blast
  have d: "region p n \<inter> region q k = {}" using kernel_live_disjoint [OF assms(1) n(2) k(2)] pq by blast
  show "unat p + 85 \<le> unat q \<or> unat q + 85 \<le> unat p"
  proof (rule ccontr)
    assume "\<not> (unat p + 85 \<le> unat q \<or> unat q + 85 \<le> unat p)"
    then have "p \<in> region p n \<inter> region q k \<or> q \<in> region p n \<inter> region q k"
      using n(1) k(1) by (auto simp: region_def inside_def)
    with d show False by blast
  qed
qed

lemma pd_get_live:
  assumes "kernel_live s A" "(p, n) \<in> A" "85 \<le> n" "i < 21"
    "eq_off (X \<union> - (regions A \<union> - kernel_area)) m m'" "X \<inter> region p n = {}"
  shows "pd_get m' p i = pd_get m p i"
  by (rule pd_get_eq_off [OF assms(5) live_pd(1) [OF assms(1-3)] assms(4)])
    (use live_pd(2,3) [OF assms(1-3)] assms(6) in blast)

lemma block_bits_pd: "block_bits 86 = 7"
  by (simp add: block_bits_def compute_floorlog)

text \<open>The descriptor's block.\<close>

lemma zheap_pd:
  assumes "zheap s A (Suc j)" "7 \<le> j"
  shows "\<exists>p n m. kernel_allocate rd8 wr8 s PD_size = Some (p, s\<lparr>mem := m\<rparr>) \<and> 85 \<le> n \<and>
    zheap (s\<lparr>mem := m\<rparr>) (insert (p, n) A) j \<and> (p, n) \<notin> A \<and>
    eq_off (- (regions A \<union> - kernel_area)) (mem s) m"
proof -
  have sz: "unat PD_size + 1 = 86" "unat PD_size = 85" by (simp_all add: PD_size_def)
  have "block_bits (unat PD_size + 1) \<le> j" "unat PD_size + 1 < 2 ^ 28"
    using assms(2) unfolding sz(1) block_bits_pd by simp_all
  from zheap_alloc [OF assms(1) this] show ?thesis
    unfolding sz(2) eq_off_def by blast
qed

lemma fresh_off:
  assumes "kernel_live s (insert (p, n) A)" "(p, n) \<notin> A" "X \<subseteq> region p n"
  shows "X \<subseteq> - (regions A \<union> - kernel_area)"
proof -
  have "region p n \<subseteq> kernel_area" by (rule region_area(2) [OF assms(1) insertI1 order_refl])
  with live_apart [OF assms(1,2)] assms(3) show ?thesis by blast
qed

lemma eq_off_grow: "eq_off X m m' \<Longrightarrow> eq_off Y m' m'' \<Longrightarrow> Y \<subseteq> X \<Longrightarrow> eq_off X m m''"
  by (auto simp: eq_off_def)

text \<open>The descriptor and the stack.\<close>

lemma descriptor_and_stack:
  assumes z: "zheap s A (Suc (Suc j))" "13 \<le> j"
  shows "\<exists>p K np nK m0 m1 m2 m.
    kernel_allocate rd8 wr8 s PD_size = Some (p, s\<lparr>mem := m0\<rparr>) \<and>
    set_fields p eip (s\<lparr>mem := m0\<rparr>) = Some (s\<lparr>mem := m1\<rparr>) \<and>
    kernel_allocate rd8 wr8 (s\<lparr>mem := m1\<rparr>) 4096 = Some (K, s\<lparr>mem := m2\<rparr>) \<and>
    wr32 wr8 (s\<lparr>mem := m2\<rparr>) (p + PD_esp0) (K + 4092) = Some (s\<lparr>mem := m\<rparr>) \<and>
    zheap (s\<lparr>mem := m\<rparr>) (insert (K, nK) (insert (p, np) A)) j \<and>
    85 \<le> np \<and> 4096 \<le> nK \<and> (p, np) \<notin> A \<and> (K, nK) \<notin> insert (p, np) A \<and>
    map (pd_get m p) [0..<17] = new_words eip \<and> pd_get m p 17 = K + 4092 \<and>
    eq_off (- (regions A \<union> - kernel_area)) (mem s) m"
proof -
  let ?N = "- (regions A \<union> - kernel_area)"
  obtain p np m0 where 0: "kernel_allocate rd8 wr8 s PD_size = Some (p, s\<lparr>mem := m0\<rparr>)" "85 \<le> np"
    "zheap (s\<lparr>mem := m0\<rparr>) (insert (p, np) A) (Suc j)" "(p, np) \<notin> A" "eq_off ?N (mem s) m0"
    using zheap_pd [OF z(1)] z(2) by auto
  let ?A1 = "insert (p, np) A"
  note pd = live_pd [OF zheap_live [OF 0(3)] insertI1 0(2)]
  have pN: "pd_bytes p \<subseteq> ?N" by (rule fresh_off [OF zheap_live [OF 0(3)] 0(4) pd(2)])
  obtain m1 where 1: "set_fields p eip (s\<lparr>mem := m0\<rparr>) = Some (s\<lparr>mem := m1\<rparr>)"
    "eq_off (pd_bytes p) m0 m1" "map (pd_get m1 p) [0..<17] = new_words eip"
    using set_fields_ok [OF pd(1), of eip "s\<lparr>mem := m0\<rparr>"] by auto
  have z1: "zheap (s\<lparr>mem := m1\<rparr>) ?A1 (Suc j)"
    using zheap_off [OF 0(3), of "pd_bytes p" m1] 1(2) pd(3) by auto
  have e1: "eq_off ?N (mem s) m1" by (rule eq_off_grow [OF 0(5) 1(2) pN])
  obtain K nK m2 where 2: "kernel_allocate rd8 wr8 (s\<lparr>mem := m1\<rparr>) 4096 = Some (K, s\<lparr>mem := m2\<rparr>)" "4096 \<le> nK"
    "zheap (s\<lparr>mem := m2\<rparr>) (insert (K, nK) ?A1) j" "(K, nK) \<notin> ?A1"
    "eq_off (- (regions ?A1 \<union> - kernel_area)) m1 m2"
    using zheap_page [OF z1] z(2) by auto
  have r: "regions A \<subseteq> regions ?A1" "regions ?A1 \<subseteq> regions (insert (K, nK) ?A1)" by (auto simp: regions_def)
  have e2: "eq_off ?N (mem s) m2" by (rule eq_off_grow [OF e1 2(5)]) (use r in blast)
  have w2: "pd_get m2 p i = pd_get m1 p i" if "i < 21" for i
    by (rule pd_get_live [OF zheap_live [OF z1] insertI1 0(2) that, of "{}"]) (use 2(5) in simp_all)
  let ?m = "pd_put p 17 (K + 4092) m2"
  have 3: "wr32 wr8 (s\<lparr>mem := m2\<rparr>) (p + PD_esp0) (K + 4092) = Some (s\<lparr>mem := ?m\<rparr>)"
    using pd_wr_at [OF pd(1), of "p + PD_esp0" 17 "s\<lparr>mem := m2\<rparr>"] by (simp add: pd_offsets)
  have "pds_apart {p}" using pd(1) by (simp add: pds_apart_def)
  note g = procq.get_put [OF this singletonI singletonI]
  have o3: "eq_off (pd_bytes p) m2 ?m" by (rule pd_put_off [OF pd(1)]) simp
  have e3: "eq_off ?N (mem s) ?m" by (rule eq_off_grow [OF e2 o3 pN])
  have z3: "zheap (s\<lparr>mem := ?m\<rparr>) (insert (K, nK) ?A1) j"
    using zheap_off [OF 2(3), of "pd_bytes p" ?m] o3 pd(3) r by auto
  have w: "map (pd_get ?m p) [0..<17] = new_words eip" "pd_get ?m p 17 = K + 4092"
    unfolding 1(3) [symmetric] by (simp_all add: g w2)
  show ?thesis
    by (rule exI [of _ p], rule exI [of _ K], rule exI [of _ np], rule exI [of _ nK], rule exI [of _ m0],
      rule exI [of _ m1], rule exI [of _ m2], rule exI [of _ ?m],
      intro conjI 0(1) 1(1) 2(1) 3 z3 0(2) 2(2) 0(4) 2(4) w e3)
qed

text \<open>The directory with the kernel half, of zero entries otherwise.\<close>

lemma new_directory:
  assumes ks: "kernel_space L s" and z: "zheap s A (Suc j)" "13 \<le> j" and p: "(p, np) \<in> A" "85 \<le> np"
  shows "\<exists>D nD m0 m1 m.
    kernel_allocate rd8 wr8 s 4096 = Some (D, s\<lparr>mem := m0\<rparr>) \<and>
    wr32 wr8 (s\<lparr>mem := m0\<rparr>) (p + PD_page_directory) D = Some (s\<lparr>mem := m1\<rparr>) \<and>
    copy_kernel_half L p (s\<lparr>mem := m1\<rparr>) = Some (s\<lparr>mem := m\<rparr>) \<and>
    zheap (s\<lparr>mem := m\<rparr>) (insert (D, nD) A) j \<and> 4096 \<le> nD \<and> (D, nD) \<notin> A \<and> page_aligned D \<and>
    (\<forall>i < 21. pd_get m p i = (if i = 18 then D else pd_get (mem s) p i)) \<and>
    maps_kernel 768 m D \<and> (\<forall>k < 768. ld32 m (D + 4 * of_nat k) = 0) \<and>
    eq_off (pd_bytes p \<union> - (regions A \<union> - kernel_area)) (mem s) m"
proof -
  let ?N = "- (regions A \<union> - kernel_area)"
  note l0 = zheap_live [OF z(1)]
  note pd = live_pd [OF l0 p]
  obtain D nD m0 where 0: "kernel_allocate rd8 wr8 s 4096 = Some (D, s\<lparr>mem := m0\<rparr>)" "4096 \<le> nD"
    "zheap (s\<lparr>mem := m0\<rparr>) (insert (D, nD) A) j" "(D, nD) \<notin> A" "page_aligned D"
    "eq_off ?N (mem s) m0" "\<forall>x \<in> region D nD. m0 x = 0"
    using zheap_page [OF z] by auto
  let ?A = "insert (D, nD) A" and ?m1 = "pd_put p 18 D m0"
  have w0: "pd_get m0 p i = pd_get (mem s) p i" if "i < 21" for i
    by (rule pd_get_live [OF l0 p that, of "{}"]) (use 0(6) in simp_all)
  have 1: "wr32 wr8 (s\<lparr>mem := m0\<rparr>) (p + PD_page_directory) D = Some (s\<lparr>mem := ?m1\<rparr>)"
    using pd_wr_at [OF pd(1), of "p + PD_page_directory" 18 "s\<lparr>mem := m0\<rparr>"] by (simp add: pd_offsets)
  have o1: "eq_off (pd_bytes p) m0 ?m1" by (rule pd_put_off [OF pd(1)]) simp
  have e1: "eq_off (pd_bytes p \<union> ?N) (mem s) ?m1" by (rule eq_off_mono [OF eq_off_trans [OF 0(6) o1]]) blast
  have r: "regions A \<subseteq> regions ?A" by (auto simp: regions_def)
  have z1: "zheap (s\<lparr>mem := ?m1\<rparr>) ?A j" using zheap_off [OF 0(3), of "pd_bytes p" ?m1] o1 pd(3) r by auto
  have L: "layout_ok L" using ks by (simp add: kernel_space_def)
  have pka: "pd_bytes p \<subseteq> kernel_area" using pd(2) region_area(2) [OF l0 p(1) order_refl] by blast
  have k1: "kernel_space L (s\<lparr>mem := ?m1\<rparr>)"
    by (rule kernel_space_write [OF ks e1]) (use pka dir_bytes_outside(1) [OF L] in blast)
  note l1 = zheap_live [OF z1]
  have bD: "unat D + 4096 \<le> 2 ^ 32" using live_bounds [OF l1 insertI1] 0(2) by simp
  have rD: "bytes_at D 4096 \<subseteq> region D nD"
    using 0(2) by (auto simp: bytes_at_unat [OF bD] region_def inside_def)
  have aD: "bytes_at D 4096 \<subseteq> kernel_area" using rD region_area(2) [OF l1 insertI1 order_refl] by blast
  have dis: "pd_bytes p \<inter> bytes_at D 4096 = {}"
    using live_apart [OF l1 0(4)] pd(3) rD by (auto simp: regions_def)
  have "pds_apart {p}" using pd(1) by (simp add: pds_apart_def)
  note g = procq.get_put [OF this singletonI singletonI]
  have d1: "pd_get (mem (s\<lparr>mem := ?m1\<rparr>)) p 18 = D" by (simp add: g)
  obtain m where 2: "copy_kernel_half L p (s\<lparr>mem := ?m1\<rparr>) = Some (s\<lparr>mem := m\<rparr>)"
    "eq_off (bytes_at D 4096) ?m1 m" "maps_kernel 768 m D"
    "\<forall>k < 768. ld32 m (D + 4 * of_nat k) = ld32 ?m1 (D + 4 * of_nat k)"
    using copy_kernel_half_ok [OF k1 aD bD pd(1) d1 dis] by auto
  have w: "\<forall>i < 21. pd_get m p i = (if i = 18 then D else pd_get (mem s) p i)"
    using pd_get_eq_off [OF 2(2) pd(1) _ dis] by (simp add: g w0)
  have z2: "zheap (s\<lparr>mem := m\<rparr>) ?A j"
    using zheap_off [OF z1, of "bytes_at D 4096" m] 2(2) rD by (auto simp: regions_def)
  have "bytes_at D 4096 \<subseteq> ?N" by (rule fresh_off [OF l1 0(4) rD])
  then have e2: "eq_off (pd_bytes p \<union> ?N) (mem s) m" by (intro eq_off_grow [OF e1 2(2)]) blast
  have zero: "\<forall>k < 768. ld32 m (D + 4 * of_nat k) = 0"
  proof (intro allI impI)
    fix k :: nat assume k: "k < 768"
    have b: "bytes_at (D + 4 * of_nat k) 4 \<subseteq> bytes_at D 4096"
      using k by (auto simp: entry_bytes [OF bD, of k] bytes_at_unat [OF bD])
    have "ld32 m (D + 4 * of_nat k) = ld32 ?m1 (D + 4 * of_nat k)" using 2(4) k by blast
    also have "\<dots> = ld32 m0 (D + 4 * of_nat k)" by (rule ld32_eq_off [OF o1]) (use b dis in blast)
    also have "\<dots> = 0" by (rule zero_word [OF 0(7)]) (use b rD in blast)
    finally show "ld32 m (D + 4 * of_nat k) = 0" .
  qed
  show ?thesis
    by (rule exI [of _ D], rule exI [of _ nD], rule exI [of _ m0], rule exI [of _ ?m1], rule exI [of _ m],
      intro conjI 0(1) 1 2(1) z2 0(2) 0(4) 0(5) w 2(3) zero e2)
qed

lemma new_descriptor:
  assumes ks: "kernel_space L s" and z: "zheap s A (Suc (Suc (Suc j)))" "13 \<le> j"
  shows "\<exists>p K D np nK nD m0 m1 m2 m3 m4 m5 m.
    kernel_allocate rd8 wr8 s PD_size = Some (p, s\<lparr>mem := m0\<rparr>) \<and>
    set_fields p eip (s\<lparr>mem := m0\<rparr>) = Some (s\<lparr>mem := m1\<rparr>) \<and>
    kernel_allocate rd8 wr8 (s\<lparr>mem := m1\<rparr>) 4096 = Some (K, s\<lparr>mem := m2\<rparr>) \<and>
    wr32 wr8 (s\<lparr>mem := m2\<rparr>) (p + PD_esp0) (K + 4092) = Some (s\<lparr>mem := m3\<rparr>) \<and>
    kernel_allocate rd8 wr8 (s\<lparr>mem := m3\<rparr>) 4096 = Some (D, s\<lparr>mem := m4\<rparr>) \<and>
    wr32 wr8 (s\<lparr>mem := m4\<rparr>) (p + PD_page_directory) D = Some (s\<lparr>mem := m5\<rparr>) \<and>
    copy_kernel_half L p (s\<lparr>mem := m5\<rparr>) = Some (s\<lparr>mem := m\<rparr>) \<and>
    zheap (s\<lparr>mem := m\<rparr>) (insert (D, nD) (insert (K, nK) (insert (p, np) A))) j \<and>
    85 \<le> np \<and> 4096 \<le> nK \<and> 4096 \<le> nD \<and> (p, np) \<notin> A \<and> (K, nK) \<notin> insert (p, np) A \<and>
    (D, nD) \<notin> insert (K, nK) (insert (p, np) A) \<and> page_aligned D \<and>
    map (pd_get m p) [0..<17] = new_words eip \<and> pd_get m p 17 = K + 4092 \<and> pd_get m p 18 = D \<and>
    maps_kernel 768 m D \<and> (\<forall>k < 768. ld32 m (D + 4 * of_nat k) = 0) \<and>
    eq_off (- (regions A \<union> - kernel_area)) (mem s) m"
proof -
  let ?N = "- (regions A \<union> - kernel_area)"
  have j: "13 \<le> Suc j" using z(2) by simp
  obtain p K np nK m0 m1 m2 m3 where
    a: "kernel_allocate rd8 wr8 s PD_size = Some (p, s\<lparr>mem := m0\<rparr>)"
      "set_fields p eip (s\<lparr>mem := m0\<rparr>) = Some (s\<lparr>mem := m1\<rparr>)"
      "kernel_allocate rd8 wr8 (s\<lparr>mem := m1\<rparr>) 4096 = Some (K, s\<lparr>mem := m2\<rparr>)"
      "wr32 wr8 (s\<lparr>mem := m2\<rparr>) (p + PD_esp0) (K + 4092) = Some (s\<lparr>mem := m3\<rparr>)"
    and z3: "zheap (s\<lparr>mem := m3\<rparr>) (insert (K, nK) (insert (p, np) A)) (Suc j)"
    and n: "85 \<le> np" "4096 \<le> nK" "(p, np) \<notin> A" "(K, nK) \<notin> insert (p, np) A"
    and w: "map (pd_get m3 p) [0..<17] = new_words eip" "pd_get m3 p 17 = K + 4092"
    and e3: "eq_off ?N (mem s) m3"
    using descriptor_and_stack [OF z(1) j, of eip] by (elim exE conjE)
  let ?s3 = "s\<lparr>mem := m3\<rparr>" and ?A2 = "insert (K, nK) (insert (p, np) A)"
  have k3: "kernel_space L ?s3"
    by (rule kernel_space_write [OF ks e3]) (use dir_bytes_outside(1) [of L] ks in \<open>auto simp: kernel_space_def\<close>)
  have pA: "(p, np) \<in> ?A2" by simp
  have s3: "?s3\<lparr>mem := m\<rparr> = s\<lparr>mem := m\<rparr>" "mem ?s3 = m3" for m by simp_all
  obtain D nD m4 m5 m where
    b: "kernel_allocate rd8 wr8 ?s3 4096 = Some (D, s\<lparr>mem := m4\<rparr>)"
      "wr32 wr8 (s\<lparr>mem := m4\<rparr>) (p + PD_page_directory) D = Some (s\<lparr>mem := m5\<rparr>)"
      "copy_kernel_half L p (s\<lparr>mem := m5\<rparr>) = Some (s\<lparr>mem := m\<rparr>)"
    and z6: "zheap (s\<lparr>mem := m\<rparr>) (insert (D, nD) ?A2) j"
    and d: "4096 \<le> nD" "(D, nD) \<notin> ?A2" "page_aligned D"
    and w6: "\<forall>i < 21. pd_get m p i = (if i = 18 then D else pd_get m3 p i)"
    and mk: "maps_kernel 768 m D" "\<forall>k < 768. ld32 m (D + 4 * of_nat k) = 0"
    and e6: "eq_off (pd_bytes p \<union> - (regions ?A2 \<union> - kernel_area)) m3 m"
    using new_directory [OF k3 z3 z(2) pA n(1), unfolded s3] by (elim exE conjE)
  have l3: "kernel_live ?s3 ?A2" by (rule zheap_live [OF z3])
  have "region p np \<subseteq> kernel_area" "region p np \<inter> regions A = {}"
    using region_area(2) [OF l3 pA order_refl] kernel_live_disjoint [OF l3 pA] n(3) by (fastforce simp: regions_def)+
  then have "pd_bytes p \<subseteq> ?N" using live_pd(2) [OF l3 pA n(1)] by blast
  then have e: "eq_off ?N (mem s) m" by (intro eq_off_grow [OF e3 e6]) (auto simp: regions_def)
  have "map (pd_get m p) [0..<17] = map (pd_get m3 p) [0..<17]" using w6 by simp
  then have words: "map (pd_get m p) [0..<17] = new_words eip" "pd_get m p 17 = K + 4092" "pd_get m p 18 = D"
    using w w6 by simp_all
  show ?thesis
    by (rule exI [of _ p], rule exI [of _ K], rule exI [of _ D], rule exI [of _ np], rule exI [of _ nK], rule exI [of _ nD], rule exI [of _ m0],
      rule exI [of _ m1], rule exI [of _ m2], rule exI [of _ m3], rule exI [of _ m4], rule exI [of _ m5], rule exI [of _ m],
      intro conjI a b z6 n(1,2) d(1) n(3,4) d(2,3) words mk e)
qed

end
