(* ===== verification/Kernel_State.thy ===== *)
theory Kernel_State
  imports Process_Creation
begin

text \<open>
  The invariant of the running kernel, heap, free pages, address spaces and queue of processes
  together, and the proof that \<open>create_process\<close> keeps it; what the invariant says of the memory each process
  reaches.
\<close>

section \<open>The invariant\<close>

text \<open>
  The processes \<open>ts\<close>, each with the pages of its code and its stack, in the order of the queue;
  the free pages \<open>qs\<close>; the live regions \<open>A\<close> of the heap, with a free block of at least
  \<open>2 ^ j\<close> bytes left. The directories and tables of the processes lie in live regions \<open>B\<close> that
  hold no descriptor.
\<close>

type_synonym process = "u32 \<times> u32 \<times> u32"

definition frames :: "process list \<Rightarrow> u32 list" where
  "frames ts = concat (map (\<lambda>(p, f, g). [f, g]) ts)"

definition process_ok :: "bytes \<Rightarrow> (u32 \<times> nat) set \<Rightarrow> process \<Rightarrow> bool" where
  "process_ok m B t = (let (p, f, g) = t in runnable (proc_of m p) \<and>
     space m B (pr_dir (proc_of m p)) (f + PAGE_OFFSET) (g + PAGE_OFFSET))"

definition queue_ok :: "process list \<Rightarrow> 'a proc_machine_scheme \<Rightarrow> bool" where
  "queue_ok ts s \<longleftrightarrow> (if map fst ts = [] then current_process s = 0
     else procq.ring (mem s) (map fst ts) \<and> current_process s = hd (map fst ts))"

definition kernel_inv ::
  "layout \<Rightarrow> (u32 \<times> nat) set \<Rightarrow> nat \<Rightarrow> process list \<Rightarrow> u32 list \<Rightarrow> 'a proc_machine_scheme \<Rightarrow> bool" where
  "kernel_inv L A j ts qs s \<longleftrightarrow> kernel_space L s \<and> zheap s A j \<and> page_list (mem s) (page_freelist s) qs \<and>
     distinct (frames ts @ qs) \<and> (\<forall>f \<in> set (frames ts). f < KERNEL_BASE \<and> page_aligned f) \<and> queue_ok ts s \<and>
     (\<exists>B \<subseteq> A. (\<forall>t \<in> set ts. \<exists>n \<ge> 85. (fst t, n) \<in> A - B) \<and> (\<forall>t \<in> set ts. process_ok (mem s) B t))"

lemma frames_snoc: "frames (ts @ [(p, f, g)]) = frames ts @ [f, g]"
  by (simp add: frames_def)

text \<open>Writes outside the descriptors and the regions \<open>B\<close> keep a process.\<close>

lemma process_ok_eq_off:
  assumes "process_ok m B t" "eq_off X m m'" "bounded B" "regions B \<inter> X = {}" "B \<subseteq> B'"
    "proc_of m' (fst t) = proc_of m (fst t)"
  shows "process_ok m' B' t"
  using assms space_eq_off [OF _ assms(2-5)] by (auto simp: process_ok_def split_beta)

lemma regions_apart:
  assumes "kernel_live s A" "B \<subseteq> A" "(p, n) \<in> A - B"
  shows "region p n \<inter> regions B = {}"
proof -
  have "region p n \<inter> region q k = {}" if "(q, k) \<in> B" for q k
    using kernel_live_disjoint [OF assms(1), of p n q k] assms(2,3) that by blast
  then show ?thesis by (fastforce simp: regions_def)
qed

lemma pages_apart:
  assumes "page_aligned q" "page_aligned r" "q \<noteq> r"
  shows "bytes_at r 4 \<inter> page_set q = {}"
proof -
  obtain k l where k: "unat q = 4096 * k" "unat r = 4096 * l"
    using assms(1,2) by (auto simp: page_aligned_dvd elim!: dvdE)
  have kl: "k \<noteq> l" using assms(3) k by (auto simp: word_unat_eq_iff)
  have lt: "4096 * k < 2 ^ 32" "4096 * l < 2 ^ 32"
    using unat_u32_less [of q] unat_u32_less [of r] k by simp_all
  then have b: "unat q + 4096 \<le> 2 ^ 32" "unat r + 4 \<le> 2 ^ 32" using k by simp_all
  show ?thesis
    using kl by (auto simp: page_set_def bytes_at_unat [OF b(1)] bytes_at_unat [OF b(2)] k)
qed

lemma page_list_other:
  assumes "page_list m p qs" "eq_off X m m'" "\<And>q. q \<in> set qs \<Longrightarrow> q < KERNEL_BASE \<Longrightarrow> page_aligned q \<Longrightarrow> bytes_at q 4 \<inter> X = {}"
  shows "page_list m' p qs"
  using assms
proof (induction qs arbitrary: p)
  case (Cons q qs)
  have "ld32 m' q = ld32 m q"
    using Cons.prems by (intro ld32_eq_off [OF assms(2)]) auto
  then show ?case using Cons by auto
qed simp

section \<open>Creating a process\<close>

definition new_proc :: "u32 \<Rightarrow> u32 \<Rightarrow> u32 \<Rightarrow> proc" where
  "new_proc eip sp D =
     \<lparr>pr_frame = \<lparr>fr_eip = eip, fr_cs = 0x1b, fr_eflags = 0x200, fr_esp = 0xbffffffc, fr_ss = 0x23\<rparr>,
      pr_gen = \<lparr>edi = 0, esi = 0, ebp = 0xbffffffc, ebx = 0, edx = 0, ecx = 0, eax = 0, esp = 0\<rparr>,
      pr_seg = \<lparr>ds = 0x23, es = 0x23, fs = 0x23, gs = 0x23\<rparr>,
      pr_esp0 = sp, pr_dir = D, pr_state = 0\<rparr>"

lemma runnable_new: "runnable (new_proc eip sp D)"
  by (simp add: runnable_def user_ready_def new_proc_def)

lemma new_words_proc:
  assumes "\<And>i. i < 17 \<Longrightarrow> pd_get m p i = new_words eip ! i" "pd_get m p 17 = sp" "pd_get m p 18 = D"
    "pd_state m p = 0"
  shows "proc_of m p = new_proc eip sp D"
  by (simp add: proc_of_def proc_words assms new_proc_def new_words_def)

lemma fresh_pointer:
  assumes "kernel_live s A" "(p, n) \<in> A" "(p, k) \<in> A" "0 < n" "0 < k"
  shows "n = k"
proof (rule ccontr)
  assume "n \<noteq> k"
  then have "region p n \<inter> region p k = {}"
    using kernel_live_disjoint [OF assms(1-3)] by blast
  moreover have "p \<in> region p n \<inter> region p k" using assms(4,5) by (simp add: region_def inside_def)
  ultimately show False by blast
qed

lemma first_bytes_in_page:
  assumes "q < KERNEL_BASE" "i < 4096"
  shows "q + of_nat i \<in> page_set q"
proof -
  have b: "unat q + 4096 \<le> 2 ^ 32" using assms(1) by (simp add: word_less_nat_alt)
  then show ?thesis
    unfolding page_set_def bytes_at_unat [OF b] using assms(2) unat_add_of_nat [of q i] by simp
qed

text \<open>Up to the code of the process: five fresh blocks hold descriptor, stack and address space.\<close>

lemma create_process_pages:
  fixes s :: "'a proc_machine_scheme"
  assumes ks: "kernel_space L s" and z: "zheap s A (j + 5)" "13 \<le> j"
    and pl: "page_list (mem s) (page_freelist s) (q1 # q2 # qs)"
  shows "\<exists>p K D np nK m fl A' B.
    create_process L eip s = do {
      s' \<leftarrow> write_code (s\<lparr>mem := m, page_freelist := fl, cr3 := D - KERNEL_BASE\<rparr>);
      s' \<leftarrow> wr8 (s'\<lparr>cr3 := cr3 s\<rparr>) (p + PD_state) 0;
      insert_process p s'
    } \<and>
    zheap (s\<lparr>mem := m, page_freelist := fl\<rparr>) A' j \<and> page_list m fl qs \<and> A \<subseteq> A' \<and> 85 \<le> np \<and>
    (p, np) \<in> A' - A \<and> (p, np) \<notin> B \<and> B \<subseteq> A' - A \<and> 4096 \<le> nK \<and> (K, nK) \<in> A' - A \<and> (K, nK) \<notin> insert (p, np) B \<and>
    space m B D (q2 + PAGE_OFFSET) (q1 + PAGE_OFFSET) \<and> (\<forall>i < 17. pd_get m p i = new_words eip ! i) \<and>
    pd_get m p 17 = K + 4092 \<and> pd_get m p 18 = D \<and> eq_off (- (regions A \<union> - kernel_area)) (mem s) m"
proof -
  let ?N = "- (regions A \<union> - kernel_area)"
  have z': "zheap s A (Suc (Suc (Suc (Suc (Suc j)))))" "13 \<le> Suc (Suc j)" using z by (simp_all add: numeral_eq_Suc)
  obtain p K D np nK nD m0 m1 m2 m3 m4 m5 m6 where
    a: "kernel_allocate rd8 wr8 s PD_size = Some (p, s\<lparr>mem := m0\<rparr>)"
      "set_fields p eip (s\<lparr>mem := m0\<rparr>) = Some (s\<lparr>mem := m1\<rparr>)"
      "kernel_allocate rd8 wr8 (s\<lparr>mem := m1\<rparr>) 4096 = Some (K, s\<lparr>mem := m2\<rparr>)"
      "wr32 wr8 (s\<lparr>mem := m2\<rparr>) (p + PD_esp0) (K + 4092) = Some (s\<lparr>mem := m3\<rparr>)"
      "kernel_allocate rd8 wr8 (s\<lparr>mem := m3\<rparr>) 4096 = Some (D, s\<lparr>mem := m4\<rparr>)"
      "wr32 wr8 (s\<lparr>mem := m4\<rparr>) (p + PD_page_directory) D = Some (s\<lparr>mem := m5\<rparr>)"
      "copy_kernel_half L p (s\<lparr>mem := m5\<rparr>) = Some (s\<lparr>mem := m6\<rparr>)"
    and z6: "zheap (s\<lparr>mem := m6\<rparr>) (insert (D, nD) (insert (K, nK) (insert (p, np) A))) (Suc (Suc j))"
    and n: "85 \<le> np" "4096 \<le> nK" "4096 \<le> nD" "(p, np) \<notin> A" "(K, nK) \<notin> insert (p, np) A"
      "(D, nD) \<notin> insert (K, nK) (insert (p, np) A)" "page_aligned D"
    and w: "map (pd_get m6 p) [0..<17] = new_words eip" "pd_get m6 p 17 = K + 4092" "pd_get m6 p 18 = D"
    and d: "maps_kernel 768 m6 D" "\<forall>k < 768. ld32 m6 (D + 4 * of_nat k) = 0"
    and e6: "eq_off ?N (mem s) m6"
    using new_descriptor [OF ks z', of eip] by (elim exE conjE)
  let ?s6 = "s\<lparr>mem := m6\<rparr>" and ?A3 = "insert (D, nD) (insert (K, nK) (insert (p, np) A))"
  have k6: "kernel_space L ?s6"
    by (rule kernel_space_write [OF ks e6]) (use dir_bytes_outside(1) [of L] ks in \<open>auto simp: kernel_space_def\<close>)
  have "?N \<inter> {x. x < KERNEL_BASE} = {}" using area_not_low by blast
  then have pl6: "page_list (mem ?s6) (page_freelist ?s6) (q1 # q2 # qs)" using page_list_eq_off [OF pl e6] by simp
  have d6: "maps_kernel 768 (mem ?s6) D" "\<forall>k < 768. ld32 (mem ?s6) (D + 4 * of_nat k) = 0" using d by simp_all
  obtain p1 m7 fl m8 T U nT nU where
    b: "allocate_page D 0xbffff000 ?s6 = Some (?s6\<lparr>page_freelist := p1, mem := m7\<rparr>)"
      "allocate_page D 0 (?s6\<lparr>page_freelist := p1, mem := m7\<rparr>) = Some (?s6\<lparr>page_freelist := fl, mem := m8\<rparr>)"
    and z8: "zheap (?s6\<lparr>page_freelist := fl, mem := m8\<rparr>) (insert (T, nT) (insert (U, nU) ?A3)) j"
    and t: "(T, nT) \<notin> ?A3" "(U, nU) \<notin> ?A3" "page_list m8 fl qs"
      "space m8 {(D, nD), (T, nT), (U, nU)} D (q2 + PAGE_OFFSET) (q1 + PAGE_OFFSET)"
    and e7: "eq_off (region D nD \<union> - (regions ?A3 \<union> - kernel_area)) (mem ?s6) m7"
    and e8: "eq_off (region D nD \<union> - (regions ?A3 \<union> - kernel_area)) (mem ?s6) m8"
    using two_pages [OF k6 z6 z(2) insertI1 n(3,7) pl6 d6] by (elim exE conjE)
  note l6 = zheap_live [OF z6]
  have pA: "(p, np) \<in> ?A3" by simp
  have dis: "region D nD \<inter> region p np = {}" using live_apart [OF l6 n(6)] by (auto simp: regions_def)
  note keep = pd_get_live [OF l6 pA n(1) _ _ dis]
  have w7: "pd_get m7 p i = pd_get m6 p i" and w8: "pd_get m8 p i = pd_get m6 p i" if "i < 21" for i
    using keep [OF that e7] keep [OF that e8] by simp_all
  have rd: "rd32 rd8 s' (p + PD_page_directory) = Some (pd_get (mem s') p 18)" for s' :: "'a proc_machine_scheme"
    by (rule pd_rd_at [OF live_pd(1) [OF l6 pA n(1)]]) (simp_all add: pd_offsets)
  have rds: "rd32 rd8 ?s6 (p + PD_page_directory) = Some D"
    "rd32 rd8 (?s6\<lparr>page_freelist := p1, mem := m7\<rparr>) (p + PD_page_directory) = Some D"
    "rd32 rd8 (s\<lparr>mem := m8, page_freelist := fl\<rparr>) (p + PD_page_directory) = Some D"
    by (simp_all add: rd w(3) w7 w8)
  have sz: "(4 * 1024 :: u32) = 4096" "KERNEL_BASE - PAGE_SIZE_4K = 0xbffff000" by (simp_all add: PAGE_SIZE_4K_def)
  have u: "?s6\<lparr>page_freelist := fl, mem := m8\<rparr> = s\<lparr>mem := m8, page_freelist := fl\<rparr>" by simp
  have c: "kernel_memory_addr L - KERNEL_BASE = cr3 s" using ks by (simp add: kernel_space_def)
  have eq: "create_process L eip s = do {
      s' \<leftarrow> write_code (s\<lparr>mem := m8, page_freelist := fl, cr3 := D - KERNEL_BASE\<rparr>);
      s' \<leftarrow> wr8 (s'\<lparr>cr3 := cr3 s\<rparr>) (p + PD_state) 0;
      insert_process p s'
    }"
    unfolding create_process_def a(1) Option.bind.bind_lunit prod.case a(2) a(3) a(4) sz a(5) a(6) a(7)
      rds(1) b(1) rds(2) b(2) u rds(3) Let_def enable_paging_def c ..
  have s6: "mem ?s6 = m6" by simp
  have e8': "eq_off ?N (mem s) m8"
  proof (rule eq_off_grow [OF e6 e8 [unfolded s6]])
    have "region D nD \<subseteq> kernel_area" "region D nD \<inter> regions A = {}"
      using region_area(2) [OF l6 insertI1 order_refl] regions_apart [OF l6, of A D nD] n(6) by auto
    then show "region D nD \<union> - (regions ?A3 \<union> - kernel_area) \<subseteq> ?N" by (auto simp: regions_def)
  qed
  have "pd_get m8 p i = new_words eip ! i" if "i < 17" for i
    using arg_cong [OF w(1), of "\<lambda>xs. xs ! i"] that by (simp add: w8)
  then have w17: "\<forall>i < 17. pd_get m8 p i = new_words eip ! i" by blast
  let ?A5 = "insert (T, nT) (insert (U, nU) ?A3)" and ?B = "{(D, nD), (T, nT), (U, nU)}"
  have mem: "A \<subseteq> ?A5" "(p, np) \<in> ?A5 - A" "(p, np) \<notin> ?B" "?B \<subseteq> ?A5 - A" "(K, nK) \<in> ?A5 - A" "(K, nK) \<notin> insert (p, np) ?B"
    using n(4-6) t(1,2) by auto
  have w78: "pd_get m8 p 17 = K + 4092" "pd_get m8 p 18 = D" using w(2,3) by (simp_all add: w8)
  show ?thesis
    by (rule exI [of _ p], rule exI [of _ K], rule exI [of _ D], rule exI [of _ np], rule exI [of _ nK],
      rule exI [of _ m8], rule exI [of _ fl], rule exI [of _ ?A5], rule exI [of _ ?B],
      intro conjI eq z8 [unfolded u] t(3,4) n(1,2) mem w17 w78 e8')
qed

text \<open>The code of the process and the state in its descriptor.\<close>

lemma start_process:
  assumes B: "space m B D (q + PAGE_OFFSET) g" "bounded B" "regions B \<subseteq> kernel_area" "pd_bytes p \<inter> regions B = {}"
    and q: "q < KERNEL_BASE" "page_aligned q" and p: "pd_ok p" "pd_bytes p \<subseteq> kernel_area"
  shows "\<exists>m'. do {
      s' \<leftarrow> write_code (s\<lparr>mem := m, page_freelist := fl, cr3 := D - KERNEL_BASE\<rparr>);
      s' \<leftarrow> wr8 (s'\<lparr>cr3 := cr3 s\<rparr>) (p + PD_state) 0;
      insert_process p s'
    } = insert_process p (s\<lparr>mem := m', page_freelist := fl\<rparr>) \<and>
    eq_off (page_set q \<union> pd_bytes p) m m' \<and> space m' B D (q + PAGE_OFFSET) g \<and> (\<forall>i < 5. m' (q + of_nat i) = self_jump ! i) \<and>
    (\<forall>i < 21. pd_get m' p i = pd_get m p i) \<and> pd_state m' p = 0"
proof -
  have b: "unat q + 4096 \<le> 2 ^ 32" using q by (auto simp: word_less_nat_alt)
  have low: "page_set q \<inter> kernel_area = {}" using page_set_low [OF q] area_not_low by blast
  let ?s = "s\<lparr>mem := m, page_freelist := fl, cr3 := D - KERNEL_BASE\<rparr>"
  have s: "space (mem ?s) B D (q + PAGE_OFFSET) g" "cr3 ?s = D - KERNEL_BASE" "regions B \<inter> page_set q = {}"
    using B(1,3) low by auto
  obtain m1 where 1: "write_code ?s = Some (?s\<lparr>mem := m1\<rparr>)" "eq_off (page_set q) m m1" "\<forall>i < 5. m1 (q + of_nat i) = self_jump ! i"
    using write_code_ok [OF s(1,2) B(2) s(3) b] by auto
  let ?m = "m1(p + PD_state := 0)"
  have psb: "p + PD_state \<in> pd_bytes p" by (rule pd_state_byte [OF p(1)])
  have "KERNEL_BASE \<le> p + PD_state" using pd_high [OF p(1), of 84] by (simp add: PD_state_def)
  then have "wr8 (s\<lparr>mem := m1, page_freelist := fl\<rparr>) (p + PD_state) 0 = Some (s\<lparr>mem := ?m, page_freelist := fl\<rparr>)"
    by (simp add: wr8_def del: KERNEL_BASE_def)
  moreover have "?s\<lparr>mem := m1, cr3 := cr3 s\<rparr> = s\<lparr>mem := m1, page_freelist := fl\<rparr>" by simp
  ultimately have eq: "do {
      s' \<leftarrow> write_code ?s;
      s' \<leftarrow> wr8 (s'\<lparr>cr3 := cr3 s\<rparr>) (p + PD_state) 0;
      insert_process p s'
    } = insert_process p (s\<lparr>mem := ?m, page_freelist := fl\<rparr>)"
    unfolding 1(1) Option.bind.bind_lunit by (simp only: Option.bind.bind_lunit)
  have e: "eq_off (page_set q \<union> {p + PD_state}) m ?m"
    by (rule eq_off_trans [OF 1(2)]) (simp add: eq_off_def)
  have sp: "space ?m B D (q + PAGE_OFFSET) g"
    by (rule space_eq_off [OF B(1) e B(2) _ subset_refl]) (use s(3) B(4) psb in blast)
  have "pd_bytes p \<inter> page_set q = {}" using p(2) low by blast
  then have w: "pd_get ?m p i = pd_get m p i" if "i < 21" for i
    unfolding pd_get_state_byte [OF p(1) that] by (rule pd_get_eq_off [OF 1(2) p(1) that])
  have code: "?m (q + of_nat i) = self_jump ! i" if i: "i < 5" for i
  proof -
    have "q + of_nat i \<in> page_set q" by (rule first_bytes_in_page [OF q(1)]) (use i in simp)
    then have "q + of_nat i \<noteq> p + PD_state" using low p(2) psb by auto
    then show ?thesis using 1(3) i by simp
  qed
  have "pd_state ?m p = 0" by (simp add: pd_state_def)
  moreover have "eq_off (page_set q \<union> pd_bytes p) m ?m" by (rule eq_off_mono [OF e]) (use psb in blast)
  ultimately show ?thesis using eq sp w code by (intro exI [of _ ?m]) blast
qed

text \<open>Everything up to the insertion into the queue.\<close>

lemma create_process_new:
  assumes ks: "kernel_space L s" and z: "zheap s A (j + 5)" "13 \<le> j"
    and pl: "page_list (mem s) (page_freelist s) (q1 # q2 # qs)" "q2 \<notin> set qs"
  shows "\<exists>p K D np nK m fl A' B.
    create_process L eip s = insert_process p (s\<lparr>mem := m, page_freelist := fl\<rparr>) \<and>
    kernel_space L (s\<lparr>mem := m, page_freelist := fl\<rparr>) \<and> zheap (s\<lparr>mem := m, page_freelist := fl\<rparr>) A' j \<and>
    page_list m fl qs \<and> A \<subseteq> A' \<and> 85 \<le> np \<and> (p, np) \<in> A' - A \<and> (p, np) \<notin> B \<and> B \<subseteq> A' - A \<and>
    4096 \<le> nK \<and> (K, nK) \<in> A' - A \<and> (K, nK) \<notin> insert (p, np) B \<and>
    space m B D (q2 + PAGE_OFFSET) (q1 + PAGE_OFFSET) \<and>
    proc_of m p = new_proc eip (K + 4092) D \<and> (\<forall>i < 5. m (q2 + of_nat i) = self_jump ! i) \<and>
    eq_off (page_set q2 \<union> - (regions A \<union> - kernel_area)) (mem s) m"
proof -
  let ?N = "- (regions A \<union> - kernel_area)"
  have L: "layout_ok L" using ks by (simp add: kernel_space_def)
  obtain p K D np nK m8 fl A' B where
    c: "create_process L eip s = do {
      s' \<leftarrow> write_code (s\<lparr>mem := m8, page_freelist := fl, cr3 := D - KERNEL_BASE\<rparr>);
      s' \<leftarrow> wr8 (s'\<lparr>cr3 := cr3 s\<rparr>) (p + PD_state) 0;
      insert_process p s'
    }"
    and z8: "zheap (s\<lparr>mem := m8, page_freelist := fl\<rparr>) A' j" and pl8: "page_list m8 fl qs"
    and A: "A \<subseteq> A'" "85 \<le> np" "(p, np) \<in> A' - A" "(p, np) \<notin> B" "B \<subseteq> A' - A" "4096 \<le> nK" "(K, nK) \<in> A' - A"
      "(K, nK) \<notin> insert (p, np) B"
    and sp: "space m8 B D (q2 + PAGE_OFFSET) (q1 + PAGE_OFFSET)"
    and w: "\<forall>i < 17. pd_get m8 p i = new_words eip ! i" "pd_get m8 p 17 = K + 4092" "pd_get m8 p 18 = D"
    and e8: "eq_off ?N (mem s) m8"
    using create_process_pages [OF ks z pl(1), of eip] by (elim exE conjE)
  note live = zheap_live [OF z8]
  have q: "q2 < KERNEL_BASE" "page_aligned q2" using pl(1) by simp_all
  note plow = page_set_low [OF q]
  have BA: "B \<subseteq> A'" and pnB: "(p, np) \<in> A' - B" using A(3-5) by blast+
  have pd: "pd_ok p" "pd_bytes p \<subseteq> region p np" "pd_bytes p \<subseteq> regions A'" "region p np \<subseteq> kernel_area"
    using live_pd [OF live _ A(2)] region_area(2) [OF live _ order_refl] A(3) by blast+
  have pka: "pd_bytes p \<subseteq> kernel_area" using pd(2,4) by blast
  have rB: "regions B \<subseteq> kernel_area"
    using region_area(2) [OF live _ order_refl] BA by (fastforce simp: regions_def)
  have dB: "pd_bytes p \<inter> regions B = {}" using regions_apart [OF live BA pnB] pd(2) by blast
  obtain m where
    m: "do {
      s' \<leftarrow> write_code (s\<lparr>mem := m8, page_freelist := fl, cr3 := D - KERNEL_BASE\<rparr>);
      s' \<leftarrow> wr8 (s'\<lparr>cr3 := cr3 s\<rparr>) (p + PD_state) 0;
      insert_process p s'
    } = insert_process p (s\<lparr>mem := m, page_freelist := fl\<rparr>)"
    and e: "eq_off (page_set q2 \<union> pd_bytes p) m8 m" and sp': "space m B D (q2 + PAGE_OFFSET) (q1 + PAGE_OFFSET)"
    and code: "\<forall>i < 5. m (q2 + of_nat i) = self_jump ! i"
    and w': "\<forall>i < 21. pd_get m p i = pd_get m8 p i" "pd_state m p = 0"
    using start_process [OF sp live_bounded [OF live BA] rB dB q pd(1) pka, where s = s and fl = fl] by (elim exE conjE)
  have "region p np \<inter> regions A = {}" by (rule regions_apart [OF live A(1,3)])
  then have pN: "pd_bytes p \<subseteq> ?N" using pd(2,4) by blast
  have e': "eq_off (page_set q2 \<union> ?N) (mem s) m" by (rule eq_off_mono [OF eq_off_trans [OF e8 e]]) (use pN in blast)
  let ?t = "s\<lparr>mem := m, page_freelist := fl\<rparr>"
  have "zheap ?t A' j"
  proof -
    have "page_set q2 \<union> pd_bytes p \<subseteq> regions A' \<union> - kernel_area" using plow area_not_low pd(3) by blast
    from zheap_off [OF z8 _ this] e show ?thesis by (simp add: zheap_def)
  qed
  moreover have "kernel_space L (s\<lparr>mem := m\<rparr>)"
    by (rule kernel_space_write [OF ks e']) (use plow dir_bytes_outside [OF L] in blast)
  then have "kernel_space L ?t" by (simp add: kernel_space_def)
  moreover have "page_list m fl qs"
  proof (rule page_list_other [OF pl8 e])
    fix x assume x: "x \<in> set qs" "x < KERNEL_BASE" "page_aligned x"
    have "bytes_at x 4 \<inter> page_set q2 = {}" using pages_apart [OF q(2) x(3)] x(1) pl(2) by auto
    then show "bytes_at x 4 \<inter> (page_set q2 \<union> pd_bytes p) = {}" using page_low [OF x(2,3)] pka area_not_low by blast
  qed
  moreover have "proc_of m p = new_proc eip (K + 4092) D" by (rule new_words_proc) (use w w' in simp_all)
  ultimately show ?thesis
    by - (rule exI [of _ p], rule exI [of _ K], rule exI [of _ D], rule exI [of _ np], rule exI [of _ nK],
      rule exI [of _ m], rule exI [of _ fl], rule exI [of _ A'], rule exI [of _ B],
      use c [unfolded m] A sp' code e' in blast)
qed

text \<open>Descriptors in live regions outside of \<open>B\<close>.\<close>

lemma live_descriptors:
  assumes "kernel_live s A" "B \<subseteq> A" "\<forall>x \<in> X. \<exists>n \<ge> 85. (x, n) \<in> A - B"
  shows "pds_apart X" "\<Union> (pd_bytes ` X) \<subseteq> regions A" "\<Union> (pd_bytes ` X) \<subseteq> kernel_area"
    "\<Union> (pd_bytes ` X) \<inter> regions B = {}"
proof -
  have pd: "pd_bytes x \<subseteq> regions A" "pd_bytes x \<subseteq> kernel_area" "pd_bytes x \<inter> regions B = {}" if x: "x \<in> X" for x
  proof -
    obtain n where n: "85 \<le> n" "(x, n) \<in> A - B" using assms(3) x by blast
    note pd = live_pd [OF assms(1) _ n(1), of x]
    show "pd_bytes x \<subseteq> regions A" "pd_bytes x \<subseteq> kernel_area"
      using pd region_area(2) [OF assms(1) _ order_refl, of x n] n(2) by blast+
    show "pd_bytes x \<inter> regions B = {}" using regions_apart [OF assms(1,2) n(2)] pd n(2) by blast
  qed
  then show "\<Union> (pd_bytes ` X) \<subseteq> regions A" "\<Union> (pd_bytes ` X) \<subseteq> kernel_area" "\<Union> (pd_bytes ` X) \<inter> regions B = {}"
    by blast+
  show "pds_apart X" by (rule live_pds_apart [OF assms(1)]) (use assms(3) in blast)
qed

text \<open>Writes outside of the descriptors keep the queue and the processes in it.\<close>

lemma queue_eq_off:
  assumes "queue_ok ts s" "eq_off X (mem s) m" "pds_apart (set (map fst ts))" "\<Union> (pd_bytes ` set (map fst ts)) \<inter> X = {}"
  shows "queue_ok ts (s\<lparr>mem := m, page_freelist := fl\<rparr>)" "x \<in> set (map fst ts) \<Longrightarrow> proc_of m x = proc_of (mem s) x"
proof -
  have ok: "pd_ok x" "pd_bytes x \<inter> X = {}" if "x \<in> set (map fst ts)" for x
    using assms(3,4) that by (auto simp: pds_apart_def)
  show "queue_ok ts (s\<lparr>mem := m, page_freelist := fl\<rparr>)"
  proof (cases "map fst ts = []")
    case False
    then have "procq.ring m (map fst ts)"
      using assms(1) by (intro ring_eq_off [OF assms(2)]) (use ok in \<open>simp_all add: queue_ok_def\<close>)
    then show ?thesis using assms(1) False by (simp add: queue_ok_def)
  qed (use assms(1) in \<open>simp add: queue_ok_def\<close>)
  show "x \<in> set (map fst ts) \<Longrightarrow> proc_of m x = proc_of (mem s) x"
    using ok by (intro proc_of_eq_off [OF assms(2)])
qed

text \<open>The insertion of a new process \<open>p\<close> into the queue, over the memory \<open>m\<close> that holds it.\<close>

lemma insertion_inv:
  assumes t: "kernel_space L t" "zheap t A' j" "page_list (mem t) (page_freelist t) qs" "queue_ok ts t"
    and fr: "distinct (frames (ts @ [(p, f, g)]) @ qs)" "\<forall>f \<in> set (frames (ts @ [(p, f, g)])). f < KERNEL_BASE \<and> page_aligned f"
    and B: "B \<subseteq> A'" "\<forall>x \<in> insert p (set (map fst ts)). \<exists>n \<ge> 85. (x, n) \<in> A' - B" "p \<notin> set (map fst ts)"
    and ok: "\<forall>x \<in> set (ts @ [(p, f, g)]). process_ok (mem t) B x"
  shows "\<exists>m'. let s' = t\<lparr>mem := m', current_process := hd (map fst ts @ [p])\<rparr> in
    insert_process p t = Some s' \<and> kernel_inv L A' j (ts @ [(p, f, g)]) qs s' \<and>
    map (proc_of m') (map fst ts @ [p]) = map (proc_of (mem t)) (map fst ts @ [p]) \<and>
    eq_off (\<Union> (pd_bytes ` set (map fst ts @ [p]))) (mem t) m'"
proof -
  let ?ps = "map fst ts" and ?Y = "\<Union> (pd_bytes ` insert p (set (map fst ts)))"
  note Y = live_descriptors [OF zheap_live [OF t(2)] B(1,2)]
  from insert_process_queue [OF Y(1) B(3) t(4) [unfolded queue_ok_def]] obtain m' where
    i: "insert_process p t = Some (t\<lparr>mem := m', current_process := hd (?ps @ [p])\<rparr>)"
    and r': "procq.ring m' (?ps @ [p])" and q': "map (proc_of m') (?ps @ [p]) = map (proc_of (mem t)) (?ps @ [p])"
    and e': "eq_off ?Y (mem t) m'"
    by auto
  let ?s = "t\<lparr>mem := m', current_process := hd (?ps @ [p])\<rparr>"
  have "kernel_space L (t\<lparr>mem := m'\<rparr>)"
    using dir_bytes_outside(1) [of L] t(1) Y(3) by (intro kernel_space_write [OF t(1) e']) (auto simp: kernel_space_def)
  then have "kernel_space L ?s" by (simp add: kernel_space_def)
  moreover have "zheap ?s A' j" using zheap_off [OF t(2) e' le_supI1 [OF Y(2)]] by (simp add: zheap_def)
  moreover have "page_list (mem ?s) (page_freelist ?s) qs"
    using page_list_other [OF t(3) e'] Y(3) page_low area_not_low by simp blast
  moreover have "queue_ok (ts @ [(p, f, g)]) ?s" using r' by (simp add: queue_ok_def)
  moreover have "process_ok m' B x" if x: "x \<in> set (ts @ [(p, f, g)])" for x
  proof (rule process_ok_eq_off [OF bspec [OF ok x] e' live_bounded [OF zheap_live [OF t(2)] B(1)] _ subset_refl])
    show "regions B \<inter> ?Y = {}" using Y(4) by blast
    show "proc_of m' (fst x) = proc_of (mem t) (fst x)" using q' x by auto
  qed
  ultimately have "kernel_inv L A' j (ts @ [(p, f, g)]) qs ?s"
    unfolding kernel_inv_def using fr B(1,2) by (intro conjI exI [of _ B]) simp_all
  then show ?thesis using i q' e' by (intro exI [of _ m']) (simp add: Let_def)
qed

text \<open>The whole of \<open>create_process\<close> keeps the invariant.\<close>

lemma create_process_inv:
  assumes inv: "kernel_inv L A (j + 5) ts (q1 # q2 # qs) s" and j: "13 \<le> j"
  shows "\<exists>p K D n A' m fl. let s' = s\<lparr>mem := m, page_freelist := fl, current_process := hd (map fst ts @ [p])\<rparr> in
    create_process L eip s = Some s' \<and> kernel_inv L A' j (ts @ [(p, q2, q1)]) qs s' \<and> A \<subseteq> A' \<and>
    map (proc_of m) (map fst ts @ [p]) = map (proc_of (mem s)) (map fst ts) @ [new_proc eip (K + 4092) D] \<and>
    4096 \<le> n \<and> (K, n) \<in> A' - A \<and> (\<forall>k > 0. (p, k) \<notin> A) \<and> (\<forall>i < 5. m (q2 + of_nat i) = self_jump ! i) \<and>
    eq_off (\<Union> (pd_bytes ` set (map fst ts)) \<union> page_set q2 \<union> - (regions A \<union> - kernel_area)) (mem s) m"
proof -
  let ?N = "- (regions A \<union> - kernel_area)" and ?ps = "map fst ts"
  have I: "kernel_space L s" "zheap s A (j + 5)" "page_list (mem s) (page_freelist s) (q1 # q2 # qs)"
    "distinct (frames ts @ q1 # q2 # qs)" "\<forall>f \<in> set (frames ts). f < KERNEL_BASE \<and> page_aligned f" "queue_ok ts s"
    using inv unfolding kernel_inv_def by blast+
  obtain B where B: "B \<subseteq> A" "\<forall>t \<in> set ts. \<exists>n \<ge> 85. (fst t, n) \<in> A - B" "\<forall>t \<in> set ts. process_ok (mem s) B t"
    using inv unfolding kernel_inv_def by blast
  have q2s: "q2 \<notin> set qs" and q: "q2 < KERNEL_BASE" "page_aligned q2" using I(3,4) by simp_all
  obtain p K D np nK m fl A' B1 where
    c: "create_process L eip s = insert_process p (s\<lparr>mem := m, page_freelist := fl\<rparr>)"
    and t: "kernel_space L (s\<lparr>mem := m, page_freelist := fl\<rparr>)" "zheap (s\<lparr>mem := m, page_freelist := fl\<rparr>) A' j"
      "page_list m fl qs"
    and A: "A \<subseteq> A'" "85 \<le> np" "(p, np) \<in> A' - A" "(p, np) \<notin> B1" "B1 \<subseteq> A' - A" "4096 \<le> nK" "(K, nK) \<in> A' - A"
      "(K, nK) \<notin> insert (p, np) B1"
    and sp: "space m B1 D (q2 + PAGE_OFFSET) (q1 + PAGE_OFFSET)"
    and pr: "proc_of m p = new_proc eip (K + 4092) D" and code: "\<forall>i < 5. m (q2 + of_nat i) = self_jump ! i"
    and e: "eq_off (page_set q2 \<union> ?N) (mem s) m"
    using create_process_new [OF I(1,2) j I(3) q2s, of eip] by (elim exE conjE)
  let ?t = "s\<lparr>mem := m, page_freelist := fl\<rparr>" and ?B = "B \<union> B1"
  note live = zheap_live [OF I(2)] and live' = zheap_live [OF t(2)]
  have q2: "page_set q2 \<inter> kernel_area = {}" using page_set_low [OF q] area_not_low by blast
  have oldA: "\<forall>x \<in> set ?ps. \<exists>n \<ge> 85. (x, n) \<in> A - B" using B(2) by simp
  note Y = live_descriptors [OF live B(1) oldA]
  have "\<Union> (pd_bytes ` set ?ps) \<inter> (page_set q2 \<union> ?N) = {}" using Y(2,3) q2 by blast
  note queue = queue_eq_off [OF I(6) e Y(1) this]
  have p: "p \<notin> set ?ps"
  proof
    assume "p \<in> set ?ps"
    then obtain n where n: "85 \<le> n" "(p, n) \<in> A" using oldA by blast
    then have "np = n" using fresh_pointer [OF live', of p np n] A(1-3) by auto
    then show False using n A(3) by simp
  qed
  have BA: "?B \<subseteq> A'" "B1 \<subseteq> A'" and new: "(p, np) \<in> A' - ?B" using A(1,3-5) B(1) by blast+
  have "\<exists>n \<ge> 85. (x, n) \<in> A' - ?B" if "x \<in> set ?ps" for x using bspec [OF oldA that] A(1,5) by blast
  with new A(2) have ex: "\<forall>x \<in> insert p (set ?ps). \<exists>n \<ge> 85. (x, n) \<in> A' - ?B" by blast
  have "regions B \<subseteq> regions A" "regions B \<subseteq> kernel_area"
    using B(1) region_area(2) [OF live _ order_refl] by (fastforce simp: regions_def)+
  then have rB: "regions B \<inter> (page_set q2 \<union> ?N) = {}" using q2 by blast
  have bB: "bounded B" using live_bounded [OF live' BA(1)] by (auto simp: bounded_def)
  have "process_ok m ?B x" if x: "x \<in> set ts" for x
    by (rule process_ok_eq_off [OF bspec [OF B(3) x] e bB rB]) (use queue(2) x in auto)
  moreover have "space m ?B D (q2 + PAGE_OFFSET) (q1 + PAGE_OFFSET)"
    by (rule space_eq_off [OF sp, of "{}"]) (use live_bounded [OF live' BA(2)] in \<open>auto simp: eq_off_def\<close>)
  then have "process_ok m ?B (p, q2, q1)" by (simp add: process_ok_def pr runnable_new) (simp add: new_proc_def)
  ultimately have ok: "\<forall>x \<in> set (ts @ [(p, q2, q1)]). process_ok (mem ?t) ?B x" by auto
  have fr: "distinct (frames (ts @ [(p, q2, q1)]) @ qs)"
    "\<forall>f \<in> set (frames (ts @ [(p, q2, q1)])). f < KERNEL_BASE \<and> page_aligned f"
    using I(3-5) by (auto simp: frames_snoc simp del: KERNEL_BASE_def)
  have t': "page_list (mem ?t) (page_freelist ?t) qs" using t(3) by simp
  obtain m' where
    *: "let s' = ?t\<lparr>mem := m', current_process := hd (?ps @ [p])\<rparr> in
      insert_process p ?t = Some s' \<and> kernel_inv L A' j (ts @ [(p, q2, q1)]) qs s' \<and>
      map (proc_of m') (?ps @ [p]) = map (proc_of (mem ?t)) (?ps @ [p]) \<and> eq_off (\<Union> (pd_bytes ` set (?ps @ [p]))) (mem ?t) m'"
    using insertion_inv [OF t(1,2) t' queue(1) fr BA(1) ex p ok] by (elim exE)
  have e': "eq_off (\<Union> (pd_bytes ` set (?ps @ [p]))) m m'" using * by (simp add: Let_def)
  have pY: "pd_bytes p \<subseteq> kernel_area" "pd_bytes p \<subseteq> region p np" "region p np \<inter> regions A = {}"
    using live_descriptors(3) [OF live' BA(1) ex] live_pd(2) [OF live' _ A(2)] regions_apart [OF live' A(1,3)] A(3) by blast+
  have "m' (q2 + of_nat i) = self_jump ! i" if i: "i < 5" for i
  proof -
    have "q2 + of_nat i \<notin> \<Union> (pd_bytes ` set (?ps @ [p]))" using first_bytes_in_page [OF q(1), of i] i q2 Y(3) pY(1) by auto
    from eq_offD [OF e' this] show ?thesis using code i by simp
  qed
  moreover have "eq_off (\<Union> (pd_bytes ` set ?ps) \<union> page_set q2 \<union> ?N) (mem s) m'"
    by (rule eq_off_mono [OF eq_off_trans [OF e e']]) (use pY in auto)
  moreover have "(p, k) \<notin> A" if "0 < k" for k
    using fresh_pointer [OF live', of p np k] A(1-3) that by auto
  moreover have "map (proc_of m') (?ps @ [p]) = map (proc_of (mem s)) ?ps @ [new_proc eip (K + 4092) D]"
    using * queue(2) pr by (simp add: Let_def)
  moreover have "?t\<lparr>mem := m', current_process := hd (?ps @ [p])\<rparr> =
      s\<lparr>mem := m', page_freelist := fl, current_process := hd (?ps @ [p])\<rparr>" by simp
  note st = * [unfolded Let_def this]
  ultimately show ?thesis
    unfolding Let_def using st c A(1,6,7)
    by - (rule exI [of _ p], rule exI [of _ K], rule exI [of _ D], rule exI [of _ nK], rule exI [of _ A'],
      rule exI [of _ m'], rule exI [of _ fl], simp)
qed

section \<open>Isolation\<close>

lemma frames_disjoint:
  "distinct (frames ts) \<Longrightarrow> (p, f, g) \<in> set ts \<Longrightarrow> (p', f', g') \<in> set ts \<Longrightarrow> (p, f, g) \<noteq> (p', f', g') \<Longrightarrow>
   {f, g} \<inter> {f', g'} = {}"
proof (induction ts)
  case (Cons t ts)
  obtain a b c where t: "t = (a, b, c)" by (cases t)
  have in_frames: "f \<in> set (frames ts) \<and> g \<in> set (frames ts)" if "(p, f, g) \<in> set ts" for p f g
    using that by (force simp: frames_def)
  have d: "distinct (frames ts)" "b \<notin> set (frames ts)" "c \<notin> set (frames ts)"
    using Cons.prems(1) by (simp_all add: t frames_def)
  show ?case
  proof (cases "(p, f, g) \<in> set ts \<and> (p', f', g') \<in> set ts")
    case True
    then show ?thesis using Cons.IH [OF d(1)] Cons.prems(4) by blast
  next
    case False
    then show ?thesis
      using Cons.prems(2-4) d(2,3) in_frames [of p f g] in_frames [of p' f' g'] by (auto simp: t)
  qed
qed simp

lemma page_or_eq:
  assumes "page_aligned a" "page_aligned b" "a OR (x AND 0xfff) = b OR (y AND 0xfff)"
  shows "a = b"
proof -
  have m: "(x AND 0xfff) AND 0xfffff000 = 0" for x :: u32
  proof -
    have "(0xfff :: u32) AND 0xfffff000 = 0" by simp
    then show ?thesis by (simp only: and.assoc) simp
  qed
  have "(a OR (x AND 0xfff)) AND 0xfffff000 = (b OR (y AND 0xfff)) AND 0xfffff000" using assms(3) by simp
  then have "a AND 0xfffff000 = b AND 0xfffff000"
    by (simp only: bit.conj_disj_distrib2 m or.right_neutral)
  then show ?thesis by (simp only: page_aligned_mask [OF assms(1)] page_aligned_mask [OF assms(2)])
qed

lemma user_walk_user:
  assumes "user_walk f g va = Some (pa, True, w)"
  shows "va < KERNEL_BASE \<and> w \<and> (\<exists>q \<in> {f, g}. pa = q OR (va AND 0xfff))"
  using assms by (auto simp: user_walk_def not_le split: if_splits simp del: KERNEL_BASE_def)

text \<open>Pages of processes lie behind the first GiB of physical memory, which the kernel uses.\<close>

lemma user_page_high:
  assumes "q < KERNEL_BASE" "page_aligned q"
  shows "PAGE_OFFSET \<le> (q + PAGE_OFFSET) OR (va AND 0xfff)"
proof -
  have u: "unat (q + PAGE_OFFSET) = unat q + 0x40000000"
    using assms(1) unat_add_of_nat [of q "0x40000000"] by (simp add: PAGE_OFFSET_def word_less_nat_alt)
  have "q + PAGE_OFFSET \<le> (q + PAGE_OFFSET) OR (va AND 0xfff)" by (rule le_word_or2)
  moreover have "PAGE_OFFSET \<le> q + PAGE_OFFSET" by (simp add: word_le_nat_alt u) (simp add: PAGE_OFFSET_def)
  ultimately show ?thesis by simp
qed

lemma process_space:
  assumes "kernel_inv L A j ts qs s" "(p, f, g) \<in> set ts"
  shows "walk (mem s) (pr_dir (proc_of (mem s) p) - KERNEL_BASE) va = user_walk (f + PAGE_OFFSET) (g + PAGE_OFFSET) va"
    "f < KERNEL_BASE" "page_aligned f" "g < KERNEL_BASE" "page_aligned g"
proof -
  obtain B where "process_ok (mem s) B (p, f, g)"
    using assms unfolding kernel_inv_def by blast
  then show "walk (mem s) (pr_dir (proc_of (mem s) p) - KERNEL_BASE) va = user_walk (f + PAGE_OFFSET) (g + PAGE_OFFSET) va"
    by (intro space_walk [of _ B]) (simp add: process_ok_def)
  have "f \<in> set (frames ts)" "g \<in> set (frames ts)" using assms(2) by (force simp: frames_def)+
  then show "f < KERNEL_BASE" "page_aligned f" "g < KERNEL_BASE" "page_aligned g"
    using assms(1) unfolding kernel_inv_def by blast+
qed

text \<open>
  The invariant keeps processes apart. In every state it holds in, code in ring 3 of
  a process reaches through its page directory only addresses below the kernel half, and behind
  them only physical memory past the first GiB, where the kernel keeps nothing but free pages;
  and no such byte of memory is one that another process can reach.
\<close>

lemma processes_apart:
  assumes "kernel_inv L A j ts qs s" "(p, f, g) \<in> set ts" "(p', f', g') \<in> set ts"
    "walk (mem s) (pr_dir (proc_of (mem s) p) - KERNEL_BASE) va = Some (pa, True, w)"
  shows "va < KERNEL_BASE \<and> PAGE_OFFSET \<le> pa \<and>
    ((p, f, g) \<noteq> (p', f', g') \<longrightarrow>
     (\<forall>vb w'. walk (mem s) (pr_dir (proc_of (mem s) p') - KERNEL_BASE) vb \<noteq> Some (pa, True, w')))"
proof -
  note P = process_space [OF assms(1,2)] and P' = process_space [OF assms(1,3)]
  have u: "user_walk (f + PAGE_OFFSET) (g + PAGE_OFFSET) va = Some (pa, True, w)"
    using assms(4) unfolding P(1) .
  then obtain q where q: "q \<in> {f, g}" "pa = (q + PAGE_OFFSET) OR (va AND 0xfff)" and va: "va < KERNEL_BASE"
    using user_walk_user [OF u] by blast
  have qok: "q < KERNEL_BASE" "page_aligned q" using q(1) P(2-5) by auto
  have hi: "PAGE_OFFSET \<le> pa" unfolding q(2) by (rule user_page_high [OF qok])
  have "walk (mem s) (pr_dir (proc_of (mem s) p') - KERNEL_BASE) vb \<noteq> Some (pa, True, w')"
    if ne: "(p, f, g) \<noteq> (p', f', g')" for vb w'
  proof
    assume "walk (mem s) (pr_dir (proc_of (mem s) p') - KERNEL_BASE) vb = Some (pa, True, w')"
    then have "user_walk (f' + PAGE_OFFSET) (g' + PAGE_OFFSET) vb = Some (pa, True, w')" unfolding P'(1) .
    from user_walk_user [OF this] obtain r where
      r: "r \<in> {f', g'}" "pa = (r + PAGE_OFFSET) OR (vb AND 0xfff)" by blast
    have rok: "page_aligned r" using r(1) P'(2-5) by auto
    have "(q + PAGE_OFFSET) OR (va AND 0xfff) = (r + PAGE_OFFSET) OR (vb AND 0xfff)"
      by (rule trans [OF q(2) [symmetric] r(2)])
    from page_or_eq [OF page_offset_aligned [OF qok(2)] page_offset_aligned [OF rok] this]
    have "q + PAGE_OFFSET = r + PAGE_OFFSET" .
    then have "q = r" by simp
    moreover have "distinct (frames ts)" using assms(1) unfolding kernel_inv_def by simp
    ultimately show False using frames_disjoint [OF _ assms(2,3) ne] q(1) r(1) by blast
  qed
  with va hi show ?thesis by blast
qed

text \<open>
  (C9) \<open>create_process\<close> succeeds while two free pages and room for its five blocks are left. The
  new process is last in the queue, ready to run in ring 3 at the address given, with a live
  kernel stack of a page; its address space is exactly its page of code, which holds a jump to
  itself, its page of stack and the kernel half; and the invariant of the kernel, the old
  processes included, is kept.
\<close>

theorem create_process_builds:
  assumes "kernel_inv L A (j + 5) ts (q1 # q2 # qs) s" "13 \<le> j"
  shows "\<exists>s' p K D n A'. create_process L eip s = Some s' \<and> kernel_inv L A' j (ts @ [(p, q2, q1)]) qs s' \<and> A \<subseteq> A' \<and>
    map (proc_of (mem s')) (map fst ts @ [p]) = map (proc_of (mem s)) (map fst ts) @ [new_proc eip (K + 4092) D] \<and>
    4096 \<le> n \<and> (K, n) \<in> A' - A \<and>
    (\<forall>va. walk (mem s') (D - KERNEL_BASE) va = user_walk (q2 + PAGE_OFFSET) (q1 + PAGE_OFFSET) va) \<and>
    (\<forall>i < 5. mem s' (q2 + of_nat i) = self_jump ! i) \<and>
    eq_off (\<Union> (pd_bytes ` set (map fst ts)) \<union> page_set q2 \<union> - (regions A \<union> - kernel_area)) (mem s) (mem s')"
proof -
  obtain p K D n A' m fl where
    *: "let s' = s\<lparr>mem := m, page_freelist := fl, current_process := hd (map fst ts @ [p])\<rparr> in
    create_process L eip s = Some s' \<and> kernel_inv L A' j (ts @ [(p, q2, q1)]) qs s' \<and> A \<subseteq> A' \<and>
    map (proc_of m) (map fst ts @ [p]) = map (proc_of (mem s)) (map fst ts) @ [new_proc eip (K + 4092) D] \<and>
    4096 \<le> n \<and> (K, n) \<in> A' - A \<and> (\<forall>k > 0. (p, k) \<notin> A) \<and> (\<forall>i < 5. m (q2 + of_nat i) = self_jump ! i) \<and>
    eq_off (\<Union> (pd_bytes ` set (map fst ts)) \<union> page_set q2 \<union> - (regions A \<union> - kernel_area)) (mem s) m"
    using create_process_inv [OF assms, of eip] by (elim exE)
  let ?s = "s\<lparr>mem := m, page_freelist := fl, current_process := hd (map fst ts @ [p])\<rparr>"
  have inv: "kernel_inv L A' j (ts @ [(p, q2, q1)]) qs ?s" and pr: "proc_of m p = new_proc eip (K + 4092) D"
    using * by (simp_all add: Let_def)
  have "pr_dir (proc_of (mem ?s) p) = D" using pr by (simp add: new_proc_def)
  then have "walk (mem ?s) (D - KERNEL_BASE) va = user_walk (q2 + PAGE_OFFSET) (q1 + PAGE_OFFSET) va" for va
    using process_space(1) [OF inv, of p q2 q1 va] by simp
  then show ?thesis
    using * unfolding Let_def
    by - (rule exI [of _ ?s], rule exI [of _ p], rule exI [of _ K], rule exI [of _ D], rule exI [of _ n],
      rule exI [of _ A'], simp)
qed

text \<open>A booted machine without processes.\<close>

lemma boot_inv:
  "\<exists>s A. kernel_inv boot_layout A 28 [] all_pages (s :: proc_machine) \<and> current_process s = 0"
proof -
  obtain b :: paging_machine and A where b: "kernel_space boot_layout b" "zheap b A 28"
    "page_list (mem b) (page_freelist b) all_pages"
    using boot_paging_state by blast
  define s where "s = paging_machine.extend b (proc_machine.fields 0)"
  have e: "mem s = mem b" "cr3 s = cr3 b" "page_freelist s = page_freelist b" "current_process s = 0"
    by (simp_all add: s_def paging_machine.defs proc_machine.defs)
  have "kernel_inv boot_layout A 28 [] all_pages s"
    using b by (simp add: kernel_inv_def kernel_space_def zheap_def e frames_def queue_ok_def all_pages_distinct) blast
  with e show ?thesis by blast
qed

lemma all_pages_split: "\<exists>qs. all_pages = page_at 0 # page_at 1 # page_at 2 # page_at 3 # qs"
proof -
  have "[0..<4 + n] = [0, 1, 2, 3] @ [4..<4 + n]" for n
  proof -
    have "[0..<4 + n] = [0..<4] @ [4..<4 + n]" by (rule upt_add_eq_append) simp
    moreover have "[0..<4] = [0, 1, 2, 3 :: nat]" by (simp add: upt_rec)
    ultimately show ?thesis by simp
  qed
  from this [of 786428] have "[0..<786432] = [0, 1, 2, 3] @ [4..<786432]" by (simp del: upt_rec_numeral)
  from arg_cong [OF this, of "map page_at"] show ?thesis
    unfolding all_pages_def by (simp del: upt_rec_numeral)
qed

theorem create_process_builds_witness:
  "\<exists>s s' p D. create_process boot_layout 0x1000 (s :: proc_machine) = Some s' \<and> current_process s' = p \<and>
     fr_eip (pr_frame (proc_of (mem s') p)) = 0x1000 \<and>
     walk (mem s') (pr_dir (proc_of (mem s') p) - KERNEL_BASE) 0x123 = Some (0x40001123, True, True)"
proof -
  obtain s :: proc_machine and A where s: "kernel_inv boot_layout A 28 [] all_pages s"
    using boot_inv by blast
  obtain qs where qs: "all_pages = page_at 0 # page_at 1 # qs" using all_pages_split by blast
  have s': "kernel_inv boot_layout A (23 + 5) [] (page_at 0 # page_at 1 # qs) s" using s qs by simp
  have j: "(13 :: nat) \<le> 23" by simp
  obtain s1 p K D A' where s1: "create_process boot_layout 0x1000 s = Some s1"
    "kernel_inv boot_layout A' 23 ([] @ [(p, page_at 1, page_at 0)]) qs s1"
    "proc_of (mem s1) p = new_proc 0x1000 (K + 4092) D"
    "\<forall>va. walk (mem s1) (D - KERNEL_BASE) va = user_walk (page_at 1 + PAGE_OFFSET) (page_at 0 + PAGE_OFFSET) va"
    using create_process_builds [OF s' j, of "0x1000"] 
    by (elim exE conjE) (rule that; simp)
  note p = s1(3)
  have c: "current_process s1 = p" using s1(2) by (simp add: kernel_inv_def queue_ok_def)
  have "walk (mem s1) (D - KERNEL_BASE) 0x123 = Some (0x40001123, True, True)"
    unfolding spec [OF s1(4)] by (simp add: user_walk_def page_at_def PAGE_OFFSET_def)
  then show ?thesis
    using s1(1) c by (intro exI [of _ s] exI [of _ s1] exI [of _ p]) (simp add: p new_proc_def)
qed

end
