(* ===== verification/Kernel_Main.thy ===== *)
theory Kernel_Main
  imports Kernel_State
begin

text \<open>
  The start of the kernel, \<open>kernel_main\<close> of src/kernel/kernel.c, with all the components it
  composes, and what the machine looks like when the first process is entered.
\<close>

text \<open>
  Interrupts are enabled while the processes are created, but scheduling is not: such an
  interrupt is transparent (theory \<open>Timer\<close>), so none are modelled here.
\<close>

definition kernel_main :: "layout \<Rightarrow> 'a timer_machine_scheme \<Rightarrow> 'a timer_machine_scheme outcome option" where
  "kernel_main L s = do {
     let s = init_gdt L s;
     s \<leftarrow> load_gdt L s;
     s \<leftarrow> init_kernel_heap rd8 wr8 s;
     (test1, s) \<leftarrow> kernel_allocate rd8 wr8 s 4;
     (test2, s) \<leftarrow> kernel_allocate rd8 wr8 s 4;
     s \<leftarrow> wr32 wr8 s test1 0x11223344;
     s \<leftarrow> wr32 wr8 s test2 0xabcdef12;
     s \<leftarrow> init_idt s;
     s \<leftarrow> init_timer L s;
     let s = init_pic s;
     let s = load_idt s;
     s \<leftarrow> init_paging L s;
     let s = init_processes s;
     let s = enable_interrupts s;
     s \<leftarrow> create_process L 0 s;
     s \<leftarrow> create_process L 0 s;
     let s = enable_switching s;
     force_enter_userland s
   }"

section \<open>The stages of the start\<close>

lemma load_gdt_ok:
  assumes "length (gdt s) = GDT_LIMIT"
  shows "\<exists>s'. load_gdt L (init_gdt L s) = Some s' \<and> mem s' = mem s"
  using assms
  by (simp add: init_gdt_def load_gdt_def load_gdt_segments_def load_check_def seg_lookup_def Let_def
      GDT_LIMIT_def code_desc_def data_desc_def tss_desc_def)

lemma block_bits_int: "block_bits 5 = 3"
  by (simp add: block_bits_def compute_floorlog)

lemma zheap_int:
  assumes "zheap s A (Suc j)" "3 \<le> j"
  shows "\<exists>p n m. kernel_allocate rd8 wr8 s 4 = Some (p, s\<lparr>mem := m\<rparr>) \<and> 4 \<le> n \<and>
    zheap (s\<lparr>mem := m\<rparr>) (insert (p, n) A) j"
proof -
  have sz: "unat (4 :: u32) + 1 = 5" by simp
  have "block_bits (unat (4 :: u32) + 1) \<le> j" "unat (4 :: u32) + 1 < 2 ^ 28"
    using assms(2) unfolding sz block_bits_int by simp_all
  from zheap_alloc [OF assms(1) this] show ?thesis by auto
qed

lemma wr32_live:
  assumes "zheap s A j" "(p, n) \<in> A" "4 \<le> n"
  shows "\<exists>m. wr32 wr8 s p v = Some (s\<lparr>mem := m\<rparr>) \<and> zheap (s\<lparr>mem := m\<rparr>) A j"
proof -
  note live = zheap_live [OF assms(1)]
  have b: "0xd0000000 \<le> unat p" "unat p + 4 \<le> 0xf0000000" using live_bounds [OF live assms(2)] assms(3) by simp_all
  have "KERNEL_BASE \<le> p + of_nat k" if "k < 4" for k
    using unat_add_of_nat [of p k] b that by (simp add: word_le_nat_alt)
  from this [of 0] this [of 1] this [of 2] this [of 3]
  have w: "wr32 wr8 s p v = Some (s\<lparr>mem := st32 (mem s) p v\<rparr>)" by (intro kmem.wr32_upd) simp_all
  have b4: "unat p + 4 \<le> 2 ^ 32" using b by simp
  have "bytes_at p 4 \<subseteq> region p n"
    using assms(3) by (auto simp: bytes_at_unat [OF b4] region_def inside_def)
  also have "\<dots> \<subseteq> regions A" using assms(2) by (auto simp: regions_def)
  finally have "zheap (s\<lparr>mem := st32 (mem s) p v\<rparr>) A j"
    by (intro zheap_off [OF assms(1) eq_off_st32]) blast
  with w show ?thesis by blast
qed

text \<open>From the heap to the table of gates.\<close>

lemma boot_heap:
  assumes "\<forall>x \<in> kernel_area. mem s x = 0"
  shows "\<exists>p1 p2 n1 n2 m0 m1 m2 m3 m4.
    init_kernel_heap rd8 wr8 s = Some (s\<lparr>mem := m0\<rparr>) \<and>
    kernel_allocate rd8 wr8 (s\<lparr>mem := m0\<rparr>) 4 = Some (p1, s\<lparr>mem := m1\<rparr>) \<and>
    kernel_allocate rd8 wr8 (s\<lparr>mem := m1\<rparr>) 4 = Some (p2, s\<lparr>mem := m2\<rparr>) \<and>
    wr32 wr8 (s\<lparr>mem := m2\<rparr>) p1 v1 = Some (s\<lparr>mem := m3\<rparr>) \<and>
    wr32 wr8 (s\<lparr>mem := m3\<rparr>) p2 v2 = Some (s\<lparr>mem := m4\<rparr>) \<and>
    zheap (s\<lparr>mem := m4\<rparr>) {(p2, n2), (p1, n1)} 27"
proof -
  obtain m0 where 0: "init_kernel_heap rd8 wr8 s = Some (s\<lparr>mem := m0\<rparr>)" "zheap (s\<lparr>mem := m0\<rparr>) {} 29"
    using init_kernel_heap_zheap [of s] assms by blast
  have z0: "zheap (s\<lparr>mem := m0\<rparr>) {} (Suc 28)" using 0(2) by simp
  obtain p1 n1 m1 where 1: "kernel_allocate rd8 wr8 (s\<lparr>mem := m0\<rparr>) 4 = Some (p1, s\<lparr>mem := m1\<rparr>)" "4 \<le> n1"
    "zheap (s\<lparr>mem := m1\<rparr>) {(p1, n1)} 28"
    using zheap_int [OF z0] by auto
  have z1: "zheap (s\<lparr>mem := m1\<rparr>) {(p1, n1)} (Suc 27)" using 1(3) by simp
  obtain p2 n2 m2 where 2: "kernel_allocate rd8 wr8 (s\<lparr>mem := m1\<rparr>) 4 = Some (p2, s\<lparr>mem := m2\<rparr>)" "4 \<le> n2"
    "zheap (s\<lparr>mem := m2\<rparr>) {(p2, n2), (p1, n1)} 27"
    using zheap_int [OF z1] by auto
  let ?A = "{(p2, n2), (p1, n1)}"
  obtain m3 where 3: "wr32 wr8 (s\<lparr>mem := m2\<rparr>) p1 v1 = Some (s\<lparr>mem := m3\<rparr>)" "zheap (s\<lparr>mem := m3\<rparr>) ?A 27"
    using wr32_live [OF 2(3) _ 1(2), of p1 v1] by auto
  obtain m4 where 4: "wr32 wr8 (s\<lparr>mem := m3\<rparr>) p2 v2 = Some (s\<lparr>mem := m4\<rparr>)" "zheap (s\<lparr>mem := m4\<rparr>) ?A 27"
    using wr32_live [OF 3(2) _ 2(2), of p2 v2] by auto
  show ?thesis
    by (rule exI [of _ p1], rule exI [of _ p2], rule exI [of _ n1], rule exI [of _ n2], rule exI [of _ m0],
      rule exI [of _ m1], rule exI [of _ m2], rule exI [of _ m3], rule exI [of _ m4],
      intro conjI 0(1) 1(1) 2(1) 3(1) 4)
qed

text \<open>The gates when the first process is entered: those of the timer and of page faults only.\<close>

definition boot_gates :: "layout \<Rightarrow> u8 \<Rightarrow> idt_desc" where
  "boot_gates L v = (if v = 14 then intr_gate (isr_addr L Pagefault)
     else if v = 0x20 then intr_gate (isr_addr L Timer) else dec_id 0)"

lemma zero_gates:
  assumes "idt_live A s" "\<forall>x \<in> region (idt s) 2048. mem s x = 0"
  shows "gate s = (\<lambda>_. dec_id 0)"
proof -
  let ?z = "s\<lparr>mem := \<lambda>_. 0\<rparr>"
  have "gate ?z = gate s"
    by (rule gate_cong [OF assms(1)]) (use assms(2) in simp_all)
  moreover have "gate ?z v = dec_id 0" for v by (simp add: gate_def ld64_def ld32_def)
  ultimately show ?thesis by auto
qed

lemma boot_tables:
  assumes L: "layout_ok L" and z: "zheap s A 27"
  shows "\<exists>s1 s2 s4 A'. init_idt s = Some s1 \<and> init_timer L s1 = Some s2 \<and>
    init_paging L (load_idt (init_pic s2)) = Some s4 \<and>
    (let s5 = enable_interrupts (init_processes s4) in
      kernel_inv L A' 26 [] all_pages s5 \<and> idt_live A' s5 \<and> gate s5 = boot_gates L \<and>
      cpu_idtr s5 = \<lparr>idtr_size = 2047, idtr_offset = idt s5\<rparr>)"
proof -
  have z': "zheap s A (Suc 26)" using z by simp
  obtain q n m1 where 1: "init_idt s = Some (s\<lparr>mem := m1, idt := q, idtr := \<lparr>idtr_size = 2047, idtr_offset = q\<rparr>\<rparr>)"
    "2048 \<le> n" "zheap (s\<lparr>mem := m1\<rparr>) (insert (q, n) A) 26" "idt_live (insert (q, n) A) (s\<lparr>mem := m1, idt := q\<rparr>)"
    "\<forall>x \<in> region q n. m1 x = 0"
    using init_idt_zheap [OF z'] by auto
  let ?A = "insert (q, n) A" and ?s1 = "s\<lparr>mem := m1, idt := q, idtr := \<lparr>idtr_size = 2047, idtr_offset = q\<rparr>\<rparr>"
  have l1: "idt_live ?A ?s1" using 1(4) by (simp add: idt_live_def kernel_live_def)
  have rq: "region q 2048 \<subseteq> region q n" using 1(2) by (auto simp: region_def inside_def)
  have g1: "gate ?s1 = (\<lambda>_. dec_id 0)"
    by (rule zero_gates [OF l1]) (use 1(5) rq in auto)
  obtain m2 where 2: "init_timer L ?s1 = Some (?s1\<lparr>switching_enabled := 0, mem := m2,
      ports := ports s @ [(0x43, 0x34), (0x40, 0xa9), (0x40, 4)]\<rparr>)"
    "gate (?s1\<lparr>switching_enabled := 0, mem := m2,
      ports := ports s @ [(0x43, 0x34), (0x40, 0xa9), (0x40, 4)]\<rparr>) = (gate ?s1)(0x20 := intr_gate (isr_addr L Timer))"
    "idt_live ?A (?s1\<lparr>switching_enabled := 0, mem := m2,
      ports := ports s @ [(0x43, 0x34), (0x40, 0xa9), (0x40, 4)]\<rparr>)"
    "eq_off (region q (8 * IDT_LIMIT)) m1 m2"
    using init_timer_ok [OF l1, of L] by (auto simp: Let_def)
  let ?s2 = "?s1\<lparr>switching_enabled := 0, mem := m2, ports := ports s @ [(0x43, 0x34), (0x40, 0xa9), (0x40, 4)]\<rparr>"
  have "region q (8 * IDT_LIMIT) \<subseteq> regions ?A" using rq by (auto simp: regions_def IDT_LIMIT_def)
  then have z2: "zheap (s\<lparr>mem := m1, mem := m2\<rparr>) ?A 26"
    by (intro zheap_off [OF 1(3), of "region q (8 * IDT_LIMIT)"]) (use 2(4) in auto)
  define s3 where "s3 = load_idt (init_pic ?s2)"
  have e3: "mem s3 = m2" "idt s3 = q" "idtr s3 = \<lparr>idtr_size = 2047, idtr_offset = q\<rparr>"
    "cpu_idtr s3 = \<lparr>idtr_size = 2047, idtr_offset = q\<rparr>"
    by (simp_all add: s3_def load_idt_def init_pic_def outportb_def Let_def)
  have l3: "idt_live ?A s3" "zheap s3 ?A 26"
    using 2(3) z2 by (simp_all add: idt_live_def kernel_live_def zheap_def e3)
  have g3: "gate s3 = gate ?s2" by (rule ext) (simp add: gate_def e3)
  obtain m4 where 4: "let s' = s3\<lparr>mem := m4, cr3 := kernel_memory_addr L - KERNEL_BASE, page_freelist := 0\<rparr> in
    init_paging L s3 = Some s' \<and> kernel_space L s' \<and> idt_live ?A s' \<and> zheap s' ?A 26 \<and>
    page_list m4 0 all_pages \<and> gate s' = (gate s3)(14 := intr_gate (isr_addr L Pagefault)) \<and>
    eq_off (paging_bytes L (idt s3)) (mem s3) m4"
    using init_paging_zheap [OF L l3] by (elim exE)
  define s4 where "s4 = s3\<lparr>mem := m4, cr3 := kernel_memory_addr L - KERNEL_BASE, page_freelist := 0\<rparr>"
  have 5: "init_paging L s3 = Some s4" "kernel_space L s4" "idt_live ?A s4" "zheap s4 ?A 26"
    "page_list m4 0 all_pages" "gate s4 = (gate s3)(14 := intr_gate (isr_addr L Pagefault))"
    using 4 by (simp_all add: Let_def s4_def)
  define s5 where "s5 = enable_interrupts (init_processes s4)"
  have e5: "mem s5 = mem s4" "cr3 s5 = cr3 s4" "page_freelist s5 = 0" "idt s5 = idt s4" "current_process s5 = 0"
    "cpu_idtr s5 = cpu_idtr s3" "idt s4 = q" "mem s4 = m4"
    by (simp_all add: s5_def s4_def enable_interrupts_def init_processes_def e3)
  have "kernel_inv L ?A 26 [] all_pages s5"
    using 5 by (simp add: kernel_inv_def kernel_space_def zheap_def e5 frames_def queue_ok_def
        all_pages_distinct) blast
  moreover have "idt_live ?A s5" using 5 by (simp add: idt_live_def kernel_live_def e5)
  moreover have "gate s5 = gate s4" by (rule ext) (simp add: gate_def e5)
  then have "gate s5 = boot_gates L"
    using 5(6) 2(2) g1 g3 by (auto simp: boot_gates_def fun_eq_iff)
  moreover have "cpu_idtr s5 = \<lparr>idtr_size = 2047, idtr_offset = idt s5\<rparr>" by (simp add: e5 e3)
  ultimately show ?thesis
    using 1(1) 2(1) 5(1) unfolding Let_def s5_def s3_def
    by - (rule exI [of _ ?s1], rule exI [of _ ?s2], rule exI [of _ s4], rule exI [of _ ?A], blast)
qed

lemma page_sets_apart:
  assumes "page_aligned q" "page_aligned r" "q \<noteq> r" "q < KERNEL_BASE" "r < KERNEL_BASE"
  shows "page_set r \<inter> page_set q = {}"
proof -
  obtain k l where k: "unat q = 4096 * k" "unat r = 4096 * l"
    using assms(1,2) by (auto simp: page_aligned_dvd elim!: dvdE)
  have kl: "k \<noteq> l" using assms(3) k by (auto simp: word_unat_eq_iff)
  have b: "unat q + 4096 \<le> 2 ^ 32" "unat r + 4096 \<le> 2 ^ 32" using assms(4,5) by (simp_all add: word_less_nat_alt)
  show ?thesis
    using kl by (auto simp: page_set_def bytes_at_unat [OF b(1)] bytes_at_unat [OF b(2)] k)
qed

text \<open>The table of gates is apart from the descriptor of a new process.\<close>

lemma idt_apart:
  assumes l: "idt_live A s" and l1: "kernel_live s1 A1" "A \<subseteq> A1" and p: "(p, n) \<in> A1" "85 \<le> n" "\<And>k. 0 < k \<Longrightarrow> (p, k) \<notin> A"
  shows "region (idt s) 2048 \<subseteq> regions A" "region (idt s) 2048 \<subseteq> kernel_area" "pd_bytes p \<inter> region (idt s) 2048 = {}"
proof -
  obtain ni where ni: "2048 \<le> ni" "(idt s, ni) \<in> A" and live: "kernel_live s A"
    using l by (auto simp: idt_live_def IDT_LIMIT_def)
  show "region (idt s) 2048 \<subseteq> regions A" "region (idt s) 2048 \<subseteq> kernel_area"
    using region_area [OF live ni(2,1)] .
  have "(p, n) \<noteq> (idt s, ni)" using p(3) [of ni] ni by auto
  then have "region p n \<inter> region (idt s) ni = {}"
    using kernel_live_disjoint [OF l1(1) p(1), of "idt s" ni] ni(2) l1(2) by blast
  moreover have "region (idt s) 2048 \<subseteq> region (idt s) ni" using ni(1) by (auto simp: region_def inside_def)
  ultimately show "pd_bytes p \<inter> region (idt s) 2048 = {}" using live_pd(2) [OF l1(1) p(1,2)] by blast
qed

text \<open>The two processes and the entry of the first.\<close>

lemma boot_processes:
  assumes inv: "kernel_inv L A (j + 10) [] (q1 # q2 # q3 # q4 # qs) s" and j: "13 \<le> j" and l: "idt_live A s"
  shows "\<exists>s1 s2 s' p p' A' K D. create_process L 0 s = Some s1 \<and> create_process L 0 s1 = Some s2 \<and>
    force_enter_userland (enable_switching s2) = Some (Resumes (user_context (new_proc 0 K D)) s') \<and>
    kernel_inv L A' j [(p, q2, q1), (p', q4, q3)] qs s2 \<and>
    s' = enter_state p (new_proc 0 K D) (enable_switching s2) \<and>
    proc_of (mem s2) p = new_proc 0 K D \<and>
    (\<forall>i < 5. mem s2 (q2 + of_nat i) = self_jump ! i \<and> mem s2 (q4 + of_nat i) = self_jump ! i) \<and>
    gate s2 = gate s \<and> idt s2 = idt s \<and> cpu_idtr s2 = cpu_idtr s"
proof -
  have inv': "kernel_inv L A ((j + 5) + 5) [] (q1 # q2 # q3 # q4 # qs) s" "13 \<le> j + 5"
    using inv j by (simp_all add: add.assoc)
  have q: "q2 < KERNEL_BASE" "page_aligned q2" "q4 < KERNEL_BASE" "page_aligned q4" "q2 \<noteq> q4"
    using inv by (simp_all add: kernel_inv_def)
  obtain p K D n A1 m fl where 1:
    "let s' = s\<lparr>mem := m, page_freelist := fl, current_process := hd (map fst ([] :: process list) @ [p])\<rparr> in
    create_process L 0 s = Some s' \<and> kernel_inv L A1 (j + 5) ([] @ [(p, q2, q1)]) (q3 # q4 # qs) s' \<and> A \<subseteq> A1 \<and>
    map (proc_of m) (map fst ([] :: process list) @ [p]) =
      map (proc_of (mem s)) (map fst ([] :: process list)) @ [new_proc 0 (K + 4092) D] \<and>
    4096 \<le> n \<and> (K, n) \<in> A1 - A \<and> (\<forall>k > 0. (p, k) \<notin> A) \<and> (\<forall>i < 5. m (q2 + of_nat i) = self_jump ! i) \<and>
    eq_off (\<Union> (pd_bytes ` set (map fst ([] :: process list))) \<union> page_set q2 \<union> - (regions A \<union> - kernel_area)) (mem s) m"
    using create_process_inv [OF inv', of 0] by (elim exE)
  define s1 where "s1 = s\<lparr>mem := m, page_freelist := fl, current_process := p\<rparr>"
  have s1: "create_process L 0 s = Some s1" "kernel_inv L A1 (j + 5) [(p, q2, q1)] (q3 # q4 # qs) s1" "A \<subseteq> A1"
    "proc_of (mem s1) p = new_proc 0 (K + 4092) D" "\<And>k. 0 < k \<Longrightarrow> (p, k) \<notin> A"
    "\<And>i. i < 5 \<Longrightarrow> mem s1 (q2 + of_nat i) = self_jump ! i"
    "eq_off (page_set q2 \<union> - (regions A \<union> - kernel_area)) (mem s) (mem s1)"
    "idt s1 = idt s" "cpu_idtr s1 = cpu_idtr s"
    using 1 by (simp_all add: Let_def s1_def)
  obtain p' K' D' n' A2 m' fl' where 2:
    "let s' = s1\<lparr>mem := m', page_freelist := fl', current_process := hd (map fst [(p, q2, q1)] @ [p'])\<rparr> in
    create_process L 0 s1 = Some s' \<and> kernel_inv L A2 j ([(p, q2, q1)] @ [(p', q4, q3)]) qs s' \<and> A1 \<subseteq> A2 \<and>
    map (proc_of m') (map fst [(p, q2, q1)] @ [p']) =
      map (proc_of (mem s1)) (map fst [(p, q2, q1)]) @ [new_proc 0 (K' + 4092) D'] \<and>
    4096 \<le> n' \<and> (K', n') \<in> A2 - A1 \<and> (\<forall>k > 0. (p', k) \<notin> A1) \<and> (\<forall>i < 5. m' (q4 + of_nat i) = self_jump ! i) \<and>
    eq_off (\<Union> (pd_bytes ` set (map fst [(p, q2, q1)])) \<union> page_set q4 \<union> - (regions A1 \<union> - kernel_area)) (mem s1) m'"
    using create_process_inv [OF s1(2) j, of 0] by (elim exE)
  define s2 where "s2 = s1\<lparr>mem := m', page_freelist := fl', current_process := p\<rparr>"
  have s2: "create_process L 0 s1 = Some s2" "kernel_inv L A2 j [(p, q2, q1), (p', q4, q3)] qs s2"
    "proc_of (mem s2) p = new_proc 0 (K + 4092) D" "\<And>i. i < 5 \<Longrightarrow> mem s2 (q4 + of_nat i) = self_jump ! i"
    "eq_off (pd_bytes p \<union> page_set q4 \<union> - (regions A1 \<union> - kernel_area)) (mem s1) (mem s2)"
    "idt s2 = idt s1" "cpu_idtr s2 = cpu_idtr s1" "current_process s2 = p"
    using 2 s1(4) by (simp_all add: Let_def s2_def)
  obtain n1 where n1: "85 \<le> n1" "(p, n1) \<in> A1"
    using s1(2) by (auto simp: kernel_inv_def)
  have live1: "kernel_live s1 A1" using s1(2) zheap_live by (auto simp: kernel_inv_def)
  have ok: "pd_ok p" and pka: "pd_bytes p \<subseteq> kernel_area"
    using live_pd [OF live1 n1(2,1)] region_area(2) [OF live1 n1(2) order_refl] by blast+
  have low: "page_set q2 \<inter> kernel_area = {}" "page_set q4 \<inter> kernel_area = {}"
    using page_set_low [OF q(1,2)] page_set_low [OF q(3,4)] area_not_low by blast+
  have code: "mem s2 (q2 + of_nat i) = self_jump ! i" if i: "i < 5" for i
  proof -
    have "q2 + of_nat i \<in> page_set q2" by (rule first_bytes_in_page [OF q(1)]) (use i in simp)
    then have "q2 + of_nat i \<notin> pd_bytes p \<union> page_set q4 \<union> - (regions A1 \<union> - kernel_area)"
      using low(1) pka page_sets_apart [OF q(4,2) _ q(3,1)] q(5) by blast
    from eq_offD [OF s2(5) this] s1(6) [OF i] show ?thesis by simp
  qed
  note idt = idt_apart [OF l live1 s1(3) n1(2,1) s1(5)]
  have rA: "regions A \<subseteq> regions A1" using s1(3) by (auto simp: regions_def)
  have "gate s2 = gate s"
  proof (rule gate_cong [OF l])
    show "idt s2 = idt s" using s2(6) s1(8) by simp
    fix x assume x: "x \<in> region (idt s) 2048"
    have "x \<notin> pd_bytes p \<union> page_set q4 \<union> - (regions A1 \<union> - kernel_area)"
      using x idt low(2) rA by blast
    moreover have "x \<notin> page_set q2 \<union> - (regions A \<union> - kernel_area)" using x idt(1,2) low(1) by blast
    ultimately show "mem s2 x = mem s x" using eq_offD [OF s2(5)] eq_offD [OF s1(7)] by simp
  qed
  moreover have "force_enter_userland (enable_switching s2) = Some (Resumes (user_context (new_proc 0 (K + 4092) D))
      (enter_state p (new_proc 0 (K + 4092) D) (enable_switching s2)))"
    unfolding force_enter_userland_def
    by (rule enter_user [OF ok])
      (use s2(3,8) runnable_new in \<open>simp_all add: enable_switching_def runnable_def\<close>)
  ultimately show ?thesis
    using s1(1,8,9) s2(1-4,6,7) code
    by - (rule exI [of _ s1], rule exI [of _ s2],
      rule exI [of _ "enter_state p (new_proc 0 (K + 4092) D) (enable_switching s2)"],
      rule exI [of _ p], rule exI [of _ p'], rule exI [of _ A2], rule exI [of _ "K + 4092"], rule exI [of _ D], simp)
qed

section \<open>The start of the kernel\<close>

text \<open>The stages in order; \<open>s7\<close> is the state before the first process is entered.\<close>

lemma boot_runs:
  assumes "layout_ok L" "length (gdt s) = GDT_LIMIT" "\<forall>x \<in> kernel_area. mem s x = 0"
  shows "\<exists>s7 p p' A' sp D qs.
    kernel_main L s = Some (Resumes (user_context (new_proc 0 sp D)) (enter_state p (new_proc 0 sp D) (enable_switching s7))) \<and>
    kernel_inv L A' 16 [(p, page_at 1, page_at 0), (p', page_at 3, page_at 2)] qs s7 \<and>
    proc_of (mem s7) p = new_proc 0 sp D \<and> (\<forall>i < 5. mem s7 (page_at 1 + of_nat i) = self_jump ! i) \<and>
    gate s7 = boot_gates L \<and> cpu_idtr s7 = \<lparr>idtr_size = 2047, idtr_offset = idt s7\<rparr>"
proof -
  obtain s0 where s0: "load_gdt L (init_gdt L s) = Some s0" "mem s0 = mem s"
    using load_gdt_ok [OF assms(2)] by blast
  have zero: "\<forall>x \<in> kernel_area. mem s0 x = 0" using assms(3) s0(2) by simp
  obtain p1 p2 n1 n2 m0 m1 m2 m3 m4 where h:
    "init_kernel_heap rd8 wr8 s0 = Some (s0\<lparr>mem := m0\<rparr>)"
    "kernel_allocate rd8 wr8 (s0\<lparr>mem := m0\<rparr>) 4 = Some (p1, s0\<lparr>mem := m1\<rparr>)"
    "kernel_allocate rd8 wr8 (s0\<lparr>mem := m1\<rparr>) 4 = Some (p2, s0\<lparr>mem := m2\<rparr>)"
    "wr32 wr8 (s0\<lparr>mem := m2\<rparr>) p1 0x11223344 = Some (s0\<lparr>mem := m3\<rparr>)"
    "wr32 wr8 (s0\<lparr>mem := m3\<rparr>) p2 0xabcdef12 = Some (s0\<lparr>mem := m4\<rparr>)"
    "zheap (s0\<lparr>mem := m4\<rparr>) {(p2, n2), (p1, n1)} 27"
    using boot_heap [OF zero, of "0x11223344" "0xabcdef12"] by (elim exE conjE)
  obtain s1 s2 s4 A where t: "init_idt (s0\<lparr>mem := m4\<rparr>) = Some s1" "init_timer L s1 = Some s2"
    "init_paging L (load_idt (init_pic s2)) = Some s4"
    and t5: "let s5 = enable_interrupts (init_processes s4) in
      kernel_inv L A 26 [] all_pages s5 \<and> idt_live A s5 \<and> gate s5 = boot_gates L \<and>
      cpu_idtr s5 = \<lparr>idtr_size = 2047, idtr_offset = idt s5\<rparr>"
    using boot_tables [OF assms(1) h(6)] by (elim exE conjE)
  define s5 where "s5 = enable_interrupts (init_processes s4)"
  obtain qs where qs: "all_pages = page_at 0 # page_at 1 # page_at 2 # page_at 3 # qs"
    using all_pages_split by blast
  have i5: "kernel_inv L A (16 + 10) [] (page_at 0 # page_at 1 # page_at 2 # page_at 3 # qs) s5" "idt_live A s5"
    "gate s5 = boot_gates L" "cpu_idtr s5 = \<lparr>idtr_size = 2047, idtr_offset = idt s5\<rparr>"
    using t5 qs by (simp_all add: Let_def s5_def)
  have j: "(13 :: nat) \<le> 16" by simp
  obtain s6 s7 s' p p' A' sp D where c: "create_process L 0 s5 = Some s6" "create_process L 0 s6 = Some s7"
    "force_enter_userland (enable_switching s7) = Some (Resumes (user_context (new_proc 0 sp D)) s')"
    and i7: "kernel_inv L A' 16 [(p, page_at 1, page_at 0), (p', page_at 3, page_at 2)] qs s7"
    and s': "s' = enter_state p (new_proc 0 sp D) (enable_switching s7)"
    and pr: "proc_of (mem s7) p = new_proc 0 sp D"
    and code: "\<forall>i < 5. mem s7 (page_at 1 + of_nat i) = self_jump ! i \<and> mem s7 (page_at 3 + of_nat i) = self_jump ! i"
    and g: "gate s7 = gate s5" "idt s7 = idt s5" "cpu_idtr s7 = cpu_idtr s5"
    using boot_processes [OF i5(1) j i5(2)] by (elim exE conjE)
  have "kernel_main L s = Some (Resumes (user_context (new_proc 0 sp D)) s')"
    unfolding kernel_main_def Let_def s0(1) Option.bind.bind_lunit h(1) h(2) prod.case h(3) h(4) h(5)
      t(1) t(2) t(3) s5_def [symmetric] c(1) c(2) c(3) ..
  then show ?thesis
    using i7 pr code g i5(3,4) unfolding s'
    by - (rule exI [of _ s7], rule exI [of _ p], rule exI [of _ p'], rule exI [of _ A'], rule exI [of _ sp],
      rule exI [of _ D], rule exI [of _ qs], simp)
qed

lemma kernel_main_enters:
  assumes "layout_ok L" "length (gdt s) = GDT_LIMIT" "\<forall>x \<in> kernel_area. mem s x = 0"
  shows "\<exists>s' p p' sp D. kernel_main L s = Some (Resumes (user_context (new_proc 0 sp D)) s') \<and>
    pds_apart (set [p, p']) \<and> scheduled [p, p'] s' \<and> iflag s' \<and>
    (\<forall>va. walk (mem s') (cr3 s') va = user_walk (page_at 1 + PAGE_OFFSET) (page_at 0 + PAGE_OFFSET) va) \<and>
    (\<forall>i < 5. mem s' (page_at 1 + of_nat i) = self_jump ! i) \<and>
    gate s' = (\<lambda>v. if v = 14 then intr_gate (isr_addr L Pagefault)
       else if v = 0x20 then intr_gate (isr_addr L Timer) else dec_id 0) \<and>
    cpu_idtr s' = \<lparr>idtr_size = 2047, idtr_offset = idt s'\<rparr>"
proof -
  obtain s7 p p' A' sp D qs where
    km: "kernel_main L s = Some (Resumes (user_context (new_proc 0 sp D)) (enter_state p (new_proc 0 sp D) (enable_switching s7)))"
    and i7: "kernel_inv L A' 16 [(p, page_at 1, page_at 0), (p', page_at 3, page_at 2)] qs s7"
    and pr: "proc_of (mem s7) p = new_proc 0 sp D" and code: "\<forall>i < 5. mem s7 (page_at 1 + of_nat i) = self_jump ! i"
    and g: "gate s7 = boot_gates L" "cpu_idtr s7 = \<lparr>idtr_size = 2047, idtr_offset = idt s7\<rparr>"
    using boot_runs [OF assms] by (elim exE conjE)
  define s' where s': "s' = enter_state p (new_proc 0 sp D) (enable_switching s7)"
  have e: "mem s' = mem s7" "current_process s' = p" "switching_enabled s' = 1" "idt s' = idt s7"
    "cpu_idtr s' = cpu_idtr s7" "cr3 s' = D - KERNEL_BASE" "iflag s'"
    by (simp_all add: s' enter_state_def enable_switching_def new_proc_def bit_iff_odd)
  obtain B where B: "B \<subseteq> A'" "\<exists>n \<ge> 85. (p, n) \<in> A' - B" "\<exists>n \<ge> 85. (p', n) \<in> A' - B"
    "process_ok (mem s7) B (p, page_at 1, page_at 0)" "process_ok (mem s7) B (p', page_at 3, page_at 2)"
    using i7 unfolding kernel_inv_def by auto
  have live: "kernel_live s7 A'" using i7 zheap_live by (auto simp: kernel_inv_def)
  have "pds_apart (set [p, p'])" by (rule live_pds_apart [OF live]) (use B in auto)
  moreover have "procq.ring (mem s7) [p, p']" using i7 by (simp add: kernel_inv_def queue_ok_def)
  then have "scheduled [p, p'] s'" using B(4,5) by (simp add: scheduled_def e process_ok_def)
  moreover have "walk (mem s') (cr3 s') va = user_walk (page_at 1 + PAGE_OFFSET) (page_at 0 + PAGE_OFFSET) va" for va
    using process_space(1) [OF i7, of p "page_at 1" "page_at 0" va] pr by (simp add: e new_proc_def)
  moreover have "gate s' = gate s7" by (rule ext) (simp add: gate_def e)
  then have "gate s' = (\<lambda>v. if v = 14 then intr_gate (isr_addr L Pagefault)
       else if v = 0x20 then intr_gate (isr_addr L Timer) else dec_id 0)"
    using g(1) by (simp add: boot_gates_def fun_eq_iff)
  moreover have "cpu_idtr s' = \<lparr>idtr_size = 2047, idtr_offset = idt s'\<rparr>" using e g by simp
  ultimately show ?thesis
    using km [folded s'] code e(1,7)
    by - (rule exI [of _ s'], rule exI [of _ p], rule exI [of _ p'], rule exI [of _ sp], rule exI [of _ D], simp)
qed

text \<open>
  (C2) From a machine whose heap area is zero, \<open>kernel_main\<close> succeeds and enters the first
  process in ring 3 at address 0, with interrupts on, in an address space of its own whose first
  page holds a jump to itself. Two processes are in the queue, in the state from which the timer
  interrupts schedule them round robin. Only vectors 14 and 0x20 have gates: \<open>kernel_main\<close>
  never installs the handlers of the exceptions, so any other interrupt finds no handler.
\<close>

theorem kernel_main_boots:
  assumes "layout_ok L" "length (gdt s) = GDT_LIMIT" "\<forall>x \<in> kernel_area. mem s x = 0"
  shows "\<exists>s' p p' sp D. kernel_main L s = Some (Resumes (user_context (new_proc 0 sp D)) s') \<and>
    pds_apart (set [p, p']) \<and> scheduled [p, p'] s' \<and> iflag s' \<and>
    (\<forall>va. walk (mem s') (cr3 s') va = user_walk (page_at 1 + PAGE_OFFSET) (page_at 0 + PAGE_OFFSET) va) \<and>
    (\<forall>i < 5. mem s' (page_at 1 + of_nat i) = self_jump ! i) \<and>
    gate s' = (\<lambda>v. if v = 14 then intr_gate (isr_addr L Pagefault)
       else if v = 0x20 then intr_gate (isr_addr L Timer) else dec_id 0) \<and>
    cpu_idtr s' = \<lparr>idtr_size = 2047, idtr_offset = idt s'\<rparr>"
  using assms by (rule kernel_main_enters)

theorem kernel_main_boots_witness:
  "\<exists>s c s' p p'. kernel_main boot_layout (s :: timer_machine) = Some (Resumes c s') \<and> ctx_eip c = 0 \<and>
     ctx_cs c = 0x1b \<and> ctx_esp c = Some 0xbffffffc \<and> scheduled [p, p'] s' \<and>
     walk (mem s') (cr3 s') 4 = Some (0x40001004, True, True) \<and> id_present (gate s' 0) = 0"
proof -
  let ?s = "two_timer\<lparr>mem := \<lambda>_. 0\<rparr>"
  have l: "length (gdt ?s) = GDT_LIMIT"
    by (simp add: two_timer_def two_procs_def proc_machine.defs timer_machine.defs)
  have z: "\<forall>x \<in> kernel_area. mem ?s x = 0" by simp
  obtain s' p p' sp D where s':
    "kernel_main boot_layout ?s = Some (Resumes (user_context (new_proc 0 sp D)) s')" "scheduled [p, p'] s'"
    "\<forall>va. walk (mem s') (cr3 s') va = user_walk (page_at 1 + PAGE_OFFSET) (page_at 0 + PAGE_OFFSET) va"
    "gate s' = (\<lambda>v. if v = 14 then intr_gate (isr_addr boot_layout Pagefault)
       else if v = 0x20 then intr_gate (isr_addr boot_layout Timer) else dec_id 0)"
    using kernel_main_boots [OF boot_layout_ok l z] by (elim exE conjE) (rule that; simp)
  have "walk (mem s') (cr3 s') 4 = Some (0x40001004, True, True)"
    unfolding spec [OF s'(3)] by (simp add: user_walk_def page_at_def PAGE_OFFSET_def)
  moreover have "id_present (dec_id 0) = 0" by (simp add: dec_id_def id_widths_def Let_def)
  ultimately show ?thesis
    using s'(1,2,4) by (intro exI [of _ ?s] exI [of _ "user_context (new_proc 0 sp D)"] exI [of _ s']
        exI [of _ p] exI [of _ p']) (simp add: user_context_def new_proc_def)
qed

section \<open>Isolation\<close>

text \<open>The physical memory that code of a process in ring 3 can reach through its page directory.\<close>

definition user_reach :: "bytes \<Rightarrow> u32 \<Rightarrow> u32 set" where
  "user_reach m p = {pa. \<exists>va w. walk m (pr_dir (proc_of m p) - KERNEL_BASE) va = Some (pa, True, w)}"

lemma kernel_main_spaces:
  assumes "layout_ok L" "length (gdt s) = GDT_LIMIT" "\<forall>x \<in> kernel_area. mem s x = 0"
  shows "\<exists>s' p p' sp D. kernel_main L s = Some (Resumes (user_context (new_proc 0 sp D)) s') \<and>
    scheduled [p, p'] s' \<and> p \<noteq> p' \<and> cr3 s' = pr_dir (proc_of (mem s') p) - KERNEL_BASE \<and>
    (\<forall>q \<in> {p, p'}. user_reach (mem s') q \<noteq> {} \<and> (\<forall>pa \<in> user_reach (mem s') q. PAGE_OFFSET \<le> pa)) \<and>
    user_reach (mem s') p \<inter> user_reach (mem s') p' = {} \<and>
    (\<forall>q \<in> {p, p'}. \<forall>va \<ge> KERNEL_BASE.
       walk (mem s') (pr_dir (proc_of (mem s') q) - KERNEL_BASE) va = Some (va - KERNEL_BASE, False, True))"
proof -
  obtain s7 p p' A' sp D qs where
    km: "kernel_main L s = Some (Resumes (user_context (new_proc 0 sp D)) (enter_state p (new_proc 0 sp D) (enable_switching s7)))"
    and i7: "kernel_inv L A' 16 [(p, page_at 1, page_at 0), (p', page_at 3, page_at 2)] qs s7"
    and pr: "proc_of (mem s7) p = new_proc 0 sp D"
    using boot_runs [OF assms] by (elim exE conjE)
  define s' where s': "s' = enter_state p (new_proc 0 sp D) (enable_switching s7)"
  have e: "mem s' = mem s7" "current_process s' = p" "switching_enabled s' = 1" "cr3 s' = D - KERNEL_BASE"
    by (simp_all add: s' enter_state_def enable_switching_def new_proc_def)
  let ?ts = "[(p, page_at 1, page_at 0), (p', page_at 3, page_at 2)]"
  have t: "(p, page_at 1, page_at 0) \<in> set ?ts" "(p', page_at 3, page_at 2) \<in> set ?ts" by simp_all
  note P = process_space(1) [OF i7 t(1)] and P' = process_space(1) [OF i7 t(2)]
  have first: "user_walk f g 0 = Some (f, True, True)" for f g by (simp add: user_walk_def)
  have "page_at 1 + PAGE_OFFSET \<noteq> page_at 3 + PAGE_OFFSET" by (simp add: page_at_def)
  then have ne: "p \<noteq> p'" using P [of 0] P' [of 0] unfolding first by auto
  have run: "\<forall>q \<in> {p, p'}. runnable (proc_of (mem s7) q)" "procq.ring (mem s7) [p, p']"
    using i7 by (auto simp: kernel_inv_def queue_ok_def process_ok_def)
  then have "scheduled [p, p'] s'" by (simp add: scheduled_def e)
  moreover have "user_reach (mem s') q \<noteq> {}" if "q \<in> {p, p'}" for q
    using that P [of 0] P' [of 0] unfolding first user_reach_def e(1) by blast
  moreover have "PAGE_OFFSET \<le> pa" if "q \<in> {p, p'}" "pa \<in> user_reach (mem s') q" for q pa
    using that processes_apart [OF i7 t(1,1)] processes_apart [OF i7 t(2,2)] unfolding user_reach_def e(1) by blast
  moreover have "user_reach (mem s') p \<inter> user_reach (mem s') p' = {}"
    using processes_apart [OF i7 t] ne unfolding user_reach_def e(1) by blast
  moreover have "walk (mem s') (pr_dir (proc_of (mem s') q) - KERNEL_BASE) va = Some (va - KERNEL_BASE, False, True)"
    if "q \<in> {p, p'}" "KERNEL_BASE \<le> va" for q va
    using that P [of va] P' [of va] unfolding e(1) by (auto simp: user_walk_def simp del: KERNEL_BASE_def)
  moreover have "cr3 s' = pr_dir (proc_of (mem s') p) - KERNEL_BASE" by (simp add: e pr new_proc_def)
  ultimately show ?thesis
    using km [folded s'] ne
    by - (rule exI [of _ s'], rule exI [of _ p], rule exI [of _ p'], rule exI [of _ sp], rule exI [of _ D], blast)
qed

text \<open>
  (C5) The two processes that \<open>kernel_main\<close> makes are isolated from each other and from the kernel.
  In the state in which it enters the first one, each can reach some physical memory in ring 3, all
  of it past the first GiB, which is all the kernel uses, and no byte of it is one that the other
  can reach. In both directories the kernel half is the same and closed to ring 3.
\<close>

theorem kernel_main_isolates:
  assumes "layout_ok L" "length (gdt s) = GDT_LIMIT" "\<forall>x \<in> kernel_area. mem s x = 0"
  shows "\<exists>s' p p' sp D. kernel_main L s = Some (Resumes (user_context (new_proc 0 sp D)) s') \<and>
    scheduled [p, p'] s' \<and> p \<noteq> p' \<and> cr3 s' = pr_dir (proc_of (mem s') p) - KERNEL_BASE \<and>
    (\<forall>q \<in> {p, p'}. user_reach (mem s') q \<noteq> {} \<and> (\<forall>pa \<in> user_reach (mem s') q. PAGE_OFFSET \<le> pa)) \<and>
    user_reach (mem s') p \<inter> user_reach (mem s') p' = {} \<and>
    (\<forall>q \<in> {p, p'}. \<forall>va \<ge> KERNEL_BASE.
       walk (mem s') (pr_dir (proc_of (mem s') q) - KERNEL_BASE) va = Some (va - KERNEL_BASE, False, True))"
  by (rule kernel_main_spaces [OF assms])

theorem kernel_main_isolates_witness:
  "\<exists>c s' p p'. kernel_main boot_layout (two_timer\<lparr>mem := \<lambda>_. 0\<rparr>) = Some (Resumes c s') \<and> ctx_cs c = 0x1b \<and>
    scheduled [p, p'] s' \<and> user_reach (mem s') p \<noteq> {} \<and> user_reach (mem s') p' \<noteq> {} \<and>
    user_reach (mem s') p \<inter> user_reach (mem s') p' = {} \<and>
    walk (mem s') (cr3 s') 0xc0100000 = Some (0x100000, False, True)"
proof -
  let ?s = "two_timer\<lparr>mem := \<lambda>_. 0\<rparr>"
  have l: "length (gdt ?s) = GDT_LIMIT"
    by (simp add: two_timer_def two_procs_def proc_machine.defs timer_machine.defs)
  have z: "\<forall>x \<in> kernel_area. mem ?s x = 0" by simp
  obtain s' p p' sp D where
    "kernel_main boot_layout ?s = Some (Resumes (user_context (new_proc 0 sp D)) s')" "scheduled [p, p'] s'"
    "\<forall>q \<in> {p, p'}. user_reach (mem s') q \<noteq> {} \<and> (\<forall>pa \<in> user_reach (mem s') q. PAGE_OFFSET \<le> pa)"
    "user_reach (mem s') p \<inter> user_reach (mem s') p' = {}"
    and w: "\<forall>q \<in> {p, p'}. \<forall>va \<ge> KERNEL_BASE.
       walk (mem s') (pr_dir (proc_of (mem s') q) - KERNEL_BASE) va = Some (va - KERNEL_BASE, False, True)"
    and c: "cr3 s' = pr_dir (proc_of (mem s') p) - KERNEL_BASE"
    using kernel_main_isolates [OF boot_layout_ok l z] by (elim exE conjE)
  moreover have "walk (mem s') (cr3 s') 0xc0100000 = Some (0x100000, False, True)"
    using w [rule_format, of p "0xc0100000"] unfolding c by simp
  ultimately show ?thesis
    by (intro exI [of _ "user_context (new_proc 0 sp D)"] exI [of _ s'] exI [of _ p] exI [of _ p'])
      (simp add: user_context_def new_proc_def)
qed

end
