(* ===== verification/C_String.thy ===== *)
theory C_String
  imports Machine
begin

text \<open>
  The memory functions of src/common/string.c, which the kernel and the boot loader are both
  linked with, over any byte memory. The counter runs through the naturals below the length,
  which are the values it takes.
\<close>

section \<open>Operations\<close>

definition memset ::
  "('s \<Rightarrow> u32 \<Rightarrow> u8 \<Rightarrow> 's option) \<Rightarrow> u32 \<Rightarrow> u8 \<Rightarrow> u32 \<Rightarrow> 's \<Rightarrow> (u32 \<times> 's) option" where
  "memset wr b c len s = do {
     s \<leftarrow> for_loop 0 (unat len) (\<lambda>i s. wr s (b + of_nat i) c) s;
     Some (b, s)
   }"

definition memcpy ::
  "('s \<Rightarrow> u32 \<Rightarrow> u8 option) \<Rightarrow> ('s \<Rightarrow> u32 \<Rightarrow> u8 \<Rightarrow> 's option) \<Rightarrow>
   u32 \<Rightarrow> u32 \<Rightarrow> u32 \<Rightarrow> 's \<Rightarrow> (u32 \<times> 's) option" where
  "memcpy rd wr dst src num s = do {
     s \<leftarrow> for_loop 0 (unat num) (\<lambda>i s. do {
       v \<leftarrow> rd s (src + of_nat i);
       wr s (dst + of_nat i) v
     }) s;
     Some (dst, s)
   }"

text \<open>The loop of \<open>memcmp\<close> with its early return; the result is an \<open>int\<close>.\<close>

function memcmp_loop ::
  "('s \<Rightarrow> u32 \<Rightarrow> u8 option) \<Rightarrow> u32 \<Rightarrow> u32 \<Rightarrow> nat \<Rightarrow> nat \<Rightarrow> 's \<Rightarrow> u32 option" where
  "memcmp_loop rd truth guess len i s =
     (if i < len then do {
        t \<leftarrow> rd s (truth + of_nat i);
        g \<leftarrow> rd s (guess + of_nat i);
        if t \<noteq> g then Some (ucast t - ucast g) else memcmp_loop rd truth guess len (Suc i) s
      } else Some 0)"
  by auto
termination by (relation "measure (\<lambda>(rd, truth, guess, len, i, s). len - i)") auto

declare memcmp_loop.simps [simp del]

definition memcmp :: "('s \<Rightarrow> u32 \<Rightarrow> u8 option) \<Rightarrow> u32 \<Rightarrow> u32 \<Rightarrow> u32 \<Rightarrow> 's \<Rightarrow> u32 option" where
  "memcmp rd truth guess len s = memcmp_loop rd truth guess (unat len) 0 s"

section \<open>What they compute\<close>

text \<open>Overlapping ranges: where the copy reads a byte it has already written.\<close>

lemma copy_index:
  assumes "i < 2 ^ 32"
  shows "unat (src + of_nat i - dst :: u32) =
    (if unat (dst - src) \<le> i then i - unat (dst - src) else i + 2 ^ 32 - unat (dst - src))"
proof -
  have "src + of_nat i - dst = of_nat i - (dst - src)" by simp
  then show ?thesis by (simp only: unat_sub_if' unat_of_nat_u32 [OF assms]) simp
qed

lemma copy_index_less:
  assumes "i < 2 ^ 32"
  shows "unat (src + of_nat i - dst :: u32) < i \<longleftrightarrow>
    0 < unat (dst - src) \<and> unat (dst - src) \<le> i"
  using unat_u32_less [of "dst - src"] unfolding copy_index [OF assms] by auto

context byte_memory
begin

lemma memset_upd:
  assumes "\<And>i. i < unat len \<Longrightarrow> R (b + of_nat i)"
  shows "memset wr b c len s =
    Some (b, upd s (\<lambda>x. if x \<in> bytes_at b (unat len) then c else view s x))"
proof -
  let ?P = "\<lambda>i t. t = upd s (\<lambda>x. if x \<in> bytes_at b i then c else view s x)"
  have "\<exists>t. for_loop 0 (unat len) (\<lambda>i s. wr s (b + of_nat i) c) s = Some t \<and> ?P (unat len) t"
  proof (rule for_loop_rule)
    show "?P 0 s" by (simp add: bytes_at_def)
  next
    fix j t assume j: "j < unat len" and t: "?P j t"
    have "unat (x - b) = j \<longleftrightarrow> x = b + of_nat j" for x
      using j unat_u32_less [of len] unat_of_nat_u32 [of j]
      by (auto simp: word_unat_eq_iff [of "x - b" "of_nat j"] diff_eq_eq add.commute
          dest: word_unat_eq_iff [THEN iffD2])
    then have "(view t)(b + of_nat j := c) = (\<lambda>x. if x \<in> bytes_at b (Suc j) then c else view s x)"
      by (auto simp: t bytes_at_def fun_eq_iff less_Suc_eq)
    with t assms [OF j] show "\<exists>t'. wr t (b + of_nat j) c = Some t' \<and> ?P (Suc j) t'"
      by (simp add: wr_upd)
  qed simp
  then show ?thesis by (auto simp: memset_def)
qed

text \<open>
  Byte \<open>i\<close> of the copy is byte \<open>i mod d\<close> of the source, for the distance
  \<open>d\<close> from the source to the destination: the copy runs upwards, so a destination that
  starts inside the source repeats its first \<open>d\<close> bytes. A distance of 0 or at least the
  length makes it a plain copy.
\<close>

lemma memcpy_upd:
  assumes "\<And>i. i < unat num \<Longrightarrow> R (dst + of_nat i)" "\<And>i. i < unat num \<Longrightarrow> R (src + of_nat i)"
  shows "memcpy rd wr dst src num s =
    Some (dst, upd s (\<lambda>x. if x \<in> bytes_at dst (unat num)
       then view s (src + of_nat (unat (x - dst) mod unat (dst - src))) else view s x))"
proof -
  let ?d = "unat (dst - src)"
  let ?m = "\<lambda>n x. if x \<in> bytes_at dst n then view s (src + of_nat (unat (x - dst) mod ?d)) else view s x"
  let ?P = "\<lambda>i t. t = upd s (?m i)"
  have "\<exists>t. for_loop 0 (unat num) (\<lambda>i s. do { v \<leftarrow> rd s (src + of_nat i); wr s (dst + of_nat i) v }) s
      = Some t \<and> ?P (unat num) t"
  proof (rule for_loop_rule)
    show "?P 0 s" by (simp add: bytes_at_def)
  next
    fix j t assume j: "j < unat num" and t: "?P j t"
    then have j32: "j < 2 ^ 32" using unat_u32_less [of num] by linarith
    note ix = copy_index [OF j32, of src dst] copy_index_less [OF j32, of src dst]
    have at: "unat (x - dst) = j \<longleftrightarrow> x = dst + of_nat j" for x
      using unat_of_nat_u32 [OF j32] by (metis add_diff_cancel_left' diff_add_cancel add.commute u32_eqI)
    have v: "?m j (src + of_nat j) = view s (src + of_nat (j mod ?d))"
    proof (cases "0 < ?d \<and> ?d \<le> j")
      case True
      with ix show ?thesis by (simp add: bytes_at_def le_mod_geq)
    next
      case False
      then have "j mod ?d = j" by auto
      with False ix(2) show ?thesis by (auto simp: bytes_at_def)
    qed
    have "(?m j)(dst + of_nat j := ?m j (src + of_nat j)) = ?m (Suc j)"
      unfolding v using unat_of_nat_u32 [OF j32] by (auto simp: bytes_at_def fun_eq_iff less_Suc_eq at)
    with t assms [OF j] show "\<exists>t'. do { v \<leftarrow> rd t (src + of_nat j); wr t (dst + of_nat j) v } = Some t' \<and> ?P (Suc j) t'"
      by (simp add: wr_upd rd_view)
  qed simp
  then show ?thesis by (auto simp: memcpy_def)
qed

text \<open>The first difference at or after byte \<open>i\<close> decides.\<close>

lemma memcmp_loop_equal:
  assumes "\<And>i. i < n \<Longrightarrow> R (a + of_nat i)" "\<And>i. i < n \<Longrightarrow> R (b + of_nat i)"
    "\<And>k. i \<le> k \<Longrightarrow> k < n \<Longrightarrow> view s (a + of_nat k) = view s (b + of_nat k)"
  shows "memcmp_loop rd a b n i s = Some 0"
  using assms(3)
proof (induction "n - i" arbitrary: i)
  case 0
  then show ?case by (subst memcmp_loop.simps) simp
next
  case (Suc k)
  with Suc.hyps(1) [of "Suc i"] assms(1,2) show ?case
    by (subst memcmp_loop.simps) (simp add: rd_view)
qed

lemma memcmp_loop_differs:
  assumes "\<And>i. i < n \<Longrightarrow> R (a + of_nat i)" "\<And>i. i < n \<Longrightarrow> R (b + of_nat i)"
    "i \<le> k" "k < n" "view s (a + of_nat k) \<noteq> view s (b + of_nat k)"
    "\<And>j. i \<le> j \<Longrightarrow> j < k \<Longrightarrow> view s (a + of_nat j) = view s (b + of_nat j)"
  shows "memcmp_loop rd a b n i s = Some (ucast (view s (a + of_nat k)) - ucast (view s (b + of_nat k)))"
  using assms(3,6)
proof (induction "k - i" arbitrary: i)
  case 0
  with assms(1,2,4,5) show ?case by (subst memcmp_loop.simps) (simp add: rd_view)
next
  case (Suc l)
  with Suc.hyps(1) [of "Suc i"] assms(1,2,4) show ?case
    by (subst memcmp_loop.simps) (simp add: rd_view)
qed

end

text \<open>Bytes are below 256, so the sign of the \<open>int\<close> is that of the difference.\<close>

lemma sint_byte_diff: "sint (ucast (x :: u8) - ucast (y :: u8) :: u32) = int (unat x) - int (unat y)"
proof -
  have b: "uint x < 256" "uint y < 256" using uint_lt2p [of x] uint_lt2p [of y] by simp_all
  have r: "- 2147483648 \<le> uint x - uint y" "uint x - uint y < 2147483648"
    using b uint_nonnegative [of x] uint_nonnegative [of y] by linarith+
  have "(ucast x - ucast y :: u32) = word_of_int (uint x - uint y)" by simp
  then have "sint (ucast x - ucast y :: u32) = signed_take_bit 31 (uint x - uint y)"
    by (simp only: signed_of_int) simp
  also have "\<dots> = uint x - uint y" using r by (intro signed_take_bit_int_eq_self) simp_all
  finally show ?thesis by simp
qed

lemma byte_diff_sign:
  "sint (ucast (x :: u8) - ucast (y :: u8) :: u32) = 0 \<longleftrightarrow> x = y"
  "0 < sint (ucast (x :: u8) - ucast (y :: u8) :: u32) \<longleftrightarrow> y < x"
  unfolding sint_byte_diff word_less_nat_alt word_unat_eq_iff by linarith+

section \<open>In the kernel\<close>

lemma kernel_offset:
  assumes "KERNEL_BASE \<le> a" "unat a + n \<le> 2 ^ 32" "i < n"
  shows "KERNEL_BASE \<le> a + of_nat i"
proof -
  have "unat (a + of_nat i) = unat a + i" using assms(2,3) by (intro unat_add_of_nat) simp
  with assms(1) show ?thesis by (simp add: word_le_nat_alt)
qed

definition overlap_memory :: machine where
  "overlap_memory = \<lparr>mem = (\<lambda>a. ucast a), cr3 = 0, ports = []\<rparr>"

text \<open>
  In the kernel half of memory \<open>memcpy\<close> succeeds, returns the destination and writes
  nothing else. Byte \<open>i\<close> of the destination becomes what byte \<open>i mod d\<close> of the
  source was, with \<open>d\<close> the distance from source to destination: a plain copy when the
  ranges do not overlap or the destination starts first, and a repetition of the first \<open>d\<close>
  bytes, not the copy \<open>memmove\<close> makes, when it starts inside the source.
\<close>

theorem memcpy_copies:
  assumes "KERNEL_BASE \<le> dst" "unat dst + unat num \<le> 2 ^ 32" "KERNEL_BASE \<le> src" "unat src + unat num \<le> 2 ^ 32"
  shows "\<exists>m. memcpy rd8 wr8 dst src num s = Some (dst, s\<lparr>mem := m\<rparr>) \<and>
    eq_off (bytes_at dst (unat num)) (mem s) m \<and>
    (\<forall>i < unat num. m (dst + of_nat i) = mem s (src + of_nat (i mod unat (dst - src)))) \<and>
    (dst \<le> src \<or> unat src + unat num \<le> unat dst \<longrightarrow>
     (\<forall>i < unat num. m (dst + of_nat i) = mem s (src + of_nat i)))"
proof -
  let ?m = "\<lambda>x. if x \<in> bytes_at dst (unat num)
    then mem s (src + of_nat (unat (x - dst) mod unat (dst - src))) else mem s x"
  have "memcpy rd8 wr8 dst src num s = Some (dst, s\<lparr>mem := ?m\<rparr>)"
    using assms by (intro kmem.memcpy_upd kernel_offset)
  moreover have m: "?m (dst + of_nat i) = mem s (src + of_nat (i mod unat (dst - src)))" if "i < unat num" for i
    using that unat_of_nat_u32 [of i] unat_u32_less [of num] by (simp add: bytes_at_def)
  moreover have "i mod unat (dst - src) = i"
    if "dst \<le> src \<or> unat src + unat num \<le> unat dst" "i < unat num" for i
  proof -
    have "unat (dst - src) = 0 \<or> i < unat (dst - src)"
      using that assms unat_u32_less [of src] by (auto simp: unat_sub_if' word_le_nat_alt)
    then show ?thesis by auto
  qed
  ultimately show ?thesis
    by (intro exI [of _ ?m]) (simp add: eq_off_def)
qed

theorem memcpy_copies_witness:
  "\<exists>m. memcpy rd8 wr8 0xc0000102 0xc0000100 4 overlap_memory = Some (0xc0000102, overlap_memory\<lparr>mem := m\<rparr>) \<and>
    m 0xc0000105 = 1 \<and> m 0xc0000106 = 6"
proof -
  obtain m where m: "memcpy rd8 wr8 0xc0000102 0xc0000100 4 overlap_memory = Some (0xc0000102, overlap_memory\<lparr>mem := m\<rparr>)"
      "eq_off (bytes_at 0xc0000102 4) (mem overlap_memory) m"
      "\<forall>i < 4. m (0xc0000102 + of_nat i) = mem overlap_memory (0xc0000100 + of_nat (i mod 2))"
    using memcpy_copies [where dst = "0xc0000102" and num = 4 and src = "0xc0000100" and s = overlap_memory] by auto
  have "m (0xc0000102 + of_nat 3) = mem overlap_memory (0xc0000100 + of_nat (3 mod 2))"
    by (rule m(3) [rule_format]) simp
  then have "m 0xc0000105 = 1" by (simp add: overlap_memory_def)
  moreover have "m 0xc0000106 = 6"
    using eq_offD [OF m(2), of "0xc0000106"] by (simp add: bytes_at_def overlap_memory_def)
  ultimately show ?thesis using m(1) by blast
qed

text \<open>
  \<open>memcmp\<close> in the kernel half of memory is 0 exactly if the ranges hold the same bytes,
  and otherwise has the sign of the first difference: positive when the first argument's byte is
  the greater one.
\<close>

theorem memcmp_orders:
  assumes "KERNEL_BASE \<le> a" "unat a + unat n \<le> 2 ^ 32" "KERNEL_BASE \<le> b" "unat b + unat n \<le> 2 ^ 32"
  shows "\<exists>r. memcmp rd8 a b n s = Some r \<and>
    (sint r = 0 \<longleftrightarrow> (\<forall>i < unat n. mem s (a + of_nat i) = mem s (b + of_nat i))) \<and>
    (0 < sint r \<longleftrightarrow> (\<exists>i < unat n. mem s (b + of_nat i) < mem s (a + of_nat i) \<and>
        (\<forall>j < i. mem s (a + of_nat j) = mem s (b + of_nat j))))"
proof -
  let ?d = "\<lambda>k. mem s (a + of_nat k) \<noteq> mem s (b + of_nat k)"
  have R: "KERNEL_BASE \<le> a + of_nat i" "KERNEL_BASE \<le> b + of_nat i" if "i < unat n" for i
    using kernel_offset [OF assms(1,2) that] kernel_offset [OF assms(3,4) that] by auto
  show ?thesis
  proof (cases "\<exists>k < unat n. ?d k")
    case False
    with R have "memcmp rd8 a b n s = Some 0"
      by (simp only: memcmp_def) (intro kmem.memcmp_loop_equal, auto)
    with False show ?thesis by auto
  next
    case True
    then obtain k where k: "k < unat n" "?d k" and first: "\<And>j. j < k \<Longrightarrow> \<not> ?d j"
      using exists_least_iff [of "\<lambda>k. k < unat n \<and> ?d k"] by auto
    have "memcmp rd8 a b n s = Some (ucast (mem s (a + of_nat k)) - ucast (mem s (b + of_nat k)))"
      unfolding memcmp_def using R k first by (intro kmem.memcmp_loop_differs) auto
    moreover have "(\<exists>i < unat n. mem s (b + of_nat i) < mem s (a + of_nat i) \<and> (\<forall>j < i. \<not> ?d j)) \<longleftrightarrow>
        mem s (b + of_nat k) < mem s (a + of_nat k)"
      using k first by (metis linorder_neqE_nat order_less_irrefl)
    moreover have "\<not> (\<forall>i < unat n. mem s (a + of_nat i) = mem s (b + of_nat i))" using k by blast
    ultimately show ?thesis
      using k(2) by (intro exI [of _ "ucast (mem s (a + of_nat k)) - ucast (mem s (b + of_nat k))"])
        (simp add: byte_diff_sign)
  qed
qed

theorem memcmp_orders_witness:
  "\<exists>r. memcmp rd8 0xc0000102 0xc0000100 4 overlap_memory = Some r \<and> 0 < sint r"
proof -
  obtain r where r: "memcmp rd8 0xc0000102 0xc0000100 4 overlap_memory = Some r"
      "0 < sint r \<longleftrightarrow> (\<exists>i < 4. mem overlap_memory (0xc0000100 + of_nat i) < mem overlap_memory (0xc0000102 + of_nat i) \<and>
        (\<forall>j < i. mem overlap_memory (0xc0000102 + of_nat j) = mem overlap_memory (0xc0000100 + of_nat j)))"
    using memcmp_orders [where a = "0xc0000102" and n = 4 and b = "0xc0000100" and s = overlap_memory] by auto
  have "0 < sint r" unfolding r(2) by (rule exI [of _ 0]) (simp add: overlap_memory_def)
  with r(1) show ?thesis by blast
qed

end
