(* ===== verification/Boot_Machine.thy ===== *)
theory Boot_Machine
  imports Loof_Prelude "HOL-Library.Signed_Division"
begin

text \<open>
  The machine the second stage of the x86 boot loader runs on (src/boot/x86): protected mode
  with paging off, so that every address is a physical one and no access faults, and the two
  ports of the CRT controller of the display adapter (src/boot/x86/port.s, vesa/vga.h).

  An \<open>int\<close> of C is a HOL \<open>int\<close>, brought back into 32 bits by \<open>c_int\<close>
  where an operation can leave them.
\<close>

section \<open>Signed integers\<close>

definition c_int :: "int \<Rightarrow> int" where
  "c_int i = signed_take_bit 31 i"

lemma c_int_id [simp]: "- (2 ^ 31) \<le> i \<Longrightarrow> i < 2 ^ 31 \<Longrightarrow> c_int i = i"
  by (simp add: c_int_def signed_take_bit_int_eq_self)

lemma sdiv_nonneg [simp]: "0 \<le> (a :: int) \<Longrightarrow> 0 \<le> b \<Longrightarrow> a sdiv b = a div b"
  by (simp add: signed_divide_int_def sgn_if)

lemma smod_nonneg [simp]: "0 \<le> (a :: int) \<Longrightarrow> 0 \<le> b \<Longrightarrow> a smod b = a mod b"
  by (auto simp: signed_modulo_int_def sgn_if minus_mult_div_eq_mod)

section \<open>State\<close>

text \<open>
  The CRT controller has an index port, which selects one of its registers, and a data port,
  which reads and writes the selected one. \<open>color\<close> is the variable of vga.c.
\<close>

record boot_machine =
  bmem :: bytes
  crtc_index :: u8
  crtc_reg :: "u8 \<Rightarrow> u8"
  color :: u8

definition VGA_TEXT_INDEX :: u32 where
  "VGA_TEXT_INDEX = 0x3d4"

definition VGA_TEXT_DATA :: u32 where
  "VGA_TEXT_DATA = 0x3d5"

definition outportb_boot :: "u32 \<Rightarrow> u8 \<Rightarrow> 'a boot_machine_scheme \<Rightarrow> 'a boot_machine_scheme" where
  "outportb_boot port v s =
     (if (ucast port :: u16) = ucast VGA_TEXT_INDEX then s\<lparr>crtc_index := v\<rparr>
      else if (ucast port :: u16) = ucast VGA_TEXT_DATA then
        s\<lparr>crtc_reg := (crtc_reg s)(crtc_index s := v)\<rparr>
      else s)"

definition inportb_boot :: "u32 \<Rightarrow> 'a boot_machine_scheme \<Rightarrow> u8" where
  "inportb_boot port s =
     (if (ucast port :: u16) = ucast VGA_TEXT_DATA then crtc_reg s (crtc_index s) else crtc_index s)"

section \<open>Memory\<close>

definition brd8 :: "'a boot_machine_scheme \<Rightarrow> u32 \<Rightarrow> u8 option" where
  "brd8 s a = Some (bmem s a)"

definition bwr8 :: "'a boot_machine_scheme \<Rightarrow> u32 \<Rightarrow> u8 \<Rightarrow> 'a boot_machine_scheme option" where
  "bwr8 s a v = Some (s\<lparr>bmem := (bmem s)(a := v)\<rparr>)"

interpretation bootmem: byte_memory brd8 bwr8 bmem "\<lambda>s m. s\<lparr>bmem := m\<rparr>" "\<lambda>_. True"
  by unfold_locales (simp_all add: brd8_def bwr8_def)

text \<open>A 16-bit store.\<close>

definition st16 :: "bytes \<Rightarrow> u32 \<Rightarrow> u16 \<Rightarrow> bytes" where
  "st16 m a v = m(a := ucast v, a + 1 := ucast (drop_bit 8 v))"

lemma ld16_st16_same [simp, mem_simps]: "ld16 (st16 m a v) a = v"
proof (rule bit_word_eqI)
  fix n assume "n < LENGTH(16)"
  then consider "n < 8" | "8 \<le> n" "n < 16" by (simp, linarith)
  then show "bit (ld16 (st16 m a v) a) n \<longleftrightarrow> bit v n"
    by cases (auto simp: ld16_def st16_def bit_simps)
qed

lemma st16_other: "2 \<le> unat (x - a) \<Longrightarrow> st16 m a v x = m x"
  by (auto simp: st16_def)

lemma ld16_cong: "m a = m' a \<Longrightarrow> m (a + 1) = m' (a + 1) \<Longrightarrow> ld16 m a = ld16 m' a"
  by (simp add: ld16_def)

text \<open>A string of C at an address: its bytes, none of them zero, and a zero byte.\<close>

definition cstring :: "bytes \<Rightarrow> u32 \<Rightarrow> u8 list \<Rightarrow> bool" where
  "cstring m a cs \<longleftrightarrow> 0 \<notin> set cs \<and> (\<forall>i < length cs. m (a + of_nat i) = cs ! i) \<and> m (a + of_nat (length cs)) = 0"

lemma cstring_Nil [simp]: "cstring m a [] \<longleftrightarrow> m a = 0"
  by (simp add: cstring_def)

lemma cstring_Cons [simp]: "cstring m a (c # cs) \<longleftrightarrow> c \<noteq> 0 \<and> m a = c \<and> cstring m (a + 1) cs"
  by (auto simp: cstring_def nth_Cons' add.assoc gr0_conv_Suc)

lemma bytes_at_Suc_subset: "bytes_at (a + 1) n \<subseteq> bytes_at a (Suc n)"
proof
  fix x assume "x \<in> bytes_at (a + 1) n"
  moreover have "unat (y + 1) \<le> unat y + 1" for y :: u32
    by (simp only: unat_word_ariths) (simp add: mod_less_eq_dividend)
  from this [of "x - (a + 1)"] have "unat (x - a) \<le> unat (x - (a + 1)) + 1" by simp
  ultimately show "x \<in> bytes_at a (Suc n)" by (simp add: bytes_at_def)
qed

lemma cstring_eq_off:
  assumes "cstring m a cs" "eq_off X m m'" "bytes_at a (Suc (length cs)) \<inter> X = {}" "length cs < 2 ^ 32"
  shows "cstring m' a cs"
proof -
  have "a + of_nat i \<notin> X" if "i \<le> length cs" for i
  proof -
    have "unat (a + of_nat i - a) = i" using that assms(4) unat_of_nat_u32 [of i] by simp
    with that have "a + of_nat i \<in> bytes_at a (Suc (length cs))" by (simp add: bytes_at_def)
    with assms(3) show ?thesis by blast
  qed
  with assms(1,2) show ?thesis by (simp add: cstring_def eq_offD)
qed

end
