(* ===== verification/Ports.thy ===== *)
theory Ports
  imports Machine Boot_Machine
begin

text \<open>
  The four functions of src/arch/x86/core/port.s (and their copy, src/boot/x86/port.s), over the
  input and output ports as a parameter: a state of any type with what a read and a write of a byte or
  a word do to it. The functions take the number of the port as a pointer, of which they use the low
  16 bits. The two devices the other theories use, the log of theory \<open>Machine\<close> and the CRT
  controller of theory \<open>Boot_Machine\<close>, are such ports.
\<close>

section \<open>Operations\<close>

record 'd port_bus =
  in8 :: "u16 \<Rightarrow> 'd \<Rightarrow> u8 \<times> 'd"
  in16 :: "u16 \<Rightarrow> 'd \<Rightarrow> u16 \<times> 'd"
  out8 :: "u16 \<Rightarrow> u8 \<Rightarrow> 'd \<Rightarrow> 'd"
  out16 :: "u16 \<Rightarrow> u16 \<Rightarrow> 'd \<Rightarrow> 'd"

text \<open>The stack of a call: the words above the return address are the arguments.\<close>

definition stack_arg :: "u32 list \<Rightarrow> nat \<Rightarrow> u32" where
  "stack_arg args i = args ! i"

definition inportb :: "'d port_bus \<Rightarrow> u32 list \<Rightarrow> 'd \<Rightarrow> u8 \<times> 'd" where
  "inportb io args d = (let edx = stack_arg args 0 in in8 io (ucast edx) d)"

definition inportw :: "'d port_bus \<Rightarrow> u32 list \<Rightarrow> 'd \<Rightarrow> u16 \<times> 'd" where
  "inportw io args d = (let edx = stack_arg args 0 in in16 io (ucast edx) d)"

definition outportb_on :: "'d port_bus \<Rightarrow> u32 list \<Rightarrow> 'd \<Rightarrow> 'd" where
  "outportb_on io args d = (let al = ucast (stack_arg args 1); edx = stack_arg args 0 in out8 io (ucast edx) al d)"

definition outportw :: "'d port_bus \<Rightarrow> u32 list \<Rightarrow> 'd \<Rightarrow> 'd" where
  "outportw io args d = (let ax = ucast (stack_arg args 1); edx = stack_arg args 0 in out16 io (ucast edx) ax d)"

section \<open>The devices of the other theories\<close>

text \<open>A device of eight bits sees a word as two bytes, at the port and at the next one.\<close>

definition bytewise :: "(u16 \<Rightarrow> 'd \<Rightarrow> u8 \<times> 'd) \<Rightarrow> (u16 \<Rightarrow> u8 \<Rightarrow> 'd \<Rightarrow> 'd) \<Rightarrow> 'd port_bus" where
  "bytewise i out = \<lparr>in8 = i,
     in16 = (\<lambda>p d. let (lo, d) = i p d; (hi, d) = i (p + 1) d in (ucast lo OR push_bit 8 (ucast hi), d)),
     out8 = out, out16 = (\<lambda>p v d. out (p + 1) (ucast (drop_bit 8 v)) (out p (ucast v) d))\<rparr>"

definition log_bus :: "(u16 \<times> u8) list port_bus" where
  "log_bus = bytewise (\<lambda>p d. (0xff, d)) (\<lambda>p v d. d @ [(p, v)])"

definition crtc_bus :: "(u8 \<times> (u8 \<Rightarrow> u8)) port_bus" where
  "crtc_bus = bytewise
     (\<lambda>p (i, r). (if p = ucast VGA_TEXT_DATA then r i else i, (i, r)))
     (\<lambda>p v (i, r). if p = ucast VGA_TEXT_INDEX then (v, r) else if p = ucast VGA_TEXT_DATA then (i, r(i := v)) else (i, r))"

text \<open>
  The functions of the other theories are these ones: the kernel and the boot loader write bytes, and
  the boot loader reads them, by \<open>outportb\<close> and \<open>inportb\<close>, with nothing but the ports changed.
\<close>

lemma outportb_log: "outportb port v s = s\<lparr>ports := outportb_on log_bus [port, ucast v] (ports s)\<rparr>"
proof -
  have "(ucast (ucast v :: u32) :: u8) = v" by (rule bit_word_eqI) (auto simp: bit_simps dest: bit_imp_le_length)
  then show ?thesis by (simp add: outportb_def outportb_on_def log_bus_def bytewise_def stack_arg_def)
qed

lemma outportb_crtc:
  "outportb_boot port v s =
    (let (i, r) = outportb_on crtc_bus [port, ucast v] (crtc_index s, crtc_reg s) in s\<lparr>crtc_index := i, crtc_reg := r\<rparr>)"
proof -
  have "(ucast (ucast v :: u32) :: u8) = v" by (rule bit_word_eqI) (auto simp: bit_simps dest: bit_imp_le_length)
  then show ?thesis by (simp add: outportb_boot_def outportb_on_def crtc_bus_def bytewise_def stack_arg_def)
qed

lemma inportb_crtc: "(inportb_boot port s, crtc_index s, crtc_reg s) = inportb crtc_bus [port] (crtc_index s, crtc_reg s)"
  by (simp add: inportb_boot_def inportb_def crtc_bus_def bytewise_def stack_arg_def)

text \<open>A word written to the index port selects a register and fills it: the low byte is its number.\<close>

lemma outportw_crtc:
  "outportw crtc_bus [VGA_TEXT_INDEX, v] (i, r) = (ucast v, r(ucast v := ucast (drop_bit 8 v)))"
proof -
  have "(ucast (ucast v :: u16) :: u8) = ucast v" "(ucast (drop_bit 8 (ucast v :: u16)) :: u8) = ucast (drop_bit 8 v)"
    by (rule bit_word_eqI; auto simp: bit_simps)+
  then show ?thesis
    by (simp add: outportw_def crtc_bus_def bytewise_def stack_arg_def VGA_TEXT_INDEX_def VGA_TEXT_DATA_def)
qed

end
