(* ===== verification/Vga.thy ===== *)
theory Vga
  imports Boot_Machine
begin

text \<open>
  The text display of the boot loader, src/boot/x86/vesa/vga.c and vga.h: the text buffer, the
  cursor in the registers of the CRT controller and the output of characters, against an
  abstract terminal of 2000 cells and a cursor.
\<close>

section \<open>Operations\<close>

definition text_buffer :: u32 where
  "text_buffer = 0xb8000"

definition set_cursor_pos :: "int \<Rightarrow> int \<Rightarrow> 'a boot_machine_scheme \<Rightarrow> 'a boot_machine_scheme" where
  "set_cursor_pos row col s =
     (let pos = c_int (row * 80 + col);
          pos = pos smod (25 * 80);
          s = outportb_boot VGA_TEXT_INDEX 0x0f s;
          s = outportb_boot VGA_TEXT_DATA (of_int (pos AND 0xff)) s;
          s = outportb_boot VGA_TEXT_INDEX 0x0e s
      in outportb_boot VGA_TEXT_DATA (of_int (drop_bit 8 pos AND 0xff)) s)"

definition get_cursor_pos :: "'a boot_machine_scheme \<Rightarrow> u16 \<times> 'a boot_machine_scheme" where
  "get_cursor_pos s =
     (let s = outportb_boot VGA_TEXT_INDEX 0x0f s;
          pos = ucast (inportb_boot VGA_TEXT_DATA s) :: u16;
          s = outportb_boot VGA_TEXT_INDEX 0x0e s;
          pos = pos OR push_bit 8 (ucast (inportb_boot VGA_TEXT_DATA s))
      in (pos, s))"

text \<open>
  A \<open>char\<close> is signed on the i386, so widening it to 16 bits copies its top bit into the
  byte of the color.
\<close>

definition glyph :: "u8 \<Rightarrow> u8 \<Rightarrow> u16" where
  "glyph col c = push_bit 8 (ucast col) OR scast c"

definition display_char :: "u8 \<Rightarrow> int \<Rightarrow> int \<Rightarrow> 'a boot_machine_scheme \<Rightarrow> 'a boot_machine_scheme" where
  "display_char c row col s =
     (let s = s\<lparr>bmem := st16 (bmem s) (text_buffer + 2 * of_int (c_int (80 * row + col))) (glyph (color s) c)\<rparr>
      in set_cursor_pos (c_int (row + c_int (col + 1) sdiv 80)) (c_int (col + 1) smod 80) s)"

text \<open>The loop of \<open>display_string\<close>, which ends at a zero byte if there is one.\<close>

partial_function (option) display_string_loop ::
  "u32 \<Rightarrow> int \<Rightarrow> int \<Rightarrow> int \<Rightarrow> 'a boot_machine_scheme \<Rightarrow> 'a boot_machine_scheme option" where
  "display_string_loop str offset row col s =
     (if bmem s (str + of_int offset) \<noteq> 0 then
        let s = display_char (bmem s (str + of_int offset)) row col s;
            offset = c_int (offset + 1);
            col = c_int (col + 1);
            row = c_int (row + col sdiv 80);
            col = col smod 80
        in display_string_loop str offset row col s
      else Some s)"

definition display_string ::
  "u32 \<Rightarrow> int \<Rightarrow> int \<Rightarrow> 'a boot_machine_scheme \<Rightarrow> 'a boot_machine_scheme option" where
  "display_string str row col s = display_string_loop str 0 row col s"

definition reset_display :: "'a boot_machine_scheme \<Rightarrow> 'a boot_machine_scheme" where
  "reset_display s =
     set_cursor_pos 0 0 (fold (\<lambda>i. display_char 0x20 (i sdiv 80) (i smod 80)) (map int [0..<2000]) s)"

definition set_color :: "int \<Rightarrow> int \<Rightarrow> 'a boot_machine_scheme \<Rightarrow> 'a boot_machine_scheme" where
  "set_color b f s = s\<lparr>color := of_int (push_bit 4 b OR f)\<rparr>"

definition enable_cursor :: "u8 \<Rightarrow> u8 \<Rightarrow> 'a boot_machine_scheme \<Rightarrow> 'a boot_machine_scheme" where
  "enable_cursor start_line end_line s =
     (let s = outportb_boot VGA_TEXT_INDEX 0x0a s;
          s = outportb_boot VGA_TEXT_DATA (push_bit 5 0x0 OR start_line) s;
          s = outportb_boot VGA_TEXT_INDEX 0x0b s
      in outportb_boot VGA_TEXT_DATA (push_bit 5 0x0 OR end_line) s)"

definition disable_cursor :: "'a boot_machine_scheme \<Rightarrow> 'a boot_machine_scheme" where
  "disable_cursor s =
     (let s = outportb_boot VGA_TEXT_INDEX 0x0a s
      in outportb_boot VGA_TEXT_DATA 0x20 s)"

definition vga_output_char :: "u8 \<Rightarrow> 'a boot_machine_scheme \<Rightarrow> 'a boot_machine_scheme" where
  "vga_output_char c s =
     (let (pos, s) = get_cursor_pos s; cur_pos = int (unat pos) in
      if c = 10 then set_cursor_pos (cur_pos sdiv 80 + 1) (cur_pos smod 80) s
      else if c = 13 then set_cursor_pos (cur_pos sdiv 80) 0 s
      else if c = 8 \<or> c = 127 then
        let s = display_char 0x20 ((cur_pos - 1) sdiv 80) ((cur_pos - 1) smod 80) s
        in set_cursor_pos ((cur_pos - 1) sdiv 80) ((cur_pos - 1) smod 80) s
      else display_char c (cur_pos sdiv 80) (cur_pos smod 80) s)"

section \<open>The cursor\<close>

text \<open>The cursor: registers 14 and 15 of the controller.\<close>

definition cursor_word :: "'a boot_machine_scheme \<Rightarrow> u16" where
  "cursor_word s = ucast (crtc_reg s 0x0f) OR push_bit 8 (ucast (crtc_reg s 0x0e))"

definition cursor :: "'a boot_machine_scheme \<Rightarrow> nat" where
  "cursor s = unat (cursor_word s)"

lemma ports_distinct [simp]:
  "(ucast VGA_TEXT_DATA :: u16) \<noteq> ucast VGA_TEXT_INDEX" "(ucast VGA_TEXT_INDEX :: u16) \<noteq> ucast VGA_TEXT_DATA"
  by (simp_all add: VGA_TEXT_DATA_def VGA_TEXT_INDEX_def)

lemma get_cursor_pos_eq:
  "get_cursor_pos s = (cursor_word s, s\<lparr>crtc_index := 0x0e\<rparr>)"
  by (simp add: get_cursor_pos_def outportb_boot_def inportb_boot_def cursor_word_def Let_def)

text \<open>What \<open>set_cursor_pos\<close> leaves in the machine: the registers change, nothing else.\<close>

definition put_cursor :: "int \<Rightarrow> 'a boot_machine_scheme \<Rightarrow> 'a boot_machine_scheme" where
  "put_cursor p s = s\<lparr>crtc_index := 0x0e,
     crtc_reg := (crtc_reg s)(0x0f := of_int (p AND 0xff), 0x0e := of_int (drop_bit 8 p AND 0xff))\<rparr>"

lemma set_cursor_pos_eq:
  "set_cursor_pos row col s = put_cursor (c_int (row * 80 + col) smod 2000) s"
  by (simp add: set_cursor_pos_def put_cursor_def outportb_boot_def Let_def)

lemma put_cursor_bmem [simp]: "bmem (put_cursor p s) = bmem s" "color (put_cursor p s) = color s"
  by (simp_all add: put_cursor_def)

lemma bit_255: "bit (255 :: int) n \<longleftrightarrow> n < 8"
proof -
  have "(255 :: int) = mask 8" by (simp add: mask_eq_exp_minus_1)
  then show ?thesis by (simp only: bit_mask_iff) simp
qed

lemma cursor_word_put [simp]: "cursor_word (put_cursor p s) = of_int p"
proof (rule bit_word_eqI)
  fix n assume "n < LENGTH(16)"
  then show "bit (cursor_word (put_cursor p s)) n \<longleftrightarrow> bit (of_int p :: u16) n"
    by (cases "n < 8") (auto simp: cursor_word_def put_cursor_def bit_simps bit_of_int_iff bit_255)
qed

lemma cursor_put [simp]:
  assumes "0 \<le> p" "p < 2000"
  shows "cursor (put_cursor p s) = nat p"
proof -
  have "(of_int p :: u16) = of_nat (nat p)" using assms by simp
  moreover have "unat (of_nat (nat p) :: u16) = nat p"
    using assms by (subst unat_of_nat) (simp add: take_bit_nat_eq_self_iff)
  ultimately show ?thesis by (simp only: cursor_def cursor_word_put)
qed

text \<open>A machine for examples: all memory zero, white on black.\<close>

definition dark_machine :: boot_machine where
  "dark_machine = \<lparr>bmem = (\<lambda>_. 0), crtc_index = 0, crtc_reg = (\<lambda>_. 0), color = 0x0f\<rparr>"

lemma dark_cursor [simp]: "cursor dark_machine = 0" "bmem dark_machine a = 0" "color dark_machine = 0x0f"
  by (simp_all add: dark_machine_def cursor_def cursor_word_def)

lemma cursor_screen: "set_cursor_pos row col s = put_cursor ((80 * row + col) mod 2000) s"
  if "0 \<le> row" "0 \<le> col" "80 * row + col < 2 ^ 31"
  using that by (simp add: set_cursor_pos_eq mult.commute)

text \<open>
  (C38) The cursor is read back where it was set: after \<open>set_cursor_pos\<close> at a row and
  column, \<open>get_cursor_pos\<close> returns the cell they name, wrapped at the 2000 cells of the
  screen; memory and the color are not touched.
\<close>

theorem cursor_pos_roundtrip:
  assumes "0 \<le> row" "0 \<le> col" "80 * row + col < 2 ^ 31"
  shows "\<exists>s'. get_cursor_pos (set_cursor_pos row col s) = (of_int ((80 * row + col) mod 2000), s') \<and>
    cursor s' = nat ((80 * row + col) mod 2000) \<and> bmem s' = bmem s \<and> color s' = color s"
proof -
  let ?p = "(80 * row + col) mod 2000"
  have "0 \<le> ?p" "?p < 2000" by simp_all
  then have "cursor (put_cursor ?p s\<lparr>crtc_index := 0x0e\<rparr>) = nat ?p"
    using cursor_put [of ?p s] by (simp add: cursor_def cursor_word_def)
  then show ?thesis by (simp add: get_cursor_pos_eq cursor_screen [OF assms])
qed

theorem cursor_pos_roundtrip_witness:
  "fst (get_cursor_pos (set_cursor_pos 2 7 dark_machine)) = 167"
  using cursor_pos_roundtrip [of 2 7 dark_machine] by auto

section \<open>The screen as a terminal\<close>

text \<open>The 2000 cells of the text buffer and the cursor.\<close>

record screen =
  scr_cells :: "nat \<Rightarrow> u16"
  scr_pos :: nat

definition cell :: "bytes \<Rightarrow> nat \<Rightarrow> u16" where
  "cell m i = ld16 m (text_buffer + 2 * of_nat i)"

definition cells_of :: "bytes \<Rightarrow> nat \<Rightarrow> u16" where
  "cells_of m i = (if i < 2000 then cell m i else 0)"

definition screen_of :: "'a boot_machine_scheme \<Rightarrow> screen" where
  "screen_of s = \<lparr>scr_cells = cells_of (bmem s), scr_pos = cursor s\<rparr>"

definition blank :: u8 where
  "blank = 0x20"

text \<open>One character on the terminal; nothing scrolls, the cursor starts over at the top.\<close>

definition type_char :: "u8 \<Rightarrow> u8 \<Rightarrow> screen \<Rightarrow> screen" where
  "type_char col c t =
     (if c = 10 then t\<lparr>scr_pos := (scr_pos t + 80) mod 2000\<rparr>
      else if c = 13 then t\<lparr>scr_pos := 80 * (scr_pos t div 80)\<rparr>
      else if c = 8 \<or> c = 127 then
        t\<lparr>scr_cells := (scr_cells t)(scr_pos t - 1 := glyph col blank), scr_pos := scr_pos t - 1\<rparr>
      else t\<lparr>scr_cells := (scr_cells t)(scr_pos t := glyph col c), scr_pos := (scr_pos t + 1) mod 2000\<rparr>)"

definition text_area :: "u32 set" where
  "text_area = bytes_at text_buffer 4000"

lemma cell_addr: "i < 2000 \<Longrightarrow> unat (text_buffer + 2 * of_nat i) = 0xb8000 + 2 * i"
  using unat_add_of_nat [of text_buffer "2 * i"] by (simp add: text_buffer_def)

lemma cell_st16:
  assumes "i < 2000" "j < 2000"
  shows "cell (st16 m (text_buffer + 2 * of_nat j) v) i = (if i = j then v else cell m i)"
proof (cases "i = j")
  case False
  define a where "a = text_buffer + 2 * of_nat j"
  define x where "x = text_buffer + 2 * (of_nat i :: u32)"
  have u: "unat x = 0xb8000 + 2 * i" "unat a = 0xb8000 + 2 * j"
    using assms by (simp_all only: cell_addr a_def x_def)
  have u1: "unat (x + 1) = unat x + 1" using unat_add_of_nat [of x 1] assms(1) u(1) by simp
  have "2 \<le> unat (x - a)" using False assms by (auto simp: unat_sub_if' u)
  moreover have "2 \<le> unat (x + 1 - a)" using False assms by (subst unat_sub_if') (auto simp: u u1)
  ultimately show ?thesis
    using False unfolding cell_def a_def [symmetric] x_def [symmetric] by (simp add: ld16_def st16_other)
qed (simp add: cell_def)

lemma cells_of_st16:
  "j < 2000 \<Longrightarrow> cells_of (st16 m (text_buffer + 2 * of_nat j) v) = (cells_of m)(j := v)"
  by (auto simp: cells_of_def cell_st16 fun_eq_iff)

lemma st16_text_area:
  assumes "j < 2000"
  shows "eq_off text_area m (st16 m (text_buffer + 2 * of_nat j) v)"
proof -
  have "2 \<le> unat (x - (text_buffer + 2 * of_nat j))" if "x \<notin> text_area" for x
    using that assms unat_u32_less [of x] cell_addr [OF assms]
    by (subst unat_sub_if') (auto simp: text_area_def bytes_at_def unat_sub_if' text_buffer_def)
  then show ?thesis by (auto simp: eq_off_def st16_other)
qed

text \<open>\<open>display_char\<close> on the screen.\<close>

lemma display_char_eq:
  assumes "0 \<le> row" "0 \<le> col" "col < 80" "80 * row + col < 2000"
  shows "display_char c row col s =
    put_cursor ((80 * row + col + 1) mod 2000)
      (s\<lparr>bmem := st16 (bmem s) (text_buffer + 2 * of_nat (nat (80 * row + col))) (glyph (color s) c)\<rparr>)"
proof -
  have r: "row < 25" using assms by linarith
  have "80 * (row + (col + 1) div 80) + (col + 1) mod 80 = 80 * row + col + 1"
    by (simp add: algebra_simps)
  then have "set_cursor_pos (row + (col + 1) div 80) ((col + 1) mod 80) t = put_cursor ((80 * row + col + 1) mod 2000) t" for t :: "'a boot_machine_scheme"
    using assms r cursor_screen [of "row + (col + 1) div 80" "(col + 1) mod 80" t]
    by (simp only:) (simp add: pos_imp_zdiv_nonneg_iff)
  moreover have "(of_int (80 * row + col) :: u32) = of_nat (nat (80 * row + col))" using assms by simp
  ultimately show ?thesis
    using assms r by (simp add: display_char_def Let_def)
qed

text \<open>
  The machine shows \<open>t'\<close> and nothing but the text buffer and the controller has changed.
\<close>

definition shows_screen :: "'a boot_machine_scheme \<Rightarrow> screen \<Rightarrow> 'a boot_machine_scheme \<Rightarrow> bool" where
  "shows_screen s t s' \<longleftrightarrow> screen_of s' = t \<and> eq_off text_area (bmem s) (bmem s') \<and>
     s' = s\<lparr>bmem := bmem s', crtc_index := crtc_index s', crtc_reg := crtc_reg s'\<rparr>"

lemma shows_screenD:
  assumes "shows_screen s t s'"
  shows "screen_of s' = t" "eq_off text_area (bmem s) (bmem s')" "color s' = color s"
proof -
  from assms have "s' = s\<lparr>bmem := bmem s', crtc_index := crtc_index s', crtc_reg := crtc_reg s'\<rparr>"
    by (simp add: shows_screen_def)
  from arg_cong [of _ _ color, OF this] show "color s' = color s" by simp
qed (use assms in \<open>simp_all add: shows_screen_def\<close>)

lemma shows_screen_trans:
  assumes "shows_screen s t u" "shows_screen u t' v"
  shows "shows_screen s t' v"
proof -
  have u: "u = s\<lparr>bmem := bmem u, crtc_index := crtc_index u, crtc_reg := crtc_reg u\<rparr>"
    using assms(1) by (simp add: shows_screen_def)
  have "v = u\<lparr>bmem := bmem v, crtc_index := crtc_index v, crtc_reg := crtc_reg v\<rparr>"
    using assms(2) by (simp add: shows_screen_def)
  then have "v = s\<lparr>bmem := bmem v, crtc_index := crtc_index v, crtc_reg := crtc_reg v\<rparr>"
    by (subst (asm) u) simp
  with shows_screenD [OF assms(1)] shows_screenD [OF assms(2)] show ?thesis
    by (auto simp: shows_screen_def eq_off_def)
qed

lemma cell_at: "0 \<le> (p :: int) \<Longrightarrow> 80 * (p div 80) + p mod 80 = p"
  by (simp add: algebra_simps)

lemma put_cursor_shows:
  assumes "p < 2000"
  shows "shows_screen s (screen_of s\<lparr>scr_pos := p\<rparr>) (put_cursor (int p) s)"
  using assms cursor_put [of "int p" s] by (simp add: shows_screen_def screen_of_def) (simp add: put_cursor_def)

lemma display_char_shows:
  assumes "p < 2000"
  shows "shows_screen s (screen_of s\<lparr>scr_cells := (scr_cells (screen_of s))(p := glyph (color s) c),
      scr_pos := (p + 1) mod 2000\<rparr>) (display_char c (int p div 80) (int p mod 80) s)"
proof -
  let ?s = "s\<lparr>bmem := st16 (bmem s) (text_buffer + 2 * of_nat p) (glyph (color s) c)\<rparr>"
  have "display_char c (int p div 80) (int p mod 80) s = put_cursor (int ((p + 1) mod 2000)) ?s"
    using assms by (subst display_char_eq) (simp_all add: zmod_int add.commute)
  moreover have "cursor (put_cursor (int ((p + 1) mod 2000)) ?s) = (p + 1) mod 2000" by simp
  ultimately show ?thesis
    using assms st16_text_area [OF assms, of "bmem s" "glyph (color s) c"]
    by (simp add: shows_screen_def screen_of_def cells_of_st16) (simp add: put_cursor_def)
qed

lemma cursor_index [simp]: "cursor (s\<lparr>crtc_index := i\<rparr>) = cursor s" "screen_of (s\<lparr>crtc_index := i\<rparr>) = screen_of s"
  by (simp_all add: cursor_def cursor_word_def screen_of_def)

lemma shows_screen_index: "shows_screen (s\<lparr>crtc_index := i\<rparr>) t s' \<Longrightarrow> shows_screen s t s'"
  by (auto simp: shows_screen_def)

lemma output_char_shows:
  assumes "cursor s < 2000" "c = 8 \<or> c = 127 \<Longrightarrow> cursor s \<noteq> 0"
  shows "shows_screen s (type_char (color s) c (screen_of s)) (vga_output_char c s)"
proof -
  define p where "p = cursor s"
  define t where "t = s\<lparr>crtc_index := 0x0e\<rparr>"
  have t: "cursor t = p" "screen_of t = screen_of s" "color t = color s" by (simp_all add: t_def p_def)
  have out: "vga_output_char c s =
      (if c = 10 then set_cursor_pos (int p div 80 + 1) (int p mod 80) t
       else if c = 13 then set_cursor_pos (int p div 80) 0 t
       else if c = 8 \<or> c = 127 then
         set_cursor_pos ((int p - 1) sdiv 80) ((int p - 1) smod 80)
           (display_char 0x20 ((int p - 1) sdiv 80) ((int p - 1) smod 80) t)
       else display_char c (int p div 80) (int p mod 80) t)"
    by (simp add: vga_output_char_def get_cursor_pos_eq Let_def p_def t_def cursor_def)
  have p: "p < 2000" using assms(1) by (simp add: p_def)
  have scr: "scr_pos (screen_of s) = p" by (simp add: screen_of_def p_def)
  consider "c = 10" | "c = 13" | "c = 8 \<or> c = 127" | "c \<noteq> 10" "c \<noteq> 13" "c \<noteq> 8" "c \<noteq> 127" by blast
  then have "shows_screen t (type_char (color s) c (screen_of s)) (vga_output_char c s)"
  proof cases
    case 1
    have "80 * (int p div 80 + 1) + int p mod 80 = int p + 80" by (simp add: algebra_simps)
    then have "set_cursor_pos (int p div 80 + 1) (int p mod 80) t = put_cursor (int ((p + 80) mod 2000)) t"
      using p by (subst cursor_screen) (simp_all add: zmod_int)
    with put_cursor_shows [of "(p + 80) mod 2000" t] show ?thesis
      by (subst out) (simp add: 1 type_char_def t scr)
  next
    case 2
    have "set_cursor_pos (int p div 80) 0 t = put_cursor (int (80 * (p div 80))) t"
      using p by (subst cursor_screen) (auto simp: zdiv_int intro!: mod_pos_pos_trivial)
    with put_cursor_shows [of "80 * (p div 80)" t] p show ?thesis
      by (subst out) (simp add: 2 type_char_def t scr)
  next
    case 3
    then obtain q where q: "p = Suc q" using assms(2) p_def not0_implies_Suc by blast
    have "q < 2000" using p q by simp
    let ?u = "display_char 0x20 (int q div 80) (int q mod 80) t"
    have "set_cursor_pos (int q div 80) (int q mod 80) ?u = put_cursor (int q) ?u"
      using \<open>q < 2000\<close> cell_at [of "int q"] by (subst cursor_screen) simp_all
    with 3 q have "vga_output_char c s = put_cursor (int q) ?u" by (auto simp: out)
    moreover have "screen_of ?u\<lparr>scr_pos := q\<rparr> = type_char (color s) c (screen_of s)"
      using 3 q shows_screenD(1) [OF display_char_shows [OF \<open>q < 2000\<close>, of t "0x20"]]
      by (auto simp: type_char_def t scr blank_def)
    ultimately show ?thesis
      using shows_screen_trans [OF display_char_shows [OF \<open>q < 2000\<close>] put_cursor_shows [OF \<open>q < 2000\<close>]]
      by metis
  next
    case 4
    with display_char_shows [OF p, of t c] show ?thesis by (simp add: out type_char_def t scr)
  qed
  then show ?thesis unfolding t_def by (rule shows_screen_index)
qed

text \<open>
  (C15) \<open>vga_output_char\<close> implements one step of the terminal: it puts the character at the
  cursor in the current color and moves on, takes back the last cell, or moves the cursor for a
  line feed (one row down, in the same column) or a carriage return, wrapping at the end of the
  screen. Only the text buffer and the controller are written. The one condition is that there
  is a cell to take back.
\<close>

theorem vga_output_char_refines:
  assumes "cursor s < 2000" "c = 8 \<or> c = 127 \<Longrightarrow> cursor s \<noteq> 0"
  shows "screen_of (vga_output_char c s) = type_char (color s) c (screen_of s) \<and>
    cursor (vga_output_char c s) < 2000 \<and>
    eq_off text_area (bmem s) (bmem (vga_output_char c s)) \<and>
    color (vga_output_char c s) = color s"
proof -
  have "shows_screen s (type_char (color s) c (screen_of s)) (vga_output_char c s)"
    using assms by (rule output_char_shows)
  moreover from this have "cursor (vga_output_char c s) = scr_pos (type_char (color s) c (screen_of s))"
    by (auto simp: shows_screen_def screen_of_def dest: arg_cong [of _ _ scr_pos])
  moreover have "scr_pos (type_char (color s) c (screen_of s)) < 2000"
    using assms by (auto simp: type_char_def screen_of_def intro: order.strict_trans1 [OF times_div_less_eq_dividend])
  ultimately show ?thesis by (simp add: shows_screenD)
qed

theorem vga_output_char_refines_witness:
  "scr_cells (screen_of (vga_output_char 0x41 dark_machine)) 0 = 0x0f41 \<and> cursor (vga_output_char 0x41 dark_machine) < 2000"
proof -
  have "screen_of (vga_output_char 0x41 dark_machine) = type_char 0x0f 0x41 (screen_of dark_machine) \<and>
      cursor (vga_output_char 0x41 dark_machine) < 2000"
    using vga_output_char_refines [of dark_machine "0x41"] by simp
  moreover have "glyph 0x0f 0x41 = 0x0f41" by (simp add: glyph_def)
  ultimately show ?thesis by (simp add: type_char_def screen_of_def)
qed

text \<open>
  A backspace in the first cell leaves the screen: it overwrites the two bytes before the
  text buffer and sets the cursor to 65535, so that the next character that is displayed is
  written 127070 bytes past the end of the text buffer.
\<close>

theorem backspace_leaves_screen:
  assumes "cursor s = 0" "c = 8 \<or> c = 127" "c' \<notin> {8, 10, 13, 127}"
  shows "bmem (vga_output_char c s) = st16 (bmem s) (text_buffer - 2) (glyph (color s) blank) \<and>
    cursor (vga_output_char c s) = 65535 \<and>
    bmem (vga_output_char c' (vga_output_char c s)) =
      st16 (bmem (vga_output_char c s)) (text_buffer + 4000 + 127070) (glyph (color s) c')"
proof -
  let ?t = "s\<lparr>crtc_index := 0x0e\<rparr>"
  let ?u = "?t\<lparr>bmem := st16 (bmem s) (text_buffer - 2) (glyph (color s) blank)\<rparr>"
  have w: "cursor_word s = 0" using assms(1) by (simp add: cursor_def word_unat_eq_iff)
  have m: "(- 1) smod 80 = (- 1 :: int)" "(- 1) sdiv 80 = (0 :: int)" "(- 1) smod 2000 = (- 1 :: int)"
    by (simp_all add: signed_modulo_int_def signed_divide_int_def sgn_if)
  have d: "display_char 0x20 0 (- 1) ?t = put_cursor 0 ?u"
    by (simp add: display_char_def Let_def set_cursor_pos_eq blank_def)
  have bs: "vga_output_char c s = put_cursor (- 1) (put_cursor 0 ?u)"
    using assms(2) w by (auto simp: vga_output_char_def get_cursor_pos_eq m d set_cursor_pos_eq Let_def)
  then have c: "cursor_word (vga_output_char c s) = - 1" by simp
  have e: "uint (- 1 :: u16) = 65535" "unat (- 1 :: u16) = 65535"
    by (simp_all add: unsigned_minus_1_eq_mask mask_eq_exp_minus_1)
  have "bmem (vga_output_char c' t) = st16 (bmem t) (text_buffer + 4000 + 127070) (glyph (color t) c')"
    if "cursor_word t = - 1" for t :: "'a boot_machine_scheme"
    using assms(3) that
    by (simp add: vga_output_char_def get_cursor_pos_eq display_char_def set_cursor_pos_eq text_buffer_def Let_def e)
  from this [OF c] show ?thesis unfolding cursor_def c e by (simp add: bs)
qed

theorem backspace_leaves_screen_witness:
  "cursor (vga_output_char 8 dark_machine) = 65535"
  using backspace_leaves_screen [of dark_machine 8 "0x41"] by simp

section \<open>Strings and the whole screen\<close>

lemma next_cell: "int p div 80 + (int p mod 80 + 1) div 80 = int (Suc p) div 80"
  "(int p mod 80 + 1) mod 80 = int (Suc p) mod 80"
proof -
  have e: "int (Suc p) = (int p mod 80 + 1) + int p div 80 * 80"
    using div_mult_mod_eq [of "int p" 80] by simp
  show "int p div 80 + (int p mod 80 + 1) div 80 = int (Suc p) div 80"
    unfolding e by (subst div_mult_self1) simp_all
  show "(int p mod 80 + 1) mod 80 = int (Suc p) mod 80"
    unfolding e by (subst mod_mult_self1) simp_all
qed

lemma display_string_loop_shows:
  assumes "cstring (bmem s) (str + of_nat k) cs" "bytes_at (str + of_nat k) (Suc (length cs)) \<inter> text_area = {}"
    "p + length cs \<le> 2000" "k + length cs < 2 ^ 31"
  shows "\<exists>s'. display_string_loop str (int k) (int p div 80) (int p mod 80) s = Some s' \<and>
    shows_screen s (if cs = [] then screen_of s else
      screen_of s\<lparr>scr_cells := (\<lambda>i. if p \<le> i \<and> i < p + length cs then glyph (color s) (cs ! (i - p)) else scr_cells (screen_of s) i),
        scr_pos := (p + length cs) mod 2000\<rparr>) s'"
  using assms
proof (induction cs arbitrary: s k p)
  case Nil
  then show ?case by (subst display_string_loop.simps) (simp add: shows_screen_def)
next
  case (Cons c cs)
  let ?u = "display_char c (int p div 80) (int p mod 80) s"
  have p: "p < 2000" using Cons.prems(3) by simp
  note u = display_char_shows [OF p, of s c]
  have step: "display_string_loop str (int k) (int p div 80) (int p mod 80) s =
      display_string_loop str (int (Suc k)) (int (Suc p) div 80) (int (Suc p) mod 80) ?u"
  proof -
    have "c_int (int p div 80 + (int p mod 80 + 1) div 80) = int (Suc p) div 80"
      unfolding next_cell using p by (intro c_int_id) (simp_all add: pos_imp_zdiv_nonneg_iff)
    moreover have "c_int (int k + 1) = int (Suc k)" using Cons.prems(4) by (simp add: add.commute)
    ultimately show ?thesis
      using Cons.prems(1) by (subst display_string_loop.simps) (simp add: Let_def next_cell)
  qed
  have sub: "bytes_at (str + of_nat (Suc k)) (Suc (length cs)) \<subseteq> bytes_at (str + of_nat k) (Suc (length (c # cs)))"
    using bytes_at_Suc_subset [of "str + of_nat k" "Suc (length cs)"] by (simp add: ac_simps)
  have tail: "cstring (bmem s) (str + of_nat (Suc k)) cs"
    using Cons.prems(1) by (simp add: ac_simps)
  have dj: "bytes_at (str + of_nat (Suc k)) (Suc (length cs)) \<inter> text_area = {}"
    using Cons.prems(2) sub by blast
  have "\<exists>s'. display_string_loop str (int (Suc k)) (int (Suc p) div 80) (int (Suc p) mod 80) ?u = Some s' \<and>
    shows_screen ?u (if cs = [] then screen_of ?u else
      screen_of ?u\<lparr>scr_cells := (\<lambda>i. if Suc p \<le> i \<and> i < Suc p + length cs then glyph (color ?u) (cs ! (i - Suc p)) else scr_cells (screen_of ?u) i),
        scr_pos := (Suc p + length cs) mod 2000\<rparr>) s'"
  proof (rule Cons.IH)
    show "cstring (bmem ?u) (str + of_nat (Suc k)) cs"
      using tail shows_screenD(2) [OF u] dj by (rule cstring_eq_off) (use Cons.prems(4) in simp)
  qed (use dj Cons.prems(3,4) in simp_all)
  then obtain s' where s': "display_string_loop str (int (Suc k)) (int (Suc p) div 80) (int (Suc p) mod 80) ?u = Some s'"
    and sh: "shows_screen ?u (if cs = [] then screen_of ?u else
      screen_of ?u\<lparr>scr_cells := (\<lambda>i. if Suc p \<le> i \<and> i < Suc p + length cs then glyph (color ?u) (cs ! (i - Suc p)) else scr_cells (screen_of ?u) i),
        scr_pos := (Suc p + length cs) mod 2000\<rparr>) s'" (is "shows_screen ?u ?t s'")
    by blast
  have "?t = screen_of s\<lparr>scr_cells := (\<lambda>i. if p \<le> i \<and> i < p + length (c # cs) then glyph (color s) ((c # cs) ! (i - p)) else scr_cells (screen_of s) i),
        scr_pos := (p + length (c # cs)) mod 2000\<rparr>"
    unfolding shows_screenD(1,3) [OF u] by (auto simp: fun_eq_iff nth_Cons' le_Suc_eq)
  with shows_screen_trans [OF u sh] s' step show ?case by simp
qed

text \<open>
  \<open>display_string\<close> ends on every string of C that lies outside of the text buffer and
  fits on the rest of the screen, and puts its characters, in the current color, in the cells
  from the given row and column on, going over the ends of lines; the cursor is left behind the
  last one. It changes no other cell and nothing outside of the text buffer.
\<close>

theorem display_string_displays:
  assumes "cstring (bmem s) str cs" "bytes_at str (Suc (length cs)) \<inter> text_area = {}"
    "0 \<le> row" "0 \<le> col" "col < 80" "80 * row + col = int p" "p + length cs \<le> 2000"
  shows "\<exists>s'. display_string str row col s = Some s' \<and>
    (\<forall>i < 2000. cell (bmem s') i =
       (if p \<le> i \<and> i < p + length cs then glyph (color s) (cs ! (i - p)) else cell (bmem s) i)) \<and>
    cursor s' = (if cs = [] then cursor s else (p + length cs) mod 2000) \<and>
    eq_off text_area (bmem s) (bmem s') \<and> color s' = color s"
proof -
  have rc: "row = int p div 80" "col = int p mod 80"
    unfolding assms(6) [symmetric] using assms(4,5) by simp_all
  obtain s' where s': "display_string str row col s = Some s'"
      "shows_screen s (if cs = [] then screen_of s else
        screen_of s\<lparr>scr_cells := (\<lambda>i. if p \<le> i \<and> i < p + length cs then glyph (color s) (cs ! (i - p)) else scr_cells (screen_of s) i),
          scr_pos := (p + length cs) mod 2000\<rparr>) s'"
    using display_string_loop_shows [of s str 0 cs p] assms(1,2,7) by (auto simp: display_string_def rc)
  have "cell (bmem s') i = (if p \<le> i \<and> i < p + length cs then glyph (color s) (cs ! (i - p)) else cell (bmem s) i)"
    if "i < 2000" for i
    using arg_cong [OF shows_screenD(1) [OF s'(2)], of "\<lambda>t. scr_cells t i"] that
    by (auto simp: screen_of_def cells_of_def split: if_splits)
  moreover have "cursor s' = (if cs = [] then cursor s else (p + length cs) mod 2000)"
    using arg_cong [OF shows_screenD(1) [OF s'(2)], of scr_pos] by (auto simp: screen_of_def split: if_splits)
  ultimately show ?thesis using s'(1) shows_screenD(2,3) [OF s'(2)] by blast
qed

definition hi_machine :: boot_machine where
  "hi_machine = dark_machine\<lparr>bmem := (\<lambda>_. 0)(0x9000 := 0x48, 0x9001 := 0x69)\<rparr>"

theorem display_string_displays_witness:
  "\<exists>s'. display_string 0x9000 0 79 hi_machine = Some s' \<and> cell (bmem s') 79 = 0x0f48 \<and>
    cell (bmem s') 80 = 0x0f69 \<and> cursor s' = 81"
proof -
  have dj: "bytes_at 0x9000 (Suc (length [0x48 :: u8, 0x69])) \<inter> text_area = {}"
    by (auto simp: text_area_def text_buffer_def bytes_at_unat)
  have hi: "cstring (bmem hi_machine) 0x9000 [0x48, 0x69]" "color hi_machine = 0x0f"
    by (simp_all add: hi_machine_def)
  obtain s' where s': "display_string 0x9000 0 79 hi_machine = Some s'" "cursor s' = 81"
      "\<forall>i < 2000. cell (bmem s') i = (if 79 \<le> i \<and> i < 81 then glyph 0x0f ([0x48, 0x69] ! (i - 79)) else cell (bmem hi_machine) i)"
    using display_string_displays [OF hi(1) dj, of 0 79 79] hi(2) by auto
  from s'(3) have "cell (bmem s') 79 = glyph 0x0f 0x48" "cell (bmem s') 80 = glyph 0x0f 0x69" by simp_all
  then show ?thesis using s'(1,2) by (auto simp: glyph_def)
qed

lemma fill_shows:
  assumes "n \<le> 2000"
  shows "shows_screen s (screen_of s\<lparr>scr_cells := (\<lambda>i. if i < n then glyph (color s) blank else scr_cells (screen_of s) i),
      scr_pos := (if n = 0 then cursor s else n mod 2000)\<rparr>)
    (fold (\<lambda>i. display_char 0x20 (i sdiv 80) (i smod 80)) (map int [0..<n]) s)"
  using assms
proof (induction n)
  case 0
  then show ?case by (simp add: shows_screen_def screen_of_def)
next
  case (Suc n)
  let ?f = "fold (\<lambda>i. display_char 0x20 (i sdiv 80) (i smod 80)) (map int [0..<n]) s"
  from Suc have sh: "shows_screen s (screen_of s\<lparr>scr_cells := (\<lambda>i. if i < n then glyph (color s) blank else scr_cells (screen_of s) i),
      scr_pos := (if n = 0 then cursor s else n mod 2000)\<rparr>) ?f" by simp
  have n: "n < 2000" using Suc.prems by simp
  note sh' = display_char_shows [OF n, of ?f blank]
  have "screen_of ?f\<lparr>scr_cells := (scr_cells (screen_of ?f))(n := glyph (color ?f) blank), scr_pos := (n + 1) mod 2000\<rparr>
      = screen_of s\<lparr>scr_cells := (\<lambda>i. if i < Suc n then glyph (color s) blank else scr_cells (screen_of s) i), scr_pos := Suc n mod 2000\<rparr>"
    unfolding shows_screenD(1,3) [OF sh] by (auto simp: fun_eq_iff)
  with shows_screen_trans [OF sh sh'] show ?case by (simp add: blank_def)
qed

text \<open>
  \<open>reset_display\<close> makes every cell of the screen a blank in the current color and
  puts the cursor in the first one, whatever the display showed; it writes nothing outside of
  the text buffer.
\<close>

theorem reset_display_blanks:
  "(\<forall>i < 2000. cell (bmem (reset_display s)) i = glyph (color s) blank) \<and> cursor (reset_display s) = 0 \<and>
   eq_off text_area (bmem s) (bmem (reset_display s)) \<and> color (reset_display s) = color s"
proof -
  define f where "f = fold (\<lambda>i. display_char 0x20 (i sdiv 80) (i smod 80)) (map int [0..<2000]) s"
  have sh: "shows_screen s (screen_of s\<lparr>scr_cells := (\<lambda>i. if i < 2000 then glyph (color s) blank else scr_cells (screen_of s) i),
      scr_pos := 0\<rparr>) f"
    using fill_shows [of 2000 s] by (simp add: f_def)
  have "cell (bmem f) i = glyph (color s) blank" if "i < 2000" for i
    using arg_cong [OF shows_screenD(1) [OF sh], of "\<lambda>t. scr_cells t i"] that
    by (simp add: screen_of_def cells_of_def)
  moreover have "reset_display s = put_cursor 0 f"
    by (simp add: reset_display_def f_def set_cursor_pos_eq)
  ultimately show ?thesis using shows_screenD(2,3) [OF sh] by simp
qed

theorem reset_display_blanks_witness:
  "cell (bmem (reset_display dark_machine)) 7 = 0x0f20 \<and> cursor (reset_display dark_machine) = 0"
  using reset_display_blanks [of dark_machine] by (simp add: glyph_def blank_def)

end
