(* ===== verification/Print.thy ===== *)
theory Print
  imports Vga
begin

text \<open>
  The formatted output of the boot loader, src/boot/x86/print.c. The function the variable
  \<open>outb\<close> points to is an argument, as is the read access to memory for the format and
  for strings; the variable arguments are the list of the words they take on the stack. What the
  code computes is compared with a rendering of the format to a list of characters.
\<close>

section \<open>Operations\<close>

text \<open>An index outside of the table of digits is undefined.\<close>

definition hex_chars :: "u8 list" where
  "hex_chars = [0x30, 0x31, 0x32, 0x33, 0x34, 0x35, 0x36, 0x37, 0x38, 0x39, 0x41, 0x42, 0x43, 0x44, 0x45, 0x46]"

definition hex_char :: "int \<Rightarrow> u8 option" where
  "hex_char i = (if 0 \<le> i \<and> i < 16 then Some (hex_chars ! nat i) else None)"

text \<open>\<open>%d\<close>: the loop that reverses the digits and counts them, and the one that prints them.\<close>

function reverse_loop :: "int \<Rightarrow> int \<Rightarrow> int \<Rightarrow> int \<times> int" where
  "reverse_loop sign_integer reversed_int integer_len =
     (if sign_integer > 0 then
        let reversed_int = c_int (reversed_int * 10);
            reversed_int = c_int (reversed_int + sign_integer smod 10)
        in reverse_loop (sign_integer sdiv 10) reversed_int (c_int (integer_len + 1))
      else (reversed_int, integer_len))"
  by pat_completeness auto
termination
  by (relation "measure (\<lambda>(n, r, l). nat n)") (auto simp: int_div_less_self)

declare reverse_loop.simps [simp del]

fun print_digits :: "(u8 \<Rightarrow> 's \<Rightarrow> 's option) \<Rightarrow> nat \<Rightarrow> int \<Rightarrow> 's \<Rightarrow> 's option" where
  "print_digits outb 0 reversed_int s = Some s"
| "print_digits outb (Suc dec_place) reversed_int s = do {
     d \<leftarrow> hex_char (reversed_int smod 10);
     s \<leftarrow> outb d s;
     print_digits outb dec_place (reversed_int sdiv 10) s
   }"

definition print_signed :: "(u8 \<Rightarrow> 's \<Rightarrow> 's option) \<Rightarrow> u32 \<Rightarrow> 's \<Rightarrow> 's option" where
  "print_signed outb arg s = do {
     let sign_integer = sint arg;
     (s, sign_integer) \<leftarrow>
       (if sign_integer < 0 then do {
          s \<leftarrow> outb 0x2d s;
          Some (s, c_int (- sign_integer))
        } else Some (s, sign_integer));
     let (reversed_int, integer_len) = reverse_loop sign_integer 0 0;
     let integer_len = (if integer_len \<noteq> 0 then integer_len else 1);
     print_digits outb (nat integer_len) reversed_int s
   }"

lemma unat_down: "(a :: u32) \<noteq> 0 \<Longrightarrow> unat (- a - 1) < unat (- a)"
proof -
  assume "a \<noteq> 0"
  then have "unat (- a) \<noteq> 0" by (simp add: word_unat_eq_iff [of "- a" 0, simplified, symmetric])
  then show ?thesis by (subst unat_sub) (simp_all add: word_le_nat_alt)
qed

text \<open>\<open>%s\<close>: the loop tests the pointer, not the character.\<close>

function print_string ::
  "('s \<Rightarrow> u32 \<Rightarrow> u8 option) \<Rightarrow> (u8 \<Rightarrow> 's \<Rightarrow> 's option) \<Rightarrow> u32 \<Rightarrow> 's \<Rightarrow> 's option" where
  "print_string rd outb nstr s =
     (if nstr \<noteq> 0 then do {
        c \<leftarrow> rd s nstr;
        s \<leftarrow> outb c s;
        print_string rd outb (nstr + 1) s
      } else Some s)"
  by pat_completeness auto
termination
  by (relation "measure (\<lambda>(rd, outb, nstr, s). unat (- nstr))") (simp_all add: unat_down)

declare print_string.simps [simp del]

text \<open>\<open>%x\<close> and \<open>%b\<close>: the place counts down.\<close>

fun print_hex :: "(u8 \<Rightarrow> 's \<Rightarrow> 's option) \<Rightarrow> nat \<Rightarrow> u32 \<Rightarrow> 's \<Rightarrow> 's option" where
  "print_hex outb 0 sub_integer s = Some s"
| "print_hex outb (Suc hex_place) sub_integer s = do {
     d \<leftarrow> hex_char (uint (drop_bit (hex_place * 4) sub_integer AND 0xf));
     s \<leftarrow> outb d s;
     print_hex outb hex_place sub_integer s
   }"

fun print_bin :: "(u8 \<Rightarrow> 's \<Rightarrow> 's option) \<Rightarrow> nat \<Rightarrow> u32 \<Rightarrow> 's \<Rightarrow> 's option" where
  "print_bin outb 0 sub_integer s = Some s"
| "print_bin outb (Suc bin_place) sub_integer s = do {
     s \<leftarrow> outb (if drop_bit bin_place sub_integer AND 1 \<noteq> 0 then 0x31 else 0x30) s;
     print_bin outb bin_place sub_integer s
   }"

text \<open>The substitution of one character; taking an argument that was not passed is undefined.\<close>

definition va_arg :: "u32 list \<Rightarrow> (u32 \<times> u32 list) option" where
  "va_arg arglist = (case arglist of [] \<Rightarrow> None | a # arglist \<Rightarrow> Some (a, arglist))"

definition substitute ::
  "('s \<Rightarrow> u32 \<Rightarrow> u8 option) \<Rightarrow> (u8 \<Rightarrow> 's \<Rightarrow> 's option) \<Rightarrow> u8 \<Rightarrow> u32 list \<Rightarrow> 's \<Rightarrow> (u32 list \<times> 's) option" where
  "substitute rd outb cur_char arglist s =
     (if cur_char = 0x63 then do {
        (a, arglist) \<leftarrow> va_arg arglist;
        s \<leftarrow> outb (ucast a) s;
        Some (arglist, s)
      } else if cur_char = 0x64 then do {
        (a, arglist) \<leftarrow> va_arg arglist;
        s \<leftarrow> print_signed outb a s;
        Some (arglist, s)
      } else if cur_char = 0x73 then do {
        (a, arglist) \<leftarrow> va_arg arglist;
        s \<leftarrow> print_string rd outb a s;
        Some (arglist, s)
      } else if cur_char = 0x78 then do {
        (a, arglist) \<leftarrow> va_arg arglist;
        s \<leftarrow> print_hex outb 8 a s;
        Some (arglist, s)
      } else if cur_char = 0x62 then do {
        (a, arglist) \<leftarrow> va_arg arglist;
        s \<leftarrow> print_bin outb 32 a s;
        Some (arglist, s)
      } else if cur_char = 0x25 then do {
        s \<leftarrow> outb 0x25 s;
        Some (arglist, s)
      } else Some (arglist, s))"

partial_function (option) print_loop ::
  "('s \<Rightarrow> u32 \<Rightarrow> u8 option) \<Rightarrow> (u8 \<Rightarrow> 's \<Rightarrow> 's option) \<Rightarrow> u32 \<Rightarrow> int \<Rightarrow> bool \<Rightarrow> u32 list \<Rightarrow> 's \<Rightarrow> 's option" where
  "print_loop rd outb format offset substituting arglist s = do {
     cur_char \<leftarrow> rd s (format + of_int offset);
     if cur_char = 0 then Some s
     else if substituting then do {
       (arglist, s) \<leftarrow> substitute rd outb cur_char arglist s;
       print_loop rd outb format (c_int (offset + 1)) False arglist s
     } else if cur_char = 0x25 then
       print_loop rd outb format (c_int (offset + 1)) True arglist s
     else do {
       s \<leftarrow> outb cur_char s;
       print_loop rd outb format (c_int (offset + 1)) False arglist s
     }
   }"

definition print ::
  "('s \<Rightarrow> u32 \<Rightarrow> u8 option) \<Rightarrow> (u8 \<Rightarrow> 's \<Rightarrow> 's option) \<Rightarrow> u32 \<Rightarrow> u32 list \<Rightarrow> 's \<Rightarrow> 's option" where
  "print rd outb format args s = print_loop rd outb format 0 False args s"

section \<open>What a format stands for\<close>

text \<open>The output of a list of characters, one by one.\<close>

fun outs :: "(u8 \<Rightarrow> 's \<Rightarrow> 's option) \<Rightarrow> u8 list \<Rightarrow> 's \<Rightarrow> 's option" where
  "outs outb [] s = Some s"
| "outs outb (c # cs) s = do { s \<leftarrow> outb c s; outs outb cs s }"

lemma outs_Nil: "outs outb [] = Some" "print_digits outb 0 r = Some" "print_hex outb 0 w = Some"
  "print_bin outb 0 w = Some"
  by (simp_all add: fun_eq_iff)

lemma outs_single: "outs outb [c] = outb c"
  by (simp add: fun_eq_iff outs_Nil)

lemma bind_Some_map: "Option.bind m (\<lambda>s. Some (f s)) = map_option f m"
  by (cases m) simp_all

lemma outs_append: "outs outb (cs @ ds) s = do { s \<leftarrow> outs outb cs s; outs outb ds s }"
  by (induction cs arbitrary: s) (auto simp: bind_assoc split: bind_split)

definition digit :: "nat \<Rightarrow> u8" where
  "digit i = hex_chars ! i"

text \<open>Decimal, hexadecimal and binary numerals.\<close>

fun dec_digits :: "nat \<Rightarrow> u8 list" where
  "dec_digits n = (if n < 10 then [digit n] else dec_digits (n div 10) @ [digit (n mod 10)])"

declare dec_digits.simps [simp del]

definition decimal :: "int \<Rightarrow> u8 list" where
  "decimal i = (if i < 0 then 0x2d # dec_digits (nat (- i)) else dec_digits (nat i))"

definition numeral_of :: "nat \<Rightarrow> nat \<Rightarrow> nat \<Rightarrow> u8 list" where
  "numeral_of b k n = map (\<lambda>i. digit (n div b ^ i mod b)) (rev [0..<k])"

text \<open>
  The characters a substitution stands for and the arguments it leaves, for the numbers of at
  most nine digits and all other ones but \<open>%s\<close>.
\<close>

definition subst_chars :: "u8 \<Rightarrow> u32 list \<Rightarrow> (u8 list \<times> u32 list) option" where
  "subst_chars c args =
     (if c \<in> {0x63, 0x64, 0x73, 0x78, 0x62} then
        (case args of
           [] \<Rightarrow> None
         | a # args \<Rightarrow>
             if c = 0x63 then Some ([ucast a], args)
             else if c = 0x64 then (if \<bar>sint a\<bar> < 10 ^ 9 then Some (decimal (sint a), args) else None)
             else if c = 0x78 then Some (numeral_of 16 8 (unat a), args)
             else if c = 0x62 then Some (numeral_of 2 32 (unat a), args)
             else None)
      else Some (if c = 0x25 then [0x25] else [], args))"

fun render :: "u8 list \<Rightarrow> u32 list \<Rightarrow> u8 list option" where
  "render [] args = Some []"
| "render (c # cs) args =
     (if c \<noteq> 0x25 then map_option (\<lambda>out. c # out) (render cs args)
      else case cs of
        [] \<Rightarrow> Some []
      | d # cs \<Rightarrow> do {
          (out, args) \<leftarrow> subst_chars d args;
          map_option (\<lambda>out'. out @ out') (render cs args)
        })"

section \<open>Numbers\<close>

lemma hex_char_digit: "i < 16 \<Longrightarrow> hex_char (int i) = Some (digit i)"
  by (simp add: hex_char_def digit_def)

text \<open>The digits of a number, the last one first, and the number whose digits are a list.\<close>

fun lsb_digits :: "nat \<Rightarrow> nat list" where
  "lsb_digits n = (if n = 0 then [] else n mod 10 # lsb_digits (n div 10))"

declare lsb_digits.simps [simp del]

definition horner :: "nat \<Rightarrow> nat list \<Rightarrow> nat" where
  "horner = foldl (\<lambda>r d. 10 * r + d)"

lemma lsb_digits_less: "set (lsb_digits n) \<subseteq> {..<10}"
  by (induction n rule: lsb_digits.induct) (subst lsb_digits.simps, auto)

lemma dec_digits_eq: "0 < n \<Longrightarrow> dec_digits n = map digit (rev (lsb_digits n))"
proof (induction n rule: dec_digits.induct)
  case (1 n)
  then show ?case
    by (subst dec_digits.simps, subst lsb_digits.simps) (auto simp: lsb_digits.simps [of 0] lsb_digits.simps [of n])
qed

lemma horner_less: "set ds \<subseteq> {..<10} \<Longrightarrow> horner r ds < (r + 1) * 10 ^ length ds"
proof (induction ds arbitrary: r)
  case (Cons d ds)
  then have "horner (10 * r + d) ds < (10 * r + d + 1) * 10 ^ length ds" by simp
  also have "\<dots> \<le> (10 * r + 10) * 10 ^ length ds" using Cons.prems by (intro mult_le_mono1) simp
  finally show ?case by (simp add: horner_def algebra_simps)
qed (simp add: horner_def)

lemma lsb_digits_length: "n < 10 ^ k \<Longrightarrow> length (lsb_digits n) \<le> k"
proof (induction n arbitrary: k rule: lsb_digits.induct)
  case (1 n)
  show ?case
  proof (cases "n = 0")
    case False
    with 1(2) obtain j where j: "k = Suc j" by (cases k) auto
    with 1(2) have "n div 10 < 10 ^ j" by (simp add: div_less_iff_less_mult mult.commute)
    with False 1(1) j show ?thesis by (subst lsb_digits.simps) simp
  qed (simp add: lsb_digits.simps)
qed

text \<open>Nine digits fit, whatever they are.\<close>

lemma reverse_loop_eq:
  assumes "(r + 1) * 10 ^ length (lsb_digits n) \<le> 10 ^ 9" "l + length (lsb_digits n) \<le> 9"
  shows "reverse_loop (int n) (int r) (int l) =
    (int (horner r (lsb_digits n)), int (l + length (lsb_digits n)))"
  using assms
proof (induction n arbitrary: r l rule: lsb_digits.induct)
  case (1 n)
  show ?case
  proof (cases "n = 0")
    case True
    then show ?thesis by (subst reverse_loop.simps) (simp add: lsb_digits.simps horner_def)
  next
    case False
    let ?ds = "lsb_digits (n div 10)"
    have ds: "lsb_digits n = n mod 10 # ?ds" using False by (subst lsb_digits.simps) simp
    have "(10 * r + n mod 10 + 1) * 10 ^ length ?ds \<le> (10 * r + 10) * 10 ^ length ?ds"
      by (intro mult_le_mono1) (simp add: mod_less_divisor [of 10 n, simplified] Suc_leI)
    also have "\<dots> \<le> 10 ^ 9" using "1.prems"(1) by (simp add: ds algebra_simps)
    finally have b: "(10 * r + n mod 10 + 1) * 10 ^ length ?ds \<le> 10 ^ 9" .
    have "(10 * r + n mod 10 + 1) * 1 \<le> (10 * r + n mod 10 + 1) * 10 ^ length ?ds"
      by (intro mult_le_mono2) simp
    also note b
    finally have r: "10 * r + n mod 10 < 10 ^ 9" by simp
    have "c_int (c_int (int r * 10) + int n smod 10) = int (10 * r + n mod 10)"
      using r by (simp add: zmod_int)
    moreover have "int n sdiv 10 = int (n div 10)" by (simp add: zdiv_int)
    moreover have "c_int (int l + 1) = int (Suc l)" using "1.prems"(2) ds by simp
    ultimately have "reverse_loop (int n) (int r) (int l) =
        reverse_loop (int (n div 10)) (int (10 * r + n mod 10)) (int (Suc l))"
      using False by (subst reverse_loop.simps) (simp add: Let_def)
    with "1.IH" [OF False b, of "Suc l"] "1.prems"(2) show ?thesis by (simp add: ds horner_def)
  qed
qed

lemma print_digits_eq:
  "set ds \<subseteq> {..<10} \<Longrightarrow>
   print_digits outb (length ds) (int (horner 0 ds)) s = outs outb (map digit (rev ds)) s"
proof (induction ds arbitrary: s rule: rev_induct)
  case (snoc d ds)
  then have d: "d < 10" by simp
  have h: "horner 0 (ds @ [d]) = 10 * horner 0 ds + d" by (simp add: horner_def)
  have "int (10 * horner 0 ds + d) smod 10 = int d" "int (10 * horner 0 ds + d) sdiv 10 = int (horner 0 ds)"
    using d by simp_all
  moreover have "print_digits outb (length ds) (int (horner 0 ds)) = outs outb (map digit (rev ds))"
    using snoc by auto
  ultimately show ?case using d by (simp add: h hex_char_digit)
qed simp

lemma print_signed_eq:
  fixes outb :: "u8 \<Rightarrow> 's \<Rightarrow> 's option" and s :: 's
  assumes "\<bar>sint a\<bar> < 10 ^ 9"
  shows "print_signed outb a s = outs outb (decimal (sint a)) s"
proof -
  have num: "(let (reversed_int, integer_len) = reverse_loop (int n) 0 0;
        integer_len = (if integer_len \<noteq> 0 then integer_len else 1)
      in print_digits outb (nat integer_len) reversed_int s) = outs outb (dec_digits n) s"
    if "n < 10 ^ 9" for n and s :: 's
  proof (cases "n = 0")
    case True
    then show ?thesis
      by (simp add: reverse_loop.simps dec_digits.simps hex_char_digit [of 0, simplified] outs_Nil)
  next
    case False
    have len: "length (lsb_digits n) \<le> 9" by (rule lsb_digits_length [OF that])
    then have "(0 + 1) * 10 ^ length (lsb_digits n) \<le> (10 ^ 9 :: nat)"
      using power_increasing [of "length (lsb_digits n)" 9 "10 :: nat"] by simp
    with len reverse_loop_eq [of 0 n 0] have
      "reverse_loop (int n) 0 0 = (int (horner 0 (lsb_digits n)), int (length (lsb_digits n)))" by simp
    moreover have "lsb_digits n \<noteq> []" using False by (subst lsb_digits.simps) simp
    ultimately show ?thesis
      using False by (simp add: print_digits_eq [OF lsb_digits_less] dec_digits_eq)
  qed
  show ?thesis
  proof (cases "sint a < 0")
    case True
    then obtain n where n: "sint a = - int n" "0 < n" by (metis neg_int_cases)
    with assms have "n < 10 ^ 9" by simp
    with n num [of n] show ?thesis
      by (simp add: print_signed_def decimal_def Let_def split: prod.splits)
  next
    case False
    then obtain n where n: "sint a = int n" by (metis nonneg_int_cases not_less)
    with assms num [of n s] show ?thesis
      by (simp add: print_signed_def decimal_def Let_def split: prod.splits)
  qed
qed

lemma print_hex_eq: "k \<le> 8 \<Longrightarrow> print_hex outb k a s = outs outb (numeral_of 16 k (unat a)) s"
proof (induction k arbitrary: s)
  case (Suc k)
  have "unat (drop_bit (k * 4) a AND 0xf) = unat a div 16 ^ k mod 16"
  proof -
    have "drop_bit (k * 4) a AND 0xf = take_bit 4 (drop_bit (k * 4) a)"
      by (simp add: take_bit_eq_mask mask_eq_exp_minus_1)
    then have "unat (drop_bit (k * 4) a AND 0xf) = take_bit 4 (drop_bit (k * 4) (unat a))"
      by (simp only: unsigned_take_bit_eq unat_drop_bit_eq)
    then show ?thesis
      by (simp only: take_bit_eq_mod drop_bit_eq_div) (simp add: power_mult mult.commute [of k])
  qed
  then have "uint (drop_bit (k * 4) a AND 0xf) = int (unat a div 16 ^ k mod 16)" by (metis uint_nat)
  moreover have "print_hex outb k a = outs outb (numeral_of 16 k (unat a))" using Suc by auto
  ultimately show ?case by (simp add: hex_char_digit numeral_of_def)
qed (simp add: numeral_of_def)

lemma print_bin_eq: "k \<le> 32 \<Longrightarrow> print_bin outb k a s = outs outb (numeral_of 2 k (unat a)) s"
proof (induction k arbitrary: s)
  case (Suc k)
  have "(if drop_bit k a AND 1 \<noteq> 0 then 0x31 else 0x30) = digit (unat a div 2 ^ k mod 2)"
  proof -
    have "drop_bit k a AND 1 \<noteq> 0 \<longleftrightarrow> odd (unat a div 2 ^ k)"
      unfolding u32_and_1 unat_drop_bit_eq by (simp only: drop_bit_eq_div)
    then show ?thesis by (cases "odd (unat a div 2 ^ k)") (simp_all add: odd_iff_mod_2_eq_one digit_def hex_chars_def)
  qed
  moreover have "print_bin outb k a = outs outb (numeral_of 2 k (unat a))" using Suc by auto
  ultimately show ?case by (simp add: numeral_of_def)
qed (simp add: numeral_of_def)

section \<open>Printing a format\<close>

text \<open>
  What the printing relies on: the output function takes every character that satisfies
  \<open>ok\<close>, and leaves the bytes at \<open>safe\<close> addresses as they are.
\<close>

locale char_output =
  fixes rd :: "'s \<Rightarrow> u32 \<Rightarrow> u8 option"
    and outb :: "u8 \<Rightarrow> 's \<Rightarrow> 's option"
    and view :: "'s \<Rightarrow> bytes"
    and inv :: "'s \<Rightarrow> bool"
    and ok :: "u8 \<Rightarrow> bool"
    and safe :: "u32 set"
  assumes rd_safe: "a \<in> safe \<Longrightarrow> rd s a = Some (view s a)"
    and outb_ok: "inv s \<Longrightarrow> ok c \<Longrightarrow> \<exists>s'. outb c s = Some s' \<and> inv s' \<and> (\<forall>a \<in> safe. view s' a = view s a)"
begin

lemma outs_ok:
  "inv s \<Longrightarrow> list_all ok cs \<Longrightarrow> \<exists>s'. outs outb cs s = Some s' \<and> inv s' \<and> (\<forall>a \<in> safe. view s' a = view s a)"
proof (induction cs arbitrary: s)
  case (Cons c cs)
  then obtain s1 where "outb c s = Some s1" "inv s1" "\<forall>a \<in> safe. view s1 a = view s a"
    using outb_ok [of s c] by auto
  with Cons.IH [of s1] Cons.prems show ?case by auto
qed auto

lemma substitute_eq:
  "subst_chars c args = Some (out, args') \<Longrightarrow>
   substitute rd outb c args s = map_option (\<lambda>s. (args', s)) (outs outb out s)"
  by (auto simp: subst_chars_def substitute_def va_arg_def print_signed_eq print_hex_eq print_bin_eq
      outs_Nil bind_Some_map option.map_ident split: if_splits list.splits)

text \<open>
  The loop from offset \<open>k\<close> of a string that lies at safe addresses, in both of its
  modes.
\<close>

lemma print_loop_eq:
  assumes "cstring (view s) (format + of_nat k) cs" "bytes_at (format + of_nat k) (Suc (length cs)) \<subseteq> safe"
    "k + length cs < 2 ^ 31 - 1" "inv s" "render ((if sub then [0x25] else []) @ cs) args = Some out" "list_all ok out"
  shows "print_loop rd outb format (int k) sub args s = outs outb out s"
  using assms
proof (induction cs arbitrary: s k sub args out)
  case Nil
  then have "rd s (format + of_nat k) = Some 0" by (subst rd_safe) (auto simp: bytes_at_def)
  with Nil show ?case by (subst print_loop.simps) (auto split: if_splits)
next
  case (Cons c cs)
  have c: "rd s (format + of_nat k) = Some c" "c \<noteq> 0"
    using Cons.prems(1,2) rd_safe [of "format + of_nat k" s] by (auto simp: bytes_at_def subset_iff)
  have k: "c_int (int k + 1) = int (Suc k)" using Cons.prems(3) by simp
  have dj: "bytes_at (format + of_nat (Suc k)) (Suc (length cs)) \<subseteq> safe"
    using Cons.prems(2) bytes_at_Suc_subset [of "format + of_nat k" "Suc (length cs)"] by (auto simp: ac_simps)
  have tail: "cstring (view s') (format + of_nat (Suc k)) cs" if "\<forall>a \<in> safe. view s' a = view s a" for s'
  proof (rule cstring_eq_off)
    show "cstring (view s) (format + of_nat (Suc k)) cs" using Cons.prems(1) by (simp add: ac_simps)
    show "eq_off (- safe) (view s) (view s')" using that by (simp add: eq_off_def)
    show "bytes_at (format + of_nat (Suc k)) (Suc (length cs)) \<inter> - safe = {}" using dj by blast
  qed (use Cons.prems(3) in simp)
  have IH: "print_loop rd outb format (int (Suc k)) sub' args' s' = outs outb out' s'"
    if "\<forall>a \<in> safe. view s' a = view s a" "inv s'"
      "render ((if sub' then [0x25] else []) @ cs) args' = Some out'" "list_all ok out'"
    for sub' args' s' out'
    using Cons.IH [OF tail [OF that(1)] dj _ that(2-4)] Cons.prems(3) by simp
  show ?case
  proof (cases sub)
    case True
    with Cons.prems(5) obtain o1 args1 o2 where o: "subst_chars c args = Some (o1, args1)"
      "render cs args1 = Some o2" "out = o1 @ o2"
      by (auto split: bind_splits)
    obtain s1 where s1: "outs outb o1 s = Some s1" "inv s1" "\<forall>a \<in> safe. view s1 a = view s a"
      using outs_ok [OF Cons.prems(4)] Cons.prems(6) o(3) by auto
    have "print_loop rd outb format (int (Suc k)) False args1 s1 = outs outb o2 s1"
      using IH [OF s1(3,2), of False args1 o2] o Cons.prems(6) by simp
    then show ?thesis
      using c True o(3) s1(1) k by (subst print_loop.simps) (simp add: substitute_eq [OF o(1)] outs_append)
  next
    case False
    show ?thesis
    proof (cases "c = 0x25")
      case True
      with Cons.prems False IH [of s True args out] have
        "print_loop rd outb format (int (Suc k)) True args s = outs outb out s" by simp
      with True False c k show ?thesis by (subst print_loop.simps) simp
    next
      case ne: False
      with False Cons.prems(5) obtain o2 where o: "render cs args = Some o2" "out = c # o2" by auto
      obtain s1 where s1: "outb c s = Some s1" "inv s1" "\<forall>a \<in> safe. view s1 a = view s a"
        using outb_ok [OF Cons.prems(4)] Cons.prems(6) o(2) by auto
      have "print_loop rd outb format (int (Suc k)) False args s1 = outs outb o2 s1"
        using IH [OF s1(3,2), of False args o2] o Cons.prems(6) by simp
      with ne False c k o(2) s1(1) show ?thesis by (subst print_loop.simps) simp
    qed
  qed
qed

end

section \<open>On the display\<close>

definition vga_outb :: "u8 \<Rightarrow> 'a boot_machine_scheme \<Rightarrow> 'a boot_machine_scheme option" where
  "vga_outb c s = Some (vga_output_char c s)"

text \<open>The display takes every character but the two that take one back.\<close>

lemma vga_outb_ok:
  assumes "cursor s < 2000" "c \<noteq> 8 \<and> c \<noteq> 127"
  shows "cursor (vga_output_char c s) < 2000"
    "shows_screen s (type_char (color s) c (screen_of s)) (vga_output_char c s)"
proof -
  show sh: "shows_screen s (type_char (color s) c (screen_of s)) (vga_output_char c s)"
    using assms by (intro output_char_shows) auto
  have "cursor (vga_output_char c s) = scr_pos (type_char (color s) c (screen_of s))"
    using arg_cong [OF shows_screenD(1) [OF sh], of scr_pos] by (simp add: screen_of_def)
  then show "cursor (vga_output_char c s) < 2000"
    using assms order.strict_trans1 [OF thd, of "cursor s" 2000 80] by (auto simp: type_char_def screen_of_def)
qed

interpretation vga: char_output brd8 vga_outb bmem "\<lambda>s. cursor s < 2000" "\<lambda>c. c \<noteq> 8 \<and> c \<noteq> 127" "- text_area"
  by unfold_locales (auto simp: brd8_def vga_outb_def vga_outb_ok(1) eq_offD [OF shows_screenD(2) [OF vga_outb_ok(2)]])

lemma outs_vga:
  "cursor s < 2000 \<Longrightarrow> list_all (\<lambda>c. c \<noteq> 8 \<and> c \<noteq> 127) cs \<Longrightarrow>
   \<exists>s'. outs vga_outb cs s = Some s' \<and> shows_screen s (fold (type_char (color s)) cs (screen_of s)) s' \<and> cursor s' < 2000"
proof (induction cs arbitrary: s)
  case Nil
  then show ?case by (simp add: shows_screen_def)
next
  case (Cons c cs)
  then have c: "c \<noteq> 8 \<and> c \<noteq> 127" by simp
  note sh = vga_outb_ok [OF Cons.prems(1) c]
  from Cons.IH [OF sh(1)] Cons.prems(2) obtain s' where
    "outs vga_outb cs (vga_output_char c s) = Some s'" "cursor s' < 2000"
    "shows_screen (vga_output_char c s) (fold (type_char (color s)) cs (type_char (color s) c (screen_of s))) s'"
    by (auto simp: shows_screenD(1,3) [OF sh(2)])
  moreover have "vga_outb c s = Some (vga_output_char c s)" by (simp add: vga_outb_def)
  ultimately show ?case using shows_screen_trans [OF sh(2)] by auto
qed

text \<open>
  (C14) \<open>print\<close> to the display ends and shows exactly the characters its format stands for:
  \<open>%c\<close> a character, \<open>%d\<close> a decimal numeral with its sign, \<open>%x\<close> eight
  hexadecimal and \<open>%b\<close> 32 binary digits, \<open>%%\<close> a percent sign, everything else
  itself. This holds for every format that is a string outside of the text buffer, without
  \<open>%s\<close>, with enough arguments, decimal ones of at most nine digits, and no backspaces in the
  output.
\<close>

theorem print_renders:
  assumes "cstring (bmem s) format cs" "bytes_at format (Suc (length cs)) \<inter> text_area = {}"
    "length cs < 2 ^ 31 - 1" "cursor s < 2000" "render cs args = Some out" "8 \<notin> set out" "127 \<notin> set out"
  shows "\<exists>s'. print brd8 vga_outb format args s = Some s' \<and>
    screen_of s' = fold (type_char (color s)) out (screen_of s) \<and>
    eq_off text_area (bmem s) (bmem s') \<and> color s' = color s"
proof -
  have ok: "list_all (\<lambda>c. c \<noteq> 8 \<and> c \<noteq> 127) out" using assms(6,7) by (auto simp: list_all_iff)
  have "print brd8 vga_outb format args s = outs vga_outb out s"
    using vga.print_loop_eq [of s format 0 cs False args out] assms(1-5) ok
    by (auto simp: print_def)
  moreover obtain s' where "outs vga_outb out s = Some s'"
      "shows_screen s (fold (type_char (color s)) out (screen_of s)) s'"
    using outs_vga [OF assms(4) ok] by blast
  ultimately show ?thesis using shows_screenD by metis
qed

definition format_machine :: boot_machine where
  "format_machine = dark_machine\<lparr>bmem := (\<lambda>_. 0)(0x9000 := 0x25, 0x9001 := 0x64, 0x9002 := 0x21)\<rparr>"

theorem print_renders_witness:
  "\<exists>s'. print brd8 vga_outb 0x9000 [0xfffffff6] format_machine = Some s' \<and>
    screen_of s' = fold (type_char 0x0f) [0x2d, 0x31, 0x30, 0x21] (screen_of format_machine)"
proof -
  have dj: "bytes_at 0x9000 (Suc (length [0x25 :: u8, 0x64, 0x21])) \<inter> text_area = {}"
    by (auto simp: text_area_def text_buffer_def bytes_at_unat)
  have m: "cstring (bmem format_machine) 0x9000 [0x25, 0x64, 0x21]" "color format_machine = 0x0f"
    "cursor format_machine < 2000"
    by (simp_all add: format_machine_def dark_machine_def cursor_def cursor_word_def)
  have "sint (0xfffffff6 :: u32) = - 10" by simp
  then have r: "render [0x25, 0x64, 0x21] [0xfffffff6] = Some [0x2d, 0x31, 0x30, 0x21]"
    by (simp add: subst_chars_def decimal_def dec_digits.simps digit_def hex_chars_def)
  show ?thesis using print_renders [OF m(1) dj _ m(3) r] m(2) by auto
qed

text \<open>
  \<open>%d\<close> goes wrong for numbers whose reversed digits do not fit 32 bits: 1000000003 is
  reversed to a negative number, whose remainder indexes the table of digits before its start.
  The least number, which is its own negation, is printed as a sign and a zero.
\<close>

theorem print_signed_overflow:
  "print_signed outb 1000000003 s = None \<and> print_signed outb 0x80000000 s = outs outb [0x2d, 0x30] s"
proof -
  have "reverse_loop 1000000003 0 0 = (- 1294967295, 10)" by code_simp
  moreover have "(- 1294967295) smod 10 = (- 5 :: int)" by code_simp
  moreover have "reverse_loop (- 2147483648) 0 0 = (0, 0)" by code_simp
  moreover have "c_int 2147483648 = - 2147483648" by code_simp
  ultimately show ?thesis
    by (simp add: print_signed_def hex_char_def hex_char_digit [of 0, simplified] outs_Nil outs_single digit_def hex_chars_def
      numeral_eq_Suc)
qed

text \<open>
  \<open>%s\<close> does not stop at the end of its string: whatever memory holds, it outputs one
  character for each address from the one it is given to the end of the address space.
\<close>

theorem print_string_runs_on:
  "print_string (\<lambda>_ a. Some (m a)) (\<lambda>_ n. Some (Suc n)) p n = Some (n + (if p = 0 then 0 else 2 ^ 32 - unat p))"
proof (induction "unat (- p)" arbitrary: p n rule: less_induct)
  case less
  show ?case
  proof (cases "p = 0")
    case False
    have u: "unat (p + 1) = unat p + 1 \<and> p + 1 \<noteq> 0 \<or> p + 1 = 0 \<and> unat p = 2 ^ 32 - 1"
    proof (cases "unat p + 1 < 2 ^ 32")
      case True
      then have "unat (p + 1) = unat p + 1" using unat_add_of_nat [of p 1] by simp
      then show ?thesis by (metis add_gr_0 less_one neq0_conv unat_0)
    next
      case last: False
      with unat_u32_less [of p] have "unat p = unat (- 1 :: u32)" by (simp add: unsigned_minus_1_eq_mask mask_eq_exp_minus_1)
      then have "p = - 1" by (rule u32_eqI)
      with last unat_u32_less [of p] show ?thesis by simp
    qed
    have "unat (- (p + 1)) < unat (- p)" using unat_down [OF False] by simp
    from less [OF this, of "Suc n"] False u unat_u32_less [of p] show ?thesis
      by (subst print_string.simps) (elim disjE; simp)
  qed (simp add: print_string.simps)
qed

end
