(* ===== verification/Bios.thy ===== *)
theory Bios
  imports Boot_Machine
begin

text \<open>
  The BIOS services of the boot loader, src/boot/x86/bios.c and bios.h: reading sectors of a
  drive and the list of memory ranges. The BIOS itself is a parameter, a function of the number
  of the interrupt, the registers and the machine, and can be called only while paging is off
  (\<open>bios_int\<close>); what the code relies on, of the documented
  services, are the predicates \<open>disk_bios\<close> and \<open>e820_bios\<close>. The addresses of
  the local variables that are handed to the BIOS are a parameter as well.
\<close>

section \<open>Data\<close>

record bios_registers =
  r_eax :: u32
  r_ebx :: u32
  r_ecx :: u32
  r_edx :: u32
  r_esi :: u32
  r_edi :: u32

record bios_dap =
  dap_size :: u8
  dap_unused :: u8
  dap_load_size :: u16
  dap_load_offset :: u16
  dap_load_segment :: u16
  dap_lba_low :: u32
  dap_lba_high :: u32

record address_range =
  ar_base_low :: u32
  ar_base_high :: u32
  ar_size_low :: u32
  ar_size_high :: u32
  ar_type :: u32
  ar_acpi_attributes :: u32

text \<open>The variables of the drive are set by the first stage of the boot loader.\<close>

record disk_machine = boot_machine +
  drive_bytes_per_sector :: u16
  drive_number :: u8

text \<open>From the second stage on, the control register of the processor is part of the machine.\<close>

record bios_machine = disk_machine +
  boot_cr0 :: u32

type_synonym 'a bios = "u8 \<Rightarrow> bios_registers \<Rightarrow> 'a bios_machine_scheme \<Rightarrow> bios_registers \<times> 'a bios_machine_scheme"

record bios_frame =
  temp_buffer_at :: u32
  temp_dap_at :: u32

text \<open>The packed structures in memory.\<close>

definition load_dap :: "bytes \<Rightarrow> u32 \<Rightarrow> bios_dap" where
  "load_dap m a = \<lparr>dap_size = m a, dap_unused = m (a + 1), dap_load_size = ld16 m (a + 2),
     dap_load_offset = ld16 m (a + 4), dap_load_segment = ld16 m (a + 6),
     dap_lba_low = ld32 m (a + 8), dap_lba_high = ld32 m (a + 12)\<rparr>"

definition store_dap :: "bytes \<Rightarrow> u32 \<Rightarrow> bios_dap \<Rightarrow> bytes" where
  "store_dap m a d =
     (let m = m(a := dap_size d, a + 1 := dap_unused d);
          m = st16 m (a + 2) (dap_load_size d);
          m = st16 m (a + 4) (dap_load_offset d);
          m = st16 m (a + 6) (dap_load_segment d);
          m = st32 m (a + 8) (dap_lba_low d)
      in st32 m (a + 12) (dap_lba_high d))"

definition load_range :: "bytes \<Rightarrow> u32 \<Rightarrow> address_range" where
  "load_range m a = \<lparr>ar_base_low = ld32 m a, ar_base_high = ld32 m (a + 4), ar_size_low = ld32 m (a + 8),
     ar_size_high = ld32 m (a + 12), ar_type = ld32 m (a + 16), ar_acpi_attributes = ld32 m (a + 20)\<rparr>"

section \<open>Operations\<close>

text \<open>
  \<open>_bios_int\<close> (bios.s) clears the bit of protected mode in \<open>cr0\<close> before it raises the
  interrupt. With paging on, bit 31, the processor refuses that, and the result is \<open>None\<close>. Otherwise
  the BIOS runs with the registers given, and the registers it leaves are handed to the caller.
  Theory \<open>Bios_Switch\<close> models the routine instruction by instruction and shows both.
\<close>

definition paging :: "'a bios_machine_scheme \<Rightarrow> bool" where
  "paging s \<longleftrightarrow> bit (boot_cr0 s) 31"

definition bios_int ::
  "'a bios \<Rightarrow> bios_registers \<Rightarrow> u8 \<Rightarrow> 'a bios_machine_scheme \<Rightarrow> (bios_registers \<times> 'a bios_machine_scheme) option" where
  "bios_int B registers code s = (if paging s then None else Some (B code registers s))"

text \<open>One round of the read loop: one sector by way of the buffer below 64 KiB.\<close>

definition copy_sector :: "'b bios_frame_scheme \<Rightarrow> u32 \<Rightarrow> nat \<Rightarrow> 'a bios_machine_scheme \<Rightarrow> 'a bios_machine_scheme" where
  "copy_sector F output_address i s =
     (let n = unat (drive_bytes_per_sector s) in
      fold (\<lambda>j s. s\<lparr>bmem := (bmem s)(output_address + of_nat (j + i * n) := bmem s (temp_buffer_at F + of_nat j))\<rparr>)
        [0..<n] s)"

definition next_lba :: "'b bios_frame_scheme \<Rightarrow> 'a bios_machine_scheme \<Rightarrow> 'a bios_machine_scheme" where
  "next_lba F s =
     (let low = ld32 (bmem s) (temp_dap_at F + 8) + 1;
          s = s\<lparr>bmem := st32 (bmem s) (temp_dap_at F + 8) low\<rparr>
      in if low = 0
         then s\<lparr>bmem := st32 (bmem s) (temp_dap_at F + 12) (ld32 (bmem s) (temp_dap_at F + 12) + 1)\<rparr>
         else s)"

definition read_sector ::
  "'a bios \<Rightarrow> 'b bios_frame_scheme \<Rightarrow> bios_registers \<Rightarrow> u32 \<Rightarrow> nat \<Rightarrow> 'a bios_machine_scheme \<Rightarrow> 'a bios_machine_scheme option" where
  "read_sector B F registers output_address i s = do {
     (_, s) \<leftarrow> bios_int B registers 0x13 s;
     Some (next_lba F (copy_sector F output_address i s))
   }"

definition bios_ext_read ::
  "'a bios \<Rightarrow> 'b bios_frame_scheme \<Rightarrow> u32 \<Rightarrow> u32 \<Rightarrow> u32 \<Rightarrow> 'a bios_machine_scheme \<Rightarrow> 'a bios_machine_scheme option" where
  "bios_ext_read B F output_address lba_offset len s =
     (let temp_dap = \<lparr>dap_size = 0x10, dap_unused = 0, dap_load_size = 1,
            dap_load_offset = ucast (temp_buffer_at F), dap_load_segment = 0,
            dap_lba_low = lba_offset, dap_lba_high = 0\<rparr>;
          s = s\<lparr>bmem := store_dap (bmem s) (temp_dap_at F) temp_dap\<rparr>;
          registers = \<lparr>r_eax = 0x4200, r_ebx = 0, r_ecx = 0, r_edx = ucast (drive_number s),
            r_esi = temp_dap_at F, r_edi = 0\<rparr>
      in for_loop 0 (unat len) (read_sector B F registers output_address) s)"

text \<open>
  The loop of the memory scan. The array holds 24 bytes for each range; the step of the
  address is the size of another structure, which is the same.
\<close>

function scan_loop ::
  "'a bios \<Rightarrow> bios_registers \<Rightarrow> nat \<Rightarrow> nat \<Rightarrow> 'a bios_machine_scheme \<Rightarrow> (nat \<times> 'a bios_machine_scheme) option" where
  "scan_loop B registers len i s =
     (if i < len then do {
        (result_registers, s) \<leftarrow> bios_int B registers 0x15 s;
        if r_ebx result_registers = 0 then Some (i + 1, s)
        else scan_loop B (registers\<lparr>r_ebx := r_ebx result_registers, r_edi := r_edi registers + 24\<rparr>) len (Suc i) s
      } else Some (len, s))"
  by auto
termination by (relation "measure (\<lambda>(B, r, len, i, s). len - i)") auto

declare scan_loop.simps [simp del]

definition bios_mem_scan ::
  "'a bios \<Rightarrow> u32 \<Rightarrow> nat \<Rightarrow> 'a bios_machine_scheme \<Rightarrow> (nat \<times> 'a bios_machine_scheme) option" where
  "bios_mem_scan B buffer len s =
     (let registers = \<lparr>r_eax = 0xe820, r_ebx = 0, r_ecx = 24, r_edx = 0x534d4150, r_esi = 0, r_edi = buffer\<rparr>
      in scan_loop B registers len 0 s)"

lemma bios_int_off [simp]: "\<not> paging s \<Longrightarrow> bios_int B r code s = Some (B code r s)"
  by (simp add: bios_int_def)

lemma bios_int_on [simp]: "paging s \<Longrightarrow> bios_int B r code s = None"
  by (simp add: bios_int_def)

lemma paging_bmem [simp]: "paging (s\<lparr>bmem := m\<rparr>) \<longleftrightarrow> paging s"
  by (simp add: paging_def)

section \<open>What the BIOS does\<close>

text \<open>Bytes written to consecutive addresses.\<close>

definition put_bytes :: "bytes \<Rightarrow> u32 \<Rightarrow> u8 list \<Rightarrow> bytes" where
  "put_bytes m a bs = (\<lambda>x. if unat (x - a) < length bs then bs ! unat (x - a) else m x)"

definition mem_list :: "bytes \<Rightarrow> u32 \<Rightarrow> nat \<Rightarrow> u8 list" where
  "mem_list m a n = map (\<lambda>i. m (a + of_nat i)) [0..<n]"

text \<open>
  Interrupt 0x13 with function 0x42 reads the sectors its disk address packet asks for to
  the real-mode address in it; it is only used for a single sector here.
\<close>

definition dap_lba :: "bios_dap \<Rightarrow> u64" where
  "dap_lba d = ucast (dap_lba_low d) + 0x100000000 * ucast (dap_lba_high d)"

definition disk_bios :: "'a bios \<Rightarrow> (u64 \<Rightarrow> u8 list) \<Rightarrow> bool" where
  "disk_bios B dsk \<longleftrightarrow> (\<forall>r s.
     (let d = load_dap (bmem s) (r_esi r) in
      r_eax r = 0x4200 \<longrightarrow> r_edx r = ucast (drive_number s) \<longrightarrow> dap_size d = 0x10 \<longrightarrow> dap_load_size d = 1 \<longrightarrow>
      length (dsk (dap_lba d)) = unat (drive_bytes_per_sector s) \<longrightarrow>
      snd (B 0x13 r s) = s\<lparr>bmem := put_bytes (bmem s)
        (16 * ucast (dap_load_segment d) + ucast (dap_load_offset d)) (dsk (dap_lba d))\<rparr>))"

text \<open>Two ranges that agree in what a BIOS that knows 20 bytes of them writes.\<close>

definition same_range :: "address_range \<Rightarrow> address_range \<Rightarrow> bool" where
  "same_range r q \<longleftrightarrow> r = q\<lparr>ar_acpi_attributes := ar_acpi_attributes r\<rparr>"

text \<open>
  Interrupt 0x15 with function 0xe820 writes one memory range, of 20 or 24 bytes, and yields
  the value of \<open>ebx\<close> that continues the list, which is 0 after the last one.
\<close>

definition e820_bios :: "'a bios \<Rightarrow> (nat \<Rightarrow> u32) \<Rightarrow> address_range list \<Rightarrow> bool" where
  "e820_bios B cont rs \<longleftrightarrow> cont 0 = 0 \<and> (\<forall>k r s.
     k < length rs \<longrightarrow> r_eax r = 0xe820 \<longrightarrow> r_edx r = 0x534d4150 \<longrightarrow> 20 \<le> r_ecx r \<longrightarrow> r_ebx r = cont k \<longrightarrow>
     unat (r_edi r) + 24 \<le> 0x10000 \<longrightarrow>
     (if Suc k < length rs then r_ebx (fst (B 0x15 r s)) = cont (Suc k) \<and> cont (Suc k) \<noteq> 0
      else r_ebx (fst (B 0x15 r s)) = 0) \<and>
     (\<exists>m. snd (B 0x15 r s) = s\<lparr>bmem := m\<rparr> \<and> eq_off (bytes_at (r_edi r) 24) (bmem s) m \<and>
       same_range (load_range m (r_edi r)) (rs ! k)))"

lemma eq_off_chain: "eq_off X a b \<Longrightarrow> eq_off X b c \<Longrightarrow> eq_off X a c"
  using eq_off_trans [of X a b X c] by simp

lemma put_bytes_Nil [simp]: "put_bytes m a [] = m"
  by (simp add: put_bytes_def)

lemma offset_unat: "n < 2 ^ 32 \<Longrightarrow> unat (x - a :: u32) = n \<longleftrightarrow> x = a + of_nat n"
  using unat_of_nat_u32 [of n] by (metis add_diff_cancel_left' diff_add_cancel add.commute u32_eqI)

lemma put_bytes_snoc:
  "length bs < 2 ^ 32 \<Longrightarrow> put_bytes m a (bs @ [c]) = (put_bytes m a bs)(a + of_nat (length bs) := c)"
  using offset_unat [of "length bs" _ a] unat_of_nat_u32 [of "length bs"]
  by (auto simp: put_bytes_def fun_eq_iff nth_append less_Suc_eq)

lemma eq_off_put_bytes: "eq_off (bytes_at a (length bs)) m (put_bytes m a bs)"
  by (simp add: eq_off_def bytes_at_def put_bytes_def)

lemma mem_list_Suc: "mem_list m a (Suc n) = mem_list m a n @ [m (a + of_nat n)]"
  by (simp add: mem_list_def)

lemma length_mem_list [simp]: "length (mem_list m a n) = n"
  by (simp add: mem_list_def)

lemma mem_list_put_bytes: "length bs \<le> 2 ^ 32 \<Longrightarrow> mem_list (put_bytes m a bs) a (length bs) = bs"
  by (auto simp: mem_list_def put_bytes_def unat_of_nat_u32 intro!: nth_equalityI)

lemma in_bytes_at: "i < n \<Longrightarrow> n \<le> 2 ^ 32 \<Longrightarrow> a + of_nat i \<in> bytes_at a n"
  by (simp add: bytes_at_def unat_of_nat_u32)

lemma mem_list_eq_off:
  assumes "eq_off X m m'" "bytes_at a n \<inter> X = {}" "n \<le> 2 ^ 32"
  shows "mem_list m' a n = mem_list m a n"
proof -
  have "a + of_nat i \<notin> X" if "i < n" for i
    using in_bytes_at [OF that assms(3), of a] assms(2) by blast
  with assms(1) show ?thesis by (simp add: mem_list_def eq_off_def)
qed

lemma mem_list_add:
  "mem_list m a (n + k) = mem_list m a n @ mem_list m (a + of_nat n) k"
proof (induction k)
  case (Suc k)
  then show ?case by (simp only: add_Suc_right mem_list_Suc append_assoc) (simp add: add.assoc)
qed (simp add: mem_list_def)

lemma bytes_at_sub:
  assumes "i + k \<le> n" "n \<le> 2 ^ 32"
  shows "bytes_at (a + of_nat i) k \<subseteq> bytes_at a n"
proof
  fix x assume "x \<in> bytes_at (a + of_nat i) k"
  then have *: "unat (x - (a + of_nat i)) < k" by (simp add: bytes_at_def)
  have "x - a = (x - (a + of_nat i)) + of_nat i" by simp
  moreover have "unat ((x - (a + of_nat i)) + of_nat i) = unat (x - (a + of_nat i)) + i"
    using * assms by (intro unat_add_of_nat) simp
  ultimately show "x \<in> bytes_at a n" using * assms(1) by (simp add: bytes_at_def)
qed

lemma parts_apart:
  assumes "(k + 1) * n \<le> 2 ^ 32"
  shows "bytes_at a (k * n) \<inter> bytes_at (a + of_nat (k * n)) n = {}"
proof -
  have False if x: "x \<in> bytes_at a (k * n)" "x \<in> bytes_at (a + of_nat (k * n)) n" for x
  proof -
    have *: "unat (x - (a + of_nat (k * n))) < n" using x by (simp add: bytes_at_def)
    have "x - a = (x - (a + of_nat (k * n))) + of_nat (k * n)" by simp
    moreover have "unat ((x - (a + of_nat (k * n))) + of_nat (k * n)) = unat (x - (a + of_nat (k * n))) + k * n"
      using * assms by (intro unat_add_of_nat) simp
    ultimately show False using x(1) by (simp add: bytes_at_def)
  qed
  then show ?thesis by blast
qed

section \<open>Reading sectors\<close>

lemma ld16I: "m a = ucast v \<Longrightarrow> m (a + 1) = ucast (drop_bit 8 v) \<Longrightarrow> ld16 m a = v"
  using ld16_st16_same [of m a v] by (simp add: ld16_def st16_def)

lemma ld32I: "m a = ucast v \<Longrightarrow> m (a + 1) = ucast (drop_bit 8 v) \<Longrightarrow> m (a + 2) = ucast (drop_bit 16 v) \<Longrightarrow>
    m (a + 3) = ucast (drop_bit 24 v) \<Longrightarrow> ld32 m a = v"
  using ld32_st32_same [of m a v] by (simp add: ld32_def st32_def)

lemma load_store_dap [simp]: "load_dap (store_dap m a d) a = d"
proof -
  have h: "ld16 (store_dap m a d) (a + 2) = dap_load_size d" "ld16 (store_dap m a d) (a + 4) = dap_load_offset d"
    "ld16 (store_dap m a d) (a + 6) = dap_load_segment d"
    by (rule ld16I; simp add: store_dap_def st16_def st32_def add.assoc)+
  have w: "ld32 (store_dap m a d) (a + 8) = dap_lba_low d" "ld32 (store_dap m a d) (a + 12) = dap_lba_high d"
    by (rule ld32I; simp add: store_dap_def st16_def st32_def add.assoc)+
  show ?thesis
    unfolding load_dap_def h w by (simp add: store_dap_def st16_def st32_def add.assoc)
qed

lemma eq_off_store_dap: "eq_off (bytes_at a 16) m (store_dap m a d)"
  by (auto simp: eq_off_def bytes_at_def store_dap_def st16_def st32_def add.assoc)

text \<open>Adding one to the two halves of the number of the sector.\<close>

lemma dap_lba_next:
  assumes "dap_lba_low d' = dap_lba_low d + 1"
    "dap_lba_high d' = (if dap_lba_low d + 1 = 0 then dap_lba_high d + 1 else dap_lba_high d)"
  shows "dap_lba d' = dap_lba d + 1"
proof -
  have u: "(ucast (w + 1) :: u64) = (if w + 1 = 0 then 0 else ucast w + 1)" for w :: u32
  proof (cases "w + 1 = 0")
    case False
    then have "unat (w + 1) = unat w + 1" using unatSuc [of w] by (simp add: add.commute)
    then have "(of_nat (unat (w + 1)) :: u64) = of_nat (unat w + 1)" by (simp only:)
    with False show ?thesis by (simp add: add.commute)
  qed simp
  have m: "(ucast w :: u64) = 0xffffffff" if "w + 1 = 0" for w :: u32
  proof -
    have "w = 0xffffffff" using that by (simp add: add_eq_0_iff2)
    then show ?thesis by simp
  qed
  show ?thesis
  proof (cases "dap_lba_low d + 1 = 0")
    case True
    then have "dap_lba d' = 0x100000000 * ucast (dap_lba_high d + 1)" by (simp add: dap_lba_def assms)
    moreover have "dap_lba d + 1 = 0x100000000 * (ucast (dap_lba_high d) + 1)"
      by (simp add: dap_lba_def m [OF True] algebra_simps)
    moreover have "0x100000000 * (ucast (dap_lba_high d + 1) :: u64) = 0x100000000 * (ucast (dap_lba_high d) + 1)"
      using m [of "dap_lba_high d"] by (cases "dap_lba_high d + 1 = 0") (simp_all add: u)
    ultimately show ?thesis by simp
  next
    case False
    then show ?thesis by (simp add: dap_lba_def assms u)
  qed
qed

lemma copy_loop:
  assumes "bytes_at a n \<inter> bytes_at b n = {}" "n \<le> 2 ^ 32"
  shows "fold (\<lambda>j s. s\<lparr>bmem := (bmem s)(a + of_nat j := bmem s (b + of_nat j))\<rparr>) [0..<n] s =
    s\<lparr>bmem := put_bytes (bmem s) a (mem_list (bmem s) b n)\<rparr>"
proof -
  define f where "f j s = s\<lparr>bmem := (bmem s)(a + of_nat j := bmem s (b + of_nat j))\<rparr>" for j and s :: "'a boot_machine_scheme"
  have "fold f [0..<k] s = s\<lparr>bmem := put_bytes (bmem s) a (mem_list (bmem s) b k)\<rparr>" if "k \<le> n" for k
    using that
  proof (induction k)
    case (Suc k)
    have "b + of_nat k \<notin> bytes_at a n" using Suc.prems assms in_bytes_at [of k n b] by auto
    then have "put_bytes (bmem s) a (mem_list (bmem s) b k) (b + of_nat k) = bmem s (b + of_nat k)"
      using Suc.prems by (simp add: put_bytes_def bytes_at_def)
    then have upd: "f k (s\<lparr>bmem := put_bytes (bmem s) a (mem_list (bmem s) b k)\<rparr>) =
        s\<lparr>bmem := (put_bytes (bmem s) a (mem_list (bmem s) b k))(a + of_nat k := bmem s (b + of_nat k))\<rparr>"
      by (simp add: f_def)
    have "fold f [0..<Suc k] s = f k (s\<lparr>bmem := put_bytes (bmem s) a (mem_list (bmem s) b k)\<rparr>)"
      using Suc by simp
    then show ?case
      unfolding upd mem_list_Suc using Suc.prems assms(2) by (subst put_bytes_snoc) simp_all
  qed (simp add: mem_list_def)
  then show ?thesis unfolding f_def by simp
qed

text \<open>
  The buffer and the packet of \<open>bios_ext_read\<close> do not overlap with each other or with
  the destination, and the buffer can be addressed in real mode.
\<close>

definition frame_area :: "'b bios_frame_scheme \<Rightarrow> nat \<Rightarrow> u32 set" where
  "frame_area F n = bytes_at (temp_buffer_at F) n \<union> bytes_at (temp_dap_at F) 16"

definition frame_ok :: "'b bios_frame_scheme \<Rightarrow> nat \<Rightarrow> bool" where
  "frame_ok F n \<longleftrightarrow> bytes_at (temp_buffer_at F) n \<inter> bytes_at (temp_dap_at F) 16 = {} \<and>
     unat (temp_buffer_at F) + n \<le> 0x10000"

text \<open>Consecutive sectors of a disk.\<close>

definition sectors :: "(u64 \<Rightarrow> u8 list) \<Rightarrow> u64 \<Rightarrow> nat \<Rightarrow> u8 list" where
  "sectors dsk lba k = concat (map (\<lambda>i. dsk (lba + of_nat i)) [0..<k])"

lemma sectors_Suc: "sectors dsk lba (Suc k) = sectors dsk lba k @ dsk (lba + of_nat k)"
  by (simp add: sectors_def)

lemma length_sectors: "(\<And>l. length (dsk l) = n) \<Longrightarrow> length (sectors dsk lba k) = k * n"
  by (induction k) (simp_all add: sectors_Suc sectors_def add.commute)

lemma sectors_nth:
  assumes "\<And>l. length (dsk l) = n" "i < k" "j < n"
  shows "sectors dsk lba k ! (i * n + j) = dsk (lba + of_nat i) ! j"
  using assms(2)
proof (induction k)
  case (Suc k)
  have l: "length (sectors dsk lba k) = k * n" by (rule length_sectors [OF assms(1)])
  show ?case
  proof (cases "i < k")
    case True
    then have "i * n + j < k * n" using assms(3) mult_le_mono1 [of "Suc i" k n] by simp
    with True Suc l show ?thesis by (simp add: sectors_Suc nth_append)
  next
    case False
    with Suc.prems have "i = k" by simp
    with l show ?thesis by (simp add: sectors_Suc nth_append)
  qed
qed simp

text \<open>The packet in memory after \<open>k\<close> rounds.\<close>

definition dap_ok :: "'b bios_frame_scheme \<Rightarrow> u64 \<Rightarrow> bytes \<Rightarrow> bool" where
  "dap_ok F lba m \<longleftrightarrow> (let d = load_dap m (temp_dap_at F) in dap_size d = 0x10 \<and> dap_load_size d = 1 \<and>
     dap_load_offset d = ucast (temp_buffer_at F) \<and> dap_load_segment d = 0 \<and> dap_lba d = lba)"

lemma dap_field_eq_off:
  assumes "eq_off X m m'" "bytes_at a 16 \<inter> X = {}"
  shows "load_dap m' a = load_dap m a"
proof -
  have "m' (a + of_nat i) = m (a + of_nat i)" if "i < 16" for i
    using in_bytes_at [of i 16 a] that assms by (auto simp: eq_off_def)
  from this [of 0] this [of 1] this [of 2] this [of 3] this [of 4] this [of 5] this [of 6] this [of 7]
    this [of 8] this [of 9] this [of 10] this [of 11] this [of 12] this [of 13] this [of 14] this [of 15]
  show ?thesis by (simp add: load_dap_def ld16_def ld32_def add.assoc)
qed

lemma next_lba_dap:
  assumes "dap_ok F lba (bmem s)"
  shows "\<exists>m. next_lba F s = s\<lparr>bmem := m\<rparr> \<and> dap_ok F (lba + 1) m \<and> eq_off (bytes_at (temp_dap_at F) 16) (bmem s) m"
proof -
  let ?a = "temp_dap_at F"
  let ?lo = "ld32 (bmem s) (?a + 8) + 1" and ?hi = "ld32 (bmem s) (?a + 12)"
  let ?m1 = "st32 (bmem s) (?a + 8) ?lo"
  let ?m = "if ?lo = 0 then st32 ?m1 (?a + 12) (?hi + 1) else ?m1"
  have keep: "ld32 (st32 (bmem s) (?a + 8) v) (?a + 12) = ?hi" for v
    by (rule ld32_st32_disj) (simp add: disj_def)
  have n: "next_lba F s = s\<lparr>bmem := ?m\<rparr>" by (simp add: next_lba_def Let_def keep)
  have lo: "ld32 ?m (?a + 8) = ?lo" by (auto simp: ld32_st32_disj disj_def)
  have hi: "ld32 ?m (?a + 12) = (if ?lo = 0 then ?hi + 1 else ?hi)" using keep by simp
  have rest: "?m (?a + of_nat i) = bmem s (?a + of_nat i)" if "i < 8" for i
  proof -
    have "unat (of_nat i - 8 :: u32) = 2 ^ 32 - 8 + i" "unat (of_nat i - 12 :: u32) = 2 ^ 32 - 12 + i"
      using that by (simp_all add: unat_sub_if' unat_of_nat_u32)
    then show ?thesis by (simp add: st32_other diff_diff_eq [symmetric])
  qed
  have "dap_lba (load_dap ?m ?a) = dap_lba (load_dap (bmem s) ?a) + 1"
    using lo hi by (intro dap_lba_next) (simp_all add: load_dap_def)
  moreover have "dap_size (load_dap ?m ?a) = dap_size (load_dap (bmem s) ?a)"
    "dap_load_size (load_dap ?m ?a) = dap_load_size (load_dap (bmem s) ?a)"
    "dap_load_offset (load_dap ?m ?a) = dap_load_offset (load_dap (bmem s) ?a)"
    "dap_load_segment (load_dap ?m ?a) = dap_load_segment (load_dap (bmem s) ?a)"
    using rest [of 0] rest [of 2] rest [of 3] rest [of 4] rest [of 5] rest [of 6] rest [of 7]
    by (simp_all add: load_dap_def ld16_def add.assoc)
  moreover have "eq_off (bytes_at ?a 16) (bmem s) ?m"
  proof -
    have "bytes_at (?a + 8) 4 \<subseteq> bytes_at ?a 16" "bytes_at (?a + 12) 4 \<subseteq> bytes_at ?a 16"
      using bytes_at_sub [of 8 4 16 ?a] bytes_at_sub [of 12 4 16 ?a] by simp_all
    then have e: "eq_off (bytes_at ?a 16) m (st32 m (?a + 8) v)" "eq_off (bytes_at ?a 16) m (st32 m (?a + 12) v)" for m v
      using eq_off_mono [OF eq_off_st32] by auto
    have "eq_off (bytes_at ?a 16) (bmem s) (st32 (st32 (bmem s) (?a + 8) v) (?a + 12) w)" for v w
      using eq_off_trans [OF e(1) e(2)] by simp
    with e show ?thesis by simp
  qed
  ultimately show ?thesis
    using assms n by (intro exI [of _ ?m]) (simp add: dap_ok_def Let_def)
qed

text \<open>One round, in a state whose packet is set up for sector \<open>lba\<close>.\<close>

lemma read_sector_mem:
  assumes B: "disk_bios B dsk" and len: "length (dsk lba) = n" "unat (drive_bytes_per_sector s) = n"
    and F: "frame_ok F n" and d: "dap_ok F lba (bmem s)"
    and r: "r_eax r = 0x4200" "r_edx r = ucast (drive_number s)" "r_esi r = temp_dap_at F"
    and apart: "bytes_at (out + of_nat (i * n)) n \<inter> frame_area F n = {}" and off: "\<not> paging s"
  shows "\<exists>m. read_sector B F r out i s = Some (s\<lparr>bmem := m\<rparr>) \<and> dap_ok F (lba + 1) m \<and>
    mem_list m (out + of_nat (i * n)) n = dsk lba \<and>
    eq_off (bytes_at (out + of_nat (i * n)) n \<union> frame_area F n) (bmem s) m"
proof -
  let ?t = "temp_buffer_at F" and ?o = "out + of_nat (i * n)"
  have n: "n \<le> 0x10000" "unat ?t + n \<le> 0x10000" using F by (simp_all add: frame_ok_def)
  have seg: "ucast (ucast ?t :: u16) = ?t" if "0 < n"
  proof (rule u32_eqI)
    have "unat ?t < 2 ^ 16" using n(2) that by simp
    then show "unat (ucast (ucast ?t :: u16) :: u32) = unat ?t"
      by (simp add: unsigned_ucast_eq unsigned_take_bit_eq take_bit_nat_eq_self)
  qed
  let ?m1 = "put_bytes (bmem s) ?t (dsk lba)"
  have s1: "snd (B 0x13 r s) = s\<lparr>bmem := ?m1\<rparr>"
  proof -
    let ?d = "load_dap (bmem s) (temp_dap_at F)"
    have dd: "dap_size ?d = 0x10" "dap_load_size ?d = 1" "dap_load_offset ?d = ucast ?t"
        "dap_load_segment ?d = 0" "dap_lba ?d = lba"
      using d by (simp_all add: dap_ok_def Let_def)
    have "snd (B 0x13 r s) = s\<lparr>bmem := put_bytes (bmem s) (ucast (ucast ?t :: u16)) (dsk lba)\<rparr>"
      using B [unfolded disk_bios_def Let_def, rule_format, where r = r and s = s] r dd len by (simp add: Let_def)
    then show ?thesis using seg len by (cases "n = 0") simp_all
  qed
  have m1: "mem_list ?m1 ?t n = dsk lba" using mem_list_put_bytes [of "dsk lba" "bmem s" ?t] n(1) by (simp add: len)
  have s2: "copy_sector F out i (s\<lparr>bmem := ?m1\<rparr>) = s\<lparr>bmem := put_bytes ?m1 ?o (dsk lba)\<rparr>"
    using copy_loop [of ?o n ?t "s\<lparr>bmem := ?m1\<rparr>"] apart n(1)
    by (simp add: copy_sector_def len m1 frame_area_def Int_Un_distrib Let_def ac_simps)
  let ?m2 = "put_bytes ?m1 ?o (dsk lba)"
  have d2: "dap_ok F lba ?m2"
  proof -
    have "eq_off (bytes_at ?t n \<union> bytes_at ?o n) (bmem s) ?m2"
      using eq_off_trans [OF eq_off_put_bytes [of ?t "dsk lba" "bmem s"] eq_off_put_bytes [of ?o "dsk lba" ?m1]] len by simp
    moreover have "bytes_at (temp_dap_at F) 16 \<inter> (bytes_at ?t n \<union> bytes_at ?o n) = {}"
      using F apart by (auto simp: frame_ok_def frame_area_def)
    ultimately have "load_dap ?m2 (temp_dap_at F) = load_dap (bmem s) (temp_dap_at F)" by (rule dap_field_eq_off)
    with d show ?thesis by (simp add: dap_ok_def)
  qed
  obtain m where m: "next_lba F (s\<lparr>bmem := ?m2\<rparr>) = s\<lparr>bmem := m\<rparr>" "dap_ok F (lba + 1) m"
      "eq_off (bytes_at (temp_dap_at F) 16) ?m2 m"
    using next_lba_dap [of F lba "s\<lparr>bmem := ?m2\<rparr>"] d2 by auto
  have "mem_list m ?o n = dsk lba"
    using mem_list_eq_off [OF m(3), of ?o n] mem_list_put_bytes [of "dsk lba" ?m1 ?o] apart n(1)
    by (auto simp: len frame_area_def)
  moreover have "eq_off (bytes_at ?o n \<union> frame_area F n) (bmem s) m"
    using eq_off_put_bytes [of ?t "dsk lba" "bmem s"] eq_off_put_bytes [of ?o "dsk lba" ?m1] m(3)
    by (auto simp: eq_off_def frame_area_def len)
  ultimately show ?thesis
    using m(1,2) by (intro exI [of _ m]) (simp add: read_sector_def off s1 s2 split_beta)
qed

lemma read_sectors_mem:
  assumes B: "disk_bios B dsk" and len: "\<And>l. length (dsk l) = n" "unat (drive_bytes_per_sector s) = n"
    and F: "frame_ok F n" and d: "dap_ok F lba (bmem s)"
    and r: "r_eax r = 0x4200" "r_edx r = ucast (drive_number s)" "r_esi r = temp_dap_at F"
    and apart: "bytes_at out (k * n) \<inter> frame_area F n = {}" "k * n \<le> 2 ^ 32" and off: "\<not> paging s"
  shows "\<exists>m. for_loop 0 k (read_sector B F r out) s = Some (s\<lparr>bmem := m\<rparr>) \<and>
    mem_list m out (k * n) = sectors dsk lba k \<and> eq_off (bytes_at out (k * n) \<union> frame_area F n) (bmem s) m"
proof -
  define P where "P i t \<longleftrightarrow> (\<exists>m. t = s\<lparr>bmem := m\<rparr> \<and> dap_ok F (lba + of_nat i) m \<and>
    mem_list m out (i * n) = sectors dsk lba i \<and> eq_off (bytes_at out (i * n) \<union> frame_area F n) (bmem s) m)" for i t
  have "\<exists>t. for_loop 0 k (read_sector B F r out) s = Some t \<and> P k t"
  proof (rule for_loop_rule)
    show "P 0 s" using d by (auto simp: P_def sectors_def mem_list_def intro!: exI [of _ "bmem s"])
    fix j t assume j: "j < k" and "P j t"
    then obtain m where m: "t = s\<lparr>bmem := m\<rparr>" "dap_ok F (lba + of_nat j) m"
      "mem_list m out (j * n) = sectors dsk lba j" "eq_off (bytes_at out (j * n) \<union> frame_area F n) (bmem s) m"
      by (auto simp: P_def)
    let ?o = "out + of_nat (j * n)"
    have "Suc j * n \<le> k * n" using j by (intro mult_le_mono1) simp
    then have le: "Suc j * n \<le> 2 ^ 32" and big: "bytes_at out (Suc j * n) \<subseteq> bytes_at out (k * n)"
      using apart(2) by (auto simp: bytes_at_def)
    have sub: "bytes_at out (j * n) \<subseteq> bytes_at out (Suc j * n)" by (auto simp: bytes_at_def)
    have sub': "bytes_at ?o n \<subseteq> bytes_at out (Suc j * n)"
      using le by (intro bytes_at_sub) (simp_all add: add.commute)
    have free: "bytes_at ?o n \<inter> frame_area F n = {}" using apart(1) big sub' by blast
    obtain m' where m': "read_sector B F r out j (s\<lparr>bmem := m\<rparr>) = Some (s\<lparr>bmem := m'\<rparr>)" "dap_ok F (lba + of_nat j + 1) m'"
        "mem_list m' ?o n = dsk (lba + of_nat j)" "eq_off (bytes_at ?o n \<union> frame_area F n) m m'"
      using read_sector_mem [OF B len(1), of "s\<lparr>bmem := m\<rparr>" F "lba + of_nat j" r out j] len(2) F m(2) r free off
      by auto
    have "bytes_at out (j * n) \<inter> (bytes_at ?o n \<union> frame_area F n) = {}"
      using parts_apart [of j n out] apart(1) le sub big by (auto simp: add.commute)
    then have "mem_list m' out (j * n) = sectors dsk lba j"
      using mem_list_eq_off [OF m'(4), of out "j * n"] m(3) le by simp
    then have "mem_list m' out (Suc j * n) = sectors dsk lba (Suc j)"
      using mem_list_add [of m' out "j * n" n] m'(3) by (simp add: sectors_Suc add.commute)
    moreover have "eq_off (bytes_at out (Suc j * n) \<union> frame_area F n) (bmem s) m'"
      by (rule eq_off_chain [OF eq_off_mono [OF m(4)] eq_off_mono [OF m'(4)]]) (use sub sub' in blast)+
    ultimately have "P (Suc j) (s\<lparr>bmem := m'\<rparr>)"
      using m'(2) unfolding P_def by (intro exI [of _ m']) (simp add: ac_simps)
    with m'(1) m(1) show "\<exists>t'. read_sector B F r out j t = Some t' \<and> P (Suc j) t'" by blast
  qed simp
  then show ?thesis by (auto simp: P_def)
qed

text \<open>
  The whole read: the sectors are in the destination, and nothing else but the buffer and the
  packet has changed.
\<close>

lemma bios_ext_read_mem:
  assumes "disk_bios B dsk" "\<And>l. length (dsk l) = n" "unat (drive_bytes_per_sector s) = n" "frame_ok F n"
    "bytes_at out (unat k * n) \<inter> frame_area F n = {}" "unat k * n \<le> 2 ^ 32" "\<not> paging s"
  shows "\<exists>m. bios_ext_read B F out lba k s = Some (s\<lparr>bmem := m\<rparr>) \<and>
    mem_list m out (unat k * n) = sectors dsk (ucast lba) (unat k) \<and>
    eq_off (bytes_at out (unat k * n) \<union> frame_area F n) (bmem s) m"
proof -
  let ?a = "temp_dap_at F"
  let ?d = "\<lparr>dap_size = 0x10, dap_unused = 0, dap_load_size = 1, dap_load_offset = ucast (temp_buffer_at F),
    dap_load_segment = 0, dap_lba_low = lba, dap_lba_high = 0\<rparr>"
  let ?s = "s\<lparr>bmem := store_dap (bmem s) ?a ?d\<rparr>"
  have "dap_ok F (ucast lba) (bmem ?s)" by (simp add: dap_ok_def Let_def dap_lba_def)
  from read_sectors_mem [OF assms(1,2) _ assms(4) this, of
      "\<lparr>r_eax = 0x4200, r_ebx = 0, r_ecx = 0, r_edx = ucast (drive_number s), r_esi = ?a, r_edi = 0\<rparr>" out "unat k"]
  obtain m where m: "bios_ext_read B F out lba k s = Some (s\<lparr>bmem := m\<rparr>)"
      "mem_list m out (unat k * n) = sectors dsk (ucast lba) (unat k)"
      "eq_off (bytes_at out (unat k * n) \<union> frame_area F n) (store_dap (bmem s) ?a ?d) m"
    using assms(3,5,6,7) by (auto simp: bios_ext_read_def Let_def)
  moreover have "eq_off (bytes_at out (unat k * n) \<union> frame_area F n) (bmem s) m"
    using m(3) eq_off_store_dap [of ?a "bmem s" ?d] by (auto simp: eq_off_def frame_area_def)
  ultimately show ?thesis by blast
qed

text \<open>
  (C24) \<open>bios_ext_read\<close> reads consecutive sectors of the drive, whatever their number, to
  the address it is given, over the carry between the two halves of the sector number; besides
  the destination it changes only its own buffer and packet. The buffer has to lie below 64 KiB,
  and paging has to be off.
\<close>

theorem bios_ext_read_reads:
  assumes "disk_bios B dsk" "\<And>l. length (dsk l) = unat (drive_bytes_per_sector s)"
    "frame_ok F (unat (drive_bytes_per_sector s))"
    "bytes_at out (unat k * unat (drive_bytes_per_sector s)) \<inter> frame_area F (unat (drive_bytes_per_sector s)) = {}"
    "unat k * unat (drive_bytes_per_sector s) \<le> 2 ^ 32" "\<not> paging s"
  shows "\<exists>m. bios_ext_read B F out lba k s = Some (s\<lparr>bmem := m\<rparr>) \<and>
    (\<forall>i < unat k. \<forall>j < unat (drive_bytes_per_sector s).
       m (out + of_nat (i * unat (drive_bytes_per_sector s) + j)) = dsk (ucast lba + of_nat i) ! j) \<and>
    eq_off (bytes_at out (unat k * unat (drive_bytes_per_sector s)) \<union> frame_area F (unat (drive_bytes_per_sector s)))
      (bmem s) m"
proof -
  let ?n = "unat (drive_bytes_per_sector s)"
  obtain m where m: "bios_ext_read B F out lba k s = Some (s\<lparr>bmem := m\<rparr>)"
    "mem_list m out (unat k * ?n) = sectors dsk (ucast lba) (unat k)"
    "eq_off (bytes_at out (unat k * ?n) \<union> frame_area F ?n) (bmem s) m"
    using bios_ext_read_mem [OF assms(1,2) refl assms(3-6)] by blast
  have "m (out + of_nat (i * ?n + j)) = dsk (ucast lba + of_nat i) ! j" if "i < unat k" "j < ?n" for i j
  proof -
    have ij: "i * ?n + j < unat k * ?n"
      using that mult_le_mono1 [of "Suc i" "unat k" ?n] by simp
    then have "m (out + of_nat (i * ?n + j)) = mem_list m out (unat k * ?n) ! (i * ?n + j)"
      by (simp add: mem_list_def)
    also have "\<dots> = dsk (ucast lba + of_nat i) ! j"
      unfolding m(2) using that by (intro sectors_nth [OF assms(2)])
    finally show ?thesis .
  qed
  with m show ?thesis by blast
qed

text \<open>A BIOS for examples: a disk whose sectors hold their number in every byte.\<close>

definition number_disk :: "nat \<Rightarrow> u64 \<Rightarrow> u8 list" where
  "number_disk n l = replicate n (ucast l)"

definition example_bios :: "(u64 \<Rightarrow> u8 list) \<Rightarrow> 'a bios" where
  "example_bios dsk code r s =
     (r, let d = load_dap (bmem s) (r_esi r) in
         s\<lparr>bmem := put_bytes (bmem s) (16 * ucast (dap_load_segment d) + ucast (dap_load_offset d)) (dsk (dap_lba d))\<rparr>)"

lemma disk_example_bios: "disk_bios (example_bios dsk) dsk"
  by (simp add: disk_bios_def example_bios_def Let_def)

definition example_frame :: bios_frame where
  "example_frame = \<lparr>temp_buffer_at = 0x8000, temp_dap_at = 0x7f00\<rparr>"

definition drive_machine :: bios_machine where
  "drive_machine = \<lparr>bmem = (\<lambda>_. 0), crtc_index = 0, crtc_reg = (\<lambda>_. 0), color = 0x0f,
     drive_bytes_per_sector = 512, drive_number = 0x80, boot_cr0 = 1\<rparr>"

lemma drive_paging: "\<not> paging drive_machine"
  by (simp add: paging_def drive_machine_def bit_iff_odd)

theorem bios_ext_read_reads_witness:
  "map_option (\<lambda>s. bmem s 0x1003ff)
     (bios_ext_read (example_bios (number_disk 512)) example_frame 0x100000 0x41 2 drive_machine) = Some 0x42"
proof -
  have "bytes_at 0x100000 1024 \<inter> frame_area example_frame 512 = {}" "frame_ok example_frame 512"
    by (auto simp: frame_area_def frame_ok_def example_frame_def bytes_at_unat)
  then obtain m where m: "bios_ext_read (example_bios (number_disk 512)) example_frame 0x100000 0x41 2 drive_machine
      = Some (drive_machine\<lparr>bmem := m\<rparr>)"
      "\<forall>i < 2. \<forall>j < 512. m (0x100000 + of_nat (i * 512 + j)) = number_disk 512 (0x41 + of_nat i) ! j"
    using bios_ext_read_reads [OF disk_example_bios, of "number_disk 512" drive_machine example_frame "0x100000" 2 "0x41"]
      drive_paging
    by (auto simp: number_disk_def drive_machine_def)
  from m(2) [rule_format, of 1 511] show ?thesis unfolding m(1) by (simp add: number_disk_def)
qed

section \<open>The memory scan\<close>

lemma load_range_eq_off:
  assumes "eq_off X m m'" "bytes_at a 24 \<inter> X = {}"
  shows "load_range m' a = load_range m a"
proof -
  have "ld32 m' (a + of_nat i) = ld32 m (a + of_nat i)" if "i + 4 \<le> 24" for i
    using assms bytes_at_sub [of i 4 24 a] that by (intro ld32_eq_off [OF assms(1)]) auto
  from this [of 0] this [of 4] this [of 8] this [of 12] this [of 16] this [of 20]
  show ?thesis by (simp add: load_range_def)
qed

lemma entry_apart:
  assumes "i < k" "unat buffer + 24 * k + n \<le> 0x10000"
  shows "bytes_at (buffer + 24 * of_nat i) 24 \<inter> bytes_at (buffer + 24 * of_nat k) n = {}"
proof -
  have "unat (buffer + 24 * of_nat j) = unat buffer + 24 * j" if "j \<le> k" for j
    using unat_add_of_nat [of buffer "24 * j"] that assms(2) by simp
  from this [of i] this [of k] assms show ?thesis by (auto simp: bytes_at_unat)
qed

lemma scan_loop_mem:
  assumes B: "e820_bios B cont rs" and len: "unat buffer + 24 * len \<le> 0x10000"
  shows "i < len \<Longrightarrow> i < length rs \<Longrightarrow> r_eax r = 0xe820 \<Longrightarrow> r_edx r = 0x534d4150 \<Longrightarrow> r_ecx r = 24 \<Longrightarrow>
    r_ebx r = cont i \<Longrightarrow> r_edi r = buffer + 24 * of_nat i \<Longrightarrow> \<not> paging s \<Longrightarrow>
    \<exists>m. scan_loop B r len i s = Some (min len (length rs), s\<lparr>bmem := m\<rparr>) \<and>
      (\<forall>k. i \<le> k \<longrightarrow> k < min len (length rs) \<longrightarrow> same_range (load_range m (buffer + 24 * of_nat k)) (rs ! k)) \<and>
      eq_off (bytes_at (buffer + 24 * of_nat i) (24 * (len - i))) (bmem s) m"
proof (induction "len - i" arbitrary: i r s)
  case (Suc n)
  have at: "unat (buffer + 24 * of_nat k) = unat buffer + 24 * k" if "k < len" for k
    using unat_add_of_nat [of buffer "24 * k"] that len by simp
  have u: "unat (r_edi r) + 24 \<le> 0x10000" using at [OF Suc.prems(1)] Suc.prems(1,7) len by simp
  have c: "20 \<le> r_ecx r" using Suc.prems(5) by simp
  obtain m1 where m1: "snd (B 0x15 r s) = s\<lparr>bmem := m1\<rparr>" "eq_off (bytes_at (r_edi r) 24) (bmem s) m1"
      "same_range (load_range m1 (r_edi r)) (rs ! i)"
      and nxt: "if Suc i < length rs then r_ebx (fst (B 0x15 r s)) = cont (Suc i) \<and> cont (Suc i) \<noteq> 0
        else r_ebx (fst (B 0x15 r s)) = 0"
    using B [unfolded e820_bios_def] Suc.prems u c by blast
  have step: "scan_loop B r len i s = (if Suc i < length rs
      then scan_loop B (r\<lparr>r_ebx := cont (Suc i), r_edi := r_edi r + 24\<rparr>) len (Suc i) (s\<lparr>bmem := m1\<rparr>)
      else Some (i + 1, s\<lparr>bmem := m1\<rparr>))"
    using nxt m1(1) Suc.prems(1,8) by (subst scan_loop.simps) (auto split: prod.splits)
  have big: "24 * (len - i) = 24 + 24 * (len - Suc i)" using Suc.prems(1) by simp
  have sub: "bytes_at (r_edi r) 24 \<subseteq> bytes_at (buffer + 24 * of_nat i) (24 * (len - i))"
    using Suc.prems(7) by (auto simp: bytes_at_def big)
  have one: ?case if "\<not> (Suc i < length rs \<and> Suc i < len)"
  proof -
    have "scan_loop B r len i s = Some (min len (length rs), s\<lparr>bmem := m1\<rparr>)"
      using that Suc.prems(1,2) step by (auto simp: scan_loop.simps [of B _ len "Suc i"])
    moreover have "k = i" if "i \<le> k" "k < min len (length rs)" for k
      using that \<open>\<not> (Suc i < length rs \<and> Suc i < len)\<close> by auto
    ultimately show ?thesis
      using m1(3) Suc.prems(7) eq_off_mono [OF m1(2) sub] by auto
  qed
  show ?case
  proof (cases "Suc i < length rs \<and> Suc i < len")
    case True
    let ?b = "buffer + 24 * of_nat (Suc i)"
    have n: "n = len - Suc i" using Suc.hyps(2) by simp
    have edi: "r_edi r + 24 = ?b" using Suc.prems(7) by (simp add: algebra_simps)
    obtain m where m: "scan_loop B (r\<lparr>r_ebx := cont (Suc i), r_edi := r_edi r + 24\<rparr>) len (Suc i) (s\<lparr>bmem := m1\<rparr>)
          = Some (min len (length rs), s\<lparr>bmem := m\<rparr>)"
        "\<forall>k. Suc i \<le> k \<longrightarrow> k < min len (length rs) \<longrightarrow> same_range (load_range m (buffer + 24 * of_nat k)) (rs ! k)"
        "eq_off (bytes_at ?b (24 * (len - Suc i))) m1 m"
      using Suc.hyps(1) [OF n, of "r\<lparr>r_ebx := cont (Suc i), r_edi := r_edi r + 24\<rparr>" "s\<lparr>bmem := m1\<rparr>"]
        Suc.prems True edi by auto
    obtain e where e: "len = Suc i + e" using True le_Suc_ex [of "Suc i" len] by auto
    with len have "unat buffer + 24 * Suc i + 24 * (len - Suc i) \<le> 0x10000" by simp
    then have "load_range m (r_edi r) = load_range m1 (r_edi r)"
      unfolding Suc.prems(7) by (intro load_range_eq_off [OF m(3)] entry_apart) simp_all
    then have all: "same_range (load_range m (buffer + 24 * of_nat k)) (rs ! k)"
      if "i \<le> k" "k < min len (length rs)" for k
      using that m(2) m1(3) Suc.prems(7) by (cases "k = i") simp_all
    moreover have "eq_off (bytes_at (buffer + 24 * of_nat i) (24 * (len - i))) (bmem s) m"
    proof (rule eq_off_chain [OF eq_off_mono [OF m1(2) sub] eq_off_mono [OF m(3)]])
      have b: "?b = buffer + 24 * of_nat i + of_nat 24" by (simp add: algebra_simps)
      have "24 * (len - i) \<le> 24 * len" by simp
      with len big show "bytes_at ?b (24 * (len - Suc i)) \<subseteq> bytes_at (buffer + 24 * of_nat i) (24 * (len - i))"
        unfolding b by (intro bytes_at_sub) simp_all
    qed
    ultimately show ?thesis
      using m(1) all step True by (intro exI [of _ m]) simp
  qed (rule one)
qed simp

lemma bios_mem_scan_mem:
  assumes "e820_bios B cont rs" "rs \<noteq> []" "0 < len" "unat buffer + 24 * len \<le> 0x10000" "\<not> paging s"
  shows "\<exists>m. bios_mem_scan B buffer len s = Some (min len (length rs), s\<lparr>bmem := m\<rparr>) \<and>
    (\<forall>k < min len (length rs). same_range (load_range m (buffer + 24 * of_nat k)) (rs ! k)) \<and>
    eq_off (bytes_at buffer (24 * len)) (bmem s) m"
proof -
  have "cont 0 = 0" using assms(1) by (simp add: e820_bios_def)
  then show ?thesis
    using scan_loop_mem [OF assms(1,4) assms(3), of
      "\<lparr>r_eax = 0xe820, r_ebx = 0, r_ecx = 24, r_edx = 0x534d4150, r_esi = 0, r_edi = buffer\<rparr>" s] assms(2,5)
    by (auto simp: bios_mem_scan_def)
qed

text \<open>
  The memory scan lists the first ranges the BIOS has, in their order, as many as fit the
  array, and returns their number; it writes nothing outside of the array.
\<close>

theorem bios_mem_scan_lists:
  assumes "e820_bios B cont rs" "rs \<noteq> []" "0 < len" "unat buffer + 24 * len \<le> 0x10000" "\<not> paging s"
  shows "\<exists>m. bios_mem_scan B buffer len s = Some (min len (length rs), s\<lparr>bmem := m\<rparr>) \<and>
    (\<forall>k < min len (length rs). same_range (load_range m (buffer + 24 * of_nat k)) (rs ! k)) \<and>
    eq_off (bytes_at buffer (24 * len)) (bmem s) m"
  by (rule bios_mem_scan_mem [OF assms])

text \<open>A BIOS that has one range of memory.\<close>

definition one_range :: address_range where
  "one_range = \<lparr>ar_base_low = 0x100000, ar_base_high = 0, ar_size_low = 0x7ff00000, ar_size_high = 0,
     ar_type = 1, ar_acpi_attributes = 0\<rparr>"

definition store_range :: "bytes \<Rightarrow> u32 \<Rightarrow> address_range \<Rightarrow> bytes" where
  "store_range m a r = st32 (st32 (st32 (st32 (st32 m a (ar_base_low r)) (a + 4) (ar_base_high r))
     (a + 8) (ar_size_low r)) (a + 12) (ar_size_high r)) (a + 16) (ar_type r)"

definition range_bios :: "'a bios" where
  "range_bios code r s = (r\<lparr>r_ebx := 0\<rparr>, s\<lparr>bmem := store_range (bmem s) (r_edi r) one_range\<rparr>)"

lemma e820_range_bios: "e820_bios range_bios (\<lambda>_. 0) [one_range]"
proof -
  have "same_range (load_range (store_range m a one_range) a) one_range" for m a
    by (simp add: same_range_def load_range_def store_range_def one_range_def ld32_st32_disj disj_def)
  moreover have "eq_off (bytes_at a 24) m (store_range m a q)" for m a q
    by (auto simp: eq_off_def bytes_at_def store_range_def st32_def add.assoc)
  ultimately show ?thesis by (auto simp: e820_bios_def range_bios_def)
qed

theorem bios_mem_scan_lists_witness:
  "\<exists>m. bios_mem_scan range_bios 0x9000 64 drive_machine = Some (1, drive_machine\<lparr>bmem := m\<rparr>) \<and>
    ar_size_low (load_range m 0x9000) = 0x7ff00000"
proof -
  obtain m where m: "bios_mem_scan range_bios 0x9000 64 drive_machine = Some (1, drive_machine\<lparr>bmem := m\<rparr>)"
      "\<forall>k < 1. same_range (load_range m (0x9000 + 24 * of_nat k)) ([one_range] ! k)"
    using bios_mem_scan_lists [OF e820_range_bios, of 64 "0x9000" drive_machine] drive_paging by auto
  from m(2) [rule_format, of 0] have "ar_size_low (load_range m 0x9000) = ar_size_low one_range"
    by (simp add: same_range_def) (metis address_range.select_convs(3) address_range.surjective address_range.update_convs(6))
  with m(1) show ?thesis by (intro exI [of _ m]) (simp add: one_range_def)
qed

end
