(* ===== verification/Bios_Switch.thy ===== *)
theory Bios_Switch
  imports Bios Gdt
begin

text \<open>
  The BIOS call of the boot loader at the level of the processor, src/boot/x86/bios.s, with the
  descriptor table of boot.s and mbr.s: the way from protected to real mode, the interrupt, and
  the way back, with the stack it takes its arguments from and keeps the registers on. It
  implements the function \<open>bios_int\<close> that the other theories use.
\<close>

section \<open>The descriptor table\<close>

text \<open>A descriptor as it is laid down: limit, two parts of the base, access, flags, last part of the base.\<close>

definition boot_desc :: "u16 \<Rightarrow> u16 \<Rightarrow> u8 \<Rightarrow> u8 \<Rightarrow> u8 \<Rightarrow> u8 \<Rightarrow> u64" where
  "boot_desc limit base1 base2 access flags base3 =
     ucast limit OR push_bit 16 (ucast base1) OR push_bit 32 (ucast base2) OR push_bit 40 (ucast access) OR
     push_bit 48 (ucast flags) OR push_bit 56 (ucast base3)"

definition boot_gdt :: "u64 list" where
  "boot_gdt = [0,
     boot_desc 0xffff 0 0 0x9a 0xcf 0,
     boot_desc 0xffff 0 0 0x92 0xcf 0,
     boot_desc 0xffff 0 0 0x9a 0x8f 0,
     boot_desc 0xffff 0 0 0x92 0x8f 0]"

text \<open>
  The addresses of the table, of the buffer for the registers, and of the operand of the
  interrupt instruction, which the routine writes.
\<close>

record switch_layout =
  gdt_start_at :: u32
  temp_result_at :: u32
  int_number_at :: u32

definition boot_gdtr :: "switch_layout \<Rightarrow> gdtr_desc" where
  "boot_gdtr L = \<lparr>dt_size = of_nat (8 * length boot_gdt - 1), dt_offset = gdt_start_at L\<rparr>"

section \<open>The processor\<close>

record processor =
  p_cr0 :: u32
  p_cs :: u16
  p_ds :: u16
  p_es :: u16
  p_fs :: u16
  p_gs :: u16
  p_ss :: u16
  p_gdtr :: gdtr_desc
  p_idtr :: gdtr_desc
  p_if :: bool
  p_regs :: bios_registers
  p_esp :: u32
  p_ebp :: u32

text \<open>
  Paging needs protected mode: a write to \<open>cr0\<close> that sets the bit of paging, 31, without the one of
  protection, 0, faults.
\<close>

definition write_cr0 :: "u32 \<Rightarrow> processor \<Rightarrow> processor option" where
  "write_cr0 v p = (if bit v 31 \<and> \<not> bit v 0 then None else Some (p\<lparr>p_cr0 := v\<rparr>))"

text \<open>
  Selectors: in real mode any value is loaded; in protected mode the descriptor has to be in the
  table, present, of privilege 0, and of code or writable data.
\<close>

definition boot_lookup :: "switch_layout \<Rightarrow> processor \<Rightarrow> u16 \<Rightarrow> gdt_segment_desc option" where
  "boot_lookup L p sel =
     (let i = unat (drop_bit 3 sel) in
      if i = 0 \<or> bit sel 2 \<or> dt_offset (p_gdtr p) \<noteq> gdt_start_at L \<or> unat (dt_size (p_gdtr p)) < 8 * i + 7 \<or>
        length boot_gdt \<le> i then None
      else Some (dec_desc (boot_gdt ! i)))"

definition loadable :: "switch_layout \<Rightarrow> processor \<Rightarrow> (gdt_segment_desc \<Rightarrow> bool) \<Rightarrow> u16 \<Rightarrow> bool" where
  "loadable L p P sel \<longleftrightarrow> \<not> bit (p_cr0 p) 0 \<or>
     (case boot_lookup L p sel of None \<Rightarrow> False | Some d \<Rightarrow> P d \<and> sd_s d = 1 \<and> sd_p d = 1 \<and> sd_dpl d = 0)"

definition far_jump :: "switch_layout \<Rightarrow> u16 \<Rightarrow> processor \<Rightarrow> processor option" where
  "far_jump L sel p = (if loadable L p (\<lambda>d. sd_e d = 1) sel then Some (p\<lparr>p_cs := sel\<rparr>) else None)"

definition load_data :: "switch_layout \<Rightarrow> u16 \<Rightarrow> processor \<Rightarrow> processor option" where
  "load_data L sel p =
     (if loadable L p (\<lambda>d. sd_e d = 0 \<and> sd_rw d = 1) sel
      then Some (p\<lparr>p_ds := sel, p_ss := sel, p_es := sel, p_fs := sel, p_gs := sel\<rparr>) else None)"

section \<open>The call\<close>

definition enter_real_mode :: "switch_layout \<Rightarrow> processor \<Rightarrow> processor option" where
  "enter_real_mode L p = do {
     p \<leftarrow> far_jump L 0x18 p;
     p \<leftarrow> load_data L 0x20 p;
     let p = p\<lparr>p_idtr := \<lparr>dt_size = 0x3ff, dt_offset = 0\<rparr>\<rparr>;
     p \<leftarrow> write_cr0 (p_cr0 p AND 0xfffffffe) p;
     p \<leftarrow> far_jump L 0 p;
     load_data L 0 p
   }"

definition leave_real_mode :: "switch_layout \<Rightarrow> processor \<Rightarrow> processor option" where
  "leave_real_mode L p = do {
     let p = p\<lparr>p_gdtr := boot_gdtr L\<rparr>;
     p \<leftarrow> write_cr0 (p_cr0 p OR 1) p;
     p \<leftarrow> far_jump L 0x8 p;
     load_data L 0x10 p
   }"

definition store_registers :: "bytes \<Rightarrow> u32 \<Rightarrow> bios_registers \<Rightarrow> bytes" where
  "store_registers m a r =
     st32 (st32 (st32 (st32 (st32 (st32 m a (r_eax r)) (a + 4) (r_ebx r)) (a + 8) (r_ecx r))
       (a + 12) (r_edx r)) (a + 16) (r_esi r)) (a + 20) (r_edi r)"

definition load_registers :: "bytes \<Rightarrow> u32 \<Rightarrow> bios_registers" where
  "load_registers m a = \<lparr>r_eax = ld32 m a, r_ebx = ld32 m (a + 4), r_ecx = ld32 m (a + 8),
     r_edx = ld32 m (a + 12), r_esi = ld32 m (a + 16), r_edi = ld32 m (a + 20)\<rparr>"

text \<open>The last part copies word by word, from the buffer to the address given, unless that is 0.\<close>

definition copy_registers :: "u32 \<Rightarrow> u32 \<Rightarrow> bytes \<Rightarrow> bytes" where
  "copy_registers src dst m =
     (let m = st32 m dst (ld32 m src);
          m = st32 m (dst + 4) (ld32 m (src + 4));
          m = st32 m (dst + 8) (ld32 m (src + 8));
          m = st32 m (dst + 12) (ld32 m (src + 12));
          m = st32 m (dst + 16) (ld32 m (src + 16))
      in st32 m (dst + 20) (ld32 m (src + 20)))"

text \<open>The stack. Addresses in it are physical, as paging is off.\<close>

definition push_word :: "u32 \<Rightarrow> processor \<times> 'a bios_machine_scheme \<Rightarrow> processor \<times> 'a bios_machine_scheme" where
  "push_word w ps =
     (let (p, s) = ps; p = p\<lparr>p_esp := p_esp p - 4\<rparr>
      in (p, s\<lparr>bmem := st32 (bmem s) (p_esp p) w\<rparr>))"

definition pop_word :: "bytes \<Rightarrow> processor \<Rightarrow> u32 \<times> processor" where
  "pop_word m p = (ld32 m (p_esp p), p\<lparr>p_esp := p_esp p + 4\<rparr>)"

definition save_registers :: "processor \<Rightarrow> 'a bios_machine_scheme \<Rightarrow> processor \<times> 'a bios_machine_scheme" where
  "save_registers p s =
     (let (p, s) = push_word (p_ebp p) (p, s);
          p = p\<lparr>p_ebp := p_esp p\<rparr>;
          r = p_regs p
      in fold push_word [r_eax r, r_ebx r, r_ecx r, r_edx r, r_esi r, r_edi r] (p, s))"

definition restore_registers :: "bytes \<Rightarrow> processor \<Rightarrow> processor" where
  "restore_registers m p =
     (let (edi, p) = pop_word m p;
          (esi, p) = pop_word m p;
          (edx, p) = pop_word m p;
          (ecx, p) = pop_word m p;
          (ebx, p) = pop_word m p;
          (eax, p) = pop_word m p;
          (ebp, p) = pop_word m p
      in p\<lparr>p_regs := \<lparr>r_eax = eax, r_ebx = ebx, r_ecx = ecx, r_edx = edx, r_esi = esi, r_edi = edi\<rparr>, p_ebp := ebp\<rparr>)"

text \<open>
  The whole of \<open>_bios_int\<close>. It is entered with the return address on top of the stack and its
  arguments, the registers, the number of the interrupt and the address of the result, above it.
  The number becomes the operand of the interrupt instruction. At the end the return address is
  taken off the stack.
\<close>

definition bios_call ::
  "'a bios \<Rightarrow> switch_layout \<Rightarrow> processor \<Rightarrow> 'a bios_machine_scheme \<Rightarrow> (processor \<times> 'a bios_machine_scheme) option" where
  "bios_call B L p s = do {
     let (p, s) = save_registers p s;
     p \<leftarrow> enter_real_mode L p;
     let s = s\<lparr>bmem := (bmem s)(int_number_at L := bmem s (p_ebp p + 32))\<rparr>;
     let p = p\<lparr>p_regs := load_registers (bmem s) (p_ebp p + 8), p_if := True\<rparr>;
     let (r, s) = B (bmem s (int_number_at L)) (p_regs p) s;
     let p = p\<lparr>p_regs := r, p_if := False\<rparr>;
     let s = s\<lparr>bmem := store_registers (bmem s) (temp_result_at L) (p_regs p)\<rparr>;
     p \<leftarrow> leave_real_mode L p;
     let out = ld32 (bmem s) (p_ebp p + 36);
     let s = (if out = 0 then s else s\<lparr>bmem := copy_registers (temp_result_at L) out (bmem s)\<rparr>);
     let p = restore_registers (bmem s) p;
     Some (p\<lparr>p_esp := p_esp p + 4\<rparr>, s)
   }"

section \<open>Correctness\<close>

text \<open>What the selectors stand for.\<close>

lemma boot_gdt_descs:
  "dec_desc (boot_gdt ! 1) = \<lparr>sd_limit1 = 0xffff, sd_base1 = 0, sd_a = 0, sd_rw = 1, sd_dc = 0, sd_e = 1, sd_s = 1,
     sd_dpl = 0, sd_p = 1, sd_limit2 = 0xf, sd_zero = 0, sd_l = 0, sd_db = 1, sd_g = 1, sd_base2 = 0\<rparr>"
  "dec_desc (boot_gdt ! 2) = \<lparr>sd_limit1 = 0xffff, sd_base1 = 0, sd_a = 0, sd_rw = 1, sd_dc = 0, sd_e = 0, sd_s = 1,
     sd_dpl = 0, sd_p = 1, sd_limit2 = 0xf, sd_zero = 0, sd_l = 0, sd_db = 1, sd_g = 1, sd_base2 = 0\<rparr>"
  "dec_desc (boot_gdt ! 3) = \<lparr>sd_limit1 = 0xffff, sd_base1 = 0, sd_a = 0, sd_rw = 1, sd_dc = 0, sd_e = 1, sd_s = 1,
     sd_dpl = 0, sd_p = 1, sd_limit2 = 0xf, sd_zero = 0, sd_l = 0, sd_db = 0, sd_g = 1, sd_base2 = 0\<rparr>"
  "dec_desc (boot_gdt ! 4) = \<lparr>sd_limit1 = 0xffff, sd_base1 = 0, sd_a = 0, sd_rw = 1, sd_dc = 0, sd_e = 0, sd_s = 1,
     sd_dpl = 0, sd_p = 1, sd_limit2 = 0xf, sd_zero = 0, sd_l = 0, sd_db = 0, sd_g = 1, sd_base2 = 0\<rparr>"
proof -
  have w: "boot_gdt = [0, 0x00cf9a000000ffff, 0x00cf92000000ffff, 0x008f9a000000ffff, 0x008f92000000ffff]"
    by (simp add: boot_gdt_def boot_desc_def)
  have d: "dec_desc x = d" if "enc_desc d = x" for d x using dec_enc_desc [of d] that by simp
  note e = enc_desc_def desc_widths_def
  show "dec_desc (boot_gdt ! 1) = \<lparr>sd_limit1 = 0xffff, sd_base1 = 0, sd_a = 0, sd_rw = 1, sd_dc = 0, sd_e = 1, sd_s = 1,
     sd_dpl = 0, sd_p = 1, sd_limit2 = 0xf, sd_zero = 0, sd_l = 0, sd_db = 1, sd_g = 1, sd_base2 = 0\<rparr>"
    by (rule d) (simp add: e w)
  show "dec_desc (boot_gdt ! 2) = \<lparr>sd_limit1 = 0xffff, sd_base1 = 0, sd_a = 0, sd_rw = 1, sd_dc = 0, sd_e = 0, sd_s = 1,
     sd_dpl = 0, sd_p = 1, sd_limit2 = 0xf, sd_zero = 0, sd_l = 0, sd_db = 1, sd_g = 1, sd_base2 = 0\<rparr>"
    by (rule d) (simp add: e w)
  show "dec_desc (boot_gdt ! 3) = \<lparr>sd_limit1 = 0xffff, sd_base1 = 0, sd_a = 0, sd_rw = 1, sd_dc = 0, sd_e = 1, sd_s = 1,
     sd_dpl = 0, sd_p = 1, sd_limit2 = 0xf, sd_zero = 0, sd_l = 0, sd_db = 0, sd_g = 1, sd_base2 = 0\<rparr>"
    by (rule d) (simp add: e w)
  show "dec_desc (boot_gdt ! 4) = \<lparr>sd_limit1 = 0xffff, sd_base1 = 0, sd_a = 0, sd_rw = 1, sd_dc = 0, sd_e = 0, sd_s = 1,
     sd_dpl = 0, sd_p = 1, sd_limit2 = 0xf, sd_zero = 0, sd_l = 0, sd_db = 0, sd_g = 1, sd_base2 = 0\<rparr>"
    by (rule d) (simp add: e w)
qed

lemma boot_lookups:
  assumes "p_gdtr p = boot_gdtr L"
  shows "boot_lookup L p 0x8 = Some (dec_desc (boot_gdt ! 1))" "boot_lookup L p 0x10 = Some (dec_desc (boot_gdt ! 2))"
    "boot_lookup L p 0x18 = Some (dec_desc (boot_gdt ! 3))" "boot_lookup L p 0x20 = Some (dec_desc (boot_gdt ! 4))"
  using assms by (simp_all add: boot_lookup_def boot_gdtr_def boot_gdt_def Let_def bit_iff_odd)

lemma enter_real_mode_ok:
  assumes "p_gdtr p = boot_gdtr L" "bit (p_cr0 p) 0" "\<not> bit (p_cr0 p) 31"
  shows "enter_real_mode L p = Some (p\<lparr>p_cr0 := p_cr0 p AND 0xfffffffe, p_cs := 0, p_ds := 0, p_es := 0, p_fs := 0,
    p_gs := 0, p_ss := 0, p_idtr := \<lparr>dt_size = 0x3ff, dt_offset = 0\<rparr>\<rparr>)"
proof -
  have "\<not> bit (0xfffffffe :: u32) 0" by simp
  then have "\<not> bit (p_cr0 p AND 0xfffffffe) 0" "\<not> bit (p_cr0 p AND 0xfffffffe) 31"
    using assms(3) by (simp_all only: bit_and_iff simp_thms)
  then show ?thesis
    using assms(1,2) boot_lookups [of "p\<lparr>p_cs := x\<rparr>" for x] boot_lookups [of p]
    by (simp add: enter_real_mode_def far_jump_def load_data_def loadable_def write_cr0_def boot_gdt_descs del: bit_0 One_nat_def)
qed

lemma leave_real_mode_ok:
  assumes "\<not> bit (p_cr0 p) 31"
  shows "leave_real_mode L p = Some (p\<lparr>p_gdtr := boot_gdtr L, p_cr0 := p_cr0 p OR 1, p_cs := 0x8, p_ds := 0x10,
    p_es := 0x10, p_fs := 0x10, p_gs := 0x10, p_ss := 0x10\<rparr>)"
  using boot_lookups [of "p\<lparr>p_gdtr := boot_gdtr L, p_cr0 := x\<rparr>" L for x] boot_lookups [of "p\<lparr>p_gdtr := boot_gdtr L, p_cr0 := x, p_cs := 8\<rparr>" L for x]
  by (simp add: leave_real_mode_def far_jump_def load_data_def loadable_def write_cr0_def boot_gdt_descs bit_or_iff bit_1_iff del: bit_0 One_nat_def)

text \<open>The registers in memory.\<close>

lemma load_store_registers [simp]: "load_registers (store_registers m a r) a = r"
  by (simp add: load_registers_def store_registers_def ld32_st32_disj disj_def)

lemma eq_off_store_registers: "eq_off (bytes_at a 24) m (store_registers m a r)"
  by (auto simp: eq_off_def bytes_at_def store_registers_def st32_def add.assoc)

lemma load_registers_eq_off:
  assumes "eq_off X m m'" "bytes_at a 24 \<inter> X = {}"
  shows "load_registers m' a = load_registers m a"
proof -
  have "ld32 m' (a + of_nat i) = ld32 m (a + of_nat i)" if "i + 4 \<le> 24" for i
    by (rule ld32_eq_off [OF assms(1)]) (use bytes_at_sub [OF that, of a] assms(2) in auto)
  from this [of 0] this [of 4] this [of 8] this [of 12] this [of 16] this [of 20]
  show ?thesis by (simp add: load_registers_def)
qed

lemma copy_registers_eq:
  assumes "bytes_at src 24 \<inter> bytes_at dst 24 = {}"
  shows "copy_registers src dst m = store_registers m dst (load_registers m src)"
proof -
  have step: "ld32 (st32 m' (dst + of_nat i) v) (src + of_nat j) = ld32 m' (src + of_nat j)"
    if "i + 4 \<le> 24" "j + 4 \<le> 24" for m' v i j
    by (rule ld32_eq_off [OF eq_off_st32])
      (use bytes_at_sub [OF that(1), of dst] bytes_at_sub [OF that(2), of src] assms in auto)
  note s = step [of 0] step [of 4] step [of 8] step [of 12] step [of 16]
  have g: "ld32 (st32 m' (dst + k) v) (src + l) = ld32 m' (src + l)"
    if "k \<in> {0, 4, 8, 12, 16}" "l \<in> {0, 4, 8, 12, 16, 20}" for m' v k l
    using that s [of 0] s [of 4] s [of 8] s [of 12] s [of 16] s [of 20] by auto
  have g0: "ld32 (st32 m' dst v) (src + l) = ld32 m' (src + l)" if "l \<in> {0, 4, 8, 12, 16, 20}" for m' v l
    using g [of 0 l m' v] that by simp
  show ?thesis by (simp add: copy_registers_def store_registers_def load_registers_def Let_def g g0)
qed

text \<open>What the stack holds below \<open>b + 28\<close> once the registers are saved.\<close>

definition saved_at :: "bytes \<Rightarrow> u32 \<Rightarrow> processor \<Rightarrow> bool" where
  "saved_at m b p \<longleftrightarrow> ld32 m b = r_edi (p_regs p) \<and> ld32 m (b + 4) = r_esi (p_regs p) \<and> ld32 m (b + 8) = r_edx (p_regs p) \<and>
     ld32 m (b + 12) = r_ecx (p_regs p) \<and> ld32 m (b + 16) = r_ebx (p_regs p) \<and> ld32 m (b + 20) = r_eax (p_regs p) \<and>
     ld32 m (b + 24) = p_ebp p"

lemma save_registers_eq:
  assumes "p_esp p = b + 28"
  shows "\<exists>m. save_registers p s = (p\<lparr>p_esp := b, p_ebp := b + 24\<rparr>, s\<lparr>bmem := m\<rparr>) \<and> saved_at m b p \<and>
    eq_off (bytes_at b 28) (bmem s) m"
proof -
  let ?r = "p_regs p"
  let ?m = "st32 (st32 (st32 (st32 (st32 (st32 (st32 (bmem s) (b + 24) (p_ebp p)) (b + 20) (r_eax ?r)) (b + 16) (r_ebx ?r))
    (b + 12) (r_ecx ?r)) (b + 8) (r_edx ?r)) (b + 4) (r_esi ?r)) b (r_edi ?r)"
  have "save_registers p s = (p\<lparr>p_esp := b, p_ebp := b + 24\<rparr>, s\<lparr>bmem := ?m\<rparr>)"
    using assms by (simp add: save_registers_def push_word_def Let_def add.commute)
  moreover have "saved_at ?m b p" by (simp add: saved_at_def ld32_st32_disj disj_def)
  moreover have "eq_off (bytes_at b 28) (bmem s) ?m"
    by (auto simp: eq_off_def bytes_at_def st32_def add.assoc)
  ultimately show ?thesis by blast
qed

lemma restore_registers_eq:
  assumes "saved_at m b p" "p_esp q = b"
  shows "restore_registers m q = q\<lparr>p_regs := p_regs p, p_esp := b + 28, p_ebp := p_ebp p\<rparr>"
proof -
  have "p_regs p = \<lparr>r_eax = r_eax (p_regs p), r_ebx = r_ebx (p_regs p), r_ecx = r_ecx (p_regs p), r_edx = r_edx (p_regs p),
    r_esi = r_esi (p_regs p), r_edi = r_edi (p_regs p)\<rparr>" by simp
  then show ?thesis
    using assms by (cases q) (simp add: restore_registers_def pop_word_def saved_at_def Let_def add.commute)
qed

lemma saved_at_eq_off:
  assumes "saved_at m b p" "eq_off X m m'" "bytes_at b 28 \<inter> X = {}"
  shows "saved_at m' b p"
proof -
  have "ld32 m' (b + of_nat i) = ld32 m (b + of_nat i)" if "i + 4 \<le> 28" for i
    by (rule ld32_eq_off [OF assms(2)]) (use bytes_at_sub [OF that, of b] assms(3) in auto)
  from this [of 0] this [of 4] this [of 8] this [of 12] this [of 16] this [of 20] this [of 24] assms(1)
  show ?thesis by (simp add: saved_at_def)
qed

text \<open>The processor after a call: flat segments, interrupts off, and the interrupt table of real mode.\<close>

definition after_call :: "processor \<Rightarrow> processor" where
  "after_call p = p\<lparr>p_cs := 0x8, p_ds := 0x10, p_es := 0x10, p_fs := 0x10, p_gs := 0x10, p_ss := 0x10,
     p_idtr := \<lparr>dt_size = 0x3ff, dt_offset = 0\<rparr>, p_if := False, p_esp := p_esp p + 4\<rparr>"

lemma protection_restored:
  assumes "bit w 0"
  shows "(w AND 0xfffffffe) OR 1 = (w :: u32)"
proof (rule bit_word_eqI)
  fix i assume "i < LENGTH(32)"
  have "(0xfffffffe :: u32) = NOT 1" by simp
  then have "bit (0xfffffffe :: u32) i \<longleftrightarrow> i \<noteq> 0 \<and> i < 32"
    by (simp only: bit_not_iff bit_1_iff) (auto simp: possible_bit_def)
  then show "bit ((w AND 0xfffffffe) OR 1) i \<longleftrightarrow> bit w i"
    using assms \<open>i < LENGTH(32)\<close> by (auto simp only: bit_or_iff bit_and_iff bit_1_iff) simp_all
qed

text \<open>
  The stack of a call: seven words that it pushes, the return address, the registers, the number
  and the address of the result. The routine's variables and the result are apart from what is read
  again after the interrupt, and the BIOS leaves the stack of its caller alone.
\<close>

definition call_stack :: "processor \<Rightarrow> u32 set" where
  "call_stack p = bytes_at (p_esp p - 28) 64"

definition call_frame :: "switch_layout \<Rightarrow> processor \<Rightarrow> bytes \<Rightarrow> bios_registers \<Rightarrow> u8 \<Rightarrow> u32 \<Rightarrow> bool" where
  "call_frame L p m r code out \<longleftrightarrow> load_registers m (p_esp p + 4) = r \<and> m (p_esp p + 28) = code \<and> ld32 m (p_esp p + 32) = out \<and>
     call_stack p \<inter> (bytes_at (temp_result_at L) 24 \<union> {int_number_at L}) = {} \<and>
     (out = 0 \<or> bytes_at out 24 \<inter> (bytes_at (temp_result_at L) 24 \<union> bytes_at (p_esp p - 28) 28) = {})"

definition stack_kept :: "'a bios \<Rightarrow> u8 \<Rightarrow> bios_registers \<Rightarrow> u32 set \<Rightarrow> bool" where
  "stack_kept B code r X \<longleftrightarrow> (\<forall>s. \<forall>a \<in> X. bmem (snd (B code r s)) a = bmem s a)"

text \<open>The memory the BIOS starts with: the registers on the stack and the number are new.\<close>

lemma bios_call_entry:
  fixes s :: "'a bios_machine_scheme"
  assumes "call_frame L p (bmem s) r code out"
  obtains m where "save_registers p s = (p\<lparr>p_esp := p_esp p - 28, p_ebp := p_esp p - 4\<rparr>, s\<lparr>bmem := m\<rparr>)"
    "m (p_esp p + 28) = code" "load_registers (m(int_number_at L := code)) (p_esp p + 4) = r"
    "ld32 (m(int_number_at L := code)) (p_esp p + 32) = out" "saved_at (m(int_number_at L := code)) (p_esp p - 28) p"
    "eq_off (bytes_at (p_esp p - 28) 28 \<union> {int_number_at L}) (bmem s) (m(int_number_at L := code))"
proof -
  let ?b = "p_esp p - 28" and ?n = "int_number_at L"
  obtain m where m: "save_registers p s = (p\<lparr>p_esp := ?b, p_ebp := ?b + 24\<rparr>, s\<lparr>bmem := m\<rparr>)" "saved_at m ?b p"
    "eq_off (bytes_at ?b 28) (bmem s) m"
    using save_registers_eq [of p ?b s] by auto
  have n: "?n \<notin> bytes_at ?b 64" using assms by (simp add: call_frame_def call_stack_def)
  have sub: "bytes_at (?b + of_nat i) k \<subseteq> bytes_at ?b 64" if "i + k \<le> 64" for i k
    using that by (intro bytes_at_sub) simp_all
  have apart: "bytes_at (?b + of_nat i) k \<inter> bytes_at ?b 28 = {}" if "28 \<le> i" "i + k \<le> 64" for i k
  proof -
    have False if x: "x \<in> bytes_at (?b + of_nat i) k" "x \<in> bytes_at ?b 28" for x
    proof -
      have *: "unat (x - (?b + of_nat i)) < k" using x by (simp add: bytes_at_def)
      have "x - ?b = (x - (?b + of_nat i)) + of_nat i" by simp
      moreover have "unat ((x - (?b + of_nat i)) + of_nat i) = unat (x - (?b + of_nat i)) + i"
        using * \<open>i + k \<le> 64\<close> by (intro unat_add_of_nat) simp
      ultimately have "unat (x - ?b) = unat (x - (?b + of_nat i)) + i" by (simp only:)
      moreover have "unat (x - ?b) < 28" using x(2) by (simp only: bytes_at_def mem_Collect_eq)
      ultimately show False using \<open>28 \<le> i\<close> by linarith
    qed
    then show ?thesis by blast
  qed
  have off: "eq_off (bytes_at ?b 28 \<union> {?n}) (bmem s) (m(?n := code))"
    using m(3) by (auto simp: eq_off_def)
  have free: "bytes_at (?b + of_nat i) k \<inter> (bytes_at ?b 28 \<union> {?n}) = {}" if "28 \<le> i" "i + k \<le> 64" for i k
    using apart [OF that] sub [OF that(2)] n by auto
  have "?b + 56 \<notin> bytes_at ?b 28" by (simp add: bytes_at_def)
  then have "m (p_esp p + 28) = code" using eq_offD [OF m(3), of "?b + 56"] assms by (simp add: call_frame_def add.commute)
  moreover have "load_registers (m(?n := code)) (p_esp p + 4) = r"
    using load_registers_eq_off [OF off, of "?b + 32"] free [of 32 24] assms by (simp add: call_frame_def add.commute)
  moreover have "ld32 (m(?n := code)) (p_esp p + 32) = out"
    using ld32_eq_off [OF off, of "?b + 60"] free [of 60 4] assms by (simp add: call_frame_def add.commute)
  moreover have "eq_off {?n} m (m(?n := code))" by (simp add: eq_off_def)
  then have "saved_at (m(?n := code)) ?b p"
    by (rule saved_at_eq_off [OF m(2)]) (use sub [of 0 28] n in auto)
  ultimately show thesis using that m(1) off by simp
qed

lemma bios_call_ok:
  fixes s :: "'a bios_machine_scheme"
  assumes p: "p_gdtr p = boot_gdtr L" "bit (p_cr0 p) 0" "p_cr0 p = boot_cr0 s" "\<not> paging s"
    and f: "call_frame L p (bmem s) r code out" and k: "stack_kept B code r (call_stack p)"
  shows "\<exists>m r' s' m'. eq_off (bytes_at (p_esp p - 28) 28 \<union> {int_number_at L}) (bmem s) m \<and>
    bios_int B r code (s\<lparr>bmem := m\<rparr>) = Some (r', s') \<and>
    bios_call B L p s = Some (after_call p, s'\<lparr>bmem := m'\<rparr>) \<and>
    (out \<noteq> 0 \<longrightarrow> load_registers m' out = r') \<and>
    eq_off (bytes_at (temp_result_at L) 24 \<union> (if out = 0 then {} else bytes_at out 24)) (bmem s') m'"
proof -
  let ?b = "p_esp p - 28" and ?t = "temp_result_at L" and ?n = "int_number_at L"
  obtain m where m: "save_registers p s = (p\<lparr>p_esp := ?b, p_ebp := p_esp p - 4\<rparr>, s\<lparr>bmem := m\<rparr>)" "m (p_esp p + 28) = code"
    "load_registers (m(?n := code)) (p_esp p + 4) = r" "ld32 (m(?n := code)) (p_esp p + 32) = out"
    "saved_at (m(?n := code)) ?b p" "eq_off (bytes_at ?b 28 \<union> {?n}) (bmem s) (m(?n := code))"
    by (rule bios_call_entry [OF f])
  obtain r' s' where B: "B code r (s\<lparr>bmem := m(?n := code)\<rparr>) = (r', s')" by (cases "B code r (s\<lparr>bmem := m(?n := code)\<rparr>)")
  have kept: "eq_off (- call_stack p) (m(?n := code)) (bmem s')"
    using k [unfolded stack_kept_def, rule_format, of _ "s\<lparr>bmem := m(?n := code)\<rparr>"] B by (simp add: eq_off_def)
  have sub: "bytes_at ?b 28 \<subseteq> call_stack p" "bytes_at (p_esp p + 32) 4 \<subseteq> call_stack p"
    using bytes_at_sub [of 0 28 64 ?b] bytes_at_sub [of 60 4 64 ?b] by (simp_all add: call_stack_def add.commute)
  have ft: "call_stack p \<inter> bytes_at ?t 24 = {}"
    and fo: "out \<noteq> 0 \<longrightarrow> bytes_at ?t 24 \<inter> bytes_at out 24 = {} \<and> bytes_at ?b 28 \<inter> bytes_at out 24 = {}"
    using f by (auto simp: call_frame_def)
  define m1 where "m1 = store_registers (bmem s') ?t r'"
  define m2 where "m2 = (if out = 0 then m1 else copy_registers ?t out m1)"
  have e1: "eq_off (bytes_at ?t 24) (bmem s') m1" unfolding m1_def by (rule eq_off_store_registers)
  have k1: "eq_off (- call_stack p) (m(?n := code)) m1"
    by (rule eq_off_chain [OF kept eq_off_mono [OF e1]]) (use ft in blast)
  have out: "ld32 m1 (p_esp p + 32) = out" using ld32_eq_off [OF k1] sub(2) m(4) by auto
  have s1: "saved_at m1 ?b p" by (rule saved_at_eq_off [OF m(5) k1]) (use sub(1) in auto)
  have m2: "m2 = store_registers m1 out r'" if "out \<noteq> 0"
    using fo that copy_registers_eq [of ?t out m1] by (simp add: m2_def m1_def)
  have s2: "saved_at m2 ?b p"
    using s1 m2 fo saved_at_eq_off [OF s1 eq_off_store_registers [of out m1 r']] by (cases "out = 0") (simp_all add: m2_def)
  have fin: "out \<noteq> 0 \<longrightarrow> load_registers m2 out = r'"
    "eq_off (bytes_at ?t 24 \<union> (if out = 0 then {} else bytes_at out 24)) (bmem s') m2"
    using m2 e1 eq_off_trans [OF e1 eq_off_store_registers [of out m1 r']] by (auto simp: m2_def)
  let ?q = "p\<lparr>p_esp := ?b, p_ebp := p_esp p - 4\<rparr>"
  let ?real = "?q\<lparr>p_cr0 := p_cr0 p AND 0xfffffffe, p_cs := 0, p_ds := 0, p_es := 0, p_fs := 0, p_gs := 0, p_ss := 0,
    p_idtr := \<lparr>dt_size = 0x3ff, dt_offset = 0\<rparr>\<rparr>"
  have c31: "\<not> bit (p_cr0 p) 31" using p(3,4) by (simp add: paging_def)
  have enter: "enter_real_mode L ?q = Some ?real" using enter_real_mode_ok [of ?q L] p(1,2) c31 by simp
  let ?prot = "?q\<lparr>p_cs := 0x8, p_ds := 0x10, p_es := 0x10, p_fs := 0x10, p_gs := 0x10, p_ss := 0x10,
    p_idtr := \<lparr>dt_size = 0x3ff, dt_offset = 0\<rparr>, p_regs := r', p_if := False\<rparr>"
  have z: "\<not> bit (p_cr0 p AND 0xfffffffe) 31" using c31 by (simp add: bit_and_iff)
  have leave: "leave_real_mode L (?real\<lparr>p_regs := r', p_if := False\<rparr>) = Some ?prot"
    using leave_real_mode_ok [of "?real\<lparr>p_regs := r', p_if := False\<rparr>" L] z protection_restored [OF p(2)] p(1) by simp
  have restore: "restore_registers m2 ?prot = ?prot\<lparr>p_regs := p_regs p, p_esp := p_esp p, p_ebp := p_ebp p\<rparr>"
    using restore_registers_eq [OF s2, of ?prot] by simp
  have a: "p_esp p - 4 + 32 = p_esp p + 28" "p_esp p - 4 + 8 = p_esp p + 4" "p_esp p - 4 + 36 = p_esp p + 32" by simp_all
  have call: "bios_call B L p s = Some (after_call p, s'\<lparr>bmem := m2\<rparr>)"
    unfolding bios_call_def Let_def m(1) split enter bind.bind_lunit
    using m(2,3) B leave out restore a
    by (cases "out = 0") (simp_all add: m1_def [symmetric] m2_def after_call_def add.commute)
  have "bios_int B r code (s\<lparr>bmem := m(?n := code)\<rparr>) = Some (r', s')" using B p(4) by simp
  with call fin m(6) show ?thesis by blast
qed

text \<open>
  (C23) While paging is off, the routine \<open>_bios_int\<close> does what the function \<open>bios_int\<close> of the model
  says: with its arguments on the stack the BIOS runs on the machine with the registers and the
  number given, the registers it leaves are at the address of the result, if there is one, and the
  routine itself changes only the words below the stack pointer, the operand of its interrupt
  instruction, and its buffer. The processor is back in protected mode with flat segments, its
  general registers and the stack as the caller expects them, and interrupts off.
\<close>

theorem bios_call_refines:
  fixes s :: "'a bios_machine_scheme"
  assumes "p_gdtr p = boot_gdtr L" "bit (p_cr0 p) 0" "p_cr0 p = boot_cr0 s" "\<not> paging s"
    "call_frame L p (bmem s) r code out" "stack_kept B code r (call_stack p)"
  shows "\<exists>m r' s' m'. eq_off (bytes_at (p_esp p - 28) 28 \<union> {int_number_at L}) (bmem s) m \<and>
    bios_int B r code (s\<lparr>bmem := m\<rparr>) = Some (r', s') \<and>
    bios_call B L p s = Some (after_call p, s'\<lparr>bmem := m'\<rparr>) \<and>
    (out \<noteq> 0 \<longrightarrow> load_registers m' out = r') \<and>
    eq_off (bytes_at (temp_result_at L) 24 \<union> (if out = 0 then {} else bytes_at out 24)) (bmem s') m'"
  by (rule bios_call_ok [OF assms])

text \<open>With paging on the switch to real mode faults, whatever the BIOS would do.\<close>

lemma save_registers_cr0: "p_cr0 (fst (save_registers p s)) = p_cr0 p"
  by (simp add: save_registers_def push_word_def Let_def)

lemma bios_call_paging:
  assumes "bit (p_cr0 p) 31"
  shows "bios_call B L p s = None"
proof -
  have b: "bit (0xfffffffe :: u32) 31" "\<not> bit (0xfffffffe :: u32) 0" by (simp_all add: bit_iff_odd)
  have "enter_real_mode L q = None" if "p_cr0 q = p_cr0 p" for q
  proof -
    have "bit (p_cr0 q AND 0xfffffffe) 31" "\<not> bit (p_cr0 q AND 0xfffffffe) 0"
      using assms b that by (simp_all only: bit_and_iff simp_thms)
    then show ?thesis
      by (simp add: enter_real_mode_def far_jump_def load_data_def write_cr0_def split: bind_splits del: bit_0)
  qed
  from this [OF save_registers_cr0 [of p s]] show ?thesis
    by (cases "save_registers p s") (simp add: bios_call_def)
qed

text \<open>
  An example: the memory range of theory \<open>Bios\<close>, with the registers put at 0x9100; the stack
  pointer is 0x7000.
\<close>

definition switch_example :: switch_layout where
  "switch_example = \<lparr>gdt_start_at = 0x7f00, temp_result_at = 0x8f00, int_number_at = 0x8e00\<rparr>"

definition flat_processor :: processor where
  "flat_processor = \<lparr>p_cr0 = 0x11, p_cs = 0x8, p_ds = 0x10, p_es = 0x10, p_fs = 0x10, p_gs = 0x10, p_ss = 0x10,
     p_gdtr = boot_gdtr switch_example, p_idtr = \<lparr>dt_size = 0, dt_offset = 0\<rparr>, p_if = False,
     p_regs = \<lparr>r_eax = 1, r_ebx = 2, r_ecx = 3, r_edx = 4, r_esi = 5, r_edi = 6\<rparr>, p_esp = 0x7000, p_ebp = 0x7100\<rparr>"

definition range_registers :: bios_registers where
  "range_registers = \<lparr>r_eax = 0xe820, r_ebx = 7, r_ecx = 24, r_edx = 0x534d4150, r_esi = 0, r_edi = 0x9000\<rparr>"

definition call_machine :: bios_machine where
  "call_machine = drive_machine\<lparr>boot_cr0 := 0x11,
     bmem := st32 ((store_registers (\<lambda>_. 0) 0x7004 range_registers)(0x701c := 0x15)) 0x7020 0x9100\<rparr>"

lemma call_machine_frame: "call_frame switch_example flat_processor (bmem call_machine) range_registers 0x15 0x9100"
proof -
  let ?m = "store_registers (\<lambda>_. 0) 0x7004 range_registers"
  have "eq_off (bytes_at 0x701c 8) ?m (st32 (?m(0x701c := 0x15)) 0x7020 0x9100)"
    by (auto simp: eq_off_def st32_def bytes_at_def)
  then have "load_registers (st32 (?m(0x701c := 0x15)) 0x7020 0x9100) 0x7004 = load_registers ?m 0x7004"
    by (rule load_registers_eq_off) (auto simp: bytes_at_unat)
  moreover have "st32 (?m(0x701c := 0x15)) 0x7020 0x9100 0x701c = 0x15" by (simp add: st32_def)
  moreover have "call_stack flat_processor \<inter> (bytes_at (temp_result_at switch_example) 24 \<union> {int_number_at switch_example}) = {}"
    "bytes_at 0x9100 24 \<inter> (bytes_at (temp_result_at switch_example) 24 \<union> bytes_at (p_esp flat_processor - 28) 28) = {}"
    by (auto simp: call_stack_def switch_example_def flat_processor_def bytes_at_unat)
  ultimately show ?thesis by (simp add: call_frame_def call_machine_def flat_processor_def)
qed

lemma range_bios_stack: "stack_kept range_bios 0x15 range_registers (call_stack flat_processor)"
proof -
  have "bmem (snd (range_bios 0x15 range_registers s)) a = bmem s a" if "a \<in> call_stack flat_processor" for a and s :: "'a bios_machine_scheme"
  proof -
    have "eq_off (bytes_at 0x9000 24) (bmem s) (bmem (snd (range_bios 0x15 range_registers s)))"
      by (auto simp: eq_off_def bytes_at_def range_bios_def range_registers_def store_range_def st32_def add.assoc)
    moreover have "a \<notin> bytes_at 0x9000 24" using that by (auto simp: call_stack_def flat_processor_def bytes_at_unat)
    ultimately show ?thesis by (rule eq_offD)
  qed
  then show ?thesis by (simp add: stack_kept_def)
qed

theorem bios_call_refines_witness:
  "\<exists>m. bios_call range_bios switch_example flat_processor call_machine = Some (after_call flat_processor, call_machine\<lparr>bmem := m\<rparr>) \<and>
    load_registers m 0x9100 = range_registers\<lparr>r_ebx := 0\<rparr>"
proof -
  have p: "p_gdtr flat_processor = boot_gdtr switch_example" "bit (p_cr0 flat_processor) 0"
      "p_cr0 flat_processor = boot_cr0 call_machine" "\<not> paging call_machine"
    by (simp_all add: flat_processor_def call_machine_def paging_def bit_iff_odd)
  show ?thesis
    using bios_call_refines [OF p call_machine_frame range_bios_stack] p(4) by (auto simp: range_bios_def)
qed

end
