(* ===== verification/Exfat_Entries.thy ===== *)
theory Exfat_Entries
  imports Loof_Prelude
begin

text \<open>
  The structures of the exFAT file system, src/boot/x86/fs/exfat.h and exfat.c: the boot record and
  the entries of a directory, field by field and bit by bit, as they lie on the disk. Some of them,
  such as the volume label, the reader does not look at.
\<close>

section \<open>Fields\<close>

text \<open>Fields of packed structures, little-endian, in a list of bytes.\<close>

definition b16 :: "u8 list \<Rightarrow> nat \<Rightarrow> u16" where
  "b16 bs i = ucast (bs ! i) OR push_bit 8 (ucast (bs ! (i + 1)))"

definition b32 :: "u8 list \<Rightarrow> nat \<Rightarrow> u32" where
  "b32 bs i = ucast (bs ! i) OR push_bit 8 (ucast (bs ! (i + 1)))
     OR push_bit 16 (ucast (bs ! (i + 2))) OR push_bit 24 (ucast (bs ! (i + 3)))"

definition b64 :: "u8 list \<Rightarrow> nat \<Rightarrow> u64" where
  "b64 bs i = ucast (b32 bs i) OR push_bit 32 (ucast (b32 bs (i + 4)))"

definition le64 :: "u64 \<Rightarrow> u8 list" where
  "le64 v = le32 (ucast v) @ le32 (ucast (drop_bit 32 v))"

section \<open>Bit fields\<close>

record exfat_file_attributes =
  fa_readonly :: "1 word"
  fa_hidden :: "1 word"
  fa_system :: "1 word"
  fa_reserved :: "1 word"
  fa_directory :: "1 word"
  fa_archive :: "1 word"
  fa_reserved2 :: "10 word"

definition fa_widths :: "nat list" where
  "fa_widths = [1, 1, 1, 1, 1, 1, 10]"

definition enc_attributes :: "exfat_file_attributes \<Rightarrow> u16" where
  "enc_attributes a = of_nat (pack (zip fa_widths [unat (fa_readonly a), unat (fa_hidden a), unat (fa_system a),
     unat (fa_reserved a), unat (fa_directory a), unat (fa_archive a), unat (fa_reserved2 a)]))"

definition dec_attributes :: "u16 \<Rightarrow> exfat_file_attributes" where
  "dec_attributes w = (let f = (\<lambda>i. unpack fa_widths (unat w) ! i) in
     \<lparr>fa_readonly = of_nat (f 0), fa_hidden = of_nat (f 1), fa_system = of_nat (f 2), fa_reserved = of_nat (f 3),
      fa_directory = of_nat (f 4), fa_archive = of_nat (f 5), fa_reserved2 = of_nat (f 6)\<rparr>)"

record exfat_timestamp =
  ts_double_seconds :: "5 word"
  ts_minute :: "6 word"
  ts_hour :: "5 word"
  ts_day :: "5 word"
  ts_month :: "4 word"
  ts_year :: "7 word"

definition ts_widths :: "nat list" where
  "ts_widths = [5, 6, 5, 5, 4, 7]"

definition enc_timestamp :: "exfat_timestamp \<Rightarrow> u32" where
  "enc_timestamp t = of_nat (pack (zip ts_widths [unat (ts_double_seconds t), unat (ts_minute t), unat (ts_hour t),
     unat (ts_day t), unat (ts_month t), unat (ts_year t)]))"

definition dec_timestamp :: "u32 \<Rightarrow> exfat_timestamp" where
  "dec_timestamp w = (let f = (\<lambda>i. unpack ts_widths (unat w) ! i) in
     \<lparr>ts_double_seconds = of_nat (f 0), ts_minute = of_nat (f 1), ts_hour = of_nat (f 2), ts_day = of_nat (f 3),
      ts_month = of_nat (f 4), ts_year = of_nat (f 5)\<rparr>)"

record exfat_general_flags =
  gf_allocation_possible :: "1 word"
  gf_nofatchain :: "1 word"
  gf_custom :: "6 word"

definition enc_flags :: "exfat_general_flags \<Rightarrow> u8" where
  "enc_flags g = of_nat (pack (zip [1, 1, 6] [unat (gf_allocation_possible g), unat (gf_nofatchain g), unat (gf_custom g)]))"

definition dec_flags :: "u8 \<Rightarrow> exfat_general_flags" where
  "dec_flags w = (let f = (\<lambda>i. unpack [1, 1, 6] (unat w) ! i) in
     \<lparr>gf_allocation_possible = of_nat (f 0), gf_nofatchain = of_nat (f 1), gf_custom = of_nat (f 2)\<rparr>)"

record exfat_bitmap_flags =
  bf_id :: "1 word"
  bf_reserved :: "7 word"

definition enc_bitmap_flags :: "exfat_bitmap_flags \<Rightarrow> u8" where
  "enc_bitmap_flags b = of_nat (pack (zip [1, 7] [unat (bf_id b), unat (bf_reserved b)]))"

definition dec_bitmap_flags :: "u8 \<Rightarrow> exfat_bitmap_flags" where
  "dec_bitmap_flags w = (let f = (\<lambda>i. unpack [1, 7] (unat w) ! i) in \<lparr>bf_id = of_nat (f 0), bf_reserved = of_nat (f 1)\<rparr>)"

section \<open>The boot record\<close>

record exfat_boot_record =
  br_jumpboot :: "u8 list"
  br_fs_name :: "u8 list"
  br_zero :: "u8 list"
  br_partition_offset :: u64
  br_volume_length :: u64
  br_fat_offset :: u32
  br_fat_length :: u32
  br_cluster_heap_offset :: u32
  br_cluster_count :: u32
  br_root_first_cluster :: u32
  br_volume_serial :: u32
  br_fs_revision :: u16
  br_volume_flags :: u16
  br_bytes_per_sector_shift :: u8
  br_sectors_per_cluster_shift :: u8
  br_number_of_fats :: u8
  br_drive_select :: u8
  br_percent_used :: u8
  br_reserved :: "u8 list"
  br_bootcode :: "u8 list"
  br_boot_signature :: "u8 list"

definition dec_boot_record :: "u8 list \<Rightarrow> exfat_boot_record" where
  "dec_boot_record bs = \<lparr>br_jumpboot = take 3 bs, br_fs_name = take 8 (drop 3 bs), br_zero = take 53 (drop 11 bs),
     br_partition_offset = b64 bs 64, br_volume_length = b64 bs 72, br_fat_offset = b32 bs 80,
     br_fat_length = b32 bs 84, br_cluster_heap_offset = b32 bs 88, br_cluster_count = b32 bs 92,
     br_root_first_cluster = b32 bs 96, br_volume_serial = b32 bs 100, br_fs_revision = b16 bs 104,
     br_volume_flags = b16 bs 106, br_bytes_per_sector_shift = bs ! 108, br_sectors_per_cluster_shift = bs ! 109,
     br_number_of_fats = bs ! 110, br_drive_select = bs ! 111, br_percent_used = bs ! 112,
     br_reserved = take 7 (drop 113 bs), br_bootcode = take 390 (drop 120 bs), br_boot_signature = take 2 (drop 510 bs)\<rparr>"

definition enc_boot_record :: "exfat_boot_record \<Rightarrow> u8 list" where
  "enc_boot_record r = br_jumpboot r @ br_fs_name r @ br_zero r @ le64 (br_partition_offset r) @ le64 (br_volume_length r) @
     le32 (br_fat_offset r) @ le32 (br_fat_length r) @ le32 (br_cluster_heap_offset r) @ le32 (br_cluster_count r) @
     le32 (br_root_first_cluster r) @ le32 (br_volume_serial r) @ le16 (br_fs_revision r) @ le16 (br_volume_flags r) @
     [br_bytes_per_sector_shift r] @ [br_sectors_per_cluster_shift r] @ [br_number_of_fats r] @ [br_drive_select r] @
     [br_percent_used r] @
     br_reserved r @ br_bootcode r @ br_boot_signature r"

section \<open>The entries of a directory\<close>

record exfat_upcase_dir_entry =
  ud_entry_type :: u8
  ud_reserved :: "u8 list"
  ud_checksum :: "u8 list"
  ud_reserved2 :: "u8 list"
  ud_first_cluster :: u32
  ud_data_length :: u64

definition dec_upcase_entry :: "u8 list \<Rightarrow> exfat_upcase_dir_entry" where
  "dec_upcase_entry bs = \<lparr>ud_entry_type = bs ! 0, ud_reserved = take 3 (drop 1 bs), ud_checksum = take 4 (drop 4 bs),
     ud_reserved2 = take 12 (drop 8 bs), ud_first_cluster = b32 bs 20, ud_data_length = b64 bs 24\<rparr>"

definition enc_upcase_entry :: "exfat_upcase_dir_entry \<Rightarrow> u8 list" where
  "enc_upcase_entry e = [ud_entry_type e] @ ud_reserved e @ ud_checksum e @ ud_reserved2 e @
     le32 (ud_first_cluster e) @ le64 (ud_data_length e)"

record exfat_volume_label_dir_entry =
  ld_entry_type :: u8
  ld_character_count :: u8
  ld_volume_label :: "u16 list"
  ld_reserved :: "u8 list"

definition dec_label_entry :: "u8 list \<Rightarrow> exfat_volume_label_dir_entry" where
  "dec_label_entry bs = \<lparr>ld_entry_type = bs ! 0, ld_character_count = bs ! 1,
     ld_volume_label = map (\<lambda>x. b16 bs (2 + 2 * x)) [0..<11], ld_reserved = take 8 (drop 24 bs)\<rparr>"

definition enc_label_entry :: "exfat_volume_label_dir_entry \<Rightarrow> u8 list" where
  "enc_label_entry e = [ld_entry_type e] @ [ld_character_count e] @ concat (map le16 (ld_volume_label e)) @ ld_reserved e"

record exfat_file_dir_entry =
  fd_entry_type :: u8
  fd_secondary_count :: u8
  fd_checksum :: "u8 list"
  fd_attributes :: exfat_file_attributes
  fd_reserved :: u16
  fd_create_time :: exfat_timestamp
  fd_last_modified_time :: exfat_timestamp
  fd_last_accessed_time :: exfat_timestamp
  fd_create_time_10ms :: u8
  fd_last_modified_10ms :: u8
  fd_create_timezone :: u8
  fd_last_modified_timezone :: u8
  fd_last_accessed_timezone :: u8
  fd_reserved2 :: "u8 list"

definition dec_file_entry :: "u8 list \<Rightarrow> exfat_file_dir_entry" where
  "dec_file_entry bs = \<lparr>fd_entry_type = bs ! 0, fd_secondary_count = bs ! 1, fd_checksum = take 2 (drop 2 bs),
     fd_attributes = dec_attributes (b16 bs 4), fd_reserved = b16 bs 6, fd_create_time = dec_timestamp (b32 bs 8),
     fd_last_modified_time = dec_timestamp (b32 bs 12), fd_last_accessed_time = dec_timestamp (b32 bs 16),
     fd_create_time_10ms = bs ! 20, fd_last_modified_10ms = bs ! 21, fd_create_timezone = bs ! 22,
     fd_last_modified_timezone = bs ! 23, fd_last_accessed_timezone = bs ! 24, fd_reserved2 = take 7 (drop 25 bs)\<rparr>"

definition enc_file_entry :: "exfat_file_dir_entry \<Rightarrow> u8 list" where
  "enc_file_entry e = [fd_entry_type e] @ [fd_secondary_count e] @ fd_checksum e @ le16 (enc_attributes (fd_attributes e)) @
     le16 (fd_reserved e) @ le32 (enc_timestamp (fd_create_time e)) @ le32 (enc_timestamp (fd_last_modified_time e)) @
     le32 (enc_timestamp (fd_last_accessed_time e)) @ [fd_create_time_10ms e] @ [fd_last_modified_10ms e] @
     [fd_create_timezone e] @ [fd_last_modified_timezone e] @ [fd_last_accessed_timezone e] @ fd_reserved2 e"

record exfat_extension_dir_entry =
  ed_entry_type :: u8
  ed_flags :: exfat_general_flags
  ed_reserved :: u8
  ed_name_length :: u8
  ed_name_hash :: "u8 list"
  ed_reserved2 :: "u8 list"
  ed_valid_data_length :: u64
  ed_reserved3 :: "u8 list"
  ed_first_cluster :: u32
  ed_data_length :: u64

definition dec_extension_entry :: "u8 list \<Rightarrow> exfat_extension_dir_entry" where
  "dec_extension_entry bs = \<lparr>ed_entry_type = bs ! 0, ed_flags = dec_flags (bs ! 1), ed_reserved = bs ! 2,
     ed_name_length = bs ! 3, ed_name_hash = take 2 (drop 4 bs), ed_reserved2 = take 2 (drop 6 bs),
     ed_valid_data_length = b64 bs 8, ed_reserved3 = take 4 (drop 16 bs), ed_first_cluster = b32 bs 20,
     ed_data_length = b64 bs 24\<rparr>"

definition enc_extension_entry :: "exfat_extension_dir_entry \<Rightarrow> u8 list" where
  "enc_extension_entry e = [ed_entry_type e] @ [enc_flags (ed_flags e)] @ [ed_reserved e] @ [ed_name_length e] @
     ed_name_hash e @ ed_reserved2 e @ le64 (ed_valid_data_length e) @ ed_reserved3 e @
     le32 (ed_first_cluster e) @ le64 (ed_data_length e)"

record exfat_name_dir_entry =
  nd_entry_type :: u8
  nd_flags :: exfat_general_flags
  nd_name :: "u16 list"

definition dec_name_entry :: "u8 list \<Rightarrow> exfat_name_dir_entry" where
  "dec_name_entry bs = \<lparr>nd_entry_type = bs ! 0, nd_flags = dec_flags (bs ! 1),
     nd_name = map (\<lambda>x. b16 bs (2 + 2 * x)) [0..<15]\<rparr>"

definition enc_name_entry :: "exfat_name_dir_entry \<Rightarrow> u8 list" where
  "enc_name_entry e = [nd_entry_type e] @ [enc_flags (nd_flags e)] @ concat (map le16 (nd_name e))"

record exfat_bitmap_dir_entry =
  bd_entry_type :: u8
  bd_flags :: exfat_bitmap_flags
  bd_reserved :: "u8 list"
  bd_first_cluster :: u32
  bd_data_length :: u64

definition dec_bitmap_entry :: "u8 list \<Rightarrow> exfat_bitmap_dir_entry" where
  "dec_bitmap_entry bs = \<lparr>bd_entry_type = bs ! 0, bd_flags = dec_bitmap_flags (bs ! 1), bd_reserved = take 18 (drop 2 bs),
     bd_first_cluster = b32 bs 20, bd_data_length = b64 bs 24\<rparr>"

definition enc_bitmap_entry :: "exfat_bitmap_dir_entry \<Rightarrow> u8 list" where
  "enc_bitmap_entry e = [bd_entry_type e] @ [enc_bitmap_flags (bd_flags e)] @ bd_reserved e @
     le32 (bd_first_cluster e) @ le64 (bd_data_length e)"

record exfat_volume_guid_dir_entry =
  gd_entry_type :: u8
  gd_secondary_count :: u8
  gd_checksum :: "u8 list"
  gd_flags :: exfat_general_flags
  gd_guid :: "u8 list"
  gd_reserved :: "u8 list"

definition dec_guid_entry :: "u8 list \<Rightarrow> exfat_volume_guid_dir_entry" where
  "dec_guid_entry bs = \<lparr>gd_entry_type = bs ! 0, gd_secondary_count = bs ! 1, gd_checksum = take 2 (drop 2 bs),
     gd_flags = dec_flags (bs ! 4), gd_guid = take 16 (drop 5 bs), gd_reserved = take 10 (drop 21 bs)\<rparr>"

definition enc_guid_entry :: "exfat_volume_guid_dir_entry \<Rightarrow> u8 list" where
  "enc_guid_entry e = [gd_entry_type e] @ [gd_secondary_count e] @ gd_checksum e @ [enc_flags (gd_flags e)] @ gd_guid e @ gd_reserved e"

section \<open>Layout\<close>

lemma pack_unpack: "pack (zip ws (unpack ws n)) = n mod 2 ^ sum_list ws"
proof (induction ws arbitrary: n)
  case (Cons w ws)
  then show ?case by (simp add: power_add mod_mult2_eq)
qed simp

lemma pack_unpack_word:
  assumes "sum_list ws = LENGTH('a)"
  shows "of_nat (pack (zip ws (unpack ws (unat (w :: 'a :: len word))))) = w"
proof -
  have "unat w < 2 ^ sum_list ws" using assms by (simp add: unsigned_less)
  then show ?thesis by (simp add: pack_unpack)
qed

lemma enc_dec_attributes [simp]: "enc_attributes (dec_attributes w) = w"
  using pack_unpack_word [of fa_widths w]
  by (simp add: enc_attributes_def dec_attributes_def fa_widths_def unat_of_nat)

lemma enc_dec_timestamp [simp]: "enc_timestamp (dec_timestamp w) = w"
  using pack_unpack_word [of ts_widths w]
  by (simp add: enc_timestamp_def dec_timestamp_def ts_widths_def unat_of_nat)

lemma enc_dec_flags [simp]: "enc_flags (dec_flags w) = w"
  using pack_unpack_word [of "[1, 1, 6]" w] by (simp add: enc_flags_def dec_flags_def unat_of_nat)

lemma enc_dec_bitmap_flags [simp]: "enc_bitmap_flags (dec_bitmap_flags w) = w"
  using pack_unpack_word [of "[1, 7]" w] by (simp add: enc_bitmap_flags_def dec_bitmap_flags_def unat_of_nat)

text \<open>Fields and arrays next to each other.\<close>

lemma le16_b16: "i + 2 \<le> length bs \<Longrightarrow> le16 (b16 bs i) = take 2 (drop i bs)"
proof -
  assume i: "i + 2 \<le> length bs"
  have "ucast (b16 bs i) = bs ! i" "ucast (drop_bit 8 (b16 bs i)) = bs ! (i + 1)"
    by (rule bit_word_eqI; auto simp: b16_def bit_simps dest: bit_imp_le_length)+
  moreover have "take 2 (drop i bs) = [bs ! i, bs ! (i + 1)]"
    using i by (simp add: numeral_2_eq_2 take_Suc_conv_app_nth)
  ultimately show ?thesis by (simp add: le16_def)
qed

lemma le32_b32: "i + 4 \<le> length bs \<Longrightarrow> le32 (b32 bs i) = take 4 (drop i bs)"
proof -
  assume i: "i + 4 \<le> length bs"
  have "ucast (b32 bs i) = bs ! i" "ucast (drop_bit 8 (b32 bs i)) = bs ! (i + 1)"
    "ucast (drop_bit 16 (b32 bs i)) = bs ! (i + 2)" "ucast (drop_bit 24 (b32 bs i)) = bs ! (i + 3)"
    by (rule bit_word_eqI; auto simp: b32_def bit_simps dest: bit_imp_le_length)+
  moreover have "take 4 (drop i bs) = [bs ! i, bs ! (i + 1), bs ! (i + 2), bs ! (i + 3)]"
    using i by (simp add: eval_nat_numeral take_Suc_conv_app_nth)
  ultimately show ?thesis by (simp add: le32_def)
qed

lemma le64_b64: "i + 8 \<le> length bs \<Longrightarrow> le64 (b64 bs i) = take 8 (drop i bs)"
proof -
  assume i: "i + 8 \<le> length bs"
  have "ucast (b64 bs i) = b32 bs i" "ucast (drop_bit 32 (b64 bs i)) = b32 bs (i + 4)"
    by (rule bit_word_eqI; auto simp: b64_def bit_simps dest: bit_imp_le_length)+
  then have "le64 (b64 bs i) = take 4 (drop i bs) @ take 4 (drop (i + 4) bs)" using i by (simp add: le64_def le32_b32)
  also have "\<dots> = take 8 (drop i bs)" using take_add [of 4 4 "drop i bs"] by (simp add: add.commute)
  finally show ?thesis .
qed

lemma le16s_b16:
  "i + 2 * n \<le> length bs \<Longrightarrow> concat (map le16 (map (\<lambda>x. b16 bs (i + 2 * x)) [0..<n])) = take (2 * n) (drop i bs)"
proof (induction n)
  case (Suc n)
  then have "concat (map le16 (map (\<lambda>x. b16 bs (i + 2 * x)) [0..<Suc n])) =
      take (2 * n) (drop i bs) @ take 2 (drop (i + 2 * n) bs)"
    by (simp add: le16_b16)
  also have "\<dots> = take (2 * Suc n) (drop i bs)" using take_add [of "2 * n" 2 "drop i bs"] by (simp add: add.commute)
  finally show ?case .
qed simp

lemma one_byte: "i < length bs \<Longrightarrow> [bs ! i] = take 1 (drop i bs)"
  by (simp add: take_Suc_conv_app_nth)

lemma join: "take i bs @ take k (drop i bs) = take (i + k) bs"
  by (rule take_add [symmetric])

lemmas layout_simps = le16_b16 le32_b32 le64_b64 le16s_b16 [simplified map_map comp_def] one_byte join

lemma upcase_entry_layout: "length bs = 32 \<Longrightarrow> enc_upcase_entry (dec_upcase_entry bs) = bs"
  by (simp add: enc_upcase_entry_def dec_upcase_entry_def layout_simps append_assoc [symmetric] del: append_assoc One_nat_def)

lemma label_entry_layout: "length bs = 32 \<Longrightarrow> enc_label_entry (dec_label_entry bs) = bs"
  using le16s_b16 [of 2 11 bs]
  by (simp add: enc_label_entry_def dec_label_entry_def layout_simps append_assoc [symmetric] del: append_assoc One_nat_def map_map upt_Suc upt_rec_numeral)

lemma file_entry_layout: "length bs = 32 \<Longrightarrow> enc_file_entry (dec_file_entry bs) = bs"
  by (simp add: enc_file_entry_def dec_file_entry_def layout_simps append_assoc [symmetric] del: append_assoc One_nat_def)

lemma extension_entry_layout: "length bs = 32 \<Longrightarrow> enc_extension_entry (dec_extension_entry bs) = bs"
  by (simp add: enc_extension_entry_def dec_extension_entry_def layout_simps append_assoc [symmetric] del: append_assoc One_nat_def)

lemma name_entry_layout: "length bs = 32 \<Longrightarrow> enc_name_entry (dec_name_entry bs) = bs"
  using le16s_b16 [of 2 15 bs]
  by (simp add: enc_name_entry_def dec_name_entry_def layout_simps append_assoc [symmetric] del: append_assoc One_nat_def map_map upt_Suc upt_rec_numeral)

lemma bitmap_entry_layout: "length bs = 32 \<Longrightarrow> enc_bitmap_entry (dec_bitmap_entry bs) = bs"
  by (simp add: enc_bitmap_entry_def dec_bitmap_entry_def layout_simps append_assoc [symmetric] del: append_assoc One_nat_def)

lemma guid_entry_layout: "length bs = 32 \<Longrightarrow> enc_guid_entry (dec_guid_entry bs) = take 31 bs"
  by (simp add: enc_guid_entry_def dec_guid_entry_def layout_simps append_assoc [symmetric] del: append_assoc One_nat_def)

lemma boot_record_layout: "length bs = 512 \<Longrightarrow> enc_boot_record (dec_boot_record bs) = bs"
  by (simp add: enc_boot_record_def dec_boot_record_def layout_simps append_assoc [symmetric] del: append_assoc One_nat_def)

text \<open>
  (C35) The fields of each structure of the file system cover its bytes, in their order: what a
  structure is decoded to encodes to the same bytes again, 512 for the boot record and 32 for an entry
  of a directory, bit fields included. The entry with the GUID of the volume is the exception, for
  its flags have one byte where the format has two: its fields cover 31 of the 32 bytes, and the GUID
  is taken one byte too early.
\<close>

theorem exfat_structures_laid_out:
  assumes "length bs = 32" "length rs = 512"
  shows "enc_boot_record (dec_boot_record rs) = rs \<and> enc_upcase_entry (dec_upcase_entry bs) = bs \<and>
    enc_label_entry (dec_label_entry bs) = bs \<and> enc_file_entry (dec_file_entry bs) = bs \<and>
    enc_extension_entry (dec_extension_entry bs) = bs \<and> enc_name_entry (dec_name_entry bs) = bs \<and>
    enc_bitmap_entry (dec_bitmap_entry bs) = bs \<and> enc_guid_entry (dec_guid_entry bs) = take 31 bs \<and>
    gd_guid (dec_guid_entry bs) = take 16 (drop 5 bs)"
  using assms by (simp add: upcase_entry_layout label_entry_layout file_entry_layout extension_entry_layout
      name_entry_layout bitmap_entry_layout guid_entry_layout boot_record_layout) (simp add: dec_guid_entry_def)

theorem exfat_structures_laid_out_witness:
  "enc_file_entry (dec_file_entry (0x85 # 2 # replicate 30 0x21)) = 0x85 # 2 # replicate 30 0x21 \<and>
   enc_guid_entry (dec_guid_entry (replicate 31 0xa0 @ [7])) = replicate 31 0xa0"
  using exfat_structures_laid_out [of "0x85 # 2 # replicate 30 0x21" "replicate 512 0"]
    exfat_structures_laid_out [of "replicate 31 0xa0 @ [7]" "replicate 512 0"] by simp

end
