(* ===== verification/Exfat.thy ===== *)
theory Exfat
  imports Exfat_Entries Bios C_String
begin

text \<open>
  The exFAT reader of the boot loader, src/boot/x86/fs/exfat.c and exfat.h, over the sectors of
  a drive behind the BIOS; the structures on the disk are in theory \<open>Exfat_Entries\<close>. The boot record and the table of upper-case letters are variables of
  the program; the directory that is searched and the buffers are memory, at addresses that are
  a parameter for the local ones. What C leaves undefined is \<open>None\<close>: a shift by 32 or
  more, a division by zero, and an index outside of an array.
\<close>

section \<open>Data\<close>

text \<open>The variables of exfat.c, and the addresses of its local buffers.\<close>

record exfat_machine = bios_machine +
  exfat_boot_record :: exfat_boot_record
  upcase_table :: "u16 list"

record exfat_frame = bios_frame +
  load_buffer_at :: u32
  fat_buffer_at :: u32

section \<open>Geometry\<close>

definition shl32 :: "u32 \<Rightarrow> u8 \<Rightarrow> u32 option" where
  "shl32 w k = (if unat k < 32 then Some (push_bit (unat k) w) else None)"

definition div32 :: "u32 \<Rightarrow> u32 \<Rightarrow> u32 option" where
  "div32 a b = (if b = 0 then None else Some (a div b))"

definition bps :: "'a exfat_machine_scheme \<Rightarrow> u32" where
  "bps s = ucast (drive_bytes_per_sector s)"

definition get_heap_lba :: "u32 \<Rightarrow> 'a exfat_machine_scheme \<Rightarrow> u32 option" where
  "get_heap_lba index s = do {
     c \<leftarrow> shl32 (index - 2) (br_sectors_per_cluster_shift (exfat_boot_record s));
     div32 ((0x100 + br_cluster_heap_offset (exfat_boot_record s) + c) * 512) (bps s)
   }"

definition get_fat_lba :: "u32 \<Rightarrow> 'a exfat_machine_scheme \<Rightarrow> u32 option" where
  "get_fat_lba index s =
     div32 ((0x100 + br_fat_offset (exfat_boot_record s) + index * 4 div 512) * 512) (bps s)"

definition get_cluster_size :: "u32 \<Rightarrow> 'a exfat_machine_scheme \<Rightarrow> u32 option" where
  "get_cluster_size size' s = do {
     c \<leftarrow> shl32 size' (br_sectors_per_cluster_shift (exfat_boot_record s));
     div32 (c * 512) (bps s)
   }"

section \<open>Initialisation\<close>

text \<open>
  The search of the first sector of the root directory, from byte \<open>i\<close> on. The copy of
  128 bytes fills the first 64 of the 128 entries of the table.
\<close>

definition load_upcase :: "u8 list \<Rightarrow> u16 list \<Rightarrow> u16 list" where
  "load_upcase bs table = map (\<lambda>x. b16 bs (2 * x)) [0..<64] @ drop 64 table"

function upcase_loop ::
  "'a exfat_machine_ext bios \<Rightarrow> exfat_frame \<Rightarrow> nat \<Rightarrow> 'a exfat_machine_scheme \<Rightarrow> 'a exfat_machine_scheme option" where
  "upcase_loop B F i s =
     (if i < unat (drive_bytes_per_sector s) then
        if bmem s (load_buffer_at F + of_nat i) = 0x82 then do {
          let upcase_entry = dec_upcase_entry (mem_list (bmem s) (load_buffer_at F + of_nat i) 32);
          lba \<leftarrow> get_heap_lba (ud_first_cluster upcase_entry) s;
          s \<leftarrow> bios_ext_read B F (load_buffer_at F) lba 1 s;
          Some (s\<lparr>upcase_table := load_upcase (mem_list (bmem s) (load_buffer_at F) 128) (upcase_table s)\<rparr>)
        } else upcase_loop B F (i + 32) s
      else Some s)"
  by auto
termination by (relation "measure (\<lambda>(B, F, i, s). unat (drive_bytes_per_sector s) - i)") auto

declare upcase_loop.simps [simp del]

definition init_exfat ::
  "'a exfat_machine_ext bios \<Rightarrow> exfat_frame \<Rightarrow> 'a exfat_machine_scheme \<Rightarrow> 'a exfat_machine_scheme option" where
  "init_exfat B F s = do {
     lba \<leftarrow> div32 (0x100 * 512) (bps s);
     s \<leftarrow> bios_ext_read B F (load_buffer_at F) lba 1 s;
     let s = s\<lparr>exfat_boot_record := dec_boot_record (mem_list (bmem s) (load_buffer_at F) 512)\<rparr>;
     let s = s\<lparr>upcase_table := map of_nat [0..<128]\<rparr>;
     lba \<leftarrow> get_heap_lba (br_root_first_cluster (exfat_boot_record s)) s;
     s \<leftarrow> bios_ext_read B F (load_buffer_at F) lba 1 s;
     upcase_loop B F 0 s
   }"

section \<open>The name of a file\<close>

definition dir_entry :: "bytes \<Rightarrow> u32 \<Rightarrow> nat \<Rightarrow> u8 list" where
  "dir_entry m dir_buffer i = mem_list m (dir_buffer + 32 * of_nat i) 32"

definition read_names :: "bytes \<Rightarrow> u32 \<Rightarrow> nat \<Rightarrow> nat \<Rightarrow> u16 list \<Rightarrow> u16 list option" where
  "read_names m dir_buffer i name_entry_count filename =
     for_loop 0 name_entry_count (\<lambda>j filename.
       let name_entry = dec_name_entry (dir_entry m dir_buffer (i + j + 2)) in
       for_loop 0 15 (\<lambda>x filename.
         if j * 15 + x < length filename then Some (filename[j * 15 + x := nd_name name_entry ! x])
         else None) filename) filename"

definition apply_upcase :: "u16 list \<Rightarrow> u16 list \<Rightarrow> u16 list option" where
  "apply_upcase table filename =
     for_loop 0 255 (\<lambda>j filename.
       if unat (filename ! j) < length table then Some (filename[j := table ! unat (filename ! j)])
       else None) filename"

text \<open>The comparison is of an unsigned 16-bit and a signed 8-bit number.\<close>

definition name_equal :: "bytes \<Rightarrow> u32 \<Rightarrow> nat \<Rightarrow> u16 list \<Rightarrow> bool" where
  "name_equal m name name_len filename =
     list_all (\<lambda>j. uint (filename ! j) = sint (m (name + of_nat j))) [0..<name_len]"

section \<open>Loading a file\<close>

text \<open>The number of clusters of a file, as the code computes it, twice.\<close>

definition file_clusters :: "exfat_extension_dir_entry \<Rightarrow> 'a exfat_machine_scheme \<Rightarrow> u32 option" where
  "file_clusters extension_entry s = do {
     g \<leftarrow> get_cluster_size 1 s;
     div32 (ucast (ed_data_length extension_entry + ucast (g * bps s) - 1)) (g * bps s)
   }"

definition fat_lookup :: "exfat_frame \<Rightarrow> int \<Rightarrow> u32 \<Rightarrow> 'a exfat_machine_scheme \<Rightarrow> u32 option" where
  "fat_lookup F id_per_cluster cluster s =
     (let i = sint cluster smod id_per_cluster in
      if 0 < id_per_cluster \<and> 0 \<le> i then Some (ld32 (bmem s) (fat_buffer_at F + 4 * of_int i)) else None)"

definition load_contiguous ::
  "'a exfat_machine_ext bios \<Rightarrow> exfat_frame \<Rightarrow> u32 \<Rightarrow> nat \<Rightarrow> u32 \<Rightarrow> 'a exfat_machine_scheme \<Rightarrow> 'a exfat_machine_scheme option" where
  "load_contiguous B F dest n current_cluster_id s =
     for_loop 0 n (\<lambda>j s. do {
       g \<leftarrow> get_cluster_size 1 s;
       lba \<leftarrow> get_heap_lba (current_cluster_id + of_nat j) s;
       bios_ext_read B F (dest + of_nat j * bps s * g) lba g s
     }) s"

partial_function (option) load_chain ::
  "'a exfat_machine_ext bios \<Rightarrow> exfat_frame \<Rightarrow> int \<Rightarrow> u32 \<Rightarrow> nat \<Rightarrow> u32 \<Rightarrow> 'a exfat_machine_scheme \<Rightarrow> 'a exfat_machine_scheme option" where
  "load_chain B F id_per_cluster dest clusters_read current_cluster_id s = do {
     g \<leftarrow> get_cluster_size 1 s;
     lba \<leftarrow> get_heap_lba current_cluster_id s;
     s \<leftarrow> bios_ext_read B F (dest + bps s * g * of_nat clusters_read) lba g s;
     current_cluster_id \<leftarrow> fat_lookup F id_per_cluster current_cluster_id s;
     if current_cluster_id = 0xffffffff \<or> current_cluster_id = 0xfffffff7 then Some s
     else do {
       lba \<leftarrow> get_fat_lba current_cluster_id s;
       s \<leftarrow> bios_ext_read B F (fat_buffer_at F) lba g s;
       load_chain B F id_per_cluster dest (Suc clusters_read) current_cluster_id s
     }
   }"

definition load_file ::
  "'a exfat_machine_ext bios \<Rightarrow> exfat_frame \<Rightarrow> exfat_extension_dir_entry \<Rightarrow> u32 \<Rightarrow> 'a exfat_machine_scheme \<Rightarrow>
   (u32 \<times> 'a exfat_machine_scheme) option" where
  "load_file B F extension_entry dest s = do {
     let current_cluster_id = ed_first_cluster extension_entry;
     g \<leftarrow> get_cluster_size 1 s;
     let id_per_cluster = sint (bps s * g div 4);
     lba \<leftarrow> get_fat_lba current_cluster_id s;
     s \<leftarrow> bios_ext_read B F (fat_buffer_at F) lba g s;
     entry \<leftarrow> fat_lookup F id_per_cluster current_cluster_id s;
     s \<leftarrow> (if entry = 0 then do {
             n \<leftarrow> file_clusters extension_entry s;
             load_contiguous B F dest (unat n) current_cluster_id s
           } else load_chain B F id_per_cluster dest 0 current_cluster_id s);
     n \<leftarrow> file_clusters extension_entry s;
     Some (n, s)
   }"

section \<open>Searching a directory and a path\<close>

text \<open>The loop of \<open>_read_file_exfat_helper\<close> over the entries; the result is a number of clusters.\<close>

partial_function (option) helper_loop ::
  "'a exfat_machine_ext bios \<Rightarrow> exfat_frame \<Rightarrow> u32 \<Rightarrow> nat \<Rightarrow> u32 \<Rightarrow> u32 \<Rightarrow> u32 \<Rightarrow> u16 list \<Rightarrow> nat \<Rightarrow> 'a exfat_machine_scheme \<Rightarrow>
   (u32 \<times> 'a exfat_machine_scheme) option" where
  "helper_loop B F name name_len dir_buffer clusters dest filename i s = do {
     g \<leftarrow> get_cluster_size clusters s;
     if i < unat (bps s * g div 32) then
       if fd_entry_type (dec_file_entry (dir_entry (bmem s) dir_buffer i)) = 0x85 then do {
         let name_entry_count = int (unat (fd_secondary_count (dec_file_entry (dir_entry (bmem s) dir_buffer i)))) - 1;
         let extension_entry = dec_extension_entry (dir_entry (bmem s) dir_buffer (i + 1));
         filename \<leftarrow> read_names (bmem s) dir_buffer i (nat name_entry_count) filename;
         filename \<leftarrow> apply_upcase (upcase_table s) filename;
         if unat (ed_name_length extension_entry) = name_len \<and> name_equal (bmem s) name name_len filename
         then load_file B F extension_entry dest s
         else helper_loop B F name name_len dir_buffer clusters dest filename (nat (int i + name_entry_count + 1) + 1) s
       } else helper_loop B F name name_len dir_buffer clusters dest filename (i + 1) s
     else Some (0, s)
   }"

definition read_file_exfat_helper ::
  "'a exfat_machine_ext bios \<Rightarrow> exfat_frame \<Rightarrow> u32 \<Rightarrow> nat \<Rightarrow> u32 \<Rightarrow> u32 \<Rightarrow> u32 \<Rightarrow> 'a exfat_machine_scheme \<Rightarrow>
   (u32 \<times> 'a exfat_machine_scheme) option" where
  "read_file_exfat_helper B F name name_len dir_buffer clusters dest s =
     helper_loop B F name name_len dir_buffer clusters dest (replicate 255 0) 0 s"

text \<open>The length of the component of the path that starts at \<open>p\<close>; 0x2f separates.\<close>

partial_function (option) component_length :: "bytes \<Rightarrow> u32 \<Rightarrow> nat \<Rightarrow> nat option" where
  "component_length m p path_length =
     (if m (p + of_nat path_length) \<noteq> 0x2f \<and> m (p + of_nat path_length) \<noteq> 0
      then component_length m p (path_length + 1)
      else Some path_length)"

partial_function (option) path_loop ::
  "'a exfat_machine_ext bios \<Rightarrow> exfat_frame \<Rightarrow> u32 \<Rightarrow> u32 \<Rightarrow> nat \<Rightarrow> u32 \<Rightarrow> 'a exfat_machine_scheme \<Rightarrow>
   (u32 \<times> 'a exfat_machine_scheme) option" where
  "path_loop B F path dest i dirs_clusters s =
     (if bmem s (path + of_nat i) = 0 then Some (dirs_clusters, s)
      else if bmem s (path + of_nat i) \<noteq> 0x2f then do {
        path_length \<leftarrow> component_length (bmem s) (path + of_nat i) 0;
        (dirs_clusters, s) \<leftarrow> read_file_exfat_helper B F (path + of_nat i) path_length dest dirs_clusters dest s;
        if dirs_clusters = 0 then Some (0, s)
        else path_loop B F path dest (i + (path_length - 1) + 1) dirs_clusters s
      } else path_loop B F path dest (i + 1) dirs_clusters s)"

definition read_file_exfat ::
  "'a exfat_machine_ext bios \<Rightarrow> exfat_frame \<Rightarrow> u32 \<Rightarrow> u32 \<Rightarrow> 'a exfat_machine_scheme \<Rightarrow>
   (u32 \<times> 'a exfat_machine_scheme) option" where
  "read_file_exfat B F path dest s = do {
     lba \<leftarrow> get_heap_lba (br_root_first_cluster (exfat_boot_record s)) s;
     g \<leftarrow> get_cluster_size 1 s;
     s \<leftarrow> bios_ext_read B F dest lba g s;
     (dirs_clusters, s) \<leftarrow> path_loop B F path dest 0 1 s;
     if dirs_clusters = 0 then Some (0, s)
     else do {
       g \<leftarrow> get_cluster_size 1 s;
       Some (dirs_clusters * g * bps s, s)
     }
   }"

end
