(* ===== verification/Exfat_Directory.thy ===== *)
theory Exfat_Directory
  imports Exfat
begin

text \<open>
  The search of a directory by the exFAT reader, against directories as lists of items: entries
  the reader passes over, and the sets of entries that make up a file.
\<close>

section \<open>Directories\<close>

datatype dir_item =
    Plain "u8 list"
  | File "u8 list" "u8 list" "u8 list list"

fun item_entries :: "dir_item \<Rightarrow> u8 list list" where
  "item_entries (Plain e) = [e]"
| "item_entries (File p x ns) = p # x # ns"

definition dir_entries :: "dir_item list \<Rightarrow> u8 list list" where
  "dir_entries its = concat (map item_entries its)"

definition name_chars :: "u8 list list \<Rightarrow> u16 list" where
  "name_chars ns = concat (map (\<lambda>e. nd_name (dec_name_entry e)) ns)"

text \<open>
  A file has a primary entry, a stream extension and at most 17 name entries, whose characters
  the table of upper-case letters has to cover.
\<close>

fun item_ok :: "u16 list \<Rightarrow> dir_item \<Rightarrow> bool" where
  "item_ok table (Plain e) \<longleftrightarrow> length e = 32 \<and> e ! 0 \<noteq> 0x85"
| "item_ok table (File p x ns) \<longleftrightarrow> length p = 32 \<and> length x = 32 \<and> p ! 0 = 0x85 \<and> unat (p ! 1) = length ns + 1 \<and>
     length ns \<le> 17 \<and> (\<forall>e \<in> set ns. length e = 32) \<and> unat (x ! 3) \<le> 15 * length ns \<and> (\<forall>c \<in> set (name_chars ns). unat c < length table)"

definition table_ok :: "u16 list \<Rightarrow> bool" where
  "table_ok table \<longleftrightarrow> length table = 128 \<and> (\<forall>c \<in> set table. unat c < 128)"

definition upcased :: "u16 list \<Rightarrow> u16 list \<Rightarrow> u16 list" where
  "upcased table = map (\<lambda>c. table ! unat c)"

text \<open>The first file whose name, in upper case by the table, is the one that is wanted.\<close>

definition file_name :: "u16 list \<Rightarrow> u8 list \<Rightarrow> u8 list list \<Rightarrow> u16 list" where
  "file_name table x ns = upcased table (take (unat (x ! 3)) (name_chars ns))"

fun lookup :: "u16 list \<Rightarrow> dir_item list \<Rightarrow> u8 list \<Rightarrow> exfat_extension_dir_entry option" where
  "lookup table [] name = None"
| "lookup table (Plain e # its) name = lookup table its name"
| "lookup table (File p x ns # its) name =
     (if map uint (file_name table x ns) = map sint name then Some (dec_extension_entry x)
      else lookup table its name)"

text \<open>The entries in memory from number \<open>i\<close> of a directory on.\<close>

definition entries_at :: "bytes \<Rightarrow> u32 \<Rightarrow> nat \<Rightarrow> u8 list list \<Rightarrow> bool" where
  "entries_at m dir_buffer i es \<longleftrightarrow> (\<forall>j < length es. dir_entry m dir_buffer (i + j) = es ! j)"

lemma entries_at_Cons [simp]:
  "entries_at m d i (e # es) \<longleftrightarrow> dir_entry m d i = e \<and> entries_at m d (Suc i) es"
  by (auto simp: entries_at_def nth_Cons' gr0_conv_Suc)

lemma entries_at_append:
  "entries_at m d i (es @ fs) \<longleftrightarrow> entries_at m d i es \<and> entries_at m d (i + length es) fs"
proof (induction es arbitrary: i)
  case (Cons e es)
  show ?case by (simp add: Cons.IH)
qed (simp add: entries_at_def)

section \<open>The name of a file\<close>

lemma length_nd_name [simp]: "length (nd_name (dec_name_entry e)) = 15"
  by (simp add: dec_name_entry_def)

lemma length_name_chars [simp]: "length (name_chars ns) = 15 * length ns"
  by (induction ns) (simp_all add: name_chars_def)

lemma for_loop_eqI:
  assumes "P 0 s" "\<And>j s. j < n \<Longrightarrow> P j s \<Longrightarrow> \<exists>s'. body j s = Some s' \<and> P (Suc j) s'" "\<And>s'. P n s' \<Longrightarrow> s' = t"
  shows "for_loop 0 n body s = Some t"
  using for_loop_rule [of 0 n P s body] assms by auto

lemma read_name_eq:
  assumes "length pre + 15 \<le> length f" "length nm = 15"
  shows "for_loop 0 15 (\<lambda>x filename.
      if length pre + x < length filename then Some (filename[length pre + x := nm ! x]) else None)
      (pre @ drop (length pre) f) = Some (pre @ nm @ drop (length pre + 15) f)"
proof (rule for_loop_eqI [where P = "\<lambda>x g. g = pre @ take x nm @ drop (length pre + x) f"])
  fix x g assume x: "x < 15" "g = pre @ take x nm @ drop (length pre + x) f"
  then have "drop (length pre + x) f = f ! (length pre + x) # drop (Suc (length pre + x)) f"
    using assms by (simp add: Cons_nth_drop_Suc)
  with x assms show "\<exists>g'. (if length pre + x < length g then Some (g[length pre + x := nm ! x]) else None) = Some g' \<and>
      g' = pre @ take (Suc x) nm @ drop (length pre + Suc x) f"
    by (simp add: list_update_append take_Suc_conv_app_nth)
qed (use assms in auto)

lemma read_names_eq:
  assumes "entries_at m d (i + 2) ns" "15 * length ns \<le> length f"
  shows "read_names m d i (length ns) f = Some (name_chars ns @ drop (15 * length ns) f)"
  unfolding read_names_def Let_def
proof (rule for_loop_eqI [where P = "\<lambda>j g. g = name_chars (take j ns) @ drop (15 * j) f"])
  fix j g assume j: "j < length ns" "g = name_chars (take j ns) @ drop (15 * j) f"
  have e: "dir_entry m d (i + j + 2) = ns ! j" using assms(1) j(1) by (auto simp: entries_at_def ac_simps)
  have l: "length (name_chars (take j ns)) = 15 * j" using j(1) by simp
  have lj: "j * 15 = length (name_chars (take j ns))" using l by simp
  have "name_chars (take (Suc j) ns) = name_chars (take j ns) @ nd_name (dec_name_entry (ns ! j))"
    using j(1) by (simp add: take_Suc_conv_app_nth name_chars_def)
  then show "\<exists>g'. for_loop 0 15 (\<lambda>x filename.
        if j * 15 + x < length filename
        then Some (filename[j * 15 + x := nd_name (dec_name_entry (dir_entry m d (i + j + 2))) ! x]) else None) g = Some g' \<and>
      g' = name_chars (take (Suc j) ns) @ drop (15 * Suc j) f"
    unfolding e lj
    using read_name_eq [of "name_chars (take j ns)" f "nd_name (dec_name_entry (ns ! j))"] assms(2) j l
    by (simp add: add.commute)
qed (simp_all add: name_chars_def)

lemma apply_upcase_eq:
  assumes "length f = 255" "\<forall>c \<in> set f. unat c < length table"
  shows "apply_upcase table f = Some (upcased table f)"
  unfolding apply_upcase_def
proof (rule for_loop_eqI [where P = "\<lambda>j g. g = upcased table (take j f) @ drop j f"])
  fix j g assume j: "j < 255" "g = upcased table (take j f) @ drop j f"
  have d: "drop j f = f ! j # drop (Suc j) f" using j(1) assms(1) by (simp add: Cons_nth_drop_Suc)
  have "unat (f ! j) < length table" using assms j(1) by simp
  then show "\<exists>g'. (if unat (g ! j) < length table then Some (g[j := table ! unat (g ! j)]) else None) = Some g' \<and>
      g' = upcased table (take (Suc j) f) @ drop (Suc j) f"
    using j assms(1) by (simp add: d nth_append list_update_append take_Suc_conv_app_nth upcased_def)
qed (use assms in \<open>simp_all add: upcased_def\<close>)

lemma name_equal_iff:
  assumes "len \<le> length f"
  shows "name_equal m name len f \<longleftrightarrow> map uint (take len f) = map sint (mem_list m name len)"
  using assms by (auto simp: name_equal_def list_all_iff list_eq_iff_nth_eq mem_list_def)

section \<open>The search\<close>

lemma entry_fields:
  "fd_entry_type (dec_file_entry e) = e ! 0" "fd_secondary_count (dec_file_entry e) = e ! 1"
  "ed_name_length (dec_extension_entry e) = e ! 3" "ed_first_cluster (dec_extension_entry e) = b32 e 20"
  "ed_data_length (dec_extension_entry e) = b64 e 24"
  by (simp_all add: dec_file_entry_def dec_extension_entry_def)

text \<open>
  The loop over the entries, from number \<open>i\<close> on: it finds what \<open>lookup\<close> finds, or
  returns 0 with the machine unchanged.
\<close>

lemma helper_loop_eq:
  assumes g: "get_cluster_size clusters s = Some g"
    and t: "table_ok (upcase_table s)"
    and its: "list_all (item_ok (upcase_table s)) its"
    and m: "entries_at (bmem s) d i (dir_entries its)" "i + length (dir_entries its) = unat (bps s * g div 32)"
    and f: "length f = 255" "\<forall>c \<in> set f. unat c < 128"
    and len: "mem_list (bmem s) name (length nm) = nm"
  shows "helper_loop B F name (length nm) d clusters dest f i s =
    (case lookup (upcase_table s) its nm of
       None \<Rightarrow> Some (0, s)
     | Some e \<Rightarrow> load_file B F e dest s)"
  using its m f
proof (induction its arbitrary: i f)
  case Nil
  then show ?case by (subst helper_loop.simps) (simp add: g dir_entries_def)
next
  case (Cons it its)
  have bound: "i < unat (bps s * g div 32)" using Cons.prems(3) by (cases it) (simp_all add: dir_entries_def)
  show ?case
  proof (cases it)
    case (Plain e)
    with Cons.prems have "helper_loop B F name (length nm) d clusters dest f (i + 1) s =
        (case lookup (upcase_table s) its nm of None \<Rightarrow> Some (0, s) | Some e \<Rightarrow> load_file B F e dest s)"
      by (intro Cons.IH) (simp_all add: dir_entries_def)
    with Plain Cons.prems g bound show ?thesis
      by (subst helper_loop.simps) (simp add: dir_entries_def dec_file_entry_def)
  next
    case (File p x ns)
    let ?t = "upcase_table s"
    have it: "p ! 0 = 0x85" "unat (p ! 1) = length ns + 1" "length ns \<le> 17" "unat (x ! 3) \<le> 15 * length ns"
        "\<forall>c \<in> set (name_chars ns). unat c < length ?t"
      using Cons.prems(1) File by simp_all
    have e: "dir_entry (bmem s) d i = p" "dir_entry (bmem s) d (i + 1) = x" "entries_at (bmem s) d (i + 2) ns"
        "entries_at (bmem s) d (i + 2 + length ns) (dir_entries its)"
      using Cons.prems(2) File by (simp_all add: dir_entries_def entries_at_append)
    let ?f = "name_chars ns @ drop (15 * length ns) f"
    have len_f: "length ?f = 255" using Cons.prems(4) it(3) by simp
    have small: "\<forall>c \<in> set ?f. unat c < length ?t"
      using it(5) Cons.prems(5) t by (auto simp: table_ok_def dest: in_set_dropD)
    have read: "read_names (bmem s) d i (length ns) f = Some ?f"
      using e(3) Cons.prems(4) it(3) by (intro read_names_eq) simp_all
    have up: "apply_upcase ?t ?f = Some (upcased ?t ?f)" by (rule apply_upcase_eq [OF len_f small])
    have up_f: "length (upcased ?t ?f) = 255" "\<forall>c \<in> set (upcased ?t ?f). unat c < 128"
      using len_f small t by (auto simp: upcased_def table_ok_def)
    have found: "unat (x ! 3) = length nm \<and> name_equal (bmem s) name (length nm) (upcased ?t ?f) \<longleftrightarrow>
        map uint (file_name ?t x ns) = map sint nm"
    proof -
      have "take (length nm) (upcased ?t ?f) = file_name ?t x ns" if "unat (x ! 3) = length nm"
        using that it(4) by (simp add: file_name_def upcased_def take_map)
      moreover have "length (file_name ?t x ns) = unat (x ! 3)" using it(4) by (simp add: file_name_def upcased_def)
      moreover have "name_equal (bmem s) name (length nm) (upcased ?t ?f) \<longleftrightarrow>
          map uint (take (length nm) (upcased ?t ?f)) = map sint nm" if "unat (x ! 3) = length nm"
        using name_equal_iff [of "length nm" "upcased ?t ?f" "bmem s" name] up_f(1) len that it(3,4) by simp
      ultimately show ?thesis by (metis length_map)
    qed
    have rest: "helper_loop B F name (length nm) d clusters dest (upcased ?t ?f) (i + 2 + length ns) s =
        (case lookup ?t its nm of None \<Rightarrow> Some (0, s) | Some e \<Rightarrow> load_file B F e dest s)"
      using Cons.prems e up_f File by (intro Cons.IH) (simp_all add: dir_entries_def)
    have nxt: "nat (int i + (int (unat (p ! 1)) - 1) + 1) + 1 = i + 2 + length ns" "nat (int (unat (p ! 1)) - 1) = length ns"
      using it(2) by simp_all
    have "helper_loop B F name (length nm) d clusters dest f i s =
        (if unat (x ! 3) = length nm \<and> name_equal (bmem s) name (length nm) (upcased ?t ?f)
         then load_file B F (dec_extension_entry x) dest s
         else helper_loop B F name (length nm) d clusters dest (upcased ?t ?f) (i + 2 + length ns) s)"
      by (subst helper_loop.simps, simp only: e entry_fields nxt Let_def) (use bound it(1) in \<open>simp add: g read up\<close>)
    then show ?thesis unfolding found rest using File by simp
  qed
qed

end
