(* ===== verification/Exfat_Read.thy ===== *)
theory Exfat_Read
  imports Exfat_Directory
begin

text \<open>
  Reading files by the exFAT reader: where the clusters and the entries of the allocation table
  are on the disk, loading a file by either, and following a path from the root directory.
\<close>

section \<open>The layout of the disk\<close>

definition shift :: "'a exfat_machine_scheme \<Rightarrow> nat" where
  "shift s = unat (br_sectors_per_cluster_shift (exfat_boot_record s))"

text \<open>
  \<open>n\<close> bytes in a sector of the drive and \<open>g\<close> such sectors in a cluster; the boot
  record counts sectors of 512 bytes.
\<close>

definition geometry :: "'a exfat_machine_scheme \<Rightarrow> nat \<Rightarrow> nat \<Rightarrow> bool" where
  "geometry s n g \<longleftrightarrow> unat (drive_bytes_per_sector s) = n \<and> 0 < n \<and> 0 < g \<and> shift s \<le> 16 \<and>
     g * n = 512 * 2 ^ shift s"

text \<open>The first sector of 512 bytes of a cluster, and of the entry of a cluster in the table.\<close>

definition cluster_sector :: "'a exfat_machine_scheme \<Rightarrow> nat \<Rightarrow> nat" where
  "cluster_sector s c = 0x100 + unat (br_cluster_heap_offset (exfat_boot_record s)) + (c - 2) * 2 ^ shift s"

definition fat_sector :: "'a exfat_machine_scheme \<Rightarrow> nat \<Rightarrow> nat" where
  "fat_sector s c = 0x100 + unat (br_fat_offset (exfat_boot_record s)) + c div 128"

definition cluster_ok :: "'a exfat_machine_scheme \<Rightarrow> nat \<Rightarrow> bool" where
  "cluster_ok s c \<longleftrightarrow> 2 \<le> c \<and> cluster_sector s c < 2 ^ 23"

definition cluster_data :: "(u64 \<Rightarrow> u8 list) \<Rightarrow> 'a exfat_machine_scheme \<Rightarrow> nat \<Rightarrow> nat \<Rightarrow> nat \<Rightarrow> u8 list" where
  "cluster_data dsk s n g c = sectors dsk (of_nat (cluster_sector s c * 512 div n)) g"

text \<open>A byte of the disk, and the entry of a cluster in the table.\<close>

definition disk_byte :: "(u64 \<Rightarrow> u8 list) \<Rightarrow> nat \<Rightarrow> nat \<Rightarrow> u8" where
  "disk_byte dsk n p = dsk (of_nat (p div n)) ! (p mod n)"

definition fat_position :: "'a exfat_machine_scheme \<Rightarrow> nat \<Rightarrow> nat" where
  "fat_position s c = (0x100 + unat (br_fat_offset (exfat_boot_record s))) * 512 + 4 * c"

definition fat_entry :: "(u64 \<Rightarrow> u8 list) \<Rightarrow> 'a exfat_machine_scheme \<Rightarrow> nat \<Rightarrow> nat \<Rightarrow> u32" where
  "fat_entry dsk s n c = b32 (map (\<lambda>j. disk_byte dsk n (fat_position s c + j)) [0..<4]) 0"

text \<open>
  The place the reader looks for the entry: in the buffer that starts with the sector of the
  entry, at the number of the cluster modulo the entries that fit a cluster.
\<close>

definition read_position :: "'a exfat_machine_scheme \<Rightarrow> nat \<Rightarrow> nat \<Rightarrow> nat \<Rightarrow> nat" where
  "read_position s n g c = fat_sector s c * 512 div n * n + 4 * (c mod (g * n div 4))"

definition fat_hit :: "'a exfat_machine_scheme \<Rightarrow> nat \<Rightarrow> nat \<Rightarrow> nat \<Rightarrow> bool" where
  "fat_hit s n g c \<longleftrightarrow> c < 2 ^ 30 \<and> fat_sector s c < 2 ^ 23 \<and> read_position s n g c = fat_position s c"

lemma layout_bmem [simp]:
  "shift (s\<lparr>bmem := m\<rparr>) = shift s" "geometry (s\<lparr>bmem := m\<rparr>) n g = geometry s n g"
  "cluster_sector (s\<lparr>bmem := m\<rparr>) c = cluster_sector s c" "cluster_ok (s\<lparr>bmem := m\<rparr>) c = cluster_ok s c"
  "cluster_data dsk (s\<lparr>bmem := m\<rparr>) n g c = cluster_data dsk s n g c" "fat_sector (s\<lparr>bmem := m\<rparr>) c = fat_sector s c"
  "fat_position (s\<lparr>bmem := m\<rparr>) c = fat_position s c" "fat_entry dsk (s\<lparr>bmem := m\<rparr>) n c = fat_entry dsk s n c"
  "fat_hit (s\<lparr>bmem := m\<rparr>) n g c = fat_hit s n g c"
  "get_heap_lba x (s\<lparr>bmem := m\<rparr>) = get_heap_lba x s" "get_fat_lba x (s\<lparr>bmem := m\<rparr>) = get_fat_lba x s"
  "get_cluster_size x (s\<lparr>bmem := m\<rparr>) = get_cluster_size x s" "bps (s\<lparr>bmem := m\<rparr>) = bps s"
  "file_clusters e (s\<lparr>bmem := m\<rparr>) = file_clusters e s"
  by (simp_all add: shift_def geometry_def cluster_sector_def cluster_ok_def cluster_data_def fat_sector_def
      fat_position_def fat_entry_def fat_hit_def read_position_def get_heap_lba_def get_fat_lba_def
      get_cluster_size_def bps_def file_clusters_def)

lemma div32_of_nat:
  assumes "a < 2 ^ 32" "0 < b" "b < 2 ^ 32"
  shows "div32 (of_nat a) (of_nat b) = Some (of_nat (a div b))"
proof -
  have "unat (of_nat a div of_nat b :: u32) = a div b"
    using assms by (simp add: unat_div unat_of_nat_u32)
  moreover have "unat (of_nat (a div b) :: u32) = a div b"
    using assms(1) div_le_dividend [of a b] by (intro unat_of_nat_u32) linarith
  ultimately have "(of_nat a div of_nat b :: u32) = of_nat (a div b)" by (intro u32_eqI) simp
  moreover have "(of_nat b :: u32) \<noteq> 0" using assms unat_of_nat_u32 [of b] by auto
  ultimately show ?thesis by (simp add: div32_def)
qed

lemma push_bit_of_nat_u32: "push_bit k (of_nat x :: u32) = of_nat (x * 2 ^ k)"
  by (simp add: push_bit_eq_mult)

lemma bps_eq: "geometry s n g \<Longrightarrow> bps s = of_nat n \<and> 0 < n \<and> n < 2 ^ 16"
  using unsigned_less [of "drive_bytes_per_sector s"] by (auto simp: geometry_def bps_def)

lemma get_heap_lba_eq:
  assumes "geometry s n g" "cluster_ok s c"
  shows "get_heap_lba (of_nat c) s = Some (of_nat (cluster_sector s c * 512 div n))"
proof -
  let ?h = "unat (br_cluster_heap_offset (exfat_boot_record s))"
  have k: "unat (br_sectors_per_cluster_shift (exfat_boot_record s)) = shift s" "shift s < 32"
    using assms(1) by (simp_all add: geometry_def shift_def)
  have "(of_nat c - 2 :: u32) = of_nat (c - 2)" using assms(2) by (simp add: cluster_ok_def)
  then have "shl32 (of_nat c - 2) (br_sectors_per_cluster_shift (exfat_boot_record s)) = Some (of_nat ((c - 2) * 2 ^ shift s))"
    using k by (simp only: shl32_def push_bit_of_nat_u32) simp
  moreover have "(0x100 + br_cluster_heap_offset (exfat_boot_record s) + of_nat ((c - 2) * 2 ^ shift s)) * 512 =
      (of_nat (cluster_sector s c * 512) :: u32)"
    by (simp add: cluster_sector_def)
  ultimately show ?thesis
    using div32_of_nat [of "cluster_sector s c * 512" n] bps_eq [OF assms(1)] assms(2)
    by (simp add: get_heap_lba_def cluster_ok_def del: of_nat_mult)
qed

lemma get_fat_lba_eq:
  assumes "geometry s n g" "c < 2 ^ 30" "fat_sector s c < 2 ^ 23"
  shows "get_fat_lba (of_nat c) s = Some (of_nat (fat_sector s c * 512 div n))"
proof -
  have "(of_nat c * 4 div 512 :: u32) = of_nat (c div 128)"
  proof (rule u32_eqI)
    have c4: "unat (of_nat (c * 4) :: u32) = c * 4" using assms(2) by (intro unat_of_nat_u32) simp
    have "unat (of_nat c * 4 div 512 :: u32) = unat (of_nat (c * 4) :: u32) div 512" by (simp add: unat_div)
    also have "\<dots> = c div 128" unfolding c4 by simp
    also have "\<dots> = unat (of_nat (c div 128) :: u32)"
      using assms(2) by (intro unat_of_nat_u32 [symmetric] le_less_trans [OF div_le_dividend]) simp
    finally show "unat (of_nat c * 4 div 512 :: u32) = unat (of_nat (c div 128) :: u32)" .
  qed
  then have "(0x100 + br_fat_offset (exfat_boot_record s) + of_nat c * 4 div 512) * 512 = (of_nat (fat_sector s c * 512) :: u32)"
    by (simp add: fat_sector_def)
  then show ?thesis
    using div32_of_nat [of "fat_sector s c * 512" n] bps_eq [OF assms(1)] assms(3)
    by (simp add: get_fat_lba_def del: of_nat_mult)
qed

lemma get_cluster_size_eq:
  assumes "geometry s n g" "c * (g * n) < 2 ^ 32"
  shows "get_cluster_size (of_nat c) s = Some (of_nat (c * g))"
proof -
  have k: "unat (br_sectors_per_cluster_shift (exfat_boot_record s)) = shift s" "shift s < 32"
    and n: "0 < n" "g * n = 512 * 2 ^ shift s"
    using assms(1) by (simp_all add: geometry_def shift_def)
  have "shl32 (of_nat c) (br_sectors_per_cluster_shift (exfat_boot_record s)) = Some (of_nat (c * 2 ^ shift s))"
    using k by (simp only: shl32_def push_bit_of_nat_u32) simp
  moreover have "of_nat (c * 2 ^ shift s) * 512 = (of_nat (c * (g * n)) :: u32)" by (simp add: n(2))
  moreover have "c * (g * n) div n = c * g" using n(1) by (simp add: mult.assoc [symmetric])
  ultimately show ?thesis
    using div32_of_nat [of "c * (g * n)" n] bps_eq [OF assms(1)] assms(2)
    by (simp add: get_cluster_size_def del: of_nat_mult)
qed

text \<open>Sectors hold \<open>n\<close> bytes each.\<close>

definition sectors_of :: "nat \<Rightarrow> (u64 \<Rightarrow> u8 list) \<Rightarrow> bool" where
  "sectors_of n dsk \<longleftrightarrow> (\<forall>l. length (dsk l) = n)"

lemma length_cluster_data: "sectors_of n dsk \<Longrightarrow> length (cluster_data dsk s n g c) = g * n"
  by (simp add: cluster_data_def length_sectors sectors_of_def)

text \<open>
  Memory for the buffers and \<open>D\<close> bytes for the file, all apart, and away from the
  addresses \<open>P\<close>, where the path is.
\<close>

definition read_area :: "exfat_frame \<Rightarrow> nat \<Rightarrow> nat \<Rightarrow> u32 set" where
  "read_area F n g = frame_area F n \<union> bytes_at (fat_buffer_at F) (g * n)"

definition room :: "exfat_frame \<Rightarrow> nat \<Rightarrow> nat \<Rightarrow> u32 \<Rightarrow> nat \<Rightarrow> u32 set \<Rightarrow> bool" where
  "room F n g dest D P \<longleftrightarrow> frame_ok F n \<and> D < 2 ^ 31 \<and>
     bytes_at dest D \<inter> frame_area F n = {} \<and> bytes_at (fat_buffer_at F) (g * n) \<inter> frame_area F n = {} \<and>
     bytes_at dest D \<inter> bytes_at (fat_buffer_at F) (g * n) = {} \<and>
     P \<inter> (bytes_at dest D \<union> read_area F n g) = {}"

text \<open>Reading one cluster to an address.\<close>

lemma read_cluster:
  assumes "disk_bios B dsk" "sectors_of n dsk" "geometry s n g" "frame_ok F n"
    "bytes_at out (g * n) \<inter> frame_area F n = {}" "l < 2 ^ 32" "\<not> paging s"
  shows "\<exists>m. bios_ext_read B F out (of_nat l) (of_nat g) s = Some (s\<lparr>bmem := m\<rparr>) \<and>
    mem_list m out (g * n) = sectors dsk (of_nat l) g \<and> eq_off (bytes_at out (g * n) \<union> frame_area F n) (bmem s) m"
proof -
  have "shift s \<le> 16" "g * n = 512 * 2 ^ shift s" "0 < n" using assms(3) by (simp_all add: geometry_def)
  moreover from this have "(2 :: nat) ^ shift s \<le> 2 ^ 16" by (intro power_increasing) simp_all
  ultimately have gn: "g * n \<le> 512 * 2 ^ 16" by simp
  have "g * 1 \<le> g * n" using assms(3) by (intro mult_le_mono2) (simp add: geometry_def)
  also note gn
  finally have "g \<le> 512 * 2 ^ 16" by simp
  then have g: "unat (of_nat g :: u32) = g" by (intro unat_of_nat_u32) simp
  have l: "(ucast (of_nat l :: u32) :: u64) = of_nat l"
  proof -
    have "(ucast (of_nat l :: u32) :: u64) = of_nat (unat (of_nat l :: u32))" by simp
    then show ?thesis by (simp only: unat_of_nat_u32 [OF assms(6)])
  qed
  show ?thesis
    using bios_ext_read_mem [OF assms(1), of n s F out "of_nat g" "of_nat l"] assms(2-5,7) gn
    unfolding g l by (simp add: sectors_of_def geometry_def)
qed

section \<open>Loading a file\<close>

lemma div_lt_u32: "(a :: nat) < 2 ^ 23 \<Longrightarrow> a * 512 div n < 2 ^ 32"
  by (intro le_less_trans [OF div_le_dividend]) simp

text \<open>Clusters that follow each other, from \<open>k\<close> clusters into the destination.\<close>

definition clusters_data :: "(u64 \<Rightarrow> u8 list) \<Rightarrow> 'a exfat_machine_scheme \<Rightarrow> nat \<Rightarrow> nat \<Rightarrow> nat list \<Rightarrow> u8 list" where
  "clusters_data dsk s n g cs = concat (map (cluster_data dsk s n g) cs)"

lemma clusters_data_simps [simp]:
  "clusters_data dsk s n g [] = []"
  "clusters_data dsk s n g (c # cs) = cluster_data dsk s n g c @ clusters_data dsk s n g cs"
  "clusters_data dsk s n g (cs @ ds) = clusters_data dsk s n g cs @ clusters_data dsk s n g ds"
  "clusters_data dsk (s\<lparr>bmem := m\<rparr>) n g cs = clusters_data dsk s n g cs"
  by (simp_all add: clusters_data_def cong: map_cong)

lemma length_clusters_data: "sectors_of n dsk \<Longrightarrow> length (clusters_data dsk s n g cs) = length cs * (g * n)"
  by (induction cs) (simp_all add: length_cluster_data)

lemma part_sub:
  assumes "(k + 1) * c \<le> D" "D < 2 ^ 31"
  shows "bytes_at (dest + of_nat (k * c)) c \<subseteq> bytes_at dest D"
  using assms by (intro bytes_at_sub) simp_all

lemma cluster_bytes:
  assumes "geometry s n g"
  shows "g * n \<le> 2 ^ 25" "0 < g * n div 4" "4 * (g * n div 4) = g * n"
proof -
  have k: "shift s \<le> 16" "g * n = 512 * 2 ^ shift s" using assms by (simp_all add: geometry_def)
  have "(2 :: nat) ^ shift s \<le> 2 ^ 16" using k(1) by (intro power_increasing) simp_all
  with k(2) show "g * n \<le> 2 ^ 25" "0 < g * n div 4" "4 * (g * n div 4) = g * n" by simp_all
qed

text \<open>One more cluster behind the first \<open>k\<close>.\<close>

lemma cluster_step:
  assumes B: "disk_bios B dsk" "sectors_of n dsk" and g: "geometry s n g" and r: "room F n g dest D P"
    and c: "cluster_ok s c" and k: "(k + 1) * (g * n) \<le> D" "mem_list (bmem s) dest (k * (g * n)) = pre"
    and off: "\<not> paging s"
  shows "\<exists>m. bios_ext_read B F (dest + of_nat (k * (g * n))) (of_nat (cluster_sector s c * 512 div n)) (of_nat g) s = Some (s\<lparr>bmem := m\<rparr>) \<and>
    mem_list m dest ((k + 1) * (g * n)) = pre @ cluster_data dsk s n g c \<and>
    eq_off (bytes_at dest D \<union> frame_area F n) (bmem s) m"
proof -
  let ?o = "dest + of_nat (k * (g * n))"
  have F: "frame_ok F n" "D < 2 ^ 31" "bytes_at dest D \<inter> frame_area F n = {}" using r by (simp_all add: room_def)
  have sub: "bytes_at ?o (g * n) \<subseteq> bytes_at dest D" by (rule part_sub [OF k(1) F(2)])
  obtain m where m: "bios_ext_read B F ?o (of_nat (cluster_sector s c * 512 div n)) (of_nat g) s = Some (s\<lparr>bmem := m\<rparr>)"
      "mem_list m ?o (g * n) = cluster_data dsk s n g c" "eq_off (bytes_at ?o (g * n) \<union> frame_area F n) (bmem s) m"
    using read_cluster [OF B g F(1), of ?o "cluster_sector s c * 512 div n"] sub F(3) c off
      div_lt_u32 [of "cluster_sector s c" n] by (auto simp: cluster_ok_def cluster_data_def)
  have "mem_list m dest (k * (g * n)) = pre"
    using parts_apart [of k "g * n" dest] k F(2,3) bytes_at_sub [of 0 "k * (g * n)" D dest]
      mem_list_eq_off [OF m(3), of dest "k * (g * n)"] by (auto simp: add.commute)
  then have "mem_list m dest ((k + 1) * (g * n)) = pre @ cluster_data dsk s n g c"
    using m(2) mem_list_add [of m dest "k * (g * n)" "g * n"] by (simp add: add.commute)
  moreover have "eq_off (bytes_at dest D \<union> frame_area F n) (bmem s) m"
    by (rule eq_off_mono [OF m(3)]) (use sub in blast)
  ultimately show ?thesis using m(1) by blast
qed

lemma load_contiguous_mem:
  assumes B: "disk_bios B dsk" "sectors_of n dsk" and g: "geometry s n g" and r: "room F n g dest D P"
    and N: "N * (g * n) \<le> D" "\<And>j. j < N \<Longrightarrow> cluster_ok s (c + j)"
    and off: "\<not> paging s"
  shows "\<exists>m. load_contiguous B F dest N (of_nat c) s = Some (s\<lparr>bmem := m\<rparr>) \<and>
    mem_list m dest (N * (g * n)) = clusters_data dsk s n g [c..<c + N] \<and>
    eq_off (bytes_at dest D \<union> frame_area F n) (bmem s) m"
proof -
  let ?P = "\<lambda>j t. \<exists>m. t = s\<lparr>bmem := m\<rparr> \<and> mem_list m dest (j * (g * n)) = clusters_data dsk s n g [c..<c + j] \<and>
    eq_off (bytes_at dest D \<union> frame_area F n) (bmem s) m"
  have "\<exists>t. load_contiguous B F dest N (of_nat c) s = Some t \<and> ?P N t"
    unfolding load_contiguous_def
  proof (rule for_loop_rule)
    show "?P 0 s" by (intro exI [of _ "bmem s"]) (simp add: mem_list_def)
  next
    fix j t assume j: "j < N" and "?P j t"
    then obtain m where m: "t = s\<lparr>bmem := m\<rparr>" "mem_list m dest (j * (g * n)) = clusters_data dsk s n g [c..<c + j]"
      "eq_off (bytes_at dest D \<union> frame_area F n) (bmem s) m" by blast
    have D: "(j + 1) * (g * n) \<le> D" using N(1) j mult_le_mono1 [of "j + 1" N "g * n"] by simp
    obtain m' where m': "bios_ext_read B F (dest + of_nat (j * (g * n))) (of_nat (cluster_sector s (c + j) * 512 div n)) (of_nat g) t = Some (s\<lparr>bmem := m'\<rparr>)"
        "mem_list m' dest ((j + 1) * (g * n)) = clusters_data dsk s n g [c..<c + j] @ cluster_data dsk s n g (c + j)"
        "eq_off (bytes_at dest D \<union> frame_area F n) m m'"
      using cluster_step [OF B _ r, of t "c + j" j] g N(2) [OF j] D m(2) off by (auto simp: m(1))
    have "get_cluster_size 1 t = Some (of_nat g)" "get_heap_lba (of_nat c + of_nat j) t = Some (of_nat (cluster_sector s (c + j) * 512 div n))"
      using get_cluster_size_eq [OF g, of 1] get_heap_lba_eq [OF g N(2) [OF j]] cluster_bytes(1) [OF g] by (simp_all add: m(1))
    moreover have "dest + of_nat j * bps t * of_nat g = dest + of_nat (j * (g * n))"
      using bps_eq [OF g] by (simp add: m(1) mult.commute mult.left_commute)
    ultimately show "\<exists>t'. (do { g \<leftarrow> get_cluster_size 1 t; lba \<leftarrow> get_heap_lba (of_nat c + of_nat j) t;
        bios_ext_read B F (dest + of_nat j * bps t * g) lba g t }) = Some t' \<and> ?P (Suc j) t'"
      using m'(1,2) eq_off_chain [OF m(3) m'(3)] by simp blast
  qed simp
  then show ?thesis by blast
qed

text \<open>The entry of a cluster, once the buffer holds the sectors from its own one on.\<close>

definition fat_loaded :: "(u64 \<Rightarrow> u8 list) \<Rightarrow> exfat_frame \<Rightarrow> nat \<Rightarrow> nat \<Rightarrow> nat \<Rightarrow> 'a exfat_machine_scheme \<Rightarrow> bool" where
  "fat_loaded dsk F n g c s \<longleftrightarrow>
     mem_list (bmem s) (fat_buffer_at F) (g * n) = sectors dsk (of_nat (fat_sector s c * 512 div n)) g"

lemma id_per_cluster:
  assumes "geometry s n g"
  shows "sint (bps s * of_nat g div 4) = int (g * n div 4)"
proof -
  have b: "bps s * of_nat g = of_nat (g * n)" using bps_eq [OF assms] by (simp add: mult.commute)
  have "unat (of_nat (g * n) div 4 :: u32) = g * n div 4"
    using cluster_bytes(1) [OF assms] unat_of_nat_u32 [of "g * n"] by (simp add: unat_div del: of_nat_mult)
  then have e: "(of_nat (g * n) div 4 :: u32) = of_nat (g * n div 4)"
    using cluster_bytes(1) [OF assms] by (intro u32_eqI) (simp add: unat_of_nat_u32 del: of_nat_mult)
  show ?thesis
    unfolding b e using cluster_bytes(1) [OF assms] by (simp add: signed_of_nat signed_take_bit_int_eq_self)
qed

lemma fat_lookup_at:
  assumes "geometry s n g" "sectors_of n dsk" "fat_loaded dsk F n g c s" "c < 2 ^ 30" "read_position s n g c = fat_position s d"
  shows "fat_lookup F (int (g * n div 4)) (of_nat c) s = Some (fat_entry dsk s n d)"
proof -
  let ?i = "c mod (g * n div 4)"
  let ?lba = "fat_sector s c * 512 div n"
  note b = cluster_bytes [OF assms(1)]
  have n: "0 < n" using assms(1) by (simp add: geometry_def)
  have c: "?lba * n + 4 * ?i = fat_position s d" using assms(5) by (simp add: read_position_def)
  have s: "sint (of_nat c :: u32) = int c" using assms(4) by (simp add: signed_of_nat signed_take_bit_int_eq_self)
  have i: "sint (of_nat c :: u32) smod int (g * n div 4) = int ?i" using s by (simp add: zmod_int)
  have byte: "bmem s (fat_buffer_at F + of_nat (4 * ?i + j)) = disk_byte dsk n (fat_position s d + j)" if "j < 4" for j
  proof -
    let ?q = "4 * ?i + j"
    have "?i < g * n div 4" using b(2) by simp
    then have q: "?q < g * n" using b(3) that by linarith
    then have "bmem s (fat_buffer_at F + of_nat ?q) = mem_list (bmem s) (fat_buffer_at F) (g * n) ! ?q"
      by (simp add: mem_list_def)
    also have "\<dots> = sectors dsk (of_nat ?lba) g ! (?q div n * n + ?q mod n)"
      using assms(3) by (simp only: fat_loaded_def div_mult_mod_eq)
    also have "\<dots> = dsk (of_nat ?lba + of_nat (?q div n)) ! (?q mod n)"
      using q n assms(2) by (intro sectors_nth) (simp_all add: sectors_of_def div_less_iff_less_mult)
    also have "\<dots> = disk_byte dsk n (fat_position s d + j)"
      using n by (simp only: disk_byte_def c [symmetric] add.assoc) simp
    finally show ?thesis .
  qed
  have "ld32 (bmem s) (fat_buffer_at F + 4 * of_nat ?i) = fat_entry dsk s n d"
    using byte [of 0] byte [of 1] byte [of 2] byte [of 3]
    by (simp add: ld32_def fat_entry_def b32_def numeral_3_eq_3 upt_rec ac_simps)
  then show ?thesis using b(2) by (simp add: fat_lookup_def i)
qed

lemma fat_lookup_eq:
  assumes "geometry s n g" "sectors_of n dsk" "fat_hit s n g c" "fat_loaded dsk F n g c s"
  shows "fat_lookup F (int (g * n div 4)) (of_nat c) s = Some (fat_entry dsk s n c)"
  using fat_lookup_at [OF assms(1,2,4)] assms(3) by (simp add: fat_hit_def)

lemma read_fat_any:
  assumes "disk_bios B dsk" "sectors_of n dsk" "geometry s n g" "room F n g dest D P"
    and c: "c < 2 ^ 30" "fat_sector s c < 2 ^ 23" and off: "\<not> paging s"
  shows "get_fat_lba (of_nat c) s = Some (of_nat (fat_sector s c * 512 div n))"
    "\<exists>m. bios_ext_read B F (fat_buffer_at F) (of_nat (fat_sector s c * 512 div n)) (of_nat g) s = Some (s\<lparr>bmem := m\<rparr>) \<and>
       fat_loaded dsk F n g c (s\<lparr>bmem := m\<rparr>) \<and> eq_off (read_area F n g) (bmem s) m"
proof -
  show "get_fat_lba (of_nat c) s = Some (of_nat (fat_sector s c * 512 div n))"
    by (rule get_fat_lba_eq [OF assms(3) c])
  show "\<exists>m. bios_ext_read B F (fat_buffer_at F) (of_nat (fat_sector s c * 512 div n)) (of_nat g) s = Some (s\<lparr>bmem := m\<rparr>) \<and>
       fat_loaded dsk F n g c (s\<lparr>bmem := m\<rparr>) \<and> eq_off (read_area F n g) (bmem s) m"
    using read_cluster [OF assms(1-3), of F "fat_buffer_at F" "fat_sector s c * 512 div n"] assms(4) div_lt_u32 [OF c(2), of n] off
    by (auto simp: room_def fat_loaded_def read_area_def Un_commute)
qed

lemma read_fat:
  assumes "disk_bios B dsk" "sectors_of n dsk" "geometry s n g" "room F n g dest D P" "fat_hit s n g c" "\<not> paging s"
  shows "get_fat_lba (of_nat c) s = Some (of_nat (fat_sector s c * 512 div n))"
    "\<exists>m. bios_ext_read B F (fat_buffer_at F) (of_nat (fat_sector s c * 512 div n)) (of_nat g) s = Some (s\<lparr>bmem := m\<rparr>) \<and>
       fat_loaded dsk F n g c (s\<lparr>bmem := m\<rparr>) \<and> eq_off (read_area F n g) (bmem s) m"
  using read_fat_any [OF assms(1-4)] assms(5,6) by (simp_all add: fat_hit_def)

text \<open>A chain of clusters in the allocation table.\<close>

fun chain_ok :: "(u64 \<Rightarrow> u8 list) \<Rightarrow> 'a exfat_machine_scheme \<Rightarrow> nat \<Rightarrow> nat \<Rightarrow> nat list \<Rightarrow> bool" where
  "chain_ok dsk s n g [] \<longleftrightarrow> False"
| "chain_ok dsk s n g [c] \<longleftrightarrow> cluster_ok s c \<and> fat_hit s n g c \<and> fat_entry dsk s n c \<in> {0xffffffff, 0xfffffff7}"
| "chain_ok dsk s n g (c # d # cs) \<longleftrightarrow> cluster_ok s c \<and> fat_hit s n g c \<and> fat_entry dsk s n c = of_nat d \<and>
     chain_ok dsk s n g (d # cs)"

lemma chain_ok_bmem [simp]: "chain_ok dsk (s\<lparr>bmem := m\<rparr>) n g cs = chain_ok dsk s n g cs"
  by (induction dsk s n g cs rule: chain_ok.induct) simp_all

lemma chain_ok_hit: "chain_ok dsk s n g (c # cs) \<Longrightarrow> cluster_ok s c \<and> fat_hit s n g c"
  by (cases cs) simp_all

text \<open>The first cluster of a chain, and how the loop goes on.\<close>

lemma load_chain_head:
  assumes B: "disk_bios B dsk" "sectors_of n dsk" and g: "geometry s n g" and r: "room F n g dest D P"
    and c: "cluster_ok s c" "fat_hit s n g c" "fat_loaded dsk F n g c s"
    and k: "(k + 1) * (g * n) \<le> D" "mem_list (bmem s) dest (k * (g * n)) = pre" and off: "\<not> paging s"
  shows "\<exists>m. mem_list m dest ((k + 1) * (g * n)) = pre @ cluster_data dsk s n g c \<and>
    eq_off (bytes_at dest D \<union> read_area F n g) (bmem s) m \<and>
    load_chain B F (int (g * n div 4)) dest k (of_nat c) s =
      (let e = fat_entry dsk s n c; t = s\<lparr>bmem := m\<rparr> in
       if e = 0xffffffff \<or> e = 0xfffffff7 then Some t
       else do {
         lba \<leftarrow> get_fat_lba e t;
         t \<leftarrow> bios_ext_read B F (fat_buffer_at F) lba (of_nat g) t;
         load_chain B F (int (g * n div 4)) dest (Suc k) e t
       })"
proof -
  obtain m where m: "bios_ext_read B F (dest + of_nat (k * (g * n))) (of_nat (cluster_sector s c * 512 div n)) (of_nat g) s = Some (s\<lparr>bmem := m\<rparr>)"
      "mem_list m dest ((k + 1) * (g * n)) = pre @ cluster_data dsk s n g c"
      "eq_off (bytes_at dest D \<union> frame_area F n) (bmem s) m"
    using cluster_step [OF B g r c(1) k off] by blast
  have "bytes_at (fat_buffer_at F) (g * n) \<inter> (bytes_at dest D \<union> frame_area F n) = {}"
    using r by (auto simp: room_def)
  then have "fat_loaded dsk F n g c (s\<lparr>bmem := m\<rparr>)"
    using c(3) mem_list_eq_off [OF m(3), of "fat_buffer_at F" "g * n"] cluster_bytes(1) [OF g] by (simp add: fat_loaded_def)
  then have l: "fat_lookup F (int (g * n div 4)) (of_nat c) (s\<lparr>bmem := m\<rparr>) = Some (fat_entry dsk s n c)"
    using fat_lookup_eq [of "s\<lparr>bmem := m\<rparr>" n g dsk c F] g B(2) c(2) by simp
  have gs: "get_cluster_size 1 s = Some (of_nat g)" "get_heap_lba (of_nat c) s = Some (of_nat (cluster_sector s c * 512 div n))"
    using get_cluster_size_eq [OF g, of 1] get_heap_lba_eq [OF g c(1)] cluster_bytes(1) [OF g] by simp_all
  have o: "dest + bps s * of_nat g * of_nat k = dest + of_nat (k * (g * n))"
    using bps_eq [OF g] by (simp add: mult.commute mult.left_commute)
  have "eq_off (bytes_at dest D \<union> read_area F n g) (bmem s) m"
    by (rule eq_off_mono [OF m(3)]) (auto simp: read_area_def)
  moreover have "load_chain B F (int (g * n div 4)) dest k (of_nat c) s =
      (let e = fat_entry dsk s n c; t = s\<lparr>bmem := m\<rparr> in
       if e = 0xffffffff \<or> e = 0xfffffff7 then Some t
       else do {
         lba \<leftarrow> get_fat_lba e t;
         t \<leftarrow> bios_ext_read B F (fat_buffer_at F) lba (of_nat g) t;
         load_chain B F (int (g * n div 4)) dest (Suc k) e t
       })"
    by (subst load_chain.simps) (simp only: gs o m(1) l Let_def bind.bind_lunit)
  ultimately show ?thesis using m(2) by blast
qed

lemma load_chain_mem:
  assumes B: "disk_bios B dsk" "sectors_of n dsk"
  shows "geometry s n g \<Longrightarrow> room F n g dest D P \<Longrightarrow> chain_ok dsk s n g (c # cs) \<Longrightarrow> fat_loaded dsk F n g c s \<Longrightarrow>
    mem_list (bmem s) dest (k * (g * n)) = pre \<Longrightarrow> (k + length (c # cs)) * (g * n) \<le> D \<Longrightarrow> \<not> paging s \<Longrightarrow>
    \<exists>m. load_chain B F (int (g * n div 4)) dest k (of_nat c) s = Some (s\<lparr>bmem := m\<rparr>) \<and>
      mem_list m dest ((k + length (c # cs)) * (g * n)) = pre @ clusters_data dsk s n g (c # cs) \<and>
      eq_off (bytes_at dest D \<union> read_area F n g) (bmem s) m"
proof (induction cs arbitrary: s c k pre)
  case Nil
  then show ?case
    using load_chain_head [OF B Nil.prems(1,2) _ _ Nil.prems(4) _ Nil.prems(5,7)] by (auto simp: Let_def)
next
  case (Cons d ds)
  note g = Cons.prems(1) and r = Cons.prems(2)
  have c: "cluster_ok s c" "fat_hit s n g c" "fat_entry dsk s n c = of_nat d" "chain_ok dsk s n g (d # ds)"
    using Cons.prems(3) by simp_all
  have d: "fat_hit s n g d" using chain_ok_hit [OF c(4)] by simp
  then have "d < 2 ^ 30" by (simp add: fat_hit_def)
  then have "unat (of_nat d :: u32) < 2 ^ 30" by (simp add: unat_of_nat_u32)
  then have e: "(of_nat d :: u32) \<noteq> 0xffffffff" "(of_nat d :: u32) \<noteq> 0xfffffff7" by auto
  have D: "(k + 1) * (g * n) \<le> D" "(Suc k + length (d # ds)) * (g * n) \<le> D"
    using Cons.prems(6) mult_le_mono1 [of "k + 1" "k + length (c # d # ds)" "g * n"] by simp_all
  obtain m where m: "mem_list m dest ((k + 1) * (g * n)) = pre @ cluster_data dsk s n g c"
      "eq_off (bytes_at dest D \<union> read_area F n g) (bmem s) m"
      "load_chain B F (int (g * n div 4)) dest k (of_nat c) s = do {
         lba \<leftarrow> get_fat_lba (of_nat d) (s\<lparr>bmem := m\<rparr>);
         t \<leftarrow> bios_ext_read B F (fat_buffer_at F) lba (of_nat g) (s\<lparr>bmem := m\<rparr>);
         load_chain B F (int (g * n div 4)) dest (Suc k) (of_nat d) t
       }"
    using load_chain_head [OF B g r c(1,2) Cons.prems(4) D(1) Cons.prems(5,7)] e unfolding c(3) Let_def by auto
  let ?t = "s\<lparr>bmem := m\<rparr>"
  obtain m' where m': "bios_ext_read B F (fat_buffer_at F) (of_nat (fat_sector s d * 512 div n)) (of_nat g) ?t = Some (s\<lparr>bmem := m'\<rparr>)"
      "fat_loaded dsk F n g d (s\<lparr>bmem := m'\<rparr>)" "eq_off (read_area F n g) m m'"
    using read_fat(2) [OF B, of ?t g F dest D P d] g r d Cons.prems(7) by auto
  have "bytes_at dest ((k + 1) * (g * n)) \<inter> read_area F n g = {}"
    using r bytes_at_sub [of 0 "(k + 1) * (g * n)" D dest] D(1) by (auto simp: room_def read_area_def)
  then have "mem_list m' dest (Suc k * (g * n)) = pre @ cluster_data dsk s n g c"
    using mem_list_eq_off [OF m'(3), of dest "(k + 1) * (g * n)"] m(1) r D(1) by (simp add: room_def)
  then obtain m'' where m'': "load_chain B F (int (g * n div 4)) dest (Suc k) (of_nat d) (s\<lparr>bmem := m'\<rparr>) = Some (s\<lparr>bmem := m''\<rparr>)"
      "mem_list m'' dest ((Suc k + length (d # ds)) * (g * n)) = (pre @ cluster_data dsk s n g c) @ clusters_data dsk s n g (d # ds)"
      "eq_off (bytes_at dest D \<union> read_area F n g) m' m''"
    using Cons.IH [of "s\<lparr>bmem := m'\<rparr>" d "Suc k"] g r c(4) m'(2) D(2) Cons.prems(7) by auto
  have "load_chain B F (int (g * n div 4)) dest k (of_nat c) s = Some (s\<lparr>bmem := m''\<rparr>)"
    using read_fat(1) [OF B g r d Cons.prems(7)] m'(1) m''(1) by (simp add: m(3))
  moreover have "eq_off (bytes_at dest D \<union> read_area F n g) (bmem s) m''"
    by (rule eq_off_chain [OF m(2) eq_off_chain [OF eq_off_mono [OF m'(3)] m''(3)]]) blast
  ultimately show ?case using m''(2) by (intro exI [of _ m'']) simp
qed

text \<open>
  The clusters a file is made of: as many as its length takes, one after the other when the
  entry of the first one is 0, and the chain of the table otherwise.
\<close>

definition file_on_disk ::
  "(u64 \<Rightarrow> u8 list) \<Rightarrow> 'a exfat_machine_scheme \<Rightarrow> nat \<Rightarrow> nat \<Rightarrow> exfat_extension_dir_entry \<Rightarrow> nat list \<Rightarrow> bool" where
  "file_on_disk dsk s n g e cs \<longleftrightarrow>
     (let c = unat (ed_first_cluster e) in
      unat (ed_data_length e) + g * n \<le> 2 ^ 32 \<and> length cs = (unat (ed_data_length e) + g * n - 1) div (g * n) \<and>
      fat_hit s n g c \<and>
      (if fat_entry dsk s n c = 0 then cs = [c..<c + length cs] \<and> (\<forall>c' \<in> set cs. cluster_ok s c')
       else cs \<noteq> [] \<and> hd cs = c \<and> chain_ok dsk s n g cs))"

lemma file_on_disk_bmem [simp]: "file_on_disk dsk (s\<lparr>bmem := m\<rparr>) n g e cs = file_on_disk dsk s n g e cs"
  by (simp add: file_on_disk_def)

lemma ucast_of_nat_u64:
  assumes "x < 2 ^ 32"
  shows "(ucast (of_nat x :: u64) :: u32) = of_nat x"
proof -
  have "unat (of_nat x :: u64) = x" using assms by (simp add: unat_of_nat take_bit_nat_eq_self_iff)
  moreover have "(ucast (of_nat x :: u64) :: u32) = of_nat (unat (of_nat x :: u64))" by simp
  ultimately show ?thesis by (simp only:)
qed

lemma file_clusters_eq:
  assumes g: "geometry s n g" and f: "file_on_disk dsk s n g e cs"
  shows "file_clusters e s = Some (of_nat (length cs))"
proof -
  let ?x = "unat (ed_data_length e) + g * n - 1"
  note b = cluster_bytes [OF g]
  have x: "?x < 2 ^ 32" "length cs = ?x div (g * n)" "0 < g * n"
    using f b g by (auto simp: file_on_disk_def Let_def geometry_def)
  have gb: "of_nat g * bps s = of_nat (g * n)" using bps_eq [OF g] by simp
  have u: "(ucast (of_nat (g * n) :: u32) :: u64) = of_nat (g * n)"
  proof -
    have "(ucast (of_nat (g * n) :: u32) :: u64) = of_nat (unat (of_nat (g * n) :: u32))" by simp
    then show ?thesis using b(1) unat_of_nat_u32 [of "g * n"] by (simp only:) simp
  qed
  have "1 \<le> unat (ed_data_length e) + g * n" using x(3) by linarith
  then have "(of_nat ?x :: u64) = of_nat (unat (ed_data_length e) + g * n) - of_nat 1" by (rule of_nat_diff)
  then have "ed_data_length e + of_nat (g * n) - 1 = of_nat ?x" by simp
  then have "(ucast (ed_data_length e + ucast (of_nat (g * n) :: u32) - 1) :: u32) = of_nat ?x"
    unfolding u using ucast_of_nat_u64 [OF x(1)] by (simp only:)
  moreover have "get_cluster_size 1 s = Some (of_nat g)"
    using get_cluster_size_eq [OF g, of 1] b(1) by simp
  ultimately show ?thesis
    using div32_of_nat [OF x(1), of "g * n"] x b(1) by (simp add: file_clusters_def gb del: of_nat_mult of_nat_add)
qed

lemma load_file_mem:
  assumes B: "disk_bios B dsk" "sectors_of n dsk" and g: "geometry s n g" and r: "room F n g dest D P"
    and f: "file_on_disk dsk s n g e cs" "length cs * (g * n) \<le> D" and off: "\<not> paging s"
  shows "\<exists>m. load_file B F e dest s = Some (of_nat (length cs), s\<lparr>bmem := m\<rparr>) \<and>
    mem_list m dest (length cs * (g * n)) = clusters_data dsk s n g cs \<and>
    eq_off (bytes_at dest D \<union> read_area F n g) (bmem s) m"
proof -
  define c where "c = unat (ed_first_cluster e)"
  have c: "ed_first_cluster e = of_nat c" by (simp add: c_def)
  have hit: "fat_hit s n g c" using f(1) by (simp add: file_on_disk_def Let_def c_def)
  have gs: "get_cluster_size 1 s = Some (of_nat g)"
    using get_cluster_size_eq [OF g, of 1] cluster_bytes(1) [OF g] by simp
  obtain m1 where m1: "bios_ext_read B F (fat_buffer_at F) (of_nat (fat_sector s c * 512 div n)) (of_nat g) s = Some (s\<lparr>bmem := m1\<rparr>)"
      "fat_loaded dsk F n g c (s\<lparr>bmem := m1\<rparr>)" "eq_off (read_area F n g) (bmem s) m1"
    using read_fat(2) [OF B g r hit off] by blast
  let ?t = "s\<lparr>bmem := m1\<rparr>"
  have l: "fat_lookup F (int (g * n div 4)) (of_nat c) ?t = Some (fat_entry dsk s n c)"
    using fat_lookup_eq [of ?t n g dsk c F] g B(2) hit m1(2) by simp
  have n: "file_clusters e s = Some (of_nat (length cs))" by (rule file_clusters_eq [OF g f(1)])
  have len: "unat (of_nat (length cs) :: u32) = length cs"
  proof -
    have "length cs * 1 \<le> length cs * (g * n)" using g by (intro mult_le_mono2) (simp add: geometry_def)
    also note f(2)
    finally have "length cs \<le> D" by simp
    then show ?thesis using r by (intro unat_of_nat_u32) (simp add: room_def)
  qed
  have load: "load_file B F e dest s = do {
      s \<leftarrow> (if fat_entry dsk s n c = 0 then load_contiguous B F dest (length cs) (of_nat c) ?t
             else load_chain B F (int (g * n div 4)) dest 0 (of_nat c) ?t);
      n \<leftarrow> file_clusters e s;
      Some (n, s)
    }"
    unfolding load_file_def c Let_def gs bind.bind_lunit read_fat(1) [OF B g r hit off] m1(1) id_per_cluster [OF g] l layout_bmem n len ..
  obtain m where m: "(if fat_entry dsk s n c = 0 then load_contiguous B F dest (length cs) (of_nat c) ?t
             else load_chain B F (int (g * n div 4)) dest 0 (of_nat c) ?t) = Some (s\<lparr>bmem := m\<rparr>)"
      "mem_list m dest (length cs * (g * n)) = clusters_data dsk s n g cs"
      "eq_off (bytes_at dest D \<union> read_area F n g) m1 m"
  proof (cases "fat_entry dsk s n c = 0")
    case True
    have cs: "cs = [c..<c + length cs]" "\<And>j. j < length cs \<Longrightarrow> cluster_ok s (c + j)"
      using f(1) True by (auto simp: file_on_disk_def Let_def c_def [symmetric])
    obtain m where "load_contiguous B F dest (length cs) (of_nat c) ?t = Some (s\<lparr>bmem := m\<rparr>)"
      "mem_list m dest (length cs * (g * n)) = clusters_data dsk s n g [c..<c + length cs]"
      "eq_off (bytes_at dest D \<union> frame_area F n) m1 m"
      using load_contiguous_mem [OF B _ r f(2), of ?t c] g cs(2) off by auto
    then show ?thesis
      using that [of m] True cs(1) eq_off_mono [of "bytes_at dest D \<union> frame_area F n" m1 m "bytes_at dest D \<union> read_area F n g"]
      by (auto simp: read_area_def)
  next
    case False
    then obtain ds where cs: "cs = c # ds" "chain_ok dsk s n g (c # ds)"
      using f(1) by (cases cs) (auto simp: file_on_disk_def Let_def c_def)
    show ?thesis
      using load_chain_mem [OF B, of ?t g F dest D P c ds 0 "[]"] g r cs m1(2) f(2) False off that
      by (auto simp: mem_list_def)
  qed
  have "load_file B F e dest s = Some (of_nat (length cs), s\<lparr>bmem := m\<rparr>)"
    unfolding load m(1) by (simp add: n)
  moreover have "eq_off (bytes_at dest D \<union> read_area F n g) (bmem s) m"
    by (rule eq_off_chain [OF eq_off_mono [OF m1(3)] m(3)]) blast
  ultimately show ?thesis using m(2) by blast
qed

end
