(* ===== verification/Exfat_Path.thy ===== *)
theory Exfat_Path
  imports Exfat_Read
begin

text \<open>
  Following a path by the exFAT reader, src/boot/x86/fs/exfat.c: each component of the path is
  looked up in the directory that was read last, from the root directory on.
\<close>

section \<open>Paths\<close>

text \<open>The components of a path, between its separators 0x2f.\<close>

function components :: "u8 list \<Rightarrow> u8 list list" where
  "components [] = []"
| "components (c # cs) =
     (if c = 0x2f then components cs
      else (c # takeWhile (\<lambda>x. x \<noteq> 0x2f) cs) # components (dropWhile (\<lambda>x. x \<noteq> 0x2f) cs))"
  by pat_completeness auto
termination by (relation "measure length") (auto simp: less_Suc_eq_le length_dropWhile_le)

text \<open>
  What a path leads to from a directory with the bytes \<open>d\<close>: the bytes of the clusters of
  the file, or nothing when a component is missing. No directory or file on the way takes more
  than \<open>D\<close> bytes.
\<close>

definition directory :: "u16 list \<Rightarrow> u8 list \<Rightarrow> dir_item list \<Rightarrow> bool" where
  "directory table d its \<longleftrightarrow> list_all (item_ok table) its \<and> concat (dir_entries its) = d"

inductive resolves ::
  "(u64 \<Rightarrow> u8 list) \<Rightarrow> 'a exfat_machine_scheme \<Rightarrow> nat \<Rightarrow> nat \<Rightarrow> nat \<Rightarrow> u8 list \<Rightarrow> u8 list list \<Rightarrow> u8 list option \<Rightarrow> bool"
  for dsk s n g D where
  found: "resolves dsk s n g D d [] (Some d)"
| missing: "directory (upcase_table s) d its \<Longrightarrow> lookup (upcase_table s) its nm = None \<Longrightarrow>
    resolves dsk s n g D d (nm # nms) None"
| nothing: "directory (upcase_table s) d its \<Longrightarrow> lookup (upcase_table s) its nm = Some e \<Longrightarrow>
    file_on_disk dsk s n g e [] \<Longrightarrow> resolves dsk s n g D d (nm # nms) None"
| step: "directory (upcase_table s) d its \<Longrightarrow> lookup (upcase_table s) its nm = Some e \<Longrightarrow>
    file_on_disk dsk s n g e cs \<Longrightarrow> cs \<noteq> [] \<Longrightarrow> length cs * (g * n) \<le> D \<Longrightarrow>
    resolves dsk s n g D (clusters_data dsk s n g cs) nms r \<Longrightarrow> resolves dsk s n g D d (nm # nms) r"

inductive_cases resolves_NilE: "resolves dsk s n g D d [] r"
inductive_cases resolves_ConsE: "resolves dsk s n g D d (nm # nms) r"

lemma resolves_bmem:
  "resolves dsk s n g D d nms r \<Longrightarrow> resolves dsk (s\<lparr>bmem := m\<rparr>) n g D d nms r"
  by (induction rule: resolves.induct) (auto intro: resolves.intros)

lemma component_length_eq:
  assumes "\<forall>i < length nm. m (p + of_nat i) \<noteq> 0x2f \<and> m (p + of_nat i) \<noteq> 0"
    "m (p + of_nat (length nm)) = 0x2f \<or> m (p + of_nat (length nm)) = 0" "k \<le> length nm"
  shows "component_length m p k = Some (length nm)"
  using assms(3)
proof (induction "length nm - k" arbitrary: k)
  case 0
  then have "k = length nm" by simp
  with assms(2) show ?case by (subst component_length.simps) auto
next
  case (Suc x)
  then have "component_length m p (k + 1) = Some (length nm)" by (intro Suc.hyps(1)) simp_all
  with Suc assms(1) show ?case by (subst component_length.simps) auto
qed

lemma cstring_append:
  "cstring m a (xs @ ys) \<longleftrightarrow> 0 \<notin> set xs \<and> mem_list m a (length xs) = xs \<and> cstring m (a + of_nat (length xs)) ys"
proof (induction xs arbitrary: a)
  case (Cons x xs)
  have "mem_list m a (length (x # xs)) = m a # mem_list m (a + 1) (length xs)"
    using mem_list_add [of m a 1 "length xs"] by (simp add: mem_list_def)
  with Cons show ?case by (auto simp: add.assoc)
qed (simp add: mem_list_def)

text \<open>A component at the start of a path.\<close>

lemma component_split:
  assumes "cstring m a p" "p = nm @ rest" "nm = takeWhile (\<lambda>x. x \<noteq> 0x2f) p"
  shows "component_length m a 0 = Some (length nm)" "mem_list m a (length nm) = nm"
    "cstring m (a + of_nat (length nm)) rest"
proof -
  have c: "0 \<notin> set nm" "mem_list m a (length nm) = nm" "cstring m (a + of_nat (length nm)) rest"
    using assms(1) unfolding assms(2) cstring_append by blast+
  then show "mem_list m a (length nm) = nm" "cstring m (a + of_nat (length nm)) rest" by blast+
  have "nm ! i \<noteq> 0x2f \<and> nm ! i \<noteq> 0 \<and> m (a + of_nat i) = nm ! i" if i: "i < length nm" for i
  proof -
    have "nm ! i \<in> set nm" using i by simp
    moreover have "\<forall>x \<in> set nm. x \<noteq> 0x2f" using assms(3) set_takeWhileD by metis
    moreover have "mem_list m a (length nm) ! i = m (a + of_nat i)" using i by (simp add: mem_list_def)
    ultimately show ?thesis using c(1,2) by metis
  qed
  moreover have "m (a + of_nat (length nm)) = 0x2f \<or> m (a + of_nat (length nm)) = 0"
  proof (cases rest)
    case (Cons y ys)
    have "rest = dropWhile (\<lambda>x. x \<noteq> 0x2f) p"
      using assms(2,3) takeWhile_dropWhile_id [of "\<lambda>x. x \<noteq> 0x2f" p] by (metis same_append_eq)
    with Cons have r: "dropWhile (\<lambda>x. x \<noteq> 0x2f) p = y # ys" by (simp only:)
    have "y = 0x2f" using hd_dropWhile [of "\<lambda>x. x \<noteq> 0x2f" p] unfolding r by simp
    then show ?thesis using c(3) Cons by simp
  qed (use c(3) in simp)
  ultimately show "component_length m a 0 = Some (length nm)" by (intro component_length_eq) auto
qed

section \<open>A directory in memory\<close>

lemma dir_entries_length:
  assumes "list_all (item_ok table) its"
  shows "\<forall>e \<in> set (dir_entries its). length e = 32"
  using assms by (induction its) (auto simp: dir_entries_def split: dir_item.splits elim!: item_ok.elims)

lemma entries_at_concat:
  assumes "\<forall>e \<in> set es. length e = 32" "mem_list m (d + 32 * of_nat i) (32 * length es) = concat es"
  shows "entries_at m d i es"
  using assms
proof (induction es arbitrary: i)
  case (Cons e es)
  have "mem_list m (d + 32 * of_nat i) 32 @ mem_list m (d + 32 * of_nat i + of_nat 32) (32 * length es) = e @ concat es"
    using Cons.prems(2) mem_list_add [of m "d + 32 * of_nat i" 32 "32 * length es"] by simp
  then have "mem_list m (d + 32 * of_nat i) 32 = e" "mem_list m (d + 32 * of_nat i + of_nat 32) (32 * length es) = concat es"
    using Cons.prems(1) by (simp_all add: append_eq_append_conv)
  moreover have "d + 32 * of_nat i + of_nat 32 = d + 32 * of_nat (Suc i)" by (simp add: algebra_simps)
  ultimately have "dir_entry m d i = e" "mem_list m (d + 32 * of_nat (Suc i)) (32 * length es) = concat es"
    by (simp_all only: dir_entry_def)
  then show ?case using Cons.IH [of "Suc i"] Cons.prems(1) by simp
qed (simp add: entries_at_def)

lemma length_concat_const: "\<forall>e \<in> set es. length e = k \<Longrightarrow> length (concat es) = k * length es"
  by (induction es) auto

lemma directory_at:
  assumes "directory table d its" "mem_list m a (length d) = d"
  shows "entries_at m a 0 (dir_entries its)" "length d = 32 * length (dir_entries its)"
proof -
  have l: "\<forall>e \<in> set (dir_entries its). length e = 32" and c: "concat (dir_entries its) = d"
    using assms(1) dir_entries_length by (auto simp: directory_def)
  show len: "length d = 32 * length (dir_entries its)" using length_concat_const [OF l] c by simp
  show "entries_at m a 0 (dir_entries its)"
    by (rule entries_at_concat [OF l]) (use assms(2) c len in simp)
qed

text \<open>One component: the helper on the directory that is at the destination.\<close>

lemma helper_eq:
  assumes g: "geometry s n g" and t: "table_ok (upcase_table s)"
    and d: "directory (upcase_table s) d its" "mem_list (bmem s) dest (length d) = d" "length d = k * (g * n)"
      "length d < 2 ^ 31"
    and nm: "mem_list (bmem s) name (length nm) = nm"
  shows "read_file_exfat_helper B F name (length nm) dest (of_nat k) dest s =
    (case lookup (upcase_table s) its nm of None \<Rightarrow> Some (0, s) | Some e \<Rightarrow> load_file B F e dest s)"
proof -
  have gs: "get_cluster_size (of_nat k) s = Some (of_nat (k * g))"
    using get_cluster_size_eq [OF g, of k] d(3,4) by simp
  have "bps s * of_nat (k * g) = of_nat (length d)"
    using bps_eq [OF g] d(3) by (simp add: mult.commute mult.left_commute)
  then have "unat (bps s * of_nat (k * g) div 32) = length d div 32"
    using unat_of_nat_u32 [of "length d"] d(4) by (simp only: unat_div) simp
  then have "0 + length (dir_entries its) = unat (bps s * of_nat (k * g) div 32)"
    using directory_at(2) [OF d(1,2)] by simp
  then show ?thesis
    unfolding read_file_exfat_helper_def
    using d(1) by (intro helper_loop_eq [OF gs t _ directory_at(1) [OF d(1,2)] _ _ _ nm]) (simp_all add: directory_def)
qed

section \<open>The path\<close>

text \<open>The result of the loop: a number of clusters and the bytes at the destination.\<close>

definition path_result :: "nat \<Rightarrow> nat \<Rightarrow> u32 \<Rightarrow> u8 list option \<Rightarrow> u32 \<Rightarrow> bytes \<Rightarrow> bool" where
  "path_result c D dest r k m \<longleftrightarrow>
     (case r of None \<Rightarrow> k = 0
      | Some d \<Rightarrow> k \<noteq> 0 \<and> length d = unat k * c \<and> length d \<le> D \<and> mem_list m dest (length d) = d)"

lemma path_result_clusters:
  assumes "geometry s n g" "sectors_of n dsk" "cs \<noteq> []" "length cs * (g * n) \<le> D" "D < 2 ^ 31"
    "mem_list m dest (length cs * (g * n)) = clusters_data dsk s n g cs"
  shows "path_result (g * n) D dest (Some (clusters_data dsk s n g cs)) (of_nat (length cs)) m"
proof -
  have "length cs * 1 \<le> length cs * (g * n)" using assms(1) by (intro mult_le_mono2) (simp add: geometry_def)
  also note assms(4)
  also note assms(5)
  finally have "length cs < 2 ^ 32" by simp
  then have "unat (of_nat (length cs) :: u32) = length cs" by (rule unat_of_nat_u32)
  moreover from this have "(of_nat (length cs) :: u32) \<noteq> 0" using assms(3) by auto
  ultimately show ?thesis using assms(2,4,6) by (simp add: path_result_def length_clusters_data)
qed

text \<open>One component of the path.\<close>

lemma helper_component:
  assumes B: "disk_bios B dsk" "sectors_of n dsk" and g: "geometry s n g" and rm: "room F n g dest D P"
    and t: "table_ok (upcase_table s)" and k: "path_result (g * n) D dest (Some d) k (bmem s)"
    and nm: "mem_list (bmem s) name (length nm) = nm" and r: "resolves dsk s n g D d (nm # nms) r"
    and off: "\<not> paging s"
  shows "\<exists>k' m. read_file_exfat_helper B F name (length nm) dest k dest s = Some (k', s\<lparr>bmem := m\<rparr>) \<and>
    eq_off (bytes_at dest D \<union> read_area F n g) (bmem s) m \<and>
    (k' = 0 \<and> r = None \<or> (\<exists>d'. path_result (g * n) D dest (Some d') k' m \<and> resolves dsk s n g D d' nms r))"
proof -
  obtain its where its: "directory (upcase_table s) d its"
    "lookup (upcase_table s) its nm = None \<and> r = None \<or>
     (\<exists>e. lookup (upcase_table s) its nm = Some e \<and> (file_on_disk dsk s n g e [] \<and> r = None \<or>
       (\<exists>ks. file_on_disk dsk s n g e ks \<and> ks \<noteq> [] \<and> length ks * (g * n) \<le> D \<and>
         resolves dsk s n g D (clusters_data dsk s n g ks) nms r)))"
    using r by (elim resolves_ConsE) blast+
  have D: "D < 2 ^ 31" using rm by (simp add: room_def)
  have d: "mem_list (bmem s) dest (length d) = d" "length d = unat k * (g * n)" "length d < 2 ^ 31"
    using k D unfolding path_result_def option.case by (blast, blast, linarith)
  have helper: "read_file_exfat_helper B F name (length nm) dest k dest s =
      (case lookup (upcase_table s) its nm of None \<Rightarrow> Some (0, s) | Some e \<Rightarrow> load_file B F e dest s)"
    using helper_eq [OF g t its(1) d nm] by simp
  show ?thesis
  proof (cases "lookup (upcase_table s) its nm")
    case None
    with its(2) helper show ?thesis by (intro exI [of _ 0] exI [of _ "bmem s"]) simp
  next
    case (Some e)
    obtain ks where ks: "file_on_disk dsk s n g e ks" "length ks * (g * n) \<le> D"
      "ks = [] \<and> r = None \<or> ks \<noteq> [] \<and> resolves dsk s n g D (clusters_data dsk s n g ks) nms r"
      using its(2) Some by fastforce
    obtain m where m: "load_file B F e dest s = Some (of_nat (length ks), s\<lparr>bmem := m\<rparr>)"
      "mem_list m dest (length ks * (g * n)) = clusters_data dsk s n g ks"
      "eq_off (bytes_at dest D \<union> read_area F n g) (bmem s) m"
      using load_file_mem [OF B g rm ks(1,2) off] by blast
    have "path_result (g * n) D dest (Some (clusters_data dsk s n g ks)) (of_nat (length ks)) m" if "ks \<noteq> []"
      by (rule path_result_clusters [OF g B(2) that ks(2) D m(2)])
    with m(1,3) ks(3) helper Some show ?thesis
      by (intro exI [of _ "of_nat (length ks)"] exI [of _ m]) auto
  qed
qed

lemma path_loop_mem:
  assumes B: "disk_bios B dsk" "sectors_of n dsk"
  shows "geometry s n g \<Longrightarrow> room F n g dest D P \<Longrightarrow> table_ok (upcase_table s) \<Longrightarrow>
    path_result (g * n) D dest (Some d) k (bmem s) \<Longrightarrow>
    cstring (bmem s) (path + of_nat i) p \<Longrightarrow> bytes_at (path + of_nat i) (Suc (length p)) \<subseteq> P \<Longrightarrow> length p < 2 ^ 31 \<Longrightarrow>
    resolves dsk s n g D d (components p) r \<Longrightarrow> \<not> paging s \<Longrightarrow>
    \<exists>k' m. path_loop B F path dest i k s = Some (k', s\<lparr>bmem := m\<rparr>) \<and> path_result (g * n) D dest r k' m \<and>
      eq_off (bytes_at dest D \<union> read_area F n g) (bmem s) m"
proof (induction p arbitrary: i s d k rule: components.induct)
  case 1
  then have "r = Some d" by (auto elim: resolves_NilE)
  with 1 show ?case
    by (subst path_loop.simps) (auto intro!: exI [of _ "bmem s"])
next
  case (2 c cs)
  have c: "bmem s (path + of_nat i) = c" "c \<noteq> 0" using 2(7) by simp_all
  show ?case
  proof (cases "c = 0x2f")
    case True
    have sub: "bytes_at (path + of_nat (i + 1)) (Suc (length cs)) \<subseteq> bytes_at (path + of_nat i) (Suc (length (c # cs)))"
      using bytes_at_sub [of 1 "Suc (length cs)" "Suc (length (c # cs))" "path + of_nat i"] 2(9) by (simp add: ac_simps)
    have "\<exists>k' m. path_loop B F path dest (i + 1) k s = Some (k', s\<lparr>bmem := m\<rparr>) \<and> path_result (g * n) D dest r k' m \<and>
        eq_off (bytes_at dest D \<union> read_area F n g) (bmem s) m"
    proof (rule 2(1) [OF True 2(3-6)])
      show "cstring (bmem s) (path + of_nat (i + 1)) cs" using 2(7) by (simp add: ac_simps)
      show "bytes_at (path + of_nat (i + 1)) (Suc (length cs)) \<subseteq> P" using sub 2(8) by blast
      show "length cs < 2 ^ 31" using 2(9) by simp
      show "resolves dsk s n g D d (components cs) r" using 2(10) True by simp
      show "\<not> paging s" by (rule 2(11))
    qed
    moreover have "path_loop B F path dest i k s = path_loop B F path dest (i + 1) k s"
      using c True by (subst path_loop.simps) simp
    ultimately show ?thesis by simp
  next
    case False
    define nm rest where "nm = takeWhile (\<lambda>x. x \<noteq> 0x2f) (c # cs)" and "rest = dropWhile (\<lambda>x. x \<noteq> 0x2f) (c # cs)"
    have p: "c # cs = nm @ rest" "components (c # cs) = nm # components rest" "rest = dropWhile (\<lambda>x. x \<noteq> 0x2f) cs" "0 < length nm"
      using False by (simp_all add: nm_def rest_def)
    have len: "length (c # cs) = length nm + length rest" using p(1) by (metis length_append)
    note at = component_split [OF 2(7) p(1) nm_def]
    obtain k' m where h: "read_file_exfat_helper B F (path + of_nat i) (length nm) dest k dest s = Some (k', s\<lparr>bmem := m\<rparr>)"
      "eq_off (bytes_at dest D \<union> read_area F n g) (bmem s) m"
      "k' = 0 \<and> r = None \<or> (\<exists>d'. path_result (g * n) D dest (Some d') k' m \<and> resolves dsk s n g D d' (components rest) r)"
      using helper_component [OF B 2(3-6) at(2) 2(10) [unfolded p(2)] 2(11)] by blast
    have loop: "path_loop B F path dest i k s =
        (if k' = 0 then Some (0, s\<lparr>bmem := m\<rparr>) else path_loop B F path dest (i + length nm) k' (s\<lparr>bmem := m\<rparr>))"
    proof -
      have nxt: "Suc (i + (length nm - Suc 0)) = i + length nm" using p(4) by simp
      show ?thesis using c False at(1) h(1) by (subst path_loop.simps) (simp add: nxt)
    qed
    show ?thesis
    proof (cases "k' = 0")
      case True
      then have "r = None" using h(3) by (auto simp: path_result_def)
      with True h(2) loop show ?thesis by (intro exI [of _ 0] exI [of _ m]) (simp add: path_result_def)
    next
      case ne: False
      then obtain d' where d': "path_result (g * n) D dest (Some d') k' m" "resolves dsk s n g D d' (components rest) r"
        using h(3) by blast
      have sub: "bytes_at (path + of_nat (i + length nm)) (Suc (length rest)) \<subseteq> P"
        using bytes_at_sub [of "length nm" "Suc (length rest)" "Suc (length (c # cs))" "path + of_nat i"] 2(8,9) len
        by (simp add: add.assoc)
      have apart: "bytes_at (path + of_nat (i + length nm)) (Suc (length rest)) \<inter> (bytes_at dest D \<union> read_area F n g) = {}"
        using sub 2(4) by (auto simp: room_def)
      have "cstring (bmem s) (path + of_nat (i + length nm)) rest" using at(3) by (simp add: add.assoc)
      then have str: "cstring m (path + of_nat (i + length nm)) rest"
        using cstring_eq_off [OF _ h(2) apart] 2(9) len by simp
      have "\<exists>k'' m'. path_loop B F path dest (i + length nm) k' (s\<lparr>bmem := m\<rparr>) = Some (k'', s\<lparr>bmem := m\<rparr>\<lparr>bmem := m'\<rparr>) \<and>
          path_result (g * n) D dest r k'' m' \<and> eq_off (bytes_at dest D \<union> read_area F n g) (bmem (s\<lparr>bmem := m\<rparr>)) m'"
        using 2(2) [OF False, folded p(3), of "s\<lparr>bmem := m\<rparr>" d' k' "i + length nm"] 2(3-5,9,11) d' sub str len resolves_bmem [OF d'(2)]
        by simp
      then obtain k'' m' where "path_loop B F path dest (i + length nm) k' (s\<lparr>bmem := m\<rparr>) = Some (k'', s\<lparr>bmem := m'\<rparr>)"
        "path_result (g * n) D dest r k'' m'" "eq_off (bytes_at dest D \<union> read_area F n g) m m'" by auto
      with ne loop show ?thesis
        using eq_off_chain [OF h(2)] by (intro exI [of _ k''] exI [of _ m']) simp
    qed
  qed
qed

section \<open>An example\<close>

text \<open>
  A disk with the file \<open>k\<close> of 200 bytes in the root directory, which is cluster 2; the file is
  cluster 3 and is not fragmented. The memory holds the directory at 1 MiB and a path at 0x600.
\<close>

definition example_primary :: "u8 list" where
  "example_primary = [0x85, 2] @ replicate 30 0"

definition example_extension :: "u8 list" where
  "example_extension = [0xc0, 0, 0, 1] @ replicate 16 0 @ [3, 0, 0, 0] @ [200, 0, 0, 0, 0, 0, 0, 0]"

definition example_name :: "u8 list" where
  "example_name = [0xc1, 0, 0x6b, 0] @ replicate 28 0"

definition example_items :: "dir_item list" where
  "example_items = File example_primary example_extension [example_name] # replicate 13 (Plain (replicate 32 0))"

definition example_root :: "u8 list" where
  "example_root = concat (dir_entries example_items)"

definition example_disk :: "u64 \<Rightarrow> u8 list" where
  "example_disk l = (if l = 0x108 then example_root else if l = 0x109 then replicate 512 7 else replicate 512 0)"

definition example_exfat :: "u8 \<Rightarrow> exfat_machine" where
  "example_exfat k = \<lparr>bmem = put_bytes (put_bytes (\<lambda>_. 0) 0x100000 example_root) 0x600 [0x2f, 0x6b],
     crtc_index = 0, crtc_reg = (\<lambda>_. 0), color = 0x0f, drive_bytes_per_sector = 512, drive_number = 0x80,
     boot_cr0 = 1,
     exfat_boot_record = (dec_boot_record (replicate 512 0))
       \<lparr>br_cluster_heap_offset := 8, br_root_first_cluster := 2, br_sectors_per_cluster_shift := k\<rparr>,
     upcase_table = map of_nat [0..<128]\<rparr>"

definition example_exfat_frame :: exfat_frame where
  "example_exfat_frame = \<lparr>temp_buffer_at = 0x8000, temp_dap_at = 0x7f00, load_buffer_at = 0x7000, fat_buffer_at = 0x20000\<rparr>"

lemma length_example_root: "length example_root = 512"
  by code_simp

lemma sectors_example_disk: "sectors_of 512 example_disk"
  by (simp add: sectors_of_def example_disk_def length_example_root)

lemma example_fields [simp]:
  "upcase_table (example_exfat k) = map of_nat [0..<128]" "drive_bytes_per_sector (example_exfat k) = 512"
  "br_cluster_heap_offset (exfat_boot_record (example_exfat k)) = 8" "br_root_first_cluster (exfat_boot_record (example_exfat k)) = 2"
  "br_sectors_per_cluster_shift (exfat_boot_record (example_exfat k)) = k"
  "br_fat_offset (exfat_boot_record (example_exfat k)) = 0"
  by (simp_all add: example_exfat_def dec_boot_record_def b32_def)

lemma example_paging [simp]: "\<not> paging (example_exfat k)"
  by (simp add: paging_def example_exfat_def bit_iff_odd)

lemma example_geometry: "geometry (example_exfat 0) 512 1" "geometry (example_exfat 3) 512 8"
  by (simp_all add: geometry_def shift_def)

lemma example_table: "table_ok (upcase_table (example_exfat k))"
  by (auto simp: table_ok_def unsigned_of_nat take_bit_nat_eq_self)

lemma example_directory: "directory (upcase_table (example_exfat k)) example_root example_items"
proof -
  have "list_all (item_ok (map of_nat [0..<128])) example_items" by code_simp
  then show ?thesis by (simp add: directory_def example_root_def)
qed

lemma example_lookup: "lookup (upcase_table (example_exfat k)) example_items [0x6b] = Some (dec_extension_entry example_extension)"
proof -
  have "map uint (file_name (map of_nat [0..<128]) example_extension [example_name]) = map sint [0x6b :: u8]" by code_simp
  then show ?thesis by (simp add: example_items_def)
qed

lemma example_room: "room example_exfat_frame 512 1 0x100000 512 (bytes_at 0x600 3)" "room example_exfat_frame 512 8 0x100000 512 {}"
  by (auto simp: room_def read_area_def frame_area_def frame_ok_def example_exfat_frame_def bytes_at_unat)

lemma example_file: "file_on_disk example_disk (example_exfat 0) 512 1 (dec_extension_entry example_extension) [3]"
proof -
  have e: "unat (ed_first_cluster (dec_extension_entry example_extension)) = 3"
    "unat (ed_data_length (dec_extension_entry example_extension)) = 200"
    by code_simp+
  have "fat_entry example_disk (example_exfat 0) 512 3 = 0"
    by (simp add: fat_entry_def fat_position_def disk_byte_def example_disk_def b32_def upt_rec)
  then show ?thesis
    by (simp add: file_on_disk_def e fat_hit_def read_position_def fat_position_def fat_sector_def cluster_ok_def
        cluster_sector_def shift_def)
qed

section \<open>Properties\<close>

text \<open>
  (C18) The search of a directory finds the first file whose name, in upper case by
  the table, has the characters of the wanted name, and loads it; it returns 0 and leaves the
  machine as it is when there is none. Directories whose files have up to 17 name entries, with
  characters that the table covers.
\<close>

theorem read_file_exfat_helper_searches:
  assumes "geometry s n g" "table_ok (upcase_table s)" "directory (upcase_table s) d its"
    "mem_list (bmem s) dest (length d) = d" "length d = k * (g * n)" "length d < 2 ^ 31"
    "mem_list (bmem s) name (length nm) = nm"
  shows "read_file_exfat_helper B F name (length nm) dest (of_nat k) dest s =
    (case lookup (upcase_table s) its nm of None \<Rightarrow> Some (0, s) | Some e \<Rightarrow> load_file B F e dest s)"
  by (rule helper_eq [OF assms])

lemma read_file_exfat_mem:
  assumes "disk_bios B dsk" "sectors_of n dsk" "geometry s n g"
    "room F n g dest D (bytes_at path (length p + 1))" "g * n \<le> D" "table_ok (upcase_table s)"
    "cluster_ok s (unat (br_root_first_cluster (exfat_boot_record s)))" "cstring (bmem s) path p" "length p < 2 ^ 31"
    "resolves dsk s n g D (cluster_data dsk s n g (unat (br_root_first_cluster (exfat_boot_record s)))) (components p) r"
    "\<not> paging s"
  shows "\<exists>m. read_file_exfat B F path dest s =
      Some (case r of None \<Rightarrow> 0 | Some d \<Rightarrow> of_nat (length d), s\<lparr>bmem := m\<rparr>) \<and>
    (case r of None \<Rightarrow> True | Some d \<Rightarrow> mem_list m dest (length d) = d) \<and>
    eq_off (bytes_at dest D \<union> read_area F n g) (bmem s) m"
proof -
  let ?root = "unat (br_root_first_cluster (exfat_boot_record s))"
  let ?X = "bytes_at dest D \<union> read_area F n g"
  note B = assms(1,2) and g = assms(3) and rm = assms(4)
  have sub: "bytes_at dest (g * n) \<subseteq> bytes_at dest D" using part_sub [of 0 "g * n" D dest] assms(5) rm by (simp add: room_def)
  have gs: "get_cluster_size 1 s = Some (of_nat g)"
      "get_heap_lba (br_root_first_cluster (exfat_boot_record s)) s = Some (of_nat (cluster_sector s ?root * 512 div n))"
    using get_cluster_size_eq [OF g, of 1] get_heap_lba_eq [OF g assms(7)] cluster_bytes(1) [OF g] by simp_all
  obtain m where m: "bios_ext_read B F dest (of_nat (cluster_sector s ?root * 512 div n)) (of_nat g) s = Some (s\<lparr>bmem := m\<rparr>)"
      "mem_list m dest (g * n) = cluster_data dsk s n g ?root" "eq_off (bytes_at dest (g * n) \<union> frame_area F n) (bmem s) m"
    using read_cluster [OF B g, of F dest "cluster_sector s ?root * 512 div n"] sub rm assms(7,11)
      div_lt_u32 [of "cluster_sector s ?root" n] by (auto simp: cluster_ok_def cluster_data_def room_def)
  have off: "eq_off ?X (bmem s) m" by (rule eq_off_mono [OF m(3)]) (use sub in \<open>auto simp: read_area_def\<close>)
  have k: "path_result (g * n) D dest (Some (cluster_data dsk s n g ?root)) 1 m"
    using m(2) assms(5) length_cluster_data [OF B(2), of s] by (simp add: path_result_def)
  have str: "cstring m path p"
    using rm assms(9) by (intro cstring_eq_off [OF assms(8) off]) (auto simp: room_def)
  obtain k' m' where m': "path_loop B F path dest 0 1 (s\<lparr>bmem := m\<rparr>) = Some (k', s\<lparr>bmem := m'\<rparr>)"
      "path_result (g * n) D dest r k' m'" "eq_off ?X m m'"
    using path_loop_mem [OF B, of "s\<lparr>bmem := m\<rparr>" g F dest D "bytes_at path (length p + 1)"
        "cluster_data dsk s n g ?root" 1 path 0 p r] g rm assms(6,9,11) k str resolves_bmem [OF assms(10)] by auto
  have "k' * of_nat g * bps s = (case r of None \<Rightarrow> 0 | Some d \<Rightarrow> of_nat (length d))"
  proof -
    have "k' * of_nat g * bps s = of_nat (unat k' * (g * n))" using bps_eq [OF g] by simp
    then show ?thesis using m'(2) by (auto simp: path_result_def split: option.splits)
  qed
  moreover have "k' = 0 \<Longrightarrow> (case r of None \<Rightarrow> 0 | Some d \<Rightarrow> of_nat (length d)) = (0 :: u32)"
    using m'(2) by (auto simp: path_result_def split: option.splits)
  ultimately have "read_file_exfat B F path dest s =
      Some (case r of None \<Rightarrow> 0 | Some d \<Rightarrow> of_nat (length d), s\<lparr>bmem := m'\<rparr>)"
    using gs m(1) m'(1) by (simp add: read_file_exfat_def)
  then show ?thesis
    using m'(2) eq_off_chain [OF off m'(3)] by (intro exI [of _ m']) (auto simp: path_result_def split: option.splits)
qed

text \<open>
  (C8) Reading a path follows its components from the root directory: the function
  returns the number of bytes of the clusters of the file, with those bytes at the destination,
  and 0 when a component is not found. It changes no memory but the destination and its buffers.
\<close>

theorem read_file_exfat_reads:
  assumes "disk_bios B dsk" "sectors_of n dsk" "geometry s n g"
    "room F n g dest D (bytes_at path (length p + 1))" "g * n \<le> D" "table_ok (upcase_table s)"
    "cluster_ok s (unat (br_root_first_cluster (exfat_boot_record s)))" "cstring (bmem s) path p" "length p < 2 ^ 31"
    "resolves dsk s n g D (cluster_data dsk s n g (unat (br_root_first_cluster (exfat_boot_record s)))) (components p) r"
    "\<not> paging s"
  shows "\<exists>m. read_file_exfat B F path dest s =
      Some (case r of None \<Rightarrow> 0 | Some d \<Rightarrow> of_nat (length d), s\<lparr>bmem := m\<rparr>) \<and>
    (case r of None \<Rightarrow> True | Some d \<Rightarrow> mem_list m dest (length d) = d) \<and>
    eq_off (bytes_at dest D \<union> read_area F n g) (bmem s) m"
  using assms by (rule read_file_exfat_mem)

text \<open>
  (C28) A defect for clusters of several sectors. The buffer starts with the sector of
  the allocation table that holds the entry of a cluster, but is indexed by the number of the
  cluster modulo the entries of a whole cluster: for cluster 128 of a file system with sectors of
  512 bytes the entry of cluster 256 is taken, and in general that of a cluster that is off by
  the entries in the sectors before.
\<close>

theorem fat_entry_misread:
  assumes "disk_bios B dsk" "sectors_of 512 dsk" "geometry s 512 g" "room F 512 g dest D P"
    "c < 128 * g" "fat_sector s c < 2 ^ 23" "\<not> paging s"
  shows "\<exists>lba m. get_fat_lba (of_nat c) s = Some lba \<and>
    bios_ext_read B F (fat_buffer_at F) lba (of_nat g) s = Some (s\<lparr>bmem := m\<rparr>) \<and>
    fat_lookup F (sint (bps s * of_nat g div 4)) (of_nat c) (s\<lparr>bmem := m\<rparr>) = Some (fat_entry dsk s 512 (c + 128 * (c div 128)))"
proof -
  have "c div 128 < 2 ^ 23" using assms(6) by (simp add: fat_sector_def)
  then have c: "c < 2 ^ 30" by simp
  obtain m where m: "bios_ext_read B F (fat_buffer_at F) (of_nat (fat_sector s c * 512 div 512)) (of_nat g) s = Some (s\<lparr>bmem := m\<rparr>)"
    "fat_loaded dsk F 512 g c (s\<lparr>bmem := m\<rparr>)"
    using read_fat_any(2) [OF assms(1-4) c assms(6,7)] by blast
  have "read_position (s\<lparr>bmem := m\<rparr>) 512 g c = fat_position (s\<lparr>bmem := m\<rparr>) (c + 128 * (c div 128))"
    using assms(5) by (simp add: read_position_def fat_sector_def fat_position_def mult.commute algebra_simps)
  then have "fat_lookup F (int (g * 512 div 4)) (of_nat c) (s\<lparr>bmem := m\<rparr>) = Some (fat_entry dsk (s\<lparr>bmem := m\<rparr>) 512 (c + 128 * (c div 128)))"
    using assms(2,3) m(2) c by (intro fat_lookup_at) simp_all
  then show ?thesis
    using read_fat_any(1) [OF assms(1-4) c assms(6,7)] m(1) id_per_cluster [OF assms(3)]
    by (intro exI [of _ "of_nat (fat_sector s c * 512 div 512)"] exI [of _ m]) simp
qed

text \<open>Witnesses.\<close>

lemma example_path: "cstring (bmem (example_exfat k)) 0x600 [0x2f, 0x6b]"
  by (simp add: example_exfat_def put_bytes_def length_example_root)

lemma example_dir_mem: "mem_list (bmem (example_exfat k)) 0x100000 512 = example_root"
proof -
  have "eq_off (bytes_at 0x600 2) (put_bytes (\<lambda>_. 0) 0x100000 example_root) (bmem (example_exfat k))"
    using eq_off_put_bytes [of "0x600" "[0x2f, 0x6b]" "put_bytes (\<lambda>_. 0) 0x100000 example_root"]
    by (simp add: example_exfat_def numeral_2_eq_2)
  then have "mem_list (bmem (example_exfat k)) 0x100000 512 = mem_list (put_bytes (\<lambda>_. 0) 0x100000 example_root) 0x100000 512"
    by (rule mem_list_eq_off) (auto simp: bytes_at_unat)
  then show ?thesis using mem_list_put_bytes [of example_root "\<lambda>_. 0" "0x100000"] by (simp add: length_example_root)
qed

theorem read_file_exfat_helper_searches_witness:
  "read_file_exfat_helper (example_bios example_disk) example_exfat_frame 0x601 1 0x100000 1 0x100000 (example_exfat 0) =
    load_file (example_bios example_disk) example_exfat_frame (dec_extension_entry example_extension) 0x100000 (example_exfat 0)"
proof -
  have "mem_list (bmem (example_exfat 0)) 0x601 (length [0x6b :: u8]) = [0x6b]"
    by (simp add: mem_list_def example_exfat_def put_bytes_def)
  then show ?thesis
    using read_file_exfat_helper_searches [OF example_geometry(1) example_table example_directory, of "0x100000" 1 "0x601" "[0x6b]"]
      example_dir_mem example_lookup by (simp add: length_example_root)
qed

theorem read_file_exfat_reads_witness:
  "\<exists>m. read_file_exfat (example_bios example_disk) example_exfat_frame 0x600 0x100000 (example_exfat 0) =
      Some (512, (example_exfat 0)\<lparr>bmem := m\<rparr>) \<and> m 0x1001ff = 7"
proof -
  let ?s = "example_exfat 0"
  have root: "cluster_data example_disk ?s 512 1 2 = example_root"
    by (simp add: cluster_data_def sectors_def cluster_sector_def shift_def example_disk_def)
  have data: "clusters_data example_disk ?s 512 1 [3] = replicate 512 7"
    by (simp add: cluster_data_def sectors_def cluster_sector_def shift_def example_disk_def)
  have "resolves example_disk ?s 512 1 512 example_root [[0x6b]] (Some (clusters_data example_disk ?s 512 1 [3]))"
    by (rule resolves.step [OF example_directory example_lookup example_file _ _ resolves.found]) simp_all
  moreover have "components [0x2f, 0x6b] = [[0x6b]]" by code_simp
  ultimately have "\<exists>m. read_file_exfat (example_bios example_disk) example_exfat_frame 0x600 0x100000 ?s =
      Some (case Some (replicate 512 (7 :: u8)) of None \<Rightarrow> 0 | Some d \<Rightarrow> of_nat (length d), ?s\<lparr>bmem := m\<rparr>) \<and>
      (case Some (replicate 512 7) of None \<Rightarrow> True | Some d \<Rightarrow> mem_list m 0x100000 (length d) = d) \<and>
      eq_off (bytes_at 0x100000 512 \<union> read_area example_exfat_frame 512 1) (bmem ?s) m"
    using root example_room(1) unfolding data
    by (intro read_file_exfat_reads [OF disk_example_bios sectors_example_disk example_geometry(1) _ _ example_table _ example_path])
      (simp_all add: cluster_ok_def cluster_sector_def shift_def numeral_3_eq_3)
  then obtain m where m: "read_file_exfat (example_bios example_disk) example_exfat_frame 0x600 0x100000 ?s = Some (512, ?s\<lparr>bmem := m\<rparr>)"
    "mem_list m 0x100000 512 = replicate 512 7" by auto
  have "m 0x1001ff = mem_list m 0x100000 512 ! 511" by (simp add: mem_list_def)
  with m show ?thesis by (intro exI [of _ m]) simp
qed

theorem fat_entry_misread_witness:
  "\<exists>lba m. get_fat_lba 128 (example_exfat 3) = Some lba \<and>
    bios_ext_read (example_bios example_disk) example_exfat_frame (fat_buffer_at example_exfat_frame) lba 8 (example_exfat 3) =
      Some ((example_exfat 3)\<lparr>bmem := m\<rparr>) \<and>
    fat_lookup example_exfat_frame (sint (bps (example_exfat 3) * 8 div 4)) 128 ((example_exfat 3)\<lparr>bmem := m\<rparr>) =
      Some (fat_entry example_disk (example_exfat 3) 512 256)"
  using fat_entry_misread [OF disk_example_bios sectors_example_disk example_geometry(2) example_room(2), of 128]
  by (simp add: fat_sector_def)

end
