(* ===== verification/Exfat_Init.thy ===== *)
theory Exfat_Init
  imports Exfat_Path
begin

text \<open>
  The initialisation of the exFAT reader, src/boot/x86/fs/exfat.c: the boot record, and the
  table of upper-case letters that the first sector of the root directory may name.
\<close>

section \<open>One sector\<close>

text \<open>The buffer for one sector, apart from what the reads change themselves.\<close>

definition init_room :: "exfat_frame \<Rightarrow> nat \<Rightarrow> bool" where
  "init_room F n \<longleftrightarrow> frame_ok F n \<and> bytes_at (load_buffer_at F) n \<inter> frame_area F n = {}"

definition init_area :: "exfat_frame \<Rightarrow> nat \<Rightarrow> u32 set" where
  "init_area F n = bytes_at (load_buffer_at F) n \<union> frame_area F n"

lemma read_one:
  assumes "disk_bios B dsk" "sectors_of n dsk" "unat (drive_bytes_per_sector s) = n" "init_room F n" "l < 2 ^ 32" "\<not> paging s"
  shows "\<exists>m. bios_ext_read B F (load_buffer_at F) (of_nat l) 1 s = Some (s\<lparr>bmem := m\<rparr>) \<and>
    mem_list m (load_buffer_at F) n = dsk (of_nat l) \<and> eq_off (init_area F n) (bmem s) m"
proof -
  have "unat (drive_bytes_per_sector s) < 2 ^ LENGTH(16)" by (rule unsigned_less)
  then have "n \<le> 2 ^ 32" using assms(3) by simp
  moreover have "(ucast (of_nat l :: u32) :: u64) = of_nat l"
  proof -
    have "(ucast (of_nat l :: u32) :: u64) = of_nat (unat (of_nat l :: u32))" by simp
    then show ?thesis by (simp only: unat_of_nat_u32 [OF assms(5)])
  qed
  ultimately show ?thesis
    using bios_ext_read_mem [OF assms(1), of n s F "load_buffer_at F" 1 "of_nat l"] assms(2-4,6)
    by (simp add: sectors_of_def init_room_def init_area_def sectors_def)
qed

lemma mem_list_take:
  assumes "mem_list m a n = d" "k \<le> n"
  shows "mem_list m a k = take k d"
proof -
  have "take k (mem_list m a (k + (n - k))) = mem_list m a k" unfolding mem_list_add by simp
  with assms show ?thesis by simp
qed

lemma mem_list_part:
  assumes "mem_list m a n = d" "i + k \<le> n"
  shows "mem_list m (a + of_nat i) k = take k (drop i d)"
proof -
  have "take k (drop i (mem_list m a (i + (k + (n - i - k))))) = mem_list m (a + of_nat i) k"
    unfolding mem_list_add by simp
  with assms show ?thesis by simp
qed

section \<open>The search for the table\<close>

text \<open>The first entry of a sector of a directory that names the table.\<close>

definition upcase_entry :: "u8 list \<Rightarrow> nat option" where
  "upcase_entry d = find (\<lambda>i. d ! i = 0x82) (map ((*) 32) [0..<length d div 32])"

definition upcase_cluster :: "u8 list \<Rightarrow> nat \<Rightarrow> nat" where
  "upcase_cluster d i = unat (ud_first_cluster (dec_upcase_entry (take 32 (drop i d))))"

definition upcase_from :: "(u64 \<Rightarrow> u8 list) \<Rightarrow> 'a exfat_machine_scheme \<Rightarrow> nat \<Rightarrow> u8 list \<Rightarrow> u16 list \<Rightarrow> u16 list" where
  "upcase_from dsk s n d table =
     (case upcase_entry d of
        None \<Rightarrow> table
      | Some i \<Rightarrow> load_upcase (dsk (of_nat (cluster_sector s (upcase_cluster d i) * 512 div n))) table)"

lemma upcase_loop_step:
  assumes B: "disk_bios B dsk" "sectors_of n dsk" and g: "geometry s n g" "512 \<le> n" and r: "init_room F n"
    and d: "mem_list (bmem s) (load_buffer_at F) n = d" "i + 32 \<le> n" "d ! i = 0x82" "cluster_ok s (upcase_cluster d i)"
    and off: "\<not> paging s"
  shows "\<exists>m. upcase_loop B F i s = Some (s\<lparr>bmem := m,
      upcase_table := load_upcase (dsk (of_nat (cluster_sector s (upcase_cluster d i) * 512 div n))) (upcase_table s)\<rparr>) \<and>
    eq_off (init_area F n) (bmem s) m"
proof -
  let ?c = "upcase_cluster d i"
  let ?l = "cluster_sector s ?c * 512 div n"
  have n: "unat (drive_bytes_per_sector s) = n" using g(1) by (simp add: geometry_def)
  have byte: "bmem s (load_buffer_at F + of_nat i) = 0x82" using d(1-3) by (auto simp: mem_list_def)
  have part: "mem_list (bmem s) (load_buffer_at F + of_nat i) 32 = take 32 (drop i d)" by (rule mem_list_part [OF d(1,2)])
  have "ud_first_cluster (dec_upcase_entry (take 32 (drop i d))) = of_nat ?c" by (simp add: upcase_cluster_def)
  then have lba: "get_heap_lba (ud_first_cluster (dec_upcase_entry (take 32 (drop i d)))) s = Some (of_nat ?l)"
    using get_heap_lba_eq [OF g(1) d(4)] by simp
  have "?l < 2 ^ 32" using d(4) by (intro div_lt_u32) (simp add: cluster_ok_def)
  then obtain m where m: "bios_ext_read B F (load_buffer_at F) (of_nat ?l) 1 s = Some (s\<lparr>bmem := m\<rparr>)"
    "mem_list m (load_buffer_at F) n = dsk (of_nat ?l)" "eq_off (init_area F n) (bmem s) m"
    using read_one [OF B n r _ off] by blast
  have "mem_list m (load_buffer_at F) 128 = take 128 (dsk (of_nat ?l))"
    using g(2) by (intro mem_list_take [OF m(2)]) simp
  moreover have "load_upcase (take 128 bs) t = load_upcase bs t" for bs t by (simp add: load_upcase_def b16_def)
  ultimately have "upcase_loop B F i s = Some (s\<lparr>bmem := m, upcase_table := load_upcase (dsk (of_nat ?l)) (upcase_table s)\<rparr>)"
    using n d(2) byte part lba m(1) by (subst upcase_loop.simps) (simp add: Let_def)
  with m(3) show ?thesis by blast
qed

lemma upcase_loop_eq:
  assumes B: "disk_bios B dsk" "sectors_of n dsk" and g: "geometry s n g" "512 \<le> n" "n = 32 * k" and r: "init_room F n"
    and d: "mem_list (bmem s) (load_buffer_at F) n = d"
    and c: "\<And>i. upcase_entry d = Some i \<Longrightarrow> cluster_ok s (upcase_cluster d i)"
    and j: "upcase_entry d = find (\<lambda>i. d ! i = 0x82) (map ((*) 32) [j..<k])" "j \<le> k"
    and off: "\<not> paging s"
  shows "\<exists>m. upcase_loop B F (32 * j) s = Some (s\<lparr>bmem := m, upcase_table := upcase_from dsk s n d (upcase_table s)\<rparr>) \<and>
    eq_off (init_area F n) (bmem s) m"
  using j
proof (induction "k - j" arbitrary: j)
  case 0
  then have "j = k" by simp
  have "upcase_entry d = None" using 0(2) \<open>j = k\<close> by simp
  then have u: "upcase_from dsk s n d (upcase_table s) = upcase_table s" by (simp add: upcase_from_def)
  have "upcase_loop B F (32 * j) s = Some s"
    using g(1,3) \<open>j = k\<close> by (subst upcase_loop.simps) (simp add: geometry_def)
  then show ?case unfolding u by (intro exI [of _ "bmem s"]) simp
next
  case (Suc x)
  then have jk: "j < k" "[j..<k] = j # [Suc j..<k]" by (simp_all add: upt_conv_Cons)
  show ?case
  proof (cases "d ! (32 * j) = 0x82")
    case True
    then have e: "upcase_entry d = Some (32 * j)" using Suc.prems(1) jk(2) by simp
    then have "upcase_from dsk s n d (upcase_table s) =
        load_upcase (dsk (of_nat (cluster_sector s (upcase_cluster d (32 * j)) * 512 div n))) (upcase_table s)"
      by (simp add: upcase_from_def)
    then show ?thesis
      using upcase_loop_step [OF B g(1,2) r d _ True c [OF e] off] jk(1) g(3) by simp
  next
    case False
    have "bmem s (load_buffer_at F + of_nat (32 * j)) = d ! (32 * j)" using d jk(1) g(3) by (auto simp: mem_list_def)
    then have "upcase_loop B F (32 * j) s = upcase_loop B F (32 * Suc j) s"
      using g(1,3) jk(1) False by (subst upcase_loop.simps) (simp add: geometry_def add.commute)
    then show ?thesis using Suc.hyps(1) [of "Suc j"] Suc.hyps(2) Suc.prems jk False by simp
  qed
qed

section \<open>Initialisation\<close>

text \<open>The machine once the boot record is known and the table has its default.\<close>

definition with_boot_record :: "u8 list \<Rightarrow> 'a exfat_machine_scheme \<Rightarrow> 'a exfat_machine_scheme" where
  "with_boot_record bs s = s\<lparr>exfat_boot_record := dec_boot_record (take 512 bs), upcase_table := map of_nat [0..<128]\<rparr>"

lemma with_boot_record_fields [simp]:
  "bmem (with_boot_record bs s) = bmem s" "drive_bytes_per_sector (with_boot_record bs s) = drive_bytes_per_sector s"
  "upcase_table (with_boot_record bs s) = map of_nat [0..<128]" "paging (with_boot_record bs s) \<longleftrightarrow> paging s"
  "(with_boot_record bs s)\<lparr>bmem := m\<rparr> = with_boot_record bs (s\<lparr>bmem := m\<rparr>)"
  by (simp_all add: with_boot_record_def paging_def)

definition root_sector :: "(u64 \<Rightarrow> u8 list) \<Rightarrow> 'a exfat_machine_scheme \<Rightarrow> nat \<Rightarrow> u8 list" where
  "root_sector dsk s n =
     dsk (of_nat (cluster_sector s (unat (br_root_first_cluster (exfat_boot_record s))) * 512 div n))"

lemma init_exfat_mem:
  fixes s :: "'a exfat_machine_scheme"
  defines "n \<equiv> unat (drive_bytes_per_sector s)"
  assumes "disk_bios B dsk" "sectors_of n dsk" "init_room F n" "512 \<le> n" "n = 32 * k"
    and s': "s' = with_boot_record (dsk (of_nat (0x20000 div n))) s"
    and "geometry s' n g" "cluster_ok s' (unat (br_root_first_cluster (exfat_boot_record s')))"
    and "\<And>i. upcase_entry (root_sector dsk s' n) = Some i \<Longrightarrow> cluster_ok s' (upcase_cluster (root_sector dsk s' n) i)"
    and "\<not> paging s"
  shows "\<exists>m. init_exfat B F s = Some (s\<lparr>bmem := m, exfat_boot_record := exfat_boot_record s',
      upcase_table := upcase_from dsk s' n (root_sector dsk s' n) (map of_nat [0..<128])\<rparr>) \<and>
    eq_off (init_area F n) (bmem s) m"
proof -
  note B = assms(2,3) and r = assms(4) and g = assms(8) and root = assms(9)
  have n: "unat (drive_bytes_per_sector s) = n" "unat (drive_bytes_per_sector s') = n" by (simp_all add: n_def s')
  have off: "\<not> paging s'" using assms(11) by (simp add: s')
  have "bps s = of_nat n" by (simp add: bps_def n_def)
  then have lba: "div32 (0x100 * 512) (bps s) = Some (of_nat (0x20000 div n))"
    using div32_of_nat [of "0x20000" n] assms(5) n(1) unsigned_less [of "drive_bytes_per_sector s"]
      bps_eq [OF g] by simp
  obtain m1 where m1: "bios_ext_read B F (load_buffer_at F) (of_nat (0x20000 div n)) 1 s = Some (s\<lparr>bmem := m1\<rparr>)"
    "mem_list m1 (load_buffer_at F) n = dsk (of_nat (0x20000 div n))" "eq_off (init_area F n) (bmem s) m1"
    using read_one [OF B n(1) r, of "0x20000 div n"] le_less_trans [OF div_le_dividend, of "0x20000" "2 ^ 32" n] assms(11) by auto
  have rec: "s\<lparr>bmem := m1, exfat_boot_record := dec_boot_record (mem_list m1 (load_buffer_at F) 512), upcase_table := map of_nat [0..<128]\<rparr>
      = s'\<lparr>bmem := m1\<rparr>"
    using mem_list_take [OF m1(2) assms(5)] by (simp add: s' with_boot_record_def)
  let ?l = "cluster_sector s' (unat (br_root_first_cluster (exfat_boot_record s'))) * 512 div n"
  have heap: "get_heap_lba (br_root_first_cluster (exfat_boot_record s')) s' = Some (of_nat ?l)"
    using get_heap_lba_eq [OF g root] by simp
  have "?l < 2 ^ 32" using root by (intro div_lt_u32) (simp add: cluster_ok_def)
  then obtain m2 where m2: "bios_ext_read B F (load_buffer_at F) (of_nat ?l) 1 (s'\<lparr>bmem := m1\<rparr>) = Some (s'\<lparr>bmem := m2\<rparr>)"
    "mem_list m2 (load_buffer_at F) n = root_sector dsk s' n" "eq_off (init_area F n) m1 m2"
    using read_one [OF B _ r, of "s'\<lparr>bmem := m1\<rparr>" ?l] n(2) off by (auto simp: root_sector_def)
  have len: "length (root_sector dsk s' n) div 32 = k" using B(2) assms(6) by (simp add: sectors_of_def root_sector_def)
  obtain m3 where m3: "upcase_loop B F 0 (s'\<lparr>bmem := m2\<rparr>) = Some (s'\<lparr>bmem := m3,
      upcase_table := upcase_from dsk s' n (root_sector dsk s' n) (map of_nat [0..<128])\<rparr>)" "eq_off (init_area F n) m2 m3"
  proof -
    have "upcase_from dsk (s'\<lparr>bmem := m2\<rparr>) n = upcase_from dsk s' n" by (simp add: upcase_from_def fun_eq_iff split: option.splits)
    moreover have "upcase_table (s'\<lparr>bmem := m2\<rparr>) = map of_nat [0..<128]" by (simp add: s')
    ultimately show ?thesis
      using upcase_loop_eq [OF B _ assms(5,6) r, of "s'\<lparr>bmem := m2\<rparr>" g "root_sector dsk s' n" 0] g m2(2) assms(10) off that
      by (auto simp: upcase_entry_def len)
  qed
  have sel: "bmem (s\<lparr>bmem := m1\<rparr>) = m1" "exfat_boot_record (s'\<lparr>bmem := m1\<rparr>) = exfat_boot_record s'" by simp_all
  have "init_exfat B F s = upcase_loop B F 0 (s'\<lparr>bmem := m2\<rparr>)"
    by (simp only: init_exfat_def Let_def lba bind.bind_lunit bind.bind_lunit m1(1) sel rec heap layout_bmem m2(1))
  moreover have "s'\<lparr>bmem := m3, upcase_table := t\<rparr> = s\<lparr>bmem := m3, exfat_boot_record := exfat_boot_record s', upcase_table := t\<rparr>" for t
    by (simp add: s' with_boot_record_def)
  ultimately have "init_exfat B F s = Some (s\<lparr>bmem := m3, exfat_boot_record := exfat_boot_record s',
      upcase_table := upcase_from dsk s' n (root_sector dsk s' n) (map of_nat [0..<128])\<rparr>)"
    using m3(1) by (simp only:)
  then show ?thesis using eq_off_chain [OF m1(3) eq_off_chain [OF m2(3) m3(2)]] by blast
qed

text \<open>
  (C25) Initialisation takes the boot record from sector 256 (of 512 bytes) of the
  drive. The table of upper-case letters is the identity, unless the first sector of the root
  directory has an entry for one: then its first 64 entries are those of the first sector of its
  cluster. Besides these two variables only the buffers change.
\<close>

theorem init_exfat_loads:
  fixes s :: "'a exfat_machine_scheme"
  defines "n \<equiv> unat (drive_bytes_per_sector s)"
  assumes "disk_bios B dsk" "sectors_of n dsk" "init_room F n" "512 \<le> n" "n = 32 * k"
    and s': "s' = with_boot_record (dsk (of_nat (0x20000 div n))) s"
    and "geometry s' n g" "cluster_ok s' (unat (br_root_first_cluster (exfat_boot_record s')))"
    and "\<And>i. upcase_entry (root_sector dsk s' n) = Some i \<Longrightarrow> cluster_ok s' (upcase_cluster (root_sector dsk s' n) i)"
    and "\<not> paging s"
  shows "\<exists>m. init_exfat B F s = Some (s\<lparr>bmem := m, exfat_boot_record := exfat_boot_record s',
      upcase_table := upcase_from dsk s' n (root_sector dsk s' n) (map of_nat [0..<128])\<rparr>) \<and>
    eq_off (init_area F n) (bmem s) m"
  unfolding n_def by (rule init_exfat_mem [OF assms(2-11) [unfolded n_def]])

text \<open>
  An example: a drive with a boot record at sector 256, a root directory in cluster 2 whose
  third entry names the table, and the table in cluster 3, where entry \<open>i\<close> is \<open>i + 1\<close>.
\<close>

definition boot_sector :: "u8 list" where
  "boot_sector = replicate 88 0 @ [8, 0, 0, 0] @ replicate 4 0 @ [2, 0, 0, 0] @ replicate 412 0"

definition upcase_root :: "u8 list" where
  "upcase_root = replicate 64 0 @ [0x82] @ replicate 19 0 @ [3, 0, 0, 0] @ replicate 424 0"

definition upcase_sector :: "u8 list" where
  "upcase_sector = concat (map (\<lambda>i. [of_nat i + 1, 0]) [0..<256])"

definition upcase_disk :: "u64 \<Rightarrow> u8 list" where
  "upcase_disk l = (if l = 0x100 then boot_sector else if l = 0x108 then upcase_root
     else if l = 0x109 then upcase_sector else replicate 512 0)"

lemma sectors_upcase_disk: "sectors_of 512 upcase_disk"
proof -
  have "length boot_sector = 512" "length upcase_root = 512" "length upcase_sector = 512" by code_simp+
  then show ?thesis by (simp add: sectors_of_def upcase_disk_def)
qed

lemma boot_sector_fields:
  "br_cluster_heap_offset (dec_boot_record (take 512 boot_sector)) = 8"
  "br_root_first_cluster (dec_boot_record (take 512 boot_sector)) = 2"
  "br_sectors_per_cluster_shift (dec_boot_record (take 512 boot_sector)) = 0"
  by code_simp+

theorem init_exfat_loads_witness:
  "\<exists>s. init_exfat (example_bios upcase_disk) example_exfat_frame (example_exfat 0) = Some s \<and>
    br_root_first_cluster (exfat_boot_record s) = 2 \<and> upcase_table s ! 63 = 64 \<and> upcase_table s ! 64 = 64"
proof -
  let ?s' = "with_boot_record boot_sector (example_exfat 0)"
  have b: "upcase_disk 0x100 = boot_sector" by (simp add: upcase_disk_def)
  have f: "exfat_boot_record ?s' = dec_boot_record (take 512 boot_sector)" by (simp add: with_boot_record_def)
  have root: "root_sector upcase_disk ?s' 512 = upcase_root"
    by (simp add: root_sector_def cluster_sector_def f boot_sector_fields shift_def upcase_disk_def)
  have e: "upcase_entry upcase_root = Some 64" "upcase_cluster upcase_root 64 = 3" by code_simp+
  have g: "geometry ?s' 512 1" by (simp add: geometry_def shift_def f boot_sector_fields)
  have rm: "init_room example_exfat_frame 512"
    by (auto simp: init_room_def frame_area_def frame_ok_def example_exfat_frame_def bytes_at_unat)
  have table: "upcase_from upcase_disk ?s' 512 upcase_root t = load_upcase upcase_sector t" for t
    by (simp add: upcase_from_def e cluster_sector_def f boot_sector_fields shift_def upcase_disk_def)
  obtain m where "init_exfat (example_bios upcase_disk) example_exfat_frame (example_exfat 0) =
      Some ((example_exfat 0)\<lparr>bmem := m, exfat_boot_record := dec_boot_record (take 512 boot_sector),
        upcase_table := load_upcase upcase_sector (map of_nat [0..<128])\<rparr>)"
    using init_exfat_loads [where s = "example_exfat 0" and B = "example_bios upcase_disk" and dsk = upcase_disk and F = example_exfat_frame and k = 16 and s' = ?s' and g = 1]
      disk_example_bios sectors_upcase_disk rm g b
    by (auto simp: root e table f boot_sector_fields cluster_ok_def cluster_sector_def shift_def)
  moreover have "load_upcase upcase_sector (map of_nat [0..<128]) ! 63 = 64" "load_upcase upcase_sector (map of_nat [0..<128]) ! 64 = 64"
    by code_simp+
  ultimately show ?thesis by (simp add: boot_sector_fields)
qed

end
