(* ===== verification/Vbe.thy ===== *)
theory Vbe
  imports Bios
begin

text \<open>
  The choice of a video mode, src/boot/x86/vesa/vbe.c and vbe.h, by the video services of the
  BIOS. The addresses of the controller block and of the local variables that are handed to the
  BIOS are a parameter.
\<close>

section \<open>Data\<close>

record vbe_cib =
  vc_signature :: "u8 list"
  vc_version :: u16
  vc_oem_string_ptr :: u32
  vc_capabilities :: "u8 list"
  vc_video_mode_ptr :: u32
  vc_total_memory :: u16
  vc_reserved :: "u8 list"

definition load_cib :: "bytes \<Rightarrow> u32 \<Rightarrow> vbe_cib" where
  "load_cib m a = \<lparr>vc_signature = mem_list m a 4, vc_version = ld16 m (a + 4),
     vc_oem_string_ptr = ld32 m (a + 6), vc_capabilities = mem_list m (a + 10) 4,
     vc_video_mode_ptr = ld32 m (a + 14), vc_total_memory = ld16 m (a + 18),
     vc_reserved = mem_list m (a + 20) 492\<rparr>"

text \<open>The packed information on a mode; the fields the code does not name are bytes.\<close>

record vbe_mib =
  vm_mode_attributes :: u16
  vm_windows :: "u8 list"
  vm_window_function_ptr :: u32
  vm_bytes_per_line :: u16
  vm_xresolution :: u16
  vm_yresolution :: u16
  vm_char_size :: "u8 list"
  vm_number_of_planes :: u8
  vm_bits_per_pixel :: u8
  vm_banks :: "u8 list"
  vm_masks :: "u8 list"
  vm_phys_base_ptr :: u32
  vm_linear :: "u8 list"
  vm_max_pixel_clock :: u32
  vm_reserved4 :: "u8 list"

definition load_mib :: "bytes \<Rightarrow> u32 \<Rightarrow> vbe_mib" where
  "load_mib m a = \<lparr>vm_mode_attributes = ld16 m a, vm_windows = mem_list m (a + 2) 10,
     vm_window_function_ptr = ld32 m (a + 12), vm_bytes_per_line = ld16 m (a + 16),
     vm_xresolution = ld16 m (a + 18), vm_yresolution = ld16 m (a + 20), vm_char_size = mem_list m (a + 22) 2,
     vm_number_of_planes = m (a + 24), vm_bits_per_pixel = m (a + 25), vm_banks = mem_list m (a + 26) 5,
     vm_masks = mem_list m (a + 31) 9, vm_phys_base_ptr = ld32 m (a + 40), vm_linear = mem_list m (a + 44) 18,
     vm_max_pixel_clock = ld32 m (a + 62), vm_reserved4 = mem_list m (a + 66) 189\<rparr>"

text \<open>The addresses of the structures.\<close>

record vbe_frame =
  vbe_cib_at :: u32
  video_mode_info_at :: u32
  crtc_at :: u32

section \<open>Operations\<close>

definition video_mode_entry :: "vbe_frame \<Rightarrow> nat \<Rightarrow> 'a bios_machine_scheme \<Rightarrow> u16" where
  "video_mode_entry F i s = ld16 (bmem s) (vc_video_mode_ptr (load_cib (bmem s) (vbe_cib_at F)) + 2 * of_nat i)"

definition compatible :: "vbe_mib \<Rightarrow> bool" where
  "compatible info \<longleftrightarrow> drop_bit 7 (vm_mode_attributes info) AND 1 \<noteq> 0 \<and> vm_xresolution info = 1280 \<and>
     vm_bits_per_pixel info = 24"

text \<open>The loop over the list of modes, which has no bound but the mark at its end.\<close>

partial_function (option) mode_loop ::
  "'a bios \<Rightarrow> vbe_frame \<Rightarrow> bios_registers \<Rightarrow> nat \<Rightarrow> 'a bios_machine_scheme \<Rightarrow> 'a bios_machine_scheme option" where
  "mode_loop B F registers i s =
     (if video_mode_entry F i s \<noteq> 0xffff then
        let s = s\<lparr>bmem := put_bytes (bmem s) (video_mode_info_at F) (replicate 255 0)\<rparr>;
            registers = registers\<lparr>r_eax := 0x4f01, r_ecx := ucast (video_mode_entry F i s), r_edi := video_mode_info_at F\<rparr>
        in do {
          (_, s) \<leftarrow> bios_int B registers 0x10 s;
          if compatible (load_mib (bmem s) (video_mode_info_at F)) then do {
            let registers = registers\<lparr>r_eax := 0x4f02, r_ebx := ucast (video_mode_entry F i s), r_edi := crtc_at F\<rparr>;
            (_, s) \<leftarrow> bios_int B registers 0x10 s;
            Some s
          } else mode_loop B F registers (i + 1) s
        }
      else Some s)"

definition init_vbe ::
  "'a bios \<Rightarrow> vbe_frame \<Rightarrow> 'a bios_machine_scheme \<Rightarrow> 'a bios_machine_scheme option" where
  "init_vbe B F s =
     (let a = vbe_cib_at F;
          s = s\<lparr>bmem := (bmem s)(a := 0x56, a + 1 := 0x42, a + 2 := 0x45, a + 3 := 0x32)\<rparr>;
          s = s\<lparr>bmem := st16 (bmem s) (a + 4) 0x300\<rparr>;
          s = s\<lparr>bmem := put_bytes (bmem s) (crtc_at F) (replicate 64 0)\<rparr>;
          registers = \<lparr>r_eax = 0x4f00, r_ebx = 0, r_ecx = 0, r_edx = 0, r_esi = 0, r_edi = vbe_cib_at F\<rparr>
      in do {
        (_, s) \<leftarrow> bios_int B registers 0x10 s;
        mode_loop B F registers 0 s
      })"

section \<open>What the BIOS does\<close>

text \<open>The list of modes, which the mark 0xffff ends, at the address that a real-mode pointer stands for.\<close>

definition far_address :: "u32 \<Rightarrow> u32" where
  "far_address p = 16 * drop_bit 16 p + (p AND 0xffff)"

definition mode_list :: "bytes \<Rightarrow> u32 \<Rightarrow> u16 list \<Rightarrow> bool" where
  "mode_list m a ms \<longleftrightarrow> 0xffff \<notin> set ms \<and> (\<forall>i < length ms. ld16 m (a + 2 * of_nat i) = ms ! i) \<and>
     ld16 m (a + 2 * of_nat (length ms)) = 0xffff"

text \<open>
  Interrupt 0x10: function 0x4f00 fills a block of 512 bytes, here at \<open>a\<close>, with a pointer to
  the list of modes, which may be in the block; 0x4f01 fills a block of 256 bytes with the information on one mode; 0x4f02 sets a mode,
  which changes the machine by \<open>set_mode\<close>.
\<close>

definition vbe_bios ::
  "'a bios \<Rightarrow> u32 \<Rightarrow> u32 \<Rightarrow> u16 list \<Rightarrow> (u16 \<Rightarrow> vbe_mib) \<Rightarrow> (u16 \<Rightarrow> 'a bios_machine_scheme \<Rightarrow> 'a bios_machine_scheme) \<Rightarrow> bool" where
  "vbe_bios B a p ms info set_mode \<longleftrightarrow> (\<forall>r s. unat (r_edi r) + 512 \<le> 0x10000 \<longrightarrow>
     (r_eax r = 0x4f00 \<longrightarrow> r_edi r = a \<longrightarrow> mem_list (bmem s) (r_edi r) 4 = [0x56, 0x42, 0x45, 0x32] \<longrightarrow>
        (\<exists>m. snd (B 0x10 r s) = s\<lparr>bmem := m\<rparr> \<and> eq_off (bytes_at (r_edi r) 512) (bmem s) m \<and>
           ld32 m (r_edi r + 14) = p \<and> mode_list m (far_address p) ms)) \<and>
     (r_eax r = 0x4f01 \<longrightarrow> (\<forall>md \<in> set ms. r_ecx r = ucast md \<longrightarrow>
        (\<exists>m. snd (B 0x10 r s) = s\<lparr>bmem := m\<rparr> \<and> eq_off (bytes_at (r_edi r) 256) (bmem s) m \<and>
           vm_mode_attributes (load_mib m (r_edi r)) = vm_mode_attributes (info md) \<and>
           vm_xresolution (load_mib m (r_edi r)) = vm_xresolution (info md) \<and>
           vm_bits_per_pixel (load_mib m (r_edi r)) = vm_bits_per_pixel (info md)))) \<and>
     (r_eax r = 0x4f02 \<longrightarrow> snd (B 0x10 r s) = set_mode (ucast (r_ebx r)) s))"

text \<open>
  The modes that are asked for, by the specification of the information on a mode: a linear frame
  buffer, which is bit 7 of the attributes, 1280 columns, and 24 bits for a pixel.
\<close>

definition wanted :: "vbe_mib \<Rightarrow> bool" where
  "wanted info \<longleftrightarrow> bit (vm_mode_attributes info) 7 \<and> vm_xresolution info = 1280 \<and> vm_bits_per_pixel info = 24"

text \<open>
  The blocks lie below 64 KiB and apart from each other. The pointer is used as it is, so the
  list has to be in the first segment of real mode.
\<close>

definition vbe_room :: "vbe_frame \<Rightarrow> u32 \<Rightarrow> u16 list \<Rightarrow> bool" where
  "vbe_room F p ms \<longleftrightarrow> p < 0x10000 \<and>
     unat (vbe_cib_at F) + 512 \<le> 0x10000 \<and> unat (video_mode_info_at F) + 512 \<le> 0x10000 \<and> unat (crtc_at F) + 512 \<le> 0x10000 \<and>
     bytes_at (vbe_cib_at F) 512 \<inter> bytes_at (video_mode_info_at F) 256 = {} \<and>
     bytes_at (vbe_cib_at F) 512 \<inter> bytes_at (crtc_at F) 64 = {} \<and>
     bytes_at p (2 * length ms + 2) \<inter> bytes_at (video_mode_info_at F) 256 = {} \<and> length ms < 2 ^ 15"

definition vbe_area :: "vbe_frame \<Rightarrow> u32 set" where
  "vbe_area F = bytes_at (vbe_cib_at F) 512 \<union> bytes_at (video_mode_info_at F) 256 \<union> bytes_at (crtc_at F) 64"

section \<open>The choice of a mode\<close>

lemma far_address_low: "p < 0x10000 \<Longrightarrow> far_address p = p"
proof -
  assume p: "p < 0x10000"
  then have "unat p < 2 ^ 16" by (simp add: word_less_nat_alt)
  then have "drop_bit 16 p = 0" "take_bit 16 p = p"
    by (auto intro!: u32_eqI simp: unsigned_drop_bit_eq unsigned_take_bit_eq drop_bit_eq_div take_bit_eq_mod unat_div unat_mod_distrib)
  then show "far_address p = p" using take_bit_eq_mask [of 16 p] by (simp add: far_address_def mask_numeral)
qed

lemma eq_off_zero_fill: "k \<le> n \<Longrightarrow> eq_off (bytes_at a n) m (put_bytes m a (replicate k 0))"
  using eq_off_put_bytes [of a "replicate k 0" m] by (rule eq_off_mono) (auto simp: bytes_at_def)

lemma mode_list_eq_off:
  assumes "mode_list m p ms" "eq_off X m m'" "bytes_at p (2 * length ms + 2) \<inter> X = {}" "length ms < 2 ^ 15"
  shows "mode_list m' p ms"
proof -
  have "ld16 m' (p + 2 * of_nat i) = ld16 m (p + 2 * of_nat i)" if "i \<le> length ms" for i
  proof -
    have "p + of_nat (2 * i + j) \<in> bytes_at p (2 * length ms + 2)" if "j < 2" for j
      using \<open>i \<le> length ms\<close> that assms(4) by (intro in_bytes_at) simp_all
    from this [of 0] this [of 1] assms(3) have "p + 2 * of_nat i \<notin> X" "p + 2 * of_nat i + 1 \<notin> X"
      by (auto simp: ac_simps)
    with assms(2) show ?thesis by (simp add: ld16_def eq_offD)
  qed
  with assms(1) show ?thesis by (simp add: mode_list_def)
qed

text \<open>What the loop keeps: the pointer and the list.\<close>

definition modes_in :: "vbe_frame \<Rightarrow> u32 \<Rightarrow> u16 list \<Rightarrow> bytes \<Rightarrow> bool" where
  "modes_in F p ms m \<longleftrightarrow> ld32 m (vbe_cib_at F + 14) = p \<and> mode_list m p ms"

lemma modes_in_eq_off:
  assumes "vbe_room F p ms" "modes_in F p ms m" "eq_off (bytes_at (video_mode_info_at F) 256) m m'"
  shows "modes_in F p ms m'"
proof -
  have "bytes_at (vbe_cib_at F + of_nat 14) 4 \<subseteq> bytes_at (vbe_cib_at F) 512" by (rule bytes_at_sub) simp_all
  then have "ld32 m' (vbe_cib_at F + 14) = ld32 m (vbe_cib_at F + 14)"
    using assms(1) by (intro ld32_eq_off [OF assms(3)]) (auto simp: vbe_room_def)
  then show ?thesis
    using assms mode_list_eq_off [OF _ assms(3)] by (auto simp: modes_in_def vbe_room_def)
qed

lemma video_mode_entry_eq:
  assumes "modes_in F p ms (bmem s)" "i \<le> length ms"
  shows "video_mode_entry F i s = (if i < length ms then ms ! i else 0xffff)"
  using assms by (auto simp: modes_in_def mode_list_def video_mode_entry_def load_cib_def order_le_less)

lemma compatible_wanted:
  assumes "vm_mode_attributes i = vm_mode_attributes j" "vm_xresolution i = vm_xresolution j" "vm_bits_per_pixel i = vm_bits_per_pixel j"
  shows "compatible i \<longleftrightarrow> wanted j"
proof -
  have "drop_bit 7 w AND 1 \<noteq> 0 \<longleftrightarrow> bit w 7" for w :: u16
    by (simp add: and_one_eq bit_iff_odd_drop_bit mod2_eq_if)
  then show ?thesis by (simp add: compatible_def wanted_def assms)
qed

lemma ucast_u16_u32: "(ucast (ucast w :: u32) :: u16) = w"
  by (rule bit_word_eqI) (simp add: bit_simps)

lemma mode_loop_eq:
  assumes B: "vbe_bios B (vbe_cib_at F) p ms info set_mode" and F: "vbe_room F p ms"
  shows "ms = pre @ rest \<Longrightarrow> modes_in F p ms (bmem s) \<Longrightarrow> \<not> paging s \<Longrightarrow>
    \<exists>m. mode_loop B F r (length pre) s = Some (case find (\<lambda>md. wanted (info md)) rest of
        None \<Rightarrow> s\<lparr>bmem := m\<rparr> | Some md \<Rightarrow> set_mode md (s\<lparr>bmem := m\<rparr>)) \<and>
      eq_off (bytes_at (video_mode_info_at F) 256) (bmem s) m"
proof (induction rest arbitrary: pre s r)
  case Nil
  then have "mode_loop B F r (length pre) s = Some s"
    using video_mode_entry_eq [of F p ms s "length pre"] by (subst mode_loop.simps) simp
  then show ?case by (intro exI [of _ "bmem s"]) simp
next
  case (Cons md rest)
  let ?X = "bytes_at (video_mode_info_at F) 256"
  have at: "video_mode_entry F (length pre) t = md" if "modes_in F p ms (bmem t)" for t :: "'a bios_machine_scheme"
    using video_mode_entry_eq [OF that, of "length pre"] Cons.prems(1) by simp
  define t where "t = s\<lparr>bmem := put_bytes (bmem s) (video_mode_info_at F) (replicate 255 0)\<rparr>"
  have off_t: "\<not> paging t" using Cons.prems(3) by (simp add: t_def)
  define r1 where "r1 = r\<lparr>r_eax := 0x4f01, r_ecx := ucast md, r_edi := video_mode_info_at F\<rparr>"
  have t: "eq_off ?X (bmem s) (bmem t)" by (simp add: t_def eq_off_zero_fill)
  note in_t = modes_in_eq_off [OF F Cons.prems(2) t]
  have "unat (r_edi r1) + 512 \<le> 0x10000" "md \<in> set ms" using F Cons.prems(1) by (simp_all add: vbe_room_def r1_def)
  then obtain m where m: "snd (B 0x10 r1 t) = s\<lparr>bmem := m\<rparr>" "eq_off ?X (bmem t) m"
      "vm_mode_attributes (load_mib m (video_mode_info_at F)) = vm_mode_attributes (info md)"
      "vm_xresolution (load_mib m (video_mode_info_at F)) = vm_xresolution (info md)"
      "vm_bits_per_pixel (load_mib m (video_mode_info_at F)) = vm_bits_per_pixel (info md)"
    using B [unfolded vbe_bios_def, rule_format, of r1 t] by (auto simp: r1_def t_def)
  note comp = compatible_wanted [OF m(3-5)]
  have off: "eq_off ?X (bmem s) m" by (rule eq_off_chain [OF t m(2)])
  note in_m = modes_in_eq_off [OF F Cons.prems(2) off]
  have ne: "md \<noteq> 0xffff" using Cons.prems by (auto simp: modes_in_def mode_list_def)
  have step: "mode_loop B F r (length pre) s =
      (if wanted (info md)
       then Some (snd (B 0x10 (r1\<lparr>r_eax := 0x4f02, r_ebx := ucast md, r_edi := crtc_at F\<rparr>) (s\<lparr>bmem := m\<rparr>)))
       else mode_loop B F r1 (Suc (length pre)) (s\<lparr>bmem := m\<rparr>))"
    using at [OF Cons.prems(2)] at [of t] at [of "s\<lparr>bmem := m\<rparr>"] in_t in_m ne m(1) comp Cons.prems(3) off_t
    by (subst mode_loop.simps) (simp add: t_def [symmetric] r1_def [symmetric] split_beta)
  show ?case
  proof (cases "wanted (info md)")
    case True
    have "snd (B 0x10 (r1\<lparr>r_eax := 0x4f02, r_ebx := ucast md, r_edi := crtc_at F\<rparr>) (s\<lparr>bmem := m\<rparr>)) =
        set_mode md (s\<lparr>bmem := m\<rparr>)"
      using B [unfolded vbe_bios_def, rule_format,
          of "r1\<lparr>r_eax := 0x4f02, r_ebx := ucast md, r_edi := crtc_at F\<rparr>" "s\<lparr>bmem := m\<rparr>"] F
      by (simp add: vbe_room_def ucast_u16_u32)
    with True step off show ?thesis by (intro exI [of _ m]) simp
  next
    case False
    obtain m' where "mode_loop B F r1 (Suc (length pre)) (s\<lparr>bmem := m\<rparr>) =
        Some (case find (\<lambda>md. wanted (info md)) rest of None \<Rightarrow> s\<lparr>bmem := m'\<rparr> | Some md \<Rightarrow> set_mode md (s\<lparr>bmem := m'\<rparr>))"
      "eq_off ?X m m'"
      using Cons.IH [of "pre @ [md]" "s\<lparr>bmem := m\<rparr>" r1] Cons.prems(1,3) in_m
      by (cases "find (\<lambda>md. wanted (info md)) rest") auto
    with False step off show ?thesis by (intro exI [of _ m']) (auto intro: eq_off_chain)
  qed
qed

lemma init_vbe_mem:
  assumes "vbe_bios B (vbe_cib_at F) p ms info set_mode" "vbe_room F p ms" "\<not> paging s"
  shows "\<exists>m. init_vbe B F s = Some (case find (\<lambda>md. wanted (info md)) ms of
      None \<Rightarrow> s\<lparr>bmem := m\<rparr> | Some md \<Rightarrow> set_mode md (s\<lparr>bmem := m\<rparr>)) \<and>
    eq_off (vbe_area F) (bmem s) m"
proof -
  let ?a = "vbe_cib_at F"
  let ?r = "\<lparr>r_eax = 0x4f00, r_ebx = 0, r_ecx = 0, r_edx = 0, r_esi = 0, r_edi = ?a\<rparr>"
  define m1 where "m1 = st16 ((bmem s)(?a := 0x56, ?a + 1 := 0x42, ?a + 2 := 0x45, ?a + 3 := 0x32)) (?a + 4) 0x300"
  define m2 where "m2 = put_bytes m1 (crtc_at F) (replicate 64 0)"
  have off1: "eq_off (bytes_at ?a 512) (bmem s) m1"
    by (auto simp: eq_off_def m1_def st16_def bytes_at_def add.assoc)
  have off2: "eq_off (bytes_at (crtc_at F) 64) m1 m2" by (simp add: m2_def eq_off_zero_fill)
  have sub: "bytes_at ?a 4 \<subseteq> bytes_at ?a 512" using bytes_at_sub [of 0 4 512 ?a] by simp
  have "mem_list m2 ?a 4 = mem_list m1 ?a 4"
    using assms(2) sub by (intro mem_list_eq_off [OF off2]) (auto simp: vbe_room_def)
  also have "\<dots> = [0x56, 0x42, 0x45, 0x32]"
    by (simp add: mem_list_def m1_def st16_def upt_rec add.assoc)
  finally have sig: "mem_list m2 ?a 4 = [0x56, 0x42, 0x45, 0x32]" .
  then obtain m where m: "snd (B 0x10 ?r (s\<lparr>bmem := m2\<rparr>)) = s\<lparr>bmem := m\<rparr>" "eq_off (bytes_at ?a 512) m2 m"
      "ld32 m (?a + 14) = p" "mode_list m (far_address p) ms"
    using assms(1) [unfolded vbe_bios_def, rule_format, of ?r "s\<lparr>bmem := m2\<rparr>"] assms(2) by (auto simp: vbe_room_def)
  have "modes_in F p ms (bmem (s\<lparr>bmem := m\<rparr>))"
    using m(3,4) assms(2) far_address_low [of p] by (simp add: modes_in_def vbe_room_def)
  then obtain m' where m': "mode_loop B F ?r 0 (s\<lparr>bmem := m\<rparr>) = Some (case find (\<lambda>md. wanted (info md)) ms of
      None \<Rightarrow> s\<lparr>bmem := m'\<rparr> | Some md \<Rightarrow> set_mode md (s\<lparr>bmem := m'\<rparr>))"
      "eq_off (bytes_at (video_mode_info_at F) 256) m m'"
    using mode_loop_eq [OF assms(1,2), of "[]" ms "s\<lparr>bmem := m\<rparr>" ?r] assms(3) by (cases "find (\<lambda>md. wanted (info md)) ms") auto
  have "init_vbe B F s = mode_loop B F ?r 0 (s\<lparr>bmem := m\<rparr>)"
    using m(1) assms(3) by (simp add: init_vbe_def Let_def m1_def m2_def split_beta)
  moreover have "eq_off (vbe_area F) (bmem s) m'"
    by (rule eq_off_chain [OF eq_off_mono [OF off1] eq_off_chain [OF eq_off_mono [OF off2]
          eq_off_chain [OF eq_off_mono [OF m(2)] eq_off_mono [OF m'(2)]]]]) (auto simp: vbe_area_def)
  ultimately show ?thesis using m'(1) by (intro exI [of _ m']) simp
qed

text \<open>With paging on its first call of the BIOS faults.\<close>

lemma init_vbe_paging: "paging s \<Longrightarrow> init_vbe B F s = None"
  by (simp add: init_vbe_def Let_def)

text \<open>
  (C26) While paging is off, of the modes that the BIOS lists \<open>init_vbe\<close> sets the first one whose
  attributes have bit 7, a linear frame buffer, with a width of 1280 and 24 bits for a pixel, and
  none if there is no such mode; besides the effect of setting the mode only the three blocks
  change. With paging on, as where \<open>stage2\<close> calls it, it faults.
\<close>

theorem init_vbe_selects:
  assumes "vbe_bios B (vbe_cib_at F) p ms info set_mode" "vbe_room F p ms"
  shows "if paging s then init_vbe B F s = None
    else \<exists>m. init_vbe B F s = Some (case find (\<lambda>md. bit (vm_mode_attributes (info md)) 7 \<and>
          vm_xresolution (info md) = 1280 \<and> vm_bits_per_pixel (info md) = 24) ms of
        None \<Rightarrow> s\<lparr>bmem := m\<rparr> | Some md \<Rightarrow> set_mode md (s\<lparr>bmem := m\<rparr>)) \<and>
      eq_off (vbe_area F) (bmem s) m"
  using init_vbe_mem [OF assms, of s] init_vbe_paging [of s B F] unfolding wanted_def by simp

text \<open>
  An example: a BIOS with four modes, whose list is in the block itself, and a machine that
  records the mode that was set. The first mode has 16 bits for a pixel, the second a width of
  1024, the third no linear frame buffer.
\<close>

record vbe_machine = bios_machine +
  video_mode :: u16

definition mib_bytes :: "u16 \<Rightarrow> u8 list" where
  "mib_bytes md = (if md = 0x119 then [0x3b, 0] else [0xbb, 0]) @ replicate 16 0 @
     (if md = 0x118 then [0, 4] else [0, 5]) @ replicate 5 0 @ [if md = 0x117 then 16 else 24]"

definition example_mib :: "u16 \<Rightarrow> vbe_mib" where
  "example_mib md = load_mib (put_bytes (\<lambda>_. 0) 0 (mib_bytes md)) 0"

definition cib_bytes :: "u8 list" where
  "cib_bytes = replicate 14 0 @ [0x00, 0x61, 0, 0] @ replicate 238 0 @ [0x17, 1, 0x18, 1, 0x19, 1, 0x1b, 1, 0xff, 0xff]"

definition example_vbe_bios :: "'a vbe_machine_ext bios" where
  "example_vbe_bios code r s =
     (r, if r_eax r = 0x4f00 then s\<lparr>bmem := put_bytes (bmem s) (r_edi r) cib_bytes\<rparr>
         else if r_eax r = 0x4f01 then s\<lparr>bmem := put_bytes (bmem s) (r_edi r) (mib_bytes (ucast (r_ecx r)))\<rparr>
         else s\<lparr>video_mode := ucast (r_ebx r)\<rparr>)"

definition example_vbe_frame :: vbe_frame where
  "example_vbe_frame = \<lparr>vbe_cib_at = 0x6000, video_mode_info_at = 0x7000, crtc_at = 0x7800\<rparr>"

definition vbe_start :: vbe_machine where
  "vbe_start = \<lparr>bmem = (\<lambda>_. 0), crtc_index = 0, crtc_reg = (\<lambda>_. 0), color = 0x0f,
     drive_bytes_per_sector = 512, drive_number = 0x80, boot_cr0 = 1, video_mode = 3\<rparr>"

lemma mib_bytes_fields:
  "vm_mode_attributes (load_mib (put_bytes m a (mib_bytes md)) a) = (if md = 0x119 then 0x3b else 0xbb)"
  "vm_xresolution (load_mib (put_bytes m a (mib_bytes md)) a) = (if md = 0x118 then 1024 else 1280)"
  "vm_bits_per_pixel (load_mib (put_bytes m a (mib_bytes md)) a) = (if md = 0x117 then 16 else 24)"
  by (simp_all add: load_mib_def ld16_def put_bytes_def mib_bytes_def nth_append)

lemma eq_off_block: "length bs \<le> n \<Longrightarrow> eq_off (bytes_at a n) m (put_bytes m a bs)"
  using eq_off_put_bytes [of a bs m] by (rule eq_off_mono) (auto simp: bytes_at_def)

lemma vbe_example_bios:
  "vbe_bios example_vbe_bios 0x6000 0x6100 [0x117, 0x118, 0x119, 0x11b] example_mib (\<lambda>md s. s\<lparr>video_mode := md\<rparr>)"
proof -
  have len: "length cib_bytes \<le> 512" "length (mib_bytes md) \<le> 256" for md by (simp_all add: cib_bytes_def mib_bytes_def)
  have "far_address 0x6100 = 0x6100" by (simp add: far_address_def)
  moreover have "ld32 (put_bytes m 0x6000 cib_bytes) (0x6000 + 14) = 0x6100" for m
    by (simp add: put_bytes_def cib_bytes_def ld32_def nth_append)
  moreover have "mode_list (put_bytes m 0x6000 cib_bytes) 0x6100 [0x117, 0x118, 0x119, 0x11b]" for m
    by (simp add: put_bytes_def cib_bytes_def ld16_def nth_append mode_list_def less_Suc_eq)
  ultimately show ?thesis
    using eq_off_block [OF len(1)] eq_off_block [OF len(2)]
    by (auto intro!: exI conjI refl
        simp: vbe_bios_def example_vbe_bios_def mib_bytes_fields example_mib_def ucast_u16_u32)
qed

theorem init_vbe_selects_witness:
  "(\<exists>m. init_vbe example_vbe_bios example_vbe_frame vbe_start = Some (vbe_start\<lparr>bmem := m, video_mode := 0x11b\<rparr>)) \<and>
   init_vbe example_vbe_bios example_vbe_frame (vbe_start\<lparr>boot_cr0 := 0x80000001\<rparr>) = None"
proof -
  have r: "vbe_room example_vbe_frame 0x6100 [0x117, 0x118, 0x119, 0x11b]"
    by (auto simp: vbe_room_def example_vbe_frame_def bytes_at_unat)
  have b: "vbe_bios example_vbe_bios (vbe_cib_at example_vbe_frame) 0x6100 [0x117, 0x118, 0x119, 0x11b] example_mib
      (\<lambda>md s. s\<lparr>video_mode := md\<rparr>)"
    using vbe_example_bios by (simp add: example_vbe_frame_def)
  have p: "\<not> paging vbe_start" "paging (vbe_start\<lparr>boot_cr0 := 0x80000001\<rparr>)"
    by (simp_all add: paging_def vbe_start_def bit_iff_odd)
  have "bit (0xbb :: u16) 7" "\<not> bit (0x3b :: u16) 7" by (simp_all add: bit_iff_odd)
  then have "find (\<lambda>md. bit (vm_mode_attributes (example_mib md)) 7 \<and> vm_xresolution (example_mib md) = 1280 \<and>
      vm_bits_per_pixel (example_mib md) = 24) [0x117, 0x118, 0x119, 0x11b] = Some 0x11b"
    by (simp add: example_mib_def mib_bytes_fields)
  with p show ?thesis
    using init_vbe_selects [OF b r, of vbe_start] init_vbe_selects [OF b r, of "vbe_start\<lparr>boot_cr0 := 0x80000001\<rparr>"] by auto
qed

end
