(* ===== verification/Stage2.thy ===== *)
theory Stage2
  imports Exfat_Init Vbe Print Paging
begin

text \<open>
  The second stage of the boot loader, src/boot/x86/stage2.c: it loads the kernel and the first
  system process with the exFAT reader, scans the memory, maps the kernel to the upper quarter
  of the address space with 4 MiB pages, turns paging on and then calls \<open>init_vbe\<close>. The
  addresses of its string literals and variables are a parameter, and so is the BIOS.
\<close>

section \<open>State\<close>

record stage2_machine = exfat_machine +
  boot_cr3 :: u32
  boot_cr4 :: u32

record stage2_layout =
  literal_at :: "string \<Rightarrow> u32"
  mem_blocks_at :: u32
  boot_directory_at :: u32

text \<open>The end of the program: the loop after a missing kernel, or the jump to the kernel.\<close>

datatype stage2_end = Halted | Kernel_jump

definition crlf :: string where
  "crlf = [CHR 0x0D, CHR 0x0A]"

definition text_bytes :: "string \<Rightarrow> u8 list" where
  "text_bytes = map of_char"

section \<open>Operations\<close>

text \<open>\<open>enable_paging\<close> of src/boot/x86/paging.s.\<close>

definition boot_enable_paging :: "u32 \<Rightarrow> 'a stage2_machine_scheme \<Rightarrow> 'a stage2_machine_scheme" where
  "boot_enable_paging dir s = s\<lparr>boot_cr4 := boot_cr4 s OR 0x10 OR 0x90, boot_cr3 := dir, boot_cr0 := boot_cr0 s OR 0x80000001\<rparr>"

definition say :: "stage2_layout \<Rightarrow> string \<Rightarrow> u32 list \<Rightarrow> 'a stage2_machine_scheme \<Rightarrow> 'a stage2_machine_scheme option" where
  "say L format args s = print brd8 vga_outb (literal_at L format) args s"

text \<open>The rows of the memory table.\<close>

definition show_range :: "stage2_layout \<Rightarrow> nat \<Rightarrow> 'a stage2_machine_scheme \<Rightarrow> 'a stage2_machine_scheme option" where
  "show_range L i s =
     (let r = load_range (bmem s) (mem_blocks_at L + 24 * of_nat i) in
      say L (''%x%x | %x%x | %x'' @ crlf) [ar_base_high r, ar_base_low r, ar_size_high r, ar_size_low r, ar_type r] s)"

text \<open>The two loops over the page directory.\<close>

definition set_boot_pde :: "stage2_layout \<Rightarrow> nat \<Rightarrow> nat \<Rightarrow> 'a stage2_machine_scheme \<Rightarrow> 'a stage2_machine_scheme option" where
  "set_boot_pde L k i s =
     Some (s\<lparr>bmem := st32 (bmem s) (boot_directory_at L + 4 * of_nat k) (enc_4mib
       \<lparr>m_present = 1, m_rw = 1, m_us = 0, m_pwt = 0, m_pcd = 0, m_a = 0, m_d = 0, m_ps = 1, m_g = 0,
        m_ignored = 0, m_pat = 0, m_highaddr = 0, m_lowaddr = of_nat i\<rparr>)\<rparr>)"

definition fill_boot_directory :: "stage2_layout \<Rightarrow> 'a stage2_machine_scheme \<Rightarrow> 'a stage2_machine_scheme option" where
  "fill_boot_directory L s = do {
     s \<leftarrow> for_loop 0 768 (\<lambda>i. set_boot_pde L i i) s;
     for_loop 0 256 (\<lambda>i. set_boot_pde L (i + 768) i) s
   }"

text \<open>From the start to the kernel in memory; the number is \<open>kernel_size\<close>.\<close>

definition load_kernel ::
  "'a stage2_machine_ext exfat_machine_ext bios \<Rightarrow> exfat_frame \<Rightarrow> stage2_layout \<Rightarrow> 'a stage2_machine_scheme \<Rightarrow>
   (u32 \<times> 'a stage2_machine_scheme) option" where
  "load_kernel B F L s = do {
     let s = set_cursor_pos 0 0 (reset_display s);
     let s = set_color 0 0xf s;
     s \<leftarrow> say L (''Starting stage2 boot...'' @ crlf) [] s;
     s \<leftarrow> say L (''Initializing the exFAT filesystem...'' @ crlf) [] s;
     s \<leftarrow> init_exfat B F s;
     s \<leftarrow> say L (''Loading kernel...'' @ crlf) [] s;
     read_file_exfat B F (literal_at L ''/system/kernel'') 0x100000 s
   }"

definition load_process ::
  "'a stage2_machine_ext exfat_machine_ext bios \<Rightarrow> exfat_frame \<Rightarrow> stage2_layout \<Rightarrow> u32 \<Rightarrow> 'a stage2_machine_scheme \<Rightarrow>
   'a stage2_machine_scheme option" where
  "load_process B F L kernel_size s = do {
     s \<leftarrow> say L (''Loading system processes...'' @ crlf) [] s;
     s \<leftarrow> say L (''Loading VGA driver'' @ crlf) [] s;
     s \<leftarrow> say L (''Kernel Size: %x'' @ crlf) [kernel_size] s;
     (n, s) \<leftarrow> read_file_exfat B F (literal_at L ''/system/vga'') (0x100000 + kernel_size) s;
     if n = 0 then say L (''System process does not exist'' @ crlf) [] s
     else say L (''System process detected at %x. Passing info'' @ crlf) [0x100000 + kernel_size] s
   }"

definition show_memory ::
  "'a stage2_machine_ext exfat_machine_ext bios \<Rightarrow> stage2_layout \<Rightarrow> 'a stage2_machine_scheme \<Rightarrow> 'a stage2_machine_scheme option" where
  "show_memory B L s = do {
     (mem_blocks_len, s) \<leftarrow> bios_mem_scan B (mem_blocks_at L) 64 s;
     s \<leftarrow> say L ([CHR 0x0A] @ ''Memory Table:'' @ crlf) [] s;
     s \<leftarrow> say L (''Base             | Size             | Type'' @ crlf) [] s;
     for_loop 0 mem_blocks_len (show_range L) s
   }"

text \<open>
  The part of \<open>stage2\<close> before the call of \<open>init_vbe\<close>. The flag says that it goes on from there;
  otherwise there is no kernel, and it stays in its loop.
\<close>

definition stage2_to_video ::
  "'a stage2_machine_ext exfat_machine_ext bios \<Rightarrow> exfat_frame \<Rightarrow> stage2_layout \<Rightarrow> 'a stage2_machine_scheme \<Rightarrow>
   (bool \<times> 'a stage2_machine_scheme) option" where
  "stage2_to_video B F L s = do {
     (kernel_size, s) \<leftarrow> load_kernel B F L s;
     if kernel_size = 0 then do {
       s \<leftarrow> say L (''No kernel detected at /system/kernel'' @ crlf) [] s;
       Some (False, s)
     } else do {
       s \<leftarrow> load_process B F L kernel_size s;
       s \<leftarrow> show_memory B L s;
       s \<leftarrow> fill_boot_directory L s;
       Some (True, boot_enable_paging (boot_directory_at L) s)
     }
   }"

definition stage2 ::
  "'a stage2_machine_ext exfat_machine_ext bios \<Rightarrow> exfat_frame \<Rightarrow> vbe_frame \<Rightarrow> stage2_layout \<Rightarrow> 'a stage2_machine_scheme \<Rightarrow>
   (stage2_end \<times> 'a stage2_machine_scheme) option" where
  "stage2 B F V L s = do {
     (found, s) \<leftarrow> stage2_to_video B F L s;
     if \<not> found then Some (Halted, s)
     else do {
       s \<leftarrow> init_vbe B V s;
       Some (Kernel_jump, s)
     }
   }"

section \<open>The page directory\<close>

definition boot_pde :: "nat \<Rightarrow> u32" where
  "boot_pde k = 0x83 OR push_bit 22 (of_nat (if k < 768 then k else k - 768))"

definition boot_directory :: "bytes \<Rightarrow> u32 \<Rightarrow> bool" where
  "boot_directory m D \<longleftrightarrow> (\<forall>k < 1024. ld32 m (D + 4 * of_nat k) = boot_pde k)"

lemma fill_entries:
  assumes b: "unat (boot_directory_at L) + 4096 \<le> 2 ^ 32" and n: "off + n \<le> 1024"
  shows "\<exists>m. for_loop 0 n (\<lambda>i. set_boot_pde L (i + off) i) s = Some (s\<lparr>bmem := m\<rparr>) \<and>
    eq_off (bytes_at (boot_directory_at L) 4096) (bmem s) m \<and>
    (\<forall>k < 1024. ld32 m (boot_directory_at L + 4 * of_nat k) =
       (if off \<le> k \<and> k < off + n then 0x83 OR push_bit 22 (of_nat (k - off))
        else ld32 (bmem s) (boot_directory_at L + 4 * of_nat k)))"
proof -
  let ?D = "boot_directory_at L"
  define P where "P i s' \<longleftrightarrow> (\<exists>m. s' = s\<lparr>bmem := m\<rparr> \<and> eq_off (bytes_at ?D 4096) (bmem s) m \<and>
    (\<forall>k < 1024. ld32 m (?D + 4 * of_nat k) =
       (if off \<le> k \<and> k < off + i then 0x83 OR push_bit 22 (of_nat (k - off)) else ld32 (bmem s) (?D + 4 * of_nat k))))" for i s'
  have "\<exists>s'. for_loop 0 n (\<lambda>i. set_boot_pde L (i + off) i) s = Some s' \<and> P n s'"
  proof (rule for_loop_rule)
    show "P 0 s" by (auto simp: P_def intro!: exI [of _ "bmem s"])
    fix j s1 assume j: "j < n" and "P j s1"
    then obtain m where m: "s1 = s\<lparr>bmem := m\<rparr>" "eq_off (bytes_at ?D 4096) (bmem s) m"
      "\<forall>k < 1024. ld32 m (?D + 4 * of_nat k) =
        (if off \<le> k \<and> k < off + j then 0x83 OR push_bit 22 (of_nat (k - off)) else ld32 (bmem s) (?D + 4 * of_nat k))"
      by (auto simp: P_def)
    have jo: "j + off < 1024" using j n by simp
    let ?m = "st32 m (?D + 4 * of_nat (j + off)) (0x83 OR push_bit 22 (of_nat j))"
    have "bytes_at (?D + of_nat (4 * (j + off))) 4 \<subseteq> bytes_at ?D 4096" using jo by (intro bytes_at_sub) simp_all
    then have "eq_off (bytes_at ?D 4096) (bmem s) ?m"
      by (intro eq_off_chain [OF m(2) eq_off_mono [OF eq_off_st32]]) simp
    moreover have "ld32 ?m (?D + 4 * of_nat k) =
       (if off \<le> k \<and> k < off + Suc j then 0x83 OR push_bit 22 (of_nat (k - off)) else ld32 (bmem s) (?D + 4 * of_nat k))"
      if k: "k < 1024" for k
      using ld32_st32_disj [OF entries_disj [OF b jo k]] m(3) k by (cases "k = j + off") (auto simp del: of_nat_add)
    ultimately have "P (Suc j) (s\<lparr>bmem := ?m\<rparr>)" unfolding P_def by blast
    moreover have "set_boot_pde L (j + off) j s1 = Some (s\<lparr>bmem := ?m\<rparr>)"
      by (simp add: set_boot_pde_def m(1) enc_kernel_pde)
    ultimately show "\<exists>s'. set_boot_pde L (j + off) j s1 = Some s' \<and> P (Suc j) s'" by blast
  qed simp
  then show ?thesis unfolding P_def by blast
qed

lemma fill_boot_directory_mem:
  assumes b: "unat (boot_directory_at L) + 4096 \<le> 2 ^ 32"
  shows "\<exists>m. fill_boot_directory L s = Some (s\<lparr>bmem := m\<rparr>) \<and> boot_directory m (boot_directory_at L) \<and>
    eq_off (bytes_at (boot_directory_at L) 4096) (bmem s) m"
proof -
  obtain m1 where m1: "for_loop 0 768 (\<lambda>i. set_boot_pde L i i) s = Some (s\<lparr>bmem := m1\<rparr>)"
    "eq_off (bytes_at (boot_directory_at L) 4096) (bmem s) m1"
    "\<forall>k < 1024. k < 768 \<longrightarrow> ld32 m1 (boot_directory_at L + 4 * of_nat k) = 0x83 OR push_bit 22 (of_nat k)"
    using fill_entries [OF b, of 0 768 s] by auto
  obtain m2 where m2: "for_loop 0 256 (\<lambda>i. set_boot_pde L (i + 768) i) (s\<lparr>bmem := m1\<rparr>) = Some (s\<lparr>bmem := m2\<rparr>)"
    "eq_off (bytes_at (boot_directory_at L) 4096) m1 m2"
    "\<forall>k < 1024. ld32 m2 (boot_directory_at L + 4 * of_nat k) =
      (if 768 \<le> k then 0x83 OR push_bit 22 (of_nat (k - 768)) else ld32 m1 (boot_directory_at L + 4 * of_nat k))"
    using fill_entries [OF b, of 768 256 "s\<lparr>bmem := m1\<rparr>"] by auto
  have "boot_directory m2 (boot_directory_at L)" using m1(3) m2(3) by (auto simp: boot_directory_def boot_pde_def)
  then show ?thesis
    using m1(1) m2(1) eq_off_chain [OF m1(2) m2(2)] by (intro exI [of _ m2]) (simp add: fill_boot_directory_def)
qed

text \<open>
  The addresses the directory gives: below 3 GiB each translates to itself, above to itself
  minus \<open>KERNEL_BASE\<close>. The memory of the machine model of the kernel is the same, indexed
  by the addresses from \<open>KERNEL_BASE\<close> on.
\<close>

definition kernel_view :: "bytes \<Rightarrow> bytes" where
  "kernel_view m x = m (x - KERNEL_BASE)"

lemma phys32_kernel_view [simp]: "phys32 (kernel_view m) pa = ld32 m pa"
  by (simp add: phys32_def kernel_view_def ld32_def algebra_simps)

lemma boot_walk:
  assumes "boot_directory m D" "page_aligned D"
  shows "walk (kernel_view m) D va = Some (if va < KERNEL_BASE then va else va - KERNEL_BASE, False, True)"
proof -
  let ?k = "unat (dir_index va)"
  have k: "?k < 1024" by (rule dir_index_less)
  have hi: "KERNEL_BASE \<le> va \<longleftrightarrow> 768 \<le> ?k"
    unfolding dir_index_def unat_drop_bit_eq unfolding drop_bit_eq_div
    by (simp add: word_le_nat_alt div_le_mono [of "3221225472" _ 4194304] less_eq_div_iff_mult_less_eq)
  have "ld32 m (D + 4 * dir_index va) = boot_pde ?k"
    using assms(1) k by (auto simp: boot_directory_def dest: spec [of _ ?k])
  moreover have "bit (boot_pde ?k) 0" "bit (boot_pde ?k) 7" "\<not> bit (boot_pde ?k) 2" "bit (boot_pde ?k) 1"
  proof -
    have b: "bit (0x83 :: u32) 0" "bit (0x83 :: u32) 1" "bit (0x83 :: u32) 7" "\<not> bit (0x83 :: u32) 2"
      by (simp_all add: bit_iff_odd)
    then show "bit (boot_pde ?k) 0" "bit (boot_pde ?k) 7" "\<not> bit (boot_pde ?k) 2" "bit (boot_pde ?k) 1"
      by (simp_all add: boot_pde_def bit_or_iff bit_push_bit_iff del: bit_0)
  qed
  moreover have "(boot_pde ?k AND 0xffc00000) OR (va AND 0x3fffff) = (if va < KERNEL_BASE then va else va - KERNEL_BASE)"
  proof -
    have a: "(0x83 OR push_bit 22 x) AND 0xffc00000 = push_bit 22 (x :: u32)" for x
    proof -
      have "push_bit 22 x AND 0xffc00000 = push_bit 22 x"
        unfolding masks by (rule bit_word_eqI) (auto simp: bit_simps)
      then show ?thesis by (simp add: bit.conj_disj_distrib2)
    qed
    show ?thesis
    proof (cases "va < KERNEL_BASE")
      case True
      then have "push_bit 22 (dir_index va) OR (va AND 0x3fffff) = va"
        unfolding masks dir_index_def by (intro bit_word_eqI) (auto simp: bit_simps)
      moreover have "?k < 768" using True hi by (simp add: not_le [symmetric] del: KERNEL_BASE_def)
      ultimately show ?thesis using True by (simp add: boot_pde_def a del: KERNEL_BASE_def)
    next
      case False
      then have k768: "768 \<le> ?k" using hi by (simp only: not_less)
      then have "(of_nat (?k - 768) :: u32) + 1024 = dir_index va + 256"
        by (simp add: of_nat_diff)
      moreover have "push_bit 22 (x + 1024) = push_bit 22 (x :: u32)" for x by (simp add: push_bit_add)
      ultimately have "push_bit 22 (of_nat (?k - 768)) = push_bit 22 (dir_index va + 256)" by metis
      then show ?thesis
        using page_split [of "dir_index va" va] False k768 by (simp add: boot_pde_def a dir_index_def del: KERNEL_BASE_def)
    qed
  qed
  ultimately show ?thesis
    by (simp add: walk_def Let_def page_aligned_mask [OF assms(2)] del: bit_0 KERNEL_BASE_def)
qed

section \<open>Text output\<close>

text \<open>What the steps keep: the variables of the reader, and memory off the addresses \<open>X\<close>.\<close>

definition kept :: "u32 set \<Rightarrow> 'a exfat_machine_scheme \<Rightarrow> 'a exfat_machine_scheme \<Rightarrow> bool" where
  "kept X s t \<longleftrightarrow> eq_off X (bmem s) (bmem t) \<and> cursor t < 2000 \<and> exfat_boot_record t = exfat_boot_record s \<and>
     upcase_table t = upcase_table s \<and> drive_bytes_per_sector t = drive_bytes_per_sector s \<and> boot_cr0 t = boot_cr0 s"

lemma kept_paging: "kept X s t \<Longrightarrow> paging t \<longleftrightarrow> paging s"
  by (simp add: kept_def paging_def)

lemma kept_trans: "kept X s t \<Longrightarrow> kept X t u \<Longrightarrow> kept X s u"
  by (auto simp: kept_def intro: eq_off_chain)

lemma kept_mono: "kept X s t \<Longrightarrow> X \<subseteq> Y \<Longrightarrow> kept Y s t"
  by (auto simp: kept_def intro: eq_off_mono)

lemma cursor_bmem [simp]: "cursor (s\<lparr>bmem := m\<rparr>) = cursor s"
  by (simp add: cursor_def cursor_word_def)

lemma kept_bmem: "cursor s < 2000 \<Longrightarrow> eq_off X (bmem s) m \<Longrightarrow> kept X s (s\<lparr>bmem := m\<rparr>)"
  by (simp add: kept_def)

lemma shows_screen_kept:
  assumes "shows_screen s t s'" "cursor s' < 2000"
  shows "kept text_area s s'"
proof -
  have s': "s' = s\<lparr>bmem := bmem s', crtc_index := crtc_index s', crtc_reg := crtc_reg s'\<rparr>"
    using assms(1) by (simp add: shows_screen_def)
  from arg_cong [of _ _ exfat_boot_record, OF this] arg_cong [of _ _ upcase_table, OF this]
    arg_cong [of _ _ drive_bytes_per_sector, OF this] arg_cong [of _ _ boot_cr0, OF this]
  show ?thesis using assms(2) shows_screenD(2) [OF assms(1)] by (simp add: kept_def)
qed

text \<open>A format with at most \<open>n\<close> substitutions, all of them hexadecimal, and no backspaces.\<close>

fun format_ok :: "u8 list \<Rightarrow> nat \<Rightarrow> bool" where
  "format_ok [] n \<longleftrightarrow> True"
| "format_ok (c # cs) n \<longleftrightarrow>
     (if c \<noteq> 0x25 then c \<noteq> 8 \<and> c \<noteq> 127 \<and> format_ok cs n
      else case cs of [] \<Rightarrow> False | d # cs \<Rightarrow> d = 0x78 \<and> 0 < n \<and> format_ok cs (n - 1))"

lemma hex_visible: "list_all (\<lambda>c. c \<noteq> 8 \<and> c \<noteq> 127) (numeral_of 16 k n)"
proof -
  have "\<forall>c \<in> set hex_chars. c \<noteq> 8 \<and> c \<noteq> 127" "length hex_chars = 16" by (simp_all add: hex_chars_def)
  then have "digit i \<noteq> 8 \<and> digit i \<noteq> 127" if "i < 16" for i using that by (simp add: digit_def)
  then show ?thesis by (simp add: list_all_iff numeral_of_def)
qed

lemma format_ok_render:
  "format_ok cs (length args) \<Longrightarrow> \<exists>out. render cs args = Some out \<and> list_all (\<lambda>c. c \<noteq> 8 \<and> c \<noteq> 127) out"
proof (induction cs args rule: render.induct)
  case (2 c cs args)
  show ?case
  proof (cases "c = 0x25")
    case False
    with 2 show ?thesis by auto
  next
    case True
    with 2(3) obtain ds where cs: "cs = 0x78 # ds" "args \<noteq> []" "format_ok ds (length args - 1)"
      by (auto split: list.splits)
    then obtain a as where args: "args = a # as" by (cases args) simp_all
    have s: "subst_chars 0x78 args = Some (numeral_of 16 8 (unat a), as)" by (simp add: subst_chars_def args)
    obtain out where "render ds as = Some out" "list_all (\<lambda>c. c \<noteq> 8 \<and> c \<noteq> 127) out"
      using 2(2) [of "0x78" ds "(numeral_of 16 8 (unat a), as)" "numeral_of 16 8 (unat a)" as] True cs args s by auto
    with True cs s hex_visible [of 8 "unat a"] show ?thesis by auto
  qed
qed simp

text \<open>The literals of the program, in memory away from what it changes.\<close>

definition formats :: "(string \<times> nat) list" where
  "formats = [(''Starting stage2 boot...'' @ crlf, 0), (''Initializing the exFAT filesystem...'' @ crlf, 0),
     (''Loading kernel...'' @ crlf, 0), (''No kernel detected at /system/kernel'' @ crlf, 0),
     (''Loading system processes...'' @ crlf, 0), (''Loading VGA driver'' @ crlf, 0), (''Kernel Size: %x'' @ crlf, 1),
     (''System process does not exist'' @ crlf, 0), (''System process detected at %x. Passing info'' @ crlf, 1),
     ([CHR 0x0A] @ ''Memory Table:'' @ crlf, 0), (''Base             | Size             | Type'' @ crlf, 0),
     (''%x%x | %x%x | %x'' @ crlf, 5)]"

definition literals :: "string list" where
  "literals = map fst formats @ [''/system/kernel'', ''/system/vga'']"

definition literals_ok :: "stage2_layout \<Rightarrow> u32 set \<Rightarrow> bytes \<Rightarrow> bool" where
  "literals_ok L X m \<longleftrightarrow> (\<forall>x \<in> set literals. cstring m (literal_at L x) (text_bytes x) \<and>
     bytes_at (literal_at L x) (Suc (length (text_bytes x))) \<inter> X = {})"

lemma formats_ok: "(x, k) \<in> set formats \<Longrightarrow> format_ok (text_bytes x) k" "x \<in> set literals \<Longrightarrow> length (text_bytes x) < 100"
proof -
  have "list_all (\<lambda>(x, k). format_ok (text_bytes x) k) formats" "list_all (\<lambda>x. length (text_bytes x) < 100) literals"
    by code_simp+
  then show "(x, k) \<in> set formats \<Longrightarrow> format_ok (text_bytes x) k" "x \<in> set literals \<Longrightarrow> length (text_bytes x) < 100"
    by (auto simp: list_all_iff)
qed

lemma literals_ok_eq_off: "literals_ok L X m \<Longrightarrow> eq_off X m m' \<Longrightarrow> literals_ok L X m'"
  using cstring_eq_off [of m _ _ X m'] formats_ok(2) by (fastforce simp: literals_ok_def)

lemma literals_ok_kept: "literals_ok L X (bmem s) \<Longrightarrow> kept X s t \<Longrightarrow> literals_ok L X (bmem t)"
  using literals_ok_eq_off by (simp add: kept_def)

lemma say_kept:
  assumes "literals_ok L X (bmem s)" "text_area \<subseteq> X" "cursor s < 2000" "(x, length args) \<in> set formats"
  shows "\<exists>t. say L x args s = Some t \<and> kept text_area s t"
proof -
  have x: "x \<in> set literals" using assms(4) by (force simp: literals_def)
  then have c: "cstring (bmem s) (literal_at L x) (text_bytes x)"
      "bytes_at (literal_at L x) (Suc (length (text_bytes x))) \<subseteq> - text_area"
    using assms(1,2) by (auto simp: literals_ok_def)
  obtain out where out: "render (text_bytes x) args = Some out" "list_all (\<lambda>c. c \<noteq> 8 \<and> c \<noteq> 127) out"
    using format_ok_render [OF formats_ok(1) [OF assms(4)]] by blast
  have "say L x args s = outs vga_outb out s"
    using vga.print_loop_eq [of s "literal_at L x" 0 "text_bytes x" False args out] c out assms(3) formats_ok(2) [OF x]
    by (simp add: say_def print_def)
  moreover obtain t where t: "outs vga_outb out s = Some t" "shows_screen s (fold (type_char (color s)) out (screen_of s)) t" "cursor t < 2000"
    using outs_vga [OF assms(3) out(2)] by blast
  moreover have "kept text_area s t" by (rule shows_screen_kept [OF t(2,3)])
  ultimately show ?thesis by simp
qed

text \<open>The literals are in place, and the display takes characters.\<close>

definition ready :: "stage2_layout \<Rightarrow> u32 set \<Rightarrow> 'a exfat_machine_scheme \<Rightarrow> bool" where
  "ready L X s \<longleftrightarrow> literals_ok L X (bmem s) \<and> cursor s < 2000 \<and> text_area \<subseteq> X"

lemma ready_kept:
  assumes "ready L X s" "kept Y s t" "Y \<subseteq> X"
  shows "ready L X t"
proof -
  have "literals_ok L X (bmem t)"
    using literals_ok_kept [OF _ kept_mono [OF assms(2,3)]] assms(1) by (simp add: ready_def)
  with assms(1,2) show ?thesis by (simp add: ready_def kept_def)
qed

lemma say_ready:
  assumes "ready L X s" "(x, length args) \<in> set formats"
  obtains t where "say L x args s = Some t" "kept text_area s t" "ready L X t"
proof -
  have s: "literals_ok L X (bmem s)" "text_area \<subseteq> X" "cursor s < 2000" using assms(1) by (simp_all add: ready_def)
  obtain t where t: "say L x args s = Some t" "kept text_area s t" using say_kept [OF s assms(2)] by blast
  show ?thesis by (rule that [OF t ready_kept [OF assms(1) t(2) s(2)]])
qed

section \<open>The disk\<close>

text \<open>The machine with the file system mounted, and what the disk has to be like.\<close>

definition with_disk :: "(u64 \<Rightarrow> u8 list) \<Rightarrow> nat \<Rightarrow> 'a exfat_machine_scheme \<Rightarrow> 'a exfat_machine_scheme" where
  "with_disk dsk n s = with_boot_record (dsk (of_nat (0x20000 div n))) s"

definition mounted :: "(u64 \<Rightarrow> u8 list) \<Rightarrow> nat \<Rightarrow> 'a exfat_machine_scheme \<Rightarrow> 'a exfat_machine_scheme" where
  "mounted dsk n s = (let s' = with_disk dsk n s in
     s\<lparr>exfat_boot_record := exfat_boot_record s',
       upcase_table := upcase_from dsk s' n (root_sector dsk s' n) (map of_nat [0..<128])\<rparr>)"

lemma mounted_paging [simp]: "paging (mounted dsk n s) \<longleftrightarrow> paging s"
  by (simp add: paging_def mounted_def Let_def)

definition root_cluster :: "'a exfat_machine_scheme \<Rightarrow> nat" where
  "root_cluster s = unat (br_root_first_cluster (exfat_boot_record s))"

definition disk_ok :: "(u64 \<Rightarrow> u8 list) \<Rightarrow> nat \<Rightarrow> nat \<Rightarrow> 'a exfat_machine_scheme \<Rightarrow> bool" where
  "disk_ok dsk n g s \<longleftrightarrow> (let s' = with_disk dsk n s in
     sectors_of n dsk \<and> unat (drive_bytes_per_sector s) = n \<and> 512 \<le> n \<and> 32 dvd n \<and> geometry s' n g \<and>
     cluster_ok s' (root_cluster s') \<and>
     (\<forall>i. upcase_entry (root_sector dsk s' n) = Some i \<longrightarrow> cluster_ok s' (upcase_cluster (root_sector dsk s' n) i)) \<and>
     table_ok (upcase_table (mounted dsk n s)))"

text \<open>What a path leads to on the mounted file system.\<close>

definition has_file ::
  "(u64 \<Rightarrow> u8 list) \<Rightarrow> 'a exfat_machine_scheme \<Rightarrow> nat \<Rightarrow> nat \<Rightarrow> nat \<Rightarrow> string \<Rightarrow> u8 list option \<Rightarrow> bool" where
  "has_file dsk s n g D path r \<longleftrightarrow>
     resolves dsk s n g D (cluster_data dsk s n g (root_cluster s)) (components (text_bytes path)) r"

text \<open>All of this depends on the boot record, the table and the size of sectors only.\<close>

definition same_disk :: "'a exfat_machine_scheme \<Rightarrow> 'a exfat_machine_scheme \<Rightarrow> bool" where
  "same_disk s t \<longleftrightarrow> exfat_boot_record t = exfat_boot_record s \<and> upcase_table t = upcase_table s \<and>
     drive_bytes_per_sector t = drive_bytes_per_sector s"

lemma same_disk_layout:
  assumes "same_disk s t"
  shows "geometry t = geometry s" "cluster_ok t = cluster_ok s" "cluster_data dsk t = cluster_data dsk s"
    "clusters_data dsk t = clusters_data dsk s" "fat_hit t = fat_hit s" "fat_entry dsk t = fat_entry dsk s"
    "root_cluster t = root_cluster s"
proof -
  show data: "cluster_data dsk t = cluster_data dsk s"
    using assms by (simp add: fun_eq_iff same_disk_def shift_def cluster_sector_def cluster_data_def)
  show "clusters_data dsk t = clusters_data dsk s" by (simp add: fun_eq_iff clusters_data_def data)
qed (use assms in \<open>simp_all add: fun_eq_iff same_disk_def geometry_def shift_def cluster_ok_def cluster_sector_def
      fat_hit_def fat_entry_def read_position_def fat_position_def fat_sector_def root_cluster_def\<close>)

lemma same_disk_upcase:
  assumes "same_disk s t"
  shows "root_sector dsk t = root_sector dsk s" "upcase_from dsk t = upcase_from dsk s"
  using assms by (simp_all add: fun_eq_iff same_disk_def root_sector_def upcase_from_def cluster_sector_def shift_def split: option.splits)

lemma same_disk_chain:
  assumes "same_disk s t"
  shows "chain_ok dsk t n g cs = chain_ok dsk s n g cs"
  using same_disk_layout [OF assms] by (induction dsk s n g cs rule: chain_ok.induct) simp_all

lemma same_disk_file:
  assumes "same_disk s t"
  shows "file_on_disk dsk t n g e cs = file_on_disk dsk s n g e cs"
  unfolding file_on_disk_def same_disk_layout [OF assms] same_disk_chain [OF assms] ..

lemma same_disk_resolves:
  assumes "resolves dsk s n g D d nms r" "same_disk s t"
  shows "resolves dsk t n g D d nms r"
  using assms
proof (induction rule: resolves.induct)
  case (step d its nm e cs nms r)
  have "resolves dsk t n g D (clusters_data dsk t n g cs) nms r"
    using step by (simp add: same_disk_layout(4) [OF step.prems])
  with step show ?case by (intro resolves.step [of t]) (simp_all add: same_disk_def same_disk_file [OF step.prems])
next
  case (nothing d its nm e nms)
  then show ?case by (intro resolves.nothing [of t]) (simp_all add: same_disk_def same_disk_file [OF nothing.prems])
next
  case (missing d its nm nms)
  then show ?case by (intro resolves.missing [of t]) (simp_all add: same_disk_def)
qed (rule resolves.found)

lemma same_disk_has_file: "has_file dsk s n g D path r \<Longrightarrow> same_disk s t \<Longrightarrow> has_file dsk t n g D path r"
  unfolding has_file_def by (simp only: same_disk_layout(3,7) [of s t] same_disk_resolves)

lemma kept_same_disk: "kept X s t \<Longrightarrow> same_disk s t"
  by (simp add: kept_def same_disk_def)

lemma resolves_length:
  assumes "resolves dsk s n g D d nms r" "sectors_of n dsk" "0 < g * n" "0 < length d" "length d \<le> D"
  shows "case r of None \<Rightarrow> True | Some d' \<Rightarrow> 0 < length d' \<and> length d' \<le> D"
  using assms by (induction rule: resolves.induct) (simp_all add: length_clusters_data)

section \<open>The areas of memory\<close>

definition stage2_area :: "exfat_frame \<Rightarrow> stage2_layout \<Rightarrow> nat \<Rightarrow> nat \<Rightarrow> nat \<Rightarrow> u32 set" where
  "stage2_area F L n g D = text_area \<union> init_area F n \<union> read_area F n g \<union> bytes_at 0x100000 D \<union>
     bytes_at (mem_blocks_at L) 1536 \<union> bytes_at (boot_directory_at L) 4096"

text \<open>
  There are \<open>D\<close> bytes at 1 MiB for the kernel and the process, away from the screen, the
  buffers, the list of ranges and the directory.
\<close>

definition stage2_room :: "exfat_frame \<Rightarrow> stage2_layout \<Rightarrow> nat \<Rightarrow> nat \<Rightarrow> nat \<Rightarrow> bool" where
  "stage2_room F L n g D \<longleftrightarrow> init_room F n \<and> room F n g 0x100000 D {} \<and>
     unat (mem_blocks_at L) + 1536 \<le> 0x10000 \<and> page_aligned (boot_directory_at L) \<and>
     unat (boot_directory_at L) + 4096 \<le> 2 ^ 32 \<and>
     bytes_at 0x100000 D \<inter> (text_area \<union> bytes_at (mem_blocks_at L) 1536 \<union> bytes_at (boot_directory_at L) 4096) = {} \<and>
     bytes_at (mem_blocks_at L) 1536 \<inter> (text_area \<union> bytes_at (boot_directory_at L) 4096) = {}"

text \<open>Loading a file behind the first \<open>k\<close> bytes.\<close>

lemma read_path:
  assumes B: "disk_bios B dsk" "sectors_of n dsk" and g: "geometry s n g" "cluster_ok s (root_cluster s)" "table_ok (upcase_table s)"
    and rm: "stage2_room F L n g D" "k + g * n \<le> D" and s: "ready L (stage2_area F L n g D) s"
    and f: "path \<in> set literals" "has_file dsk s n g (D - k) path r" and off: "\<not> paging s"
  shows "\<exists>m. read_file_exfat B F (literal_at L path) (0x100000 + of_nat k) s =
      Some (case r of None \<Rightarrow> 0 | Some d \<Rightarrow> of_nat (length d), s\<lparr>bmem := m\<rparr>) \<and>
    (case r of None \<Rightarrow> True | Some d \<Rightarrow> mem_list m (0x100000 + of_nat k) (length d) = d \<and> 0 < length d \<and> k + length d \<le> D) \<and>
    eq_off (bytes_at (0x100000 + of_nat k) (D - k) \<union> read_area F n g) (bmem s) m"
proof -
  let ?a = "literal_at L path" and ?p = "text_bytes path"
  have D: "D < 2 ^ 31" using rm(1) by (simp add: stage2_room_def room_def)
  have sub: "bytes_at (0x100000 + of_nat k) (D - k) \<subseteq> bytes_at 0x100000 D" using rm(2) D by (intro bytes_at_sub) simp_all
  have lit: "cstring (bmem s) ?a ?p" "bytes_at ?a (Suc (length ?p)) \<inter> stage2_area F L n g D = {}"
    using s f(1) by (auto simp: ready_def literals_ok_def)
  have "room F n g (0x100000 + of_nat k) (D - k) (bytes_at ?a (length ?p + 1))"
    using rm sub lit(2) by (auto simp: stage2_room_def room_def stage2_area_def)
  moreover have "length ?p < 2 ^ 31" using formats_ok(2) [OF f(1)] by simp
  moreover have "g * n \<le> D - k" using rm(2) by simp
  ultimately obtain m where m: "read_file_exfat B F ?a (0x100000 + of_nat k) s =
      Some (case r of None \<Rightarrow> 0 | Some d \<Rightarrow> of_nat (length d), s\<lparr>bmem := m\<rparr>)"
      "case r of None \<Rightarrow> True | Some d \<Rightarrow> mem_list m (0x100000 + of_nat k) (length d) = d"
      "eq_off (bytes_at (0x100000 + of_nat k) (D - k) \<union> read_area F n g) (bmem s) m"
    using read_file_exfat_mem [OF B g(1) _ _ g(3) _ lit(1), of F "0x100000 + of_nat k" "D - k" r] g(2) f(2) off
    unfolding has_file_def root_cluster_def by blast
  have "case r of None \<Rightarrow> True | Some d \<Rightarrow> 0 < length d \<and> length d \<le> D - k"
    using resolves_length [OF f(2) [unfolded has_file_def] B(2)] g(1) rm(2) length_cluster_data [OF B(2), of s]
    by (auto simp: geometry_def)
  with m show ?thesis using rm(2) by (intro exI [of _ m]) (auto split: option.splits)
qed

section \<open>The steps\<close>

lemma clear_display:
  "kept text_area s (set_color 0 0xf (set_cursor_pos 0 0 (reset_display s)))"
proof -
  define f where "f = fold (\<lambda>i. display_char 0x20 (i sdiv 80) (i smod 80)) (map int [0..<2000]) s"
  have sh: "shows_screen s (screen_of s\<lparr>scr_cells := (\<lambda>i. if i < 2000 then glyph (color s) blank else scr_cells (screen_of s) i),
      scr_pos := 0\<rparr>) f"
    using fill_shows [of 2000 s] by (simp add: f_def)
  have home: "set_cursor_pos 0 0 u = put_cursor (int 0) u" for u :: "'a exfat_machine_scheme" by (simp add: set_cursor_pos_eq)
  have c: "cursor (put_cursor (int 0) u) = 0" for u :: "'a exfat_machine_scheme" using cursor_put [of "int 0" u] by simp
  have "shows_screen s (screen_of (put_cursor (int 0) f)\<lparr>scr_pos := 0\<rparr>) (put_cursor (int 0) (put_cursor (int 0) f))"
    by (rule shows_screen_trans [OF shows_screen_trans [OF sh put_cursor_shows] put_cursor_shows]) simp_all
  then have "kept text_area s (put_cursor (int 0) (put_cursor (int 0) f))"
    by (rule shows_screen_kept) (simp add: c)
  moreover have "reset_display s = put_cursor (int 0) f" by (simp only: reset_display_def f_def home)
  ultimately show ?thesis
    unfolding set_color_def home kept_def by (simp add: cursor_def cursor_word_def)
qed

lemma with_disk_geometry: "geometry (with_disk dsk n s) = geometry (mounted dsk n s)" "cluster_ok (with_disk dsk n s) = cluster_ok (mounted dsk n s)"
  "root_cluster (with_disk dsk n s) = root_cluster (mounted dsk n s)"
  by (simp_all add: fun_eq_iff mounted_def with_disk_def with_boot_record_def Let_def geometry_def shift_def cluster_ok_def
      cluster_sector_def root_cluster_def)

lemma mount_disk:
  fixes s :: "'a stage2_machine_scheme"
  assumes B: "disk_bios B dsk" and d: "disk_ok dsk n g s" and rm: "stage2_room F L n g D"
    and k2: "kept (stage2_area F L n g D) s s2" and off: "\<not> paging s"
  shows "\<exists>s3. init_exfat B F s2 = Some s3 \<and> kept (stage2_area F L n g D) (mounted dsk n s) s3"
proof -
  let ?W = "stage2_area F L n g D"
  let ?s' = "with_disk dsk n s"
  have same: "same_disk ?s' (with_disk dsk n s2)"
    using k2 by (simp add: same_disk_def with_disk_def with_boot_record_def kept_def)
  have n: "unat (drive_bytes_per_sector s2) = n" "sectors_of n dsk" "512 \<le> n" "n = 32 * (n div 32)"
    using d k2 by (simp_all add: disk_ok_def Let_def kept_def)
  define u where "u = upcase_from dsk ?s' n (root_sector dsk ?s' n) (map of_nat [0..<128])"
  have sub: "init_area F n \<subseteq> ?W" by (auto simp: stage2_area_def)
  obtain m where m: "init_exfat B F s2 = Some (s2\<lparr>bmem := m, exfat_boot_record := exfat_boot_record (with_disk dsk n s2), upcase_table := u\<rparr>)"
      "eq_off (init_area F n) (bmem s2) m"
    using init_exfat_mem [OF B, of s2 F "n div 32" "with_disk dsk n s2" g] n rm d off kept_paging [OF k2]
    unfolding n(1) same_disk_layout [OF same] same_disk_upcase [OF same] u_def with_disk_def [symmetric] root_cluster_def [symmetric]
      same_disk_layout(7) [OF same, unfolded root_cluster_def]
    by (auto simp: disk_ok_def Let_def stage2_room_def root_cluster_def)
  define s3 where "s3 = s2\<lparr>bmem := m, exfat_boot_record := exfat_boot_record (with_disk dsk n s2), upcase_table := u\<rparr>"
  have off3: "eq_off ?W (bmem s) (bmem s3)"
    using k2 eq_off_chain [OF _ eq_off_mono [OF m(2) sub]] by (simp add: s3_def kept_def)
  have k3: "kept ?W (mounted dsk n s) s3"
    using off3 k2 same by (simp add: kept_def mounted_def Let_def u_def s3_def same_disk_def cursor_def cursor_word_def)
  with m(1) show ?thesis by (simp add: s3_def)
qed

text \<open>From the start to the kernel in memory.\<close>

lemma load_kernel_mem:
  fixes s :: "'a stage2_machine_scheme"
  assumes B: "disk_bios B dsk" and d: "disk_ok dsk n g s" and rm: "stage2_room F L n g D" "g * n \<le> D"
    and lit: "literals_ok L (stage2_area F L n g D) (bmem s)"
    and f: "has_file dsk (mounted dsk n s) n g D ''/system/kernel'' r" and off: "\<not> paging s"
  shows "\<exists>t. load_kernel B F L s = Some (case r of None \<Rightarrow> 0 | Some k \<Rightarrow> of_nat (length k), t) \<and>
    (case r of None \<Rightarrow> True | Some k \<Rightarrow> mem_list (bmem t) 0x100000 (length k) = k \<and> 0 < length k \<and> length k \<le> D) \<and>
    kept (stage2_area F L n g D) (mounted dsk n s) t"
proof -
  let ?W = "stage2_area F L n g D"
  let ?c = "set_color 0 0xf (set_cursor_pos 0 0 (reset_display s))"
  have sub: "text_area \<subseteq> ?W" "init_area F n \<subseteq> ?W" "bytes_at 0x100000 D \<union> read_area F n g \<subseteq> ?W"
    by (auto simp: stage2_area_def)
  have kc: "kept ?W s ?c" by (rule kept_mono [OF clear_display sub(1)])
  have rc: "ready L ?W ?c"
    using literals_ok_kept [OF lit kc] sub(1) kc by (simp add: ready_def kept_def)
  obtain s1 where s1: "say L (''Starting stage2 boot...'' @ crlf) [] ?c = Some s1" "kept text_area ?c s1" "ready L ?W s1"
    by (rule say_ready [OF rc, of "''Starting stage2 boot...'' @ crlf" "[]"]) (simp_all add: formats_def)
  obtain s2 where s2: "say L (''Initializing the exFAT filesystem...'' @ crlf) [] s1 = Some s2" "kept text_area s1 s2" "ready L ?W s2"
    by (rule say_ready [OF s1(3), of "''Initializing the exFAT filesystem...'' @ crlf" "[]"]) (simp_all add: formats_def)
  have k2: "kept ?W s s2"
    using kept_trans [OF kc kept_trans [OF kept_mono [OF s1(2) sub(1)] kept_mono [OF s2(2) sub(1)]]] .
  obtain s3 where s3: "init_exfat B F s2 = Some s3" "kept ?W (mounted dsk n s) s3"
    using mount_disk [OF B d rm(1) k2 off] by blast
  have n: "sectors_of n dsk" using d by (simp add: disk_ok_def Let_def)
  have r3: "ready L ?W s3"
    using literals_ok_eq_off [OF lit, of "bmem s3"] sub(1) s3(2) by (simp add: ready_def kept_def mounted_def Let_def)
  obtain s4 where s4: "say L (''Loading kernel...'' @ crlf) [] s3 = Some s4" "kept text_area s3 s4" "ready L ?W s4"
    by (rule say_ready [OF r3, of "''Loading kernel...'' @ crlf" "[]"]) (simp_all add: formats_def)
  have k4: "kept ?W (mounted dsk n s) s4" using kept_trans [OF s3(2) kept_mono [OF s4(2) sub(1)]] .
  note sd = kept_same_disk [OF k4]
  have g4: "geometry s4 n g" "cluster_ok s4 (root_cluster s4)" "table_ok (upcase_table s4)"
    using d sd unfolding disk_ok_def Let_def with_disk_geometry same_disk_layout [OF sd] by (simp_all add: same_disk_def)
  obtain m5 where m5: "read_file_exfat B F (literal_at L ''/system/kernel'') 0x100000 s4 =
      Some (case r of None \<Rightarrow> 0 | Some k \<Rightarrow> of_nat (length k), s4\<lparr>bmem := m5\<rparr>)"
      "case r of None \<Rightarrow> True | Some k \<Rightarrow> mem_list m5 0x100000 (length k) = k \<and> 0 < length k \<and> length k \<le> D"
      "eq_off (bytes_at 0x100000 D \<union> read_area F n g) (bmem s4) m5"
    using read_path [OF B n g4 rm(1) _ s4(3) _ same_disk_has_file, of 0 "''/system/kernel''" "mounted dsk n s" r] rm(2) f sd off kept_paging [OF k4]
    by (cases r) (auto simp: literals_def)
  have "kept ?W s4 (s4\<lparr>bmem := m5\<rparr>)"
    by (rule kept_bmem [OF _ eq_off_mono [OF m5(3) sub(3)]]) (use s4(3) in \<open>simp add: ready_def\<close>)
  moreover have "load_kernel B F L s = Some (case r of None \<Rightarrow> 0 | Some k \<Rightarrow> of_nat (length k), s4\<lparr>bmem := m5\<rparr>)"
    using s1(1) s2(1) s3(1) s4(1) m5(1) by (simp add: load_kernel_def Let_def)
  ultimately show ?thesis
    using m5(2) kept_trans [OF k4] by (intro exI [of _ "s4\<lparr>bmem := m5\<rparr>"]) (simp split: option.splits)
qed

text \<open>The process behind the kernel, whose \<open>k\<close> bytes stay as they are.\<close>

definition process_area :: "exfat_frame \<Rightarrow> nat \<Rightarrow> nat \<Rightarrow> nat \<Rightarrow> nat \<Rightarrow> u32 set" where
  "process_area F n g k D = text_area \<union> read_area F n g \<union> bytes_at (0x100000 + of_nat k) (D - k)"

lemma process_area_sub:
  assumes "stage2_room F L n g D" "k \<le> D"
  shows "process_area F n g k D \<subseteq> stage2_area F L n g D" "bytes_at 0x100000 k \<inter> process_area F n g k D = {}"
proof -
  have D: "D < 2 ^ 31" using assms(1) by (simp add: stage2_room_def room_def)
  have sub: "bytes_at (0x100000 + of_nat k) (D - k) \<subseteq> bytes_at 0x100000 D" "bytes_at 0x100000 k \<subseteq> bytes_at 0x100000 D"
    using bytes_at_sub [of 0 k D "0x100000"] assms(2) D by (auto intro!: subsetD [OF bytes_at_sub [of k "D - k" D "0x100000"]])
  then show "process_area F n g k D \<subseteq> stage2_area F L n g D"
    by (auto simp: process_area_def stage2_area_def)
  have "unat (0x100000 + of_nat k :: u32) = 0x100000 + k"
    using unat_add_of_nat [of "0x100000" k] assms(2) D by simp
  then have "bytes_at 0x100000 k \<inter> bytes_at (0x100000 + of_nat k) (D - k) = {}"
    using assms(2) D by (auto simp: bytes_at_unat)
  then show "bytes_at 0x100000 k \<inter> process_area F n g k D = {}"
    using assms(1) sub(2) by (auto simp: process_area_def stage2_room_def room_def read_area_def)
qed

lemma load_process_mem:
  fixes s :: "'a stage2_machine_scheme"
  assumes B: "disk_bios B dsk" "sectors_of n dsk" and g: "geometry s n g" "cluster_ok s (root_cluster s)" "table_ok (upcase_table s)"
    and rm: "stage2_room F L n g D" "k + g * n \<le> D" and s: "ready L (stage2_area F L n g D) s"
    and f: "has_file dsk s n g (D - k) ''/system/vga'' r" and off: "\<not> paging s"
  shows "\<exists>t. load_process B F L (of_nat k) s = Some t \<and> kept (process_area F n g k D) s t \<and>
    (case r of None \<Rightarrow> True | Some d \<Rightarrow> mem_list (bmem t) (0x100000 + of_nat k) (length d) = d \<and> k + length d \<le> D)"
proof -
  let ?W = "stage2_area F L n g D" and ?P = "process_area F n g k D"
  have k: "k \<le> D" using rm(2) by simp
  note sub = process_area_sub(1) [OF rm(1) k]
  have tx: "text_area \<subseteq> ?P" by (auto simp: process_area_def)
  obtain s1 where s1: "say L (''Loading system processes...'' @ crlf) [] s = Some s1" "kept text_area s s1" "ready L ?W s1"
    by (rule say_ready [OF s, of "''Loading system processes...'' @ crlf" "[]"]) (simp_all add: formats_def)
  obtain s2 where s2: "say L (''Loading VGA driver'' @ crlf) [] s1 = Some s2" "kept text_area s1 s2" "ready L ?W s2"
    by (rule say_ready [OF s1(3), of "''Loading VGA driver'' @ crlf" "[]"]) (simp_all add: formats_def)
  obtain s3 where s3: "say L (''Kernel Size: %x'' @ crlf) [of_nat k] s2 = Some s3" "kept text_area s2 s3" "ready L ?W s3"
    by (rule say_ready [OF s2(3), of "''Kernel Size: %x'' @ crlf" "[of_nat k]"]) (simp_all add: formats_def)
  have k3: "kept text_area s s3" using kept_trans [OF s1(2) kept_trans [OF s2(2) s3(2)]] .
  note sd = kept_same_disk [OF k3]
  have g3: "geometry s3 n g" "cluster_ok s3 (root_cluster s3)" "table_ok (upcase_table s3)"
    using g sd unfolding same_disk_layout [OF sd] by (simp_all add: same_disk_def)
  obtain m where m: "read_file_exfat B F (literal_at L ''/system/vga'') (0x100000 + of_nat k) s3 =
      Some (case r of None \<Rightarrow> 0 | Some d \<Rightarrow> of_nat (length d), s3\<lparr>bmem := m\<rparr>)"
      "case r of None \<Rightarrow> True | Some d \<Rightarrow> mem_list m (0x100000 + of_nat k) (length d) = d \<and> 0 < length d \<and> k + length d \<le> D"
      "eq_off (bytes_at (0x100000 + of_nat k) (D - k) \<union> read_area F n g) (bmem s3) m"
    using read_path [OF B g3 rm s3(3) _ same_disk_has_file [OF f sd]] off kept_paging [OF k3] by (auto simp: literals_def)
  have k4: "kept ?P s3 (s3\<lparr>bmem := m\<rparr>)"
    by (rule kept_bmem [OF _ eq_off_mono [OF m(3)]]) (use s3(3) in \<open>auto simp: ready_def process_area_def\<close>)
  define x where "x = (if (case r of None \<Rightarrow> 0 | Some d \<Rightarrow> of_nat (length d)) = (0 :: u32)
    then (''System process does not exist'' @ crlf, []) else (''System process detected at %x. Passing info'' @ crlf, [0x100000 + of_nat k :: u32]))"
  have x: "(fst x, length (snd x)) \<in> set formats" by (simp add: x_def formats_def)
  obtain t where t: "say L (fst x) (snd x) (s3\<lparr>bmem := m\<rparr>) = Some t" "kept text_area (s3\<lparr>bmem := m\<rparr>) t"
    by (rule say_ready [OF ready_kept [OF s3(3) k4 sub] x])
  have "kept ?P s t"
    using kept_trans [OF kept_mono [OF k3 tx] kept_trans [OF k4 kept_mono [OF t(2) tx]]] .
  moreover have "load_process B F L (of_nat k) s = Some t"
    using s1(1) s2(1) s3(1) m(1) t(1) by (auto simp: load_process_def x_def split: if_splits)
  moreover have "case r of None \<Rightarrow> True | Some d \<Rightarrow> mem_list (bmem t) (0x100000 + of_nat k) (length d) = d \<and> k + length d \<le> D"
  proof (cases r)
    case (Some d)
    have D: "D < 2 ^ 31" using rm(1) by (simp add: stage2_room_def room_def)
    have d: "mem_list m (0x100000 + of_nat k) (length d) = d" "k + length d \<le> D" using m(2) Some by simp_all
    have "bytes_at (0x100000 + of_nat k) (length d) \<subseteq> bytes_at 0x100000 D" using d(2) D by (intro bytes_at_sub) simp_all
    then have "mem_list (bmem t) (0x100000 + of_nat k) (length d) = mem_list m (0x100000 + of_nat k) (length d)"
      using rm(1) d(2) D t(2) by (intro mem_list_eq_off [of text_area]) (auto simp: kept_def stage2_room_def)
    with Some d show ?thesis by simp
  qed simp
  ultimately show ?thesis by blast
qed

text \<open>The list of memory ranges and the table on the screen.\<close>

lemma show_memory_mem:
  fixes s :: "'a stage2_machine_scheme"
  assumes B: "e820_bios B cont rs" "rs \<noteq> []" and rm: "stage2_room F L n g D" and s: "ready L (stage2_area F L n g D) s"
    and off: "\<not> paging s"
  shows "\<exists>t. show_memory B L s = Some t \<and> kept (text_area \<union> bytes_at (mem_blocks_at L) 1536) s t \<and>
    (\<forall>i < min 64 (length rs). same_range (load_range (bmem t) (mem_blocks_at L + 24 * of_nat i)) (rs ! i))"
proof -
  let ?W = "stage2_area F L n g D" and ?M = "bytes_at (mem_blocks_at L) 1536"
  have sub: "?M \<subseteq> ?W" by (auto simp: stage2_area_def)
  obtain m where m: "bios_mem_scan B (mem_blocks_at L) 64 s = Some (min 64 (length rs), s\<lparr>bmem := m\<rparr>)"
    "\<forall>i < min 64 (length rs). same_range (load_range m (mem_blocks_at L + 24 * of_nat i)) (rs ! i)"
    "eq_off ?M (bmem s) m"
    using bios_mem_scan_mem [OF B, of 64 "mem_blocks_at L" s] rm off by (auto simp: stage2_room_def)
  have k1: "kept ?M s (s\<lparr>bmem := m\<rparr>)" by (rule kept_bmem [OF _ m(3)]) (use s in \<open>simp add: ready_def\<close>)
  obtain s2 where s2: "say L ([CHR 0x0A] @ ''Memory Table:'' @ crlf) [] (s\<lparr>bmem := m\<rparr>) = Some s2"
    "kept text_area (s\<lparr>bmem := m\<rparr>) s2" "ready L ?W s2"
    by (rule say_ready [OF ready_kept [OF s k1 sub], of "[CHR 0x0A] @ ''Memory Table:'' @ crlf" "[]"]) (simp_all add: formats_def)
  obtain s3 where s3: "say L (''Base             | Size             | Type'' @ crlf) [] s2 = Some s3" "kept text_area s2 s3" "ready L ?W s3"
    by (rule say_ready [OF s2(3), of "''Base             | Size             | Type'' @ crlf" "[]"]) (simp_all add: formats_def)
  have k3: "kept text_area (s\<lparr>bmem := m\<rparr>) s3" using kept_trans [OF s2(2) s3(2)] .
  let ?P = "\<lambda>_ :: nat. \<lambda>u. kept text_area (s\<lparr>bmem := m\<rparr>) u \<and> ready L ?W u"
  have "\<exists>t. for_loop 0 (min 64 (length rs)) (show_range L) s3 = Some t \<and> ?P (min 64 (length rs)) t"
  proof (rule for_loop_rule)
    show "?P 0 s3" using k3 s3(3) by simp
  next
    fix j u assume u: "?P j u"
    define args where "args = (let q = load_range (bmem u) (mem_blocks_at L + 24 * of_nat j) in
      [ar_base_high q, ar_base_low q, ar_size_high q, ar_size_low q, ar_type q])"
    have "(''%x%x | %x%x | %x'' @ crlf, length args) \<in> set formats" by (simp add: formats_def args_def Let_def)
    then obtain t where t: "say L (''%x%x | %x%x | %x'' @ crlf) args u = Some t" "kept text_area u t" "ready L ?W t"
      using say_ready u by blast
    have "show_range L j u = Some t" using t(1) by (simp add: show_range_def args_def Let_def)
    with t u show "\<exists>t. show_range L j u = Some t \<and> ?P (Suc j) t" using kept_trans by blast
  qed simp
  then obtain t where t: "for_loop 0 (min 64 (length rs)) (show_range L) s3 = Some t" "kept text_area (s\<lparr>bmem := m\<rparr>) t" by blast
  have "same_range (load_range (bmem t) (mem_blocks_at L + 24 * of_nat i)) (rs ! i)" if i: "i < min 64 (length rs)" for i
  proof -
    have "bytes_at (mem_blocks_at L + of_nat (24 * i)) 24 \<subseteq> ?M" using i by (intro bytes_at_sub) simp_all
    then have "load_range (bmem t) (mem_blocks_at L + 24 * of_nat i) = load_range m (mem_blocks_at L + 24 * of_nat i)"
      using t(2) rm by (intro load_range_eq_off [of text_area]) (auto simp: kept_def stage2_room_def)
    with m(2) i show ?thesis by simp
  qed
  moreover have "show_memory B L s = Some t" using m(1) s2(1) s3(1) t(1) by (simp add: show_memory_def)
  moreover have "kept (text_area \<union> ?M) s t"
    using kept_trans [OF kept_mono [OF k1] kept_mono [OF t(2)], of "text_area \<union> ?M"] by simp
  ultimately show ?thesis by blast
qed

section \<open>The second stage\<close>

lemma mounted_ok:
  fixes s t :: "'a stage2_machine_scheme"
  assumes "disk_ok dsk n g s" "kept X (mounted dsk n s) t"
  shows "sectors_of n dsk" "geometry t n g" "cluster_ok t (root_cluster t)" "table_ok (upcase_table t)"
proof -
  note sd = kept_same_disk [OF assms(2)]
  show "sectors_of n dsk" using assms(1) by (simp add: disk_ok_def Let_def)
  show "geometry t n g" "cluster_ok t (root_cluster t)" "table_ok (upcase_table t)"
    using assms(1) sd unfolding disk_ok_def Let_def with_disk_geometry same_disk_layout [OF sd] by (simp_all add: same_disk_def)
qed

text \<open>
  The stages up to \<open>init_vbe\<close>: the kernel in \<open>s1\<close>, the process behind it in \<open>s2\<close>, the list
  of ranges in \<open>s3\<close>, the directory in \<open>m\<close>.
\<close>

lemma stage2_stages:
  fixes s :: "'a stage2_machine_scheme"
  assumes "disk_bios B dsk" "e820_bios B cont rs" "rs \<noteq> []" "disk_ok dsk n g s" "stage2_room F L n g D"
    "literals_ok L (stage2_area F L n g D) (bmem s)"
    "has_file dsk (mounted dsk n s) n g D ''/system/kernel'' (Some k)" "length k + g * n \<le> D"
    "has_file dsk (mounted dsk n s) n g (D - length k) ''/system/vga'' r" "\<not> paging s"
  obtains s1 s2 s3 :: "'a stage2_machine_scheme" and m where
    "stage2_to_video B F L s = Some (True, boot_enable_paging (boot_directory_at L) (s3\<lparr>bmem := m\<rparr>))"
    "mem_list (bmem s1) 0x100000 (length k) = k" "eq_off (stage2_area F L n g D) (bmem s) (bmem s1)"
    "case r of None \<Rightarrow> True | Some d \<Rightarrow> mem_list (bmem s2) (0x100000 + of_nat (length k)) (length d) = d \<and> length k + length d \<le> D"
    "eq_off (process_area F n g (length k) D) (bmem s1) (bmem s2)"
    "\<forall>i < min 64 (length rs). same_range (load_range (bmem s3) (mem_blocks_at L + 24 * of_nat i)) (rs ! i)"
    "eq_off (text_area \<union> bytes_at (mem_blocks_at L) 1536) (bmem s2) (bmem s3)"
    "boot_directory m (boot_directory_at L)" "eq_off (bytes_at (boot_directory_at L) 4096) (bmem s3) m"
proof -
  let ?W = "stage2_area F L n g D" and ?M = "bytes_at (mem_blocks_at L) 1536"
  note rm = assms(5)
  have D: "D < 2 ^ 31" and kD: "length k \<le> D" using rm assms(8) by (simp_all add: stage2_room_def room_def)
  obtain s1 where s1: "load_kernel B F L s = Some (of_nat (length k), s1)" "mem_list (bmem s1) 0x100000 (length k) = k"
      "0 < length k" "kept ?W (mounted dsk n s) s1"
    using load_kernel_mem [OF assms(1,4) rm _ assms(6,7,10)] assms(8) by auto
  have off1: "eq_off ?W (bmem s) (bmem s1)" using s1(4) by (simp add: kept_def mounted_def Let_def)
  have ok: "ready L ?W s1" using literals_ok_eq_off [OF assms(6) off1] s1(4) by (auto simp: ready_def kept_def stage2_area_def)
  have off2: "\<not> paging s1" using kept_paging [OF s1(4)] assms(10) by simp
  obtain s2 where s2: "load_process B F L (of_nat (length k)) s1 = Some s2" "kept (process_area F n g (length k) D) s1 s2"
      "case r of None \<Rightarrow> True | Some d \<Rightarrow> mem_list (bmem s2) (0x100000 + of_nat (length k)) (length d) = d \<and> length k + length d \<le> D"
    using load_process_mem [OF assms(1) mounted_ok [OF assms(4) s1(4)] rm assms(8) ok
        same_disk_has_file [OF assms(9) kept_same_disk [OF s1(4)]] off2] by blast
  obtain s3 where s3: "show_memory B L s2 = Some s3" "kept (text_area \<union> ?M) s2 s3"
      "\<forall>i < min 64 (length rs). same_range (load_range (bmem s3) (mem_blocks_at L + 24 * of_nat i)) (rs ! i)"
    using show_memory_mem [OF assms(2,3) rm ready_kept [OF ok s2(2) process_area_sub(1) [OF rm kD]]]
      off2 kept_paging [OF s2(2)] by blast
  obtain m where m: "fill_boot_directory L s3 = Some (s3\<lparr>bmem := m\<rparr>)" "boot_directory m (boot_directory_at L)"
      "eq_off (bytes_at (boot_directory_at L) 4096) (bmem s3) m"
    using fill_boot_directory_mem [of L s3] rm by (auto simp: stage2_room_def)
  let ?t = "boot_enable_paging (boot_directory_at L) (s3\<lparr>bmem := m\<rparr>)"
  have "of_nat (length k) \<noteq> (0 :: u32)" using s1(3) kD D unat_of_nat_u32 [of "length k"] by auto
  then have st: "stage2_to_video B F L s = Some (True, ?t)"
    using s1(1) s2(1) s3(1) m(1) by (simp add: stage2_to_video_def)
  show thesis
    by (rule that [OF st s1(2) off1 s2(3) _ s3(3) _ m(2,3)]) (use s2(2) s3(2) in \<open>simp_all add: kept_def\<close>)
qed

lemma stage2_after_video:
  "stage2_to_video B F L s = Some (True, t) \<Longrightarrow> stage2 B F V L s = map_option (Pair Kernel_jump) (init_vbe B V t)"
  by (cases "init_vbe B V t") (simp_all add: stage2_def)

lemma stage2_hands_over_mem:
  fixes s :: "'a stage2_machine_scheme"
  assumes "disk_bios B dsk" "e820_bios B cont rs" "rs \<noteq> []" "disk_ok dsk n g s" "stage2_room F L n g D"
    "literals_ok L (stage2_area F L n g D) (bmem s)"
    "has_file dsk (mounted dsk n s) n g D ''/system/kernel'' (Some k)" "length k + g * n \<le> D"
    "has_file dsk (mounted dsk n s) n g (D - length k) ''/system/vga'' r" "\<not> paging s"
  shows "\<exists>t. stage2_to_video B F L s = Some (True, t) \<and>
    stage2 B F V L s = map_option (Pair Kernel_jump) (init_vbe B V t) \<and>
    mem_list (bmem t) 0x100000 (length k) = k \<and>
    (case r of None \<Rightarrow> True | Some d \<Rightarrow> mem_list (bmem t) (0x100000 + of_nat (length k)) (length d) = d) \<and>
    (\<forall>i < min 64 (length rs). same_range (load_range (bmem t) (mem_blocks_at L + 24 * of_nat i)) (rs ! i)) \<and>
    (\<forall>va. walk (kernel_view (bmem t)) (boot_cr3 t) va = Some (if va < KERNEL_BASE then va else va - KERNEL_BASE, False, True)) \<and>
    bit (boot_cr0 t) 31 \<and> eq_off (stage2_area F L n g D) (bmem s) (bmem t)"
proof -
  let ?W = "stage2_area F L n g D" and ?D = "bytes_at (boot_directory_at L) 4096" and ?M = "bytes_at (mem_blocks_at L) 1536"
  note rm = assms(5)
  have D: "D < 2 ^ 31" and kD: "length k \<le> D" using rm assms(8) by (simp_all add: stage2_room_def room_def)
  obtain s1 s2 s3 :: "'a stage2_machine_scheme" and m where
    st: "stage2_to_video B F L s = Some (True, boot_enable_paging (boot_directory_at L) (s3\<lparr>bmem := m\<rparr>))"
    and s1: "mem_list (bmem s1) 0x100000 (length k) = k" "eq_off ?W (bmem s) (bmem s1)"
    and s2: "case r of None \<Rightarrow> True | Some d \<Rightarrow> mem_list (bmem s2) (0x100000 + of_nat (length k)) (length d) = d \<and> length k + length d \<le> D"
      "eq_off (process_area F n g (length k) D) (bmem s1) (bmem s2)"
    and s3: "\<forall>i < min 64 (length rs). same_range (load_range (bmem s3) (mem_blocks_at L + 24 * of_nat i)) (rs ! i)"
      "eq_off (text_area \<union> ?M) (bmem s2) (bmem s3)"
    and m: "boot_directory m (boot_directory_at L)" "eq_off ?D (bmem s3) m"
    using stage2_stages [OF assms] .
  note pa = process_area_sub [OF rm kD]
  have off: "eq_off (text_area \<union> ?M \<union> ?D) (bmem s2) m"
    by (rule eq_off_chain [OF eq_off_mono [OF s3(2)] eq_off_mono [OF m(2)]]) blast+
  let ?t = "boot_enable_paging (boot_directory_at L) (s3\<lparr>bmem := m\<rparr>)"
  have t: "bmem ?t = m" "boot_cr3 ?t = boot_directory_at L" "boot_cr0 ?t = boot_cr0 s3 OR 0x80000001"
    by (simp_all add: boot_enable_paging_def)
  have apart: "bytes_at (0x100000 + of_nat i) j \<inter> (text_area \<union> ?M \<union> ?D) = {}" if "i + j \<le> D" for i j
    using that rm D bytes_at_sub [of i j D "0x100000"] by (auto simp: stage2_room_def)
  have "mem_list m 0x100000 (length k) = mem_list (bmem s2) 0x100000 (length k)"
    using apart [of 0 "length k"] kD D by (intro mem_list_eq_off [OF off]) (simp_all del: Int_Un_distrib)
  also have "\<dots> = k" using pa(2) kD D s1(1) by (subst mem_list_eq_off [OF s2(2)]) simp_all
  finally have kernel: "mem_list m 0x100000 (length k) = k" .
  have process: "mem_list m (0x100000 + of_nat (length k)) (length d) = d" if "r = Some d" for d
    using s2(1) that apart [of "length k" "length d"] D by (simp add: mem_list_eq_off [OF off])
  have ranges: "same_range (load_range m (mem_blocks_at L + 24 * of_nat i)) (rs ! i)" if i: "i < min 64 (length rs)" for i
  proof -
    have "bytes_at (mem_blocks_at L + of_nat (24 * i)) 24 \<subseteq> ?M" using i by (intro bytes_at_sub) simp_all
    then have "load_range m (mem_blocks_at L + 24 * of_nat i) = load_range (bmem s3) (mem_blocks_at L + 24 * of_nat i)"
      using rm by (intro load_range_eq_off [OF m(2)]) (auto simp: stage2_room_def)
    with s3(1) i show ?thesis by simp
  qed
  have "walk (kernel_view m) (boot_directory_at L) va = Some (if va < KERNEL_BASE then va else va - KERNEL_BASE, False, True)" for va
    using rm by (intro boot_walk [OF m(1)]) (simp add: stage2_room_def)
  moreover have "bit (0x80000001 :: u32) 31" by (simp add: bit_iff_odd)
  then have "bit (boot_cr0 ?t) 31" by (simp add: t bit_or_iff)
  moreover have "text_area \<union> ?M \<union> ?D \<subseteq> ?W" unfolding stage2_area_def by blast
  then have "eq_off ?W (bmem s) m"
    by (rule eq_off_chain [OF s1(2) eq_off_chain [OF eq_off_mono [OF s2(2) pa(1)] eq_off_mono [OF off]]])
  ultimately show ?thesis
    using st stage2_after_video [OF st, of V] kernel process ranges by (intro exI [of _ ?t]) (simp add: t del: KERNEL_BASE_def split: option.splits)
qed

text \<open>
  (C7) The second stage hands a machine over to \<open>init_vbe\<close> in which the kernel is
  at 1 MiB, the system process, if there is one, behind it, and the list of memory ranges in its
  array, and in which paging is on with a directory that maps every address below 3 GiB to
  itself and the upper quarter to low memory, so that the kernel is at 0xc0100000, where
  \<open>kernel_jump\<close> goes after \<open>init_vbe\<close>. It writes nothing outside of the areas named.
  What is left of \<open>stage2\<close> is \<open>init_vbe\<close> on this machine; as paging is on already, its BIOS
  calls fault, which theory \<open>Boot_Chain\<close> states.
\<close>

theorem stage2_hands_over:
  fixes s :: "'a stage2_machine_scheme"
  assumes "disk_bios B dsk" "e820_bios B cont rs" "rs \<noteq> []" "disk_ok dsk n g s" "stage2_room F L n g D"
    "literals_ok L (stage2_area F L n g D) (bmem s)"
    "has_file dsk (mounted dsk n s) n g D ''/system/kernel'' (Some k)" "length k + g * n \<le> D"
    "has_file dsk (mounted dsk n s) n g (D - length k) ''/system/vga'' r" "\<not> paging s"
  shows "\<exists>t. stage2_to_video B F L s = Some (True, t) \<and>
    stage2 B F V L s = map_option (Pair Kernel_jump) (init_vbe B V t) \<and>
    mem_list (bmem t) 0x100000 (length k) = k \<and>
    (case r of None \<Rightarrow> True | Some d \<Rightarrow> mem_list (bmem t) (0x100000 + of_nat (length k)) (length d) = d) \<and>
    (\<forall>i < min 64 (length rs). same_range (load_range (bmem t) (mem_blocks_at L + 24 * of_nat i)) (rs ! i)) \<and>
    (\<forall>va. walk (kernel_view (bmem t)) (boot_cr3 t) va = Some (if va < KERNEL_BASE then va else va - KERNEL_BASE, False, True)) \<and>
    bit (boot_cr0 t) 31 \<and> eq_off (stage2_area F L n g D) (bmem s) (bmem t)"
  using assms by (rule stage2_hands_over_mem)

text \<open>
  (C3) Without a kernel at \<open>/system/kernel\<close> the second stage stops in its loop; it
  has written nothing outside of its areas.
\<close>

theorem stage2_without_kernel:
  fixes s :: "'a stage2_machine_scheme"
  assumes "disk_bios B dsk" "disk_ok dsk n g s" "stage2_room F L n g D" "g * n \<le> D"
    "literals_ok L (stage2_area F L n g D) (bmem s)"
    "has_file dsk (mounted dsk n s) n g D ''/system/kernel'' None" "\<not> paging s"
  shows "\<exists>t. stage2 B F V L s = Some (Halted, t) \<and> eq_off (stage2_area F L n g D) (bmem s) (bmem t)"
proof -
  let ?W = "stage2_area F L n g D"
  have sub: "text_area \<subseteq> ?W" by (auto simp: stage2_area_def)
  obtain s1 where s1: "load_kernel B F L s = Some (0, s1)" "kept ?W (mounted dsk n s) s1"
    using load_kernel_mem [OF assms] by auto
  have off1: "eq_off ?W (bmem s) (bmem s1)" using s1(2) by (simp add: kept_def mounted_def Let_def)
  have ok: "ready L ?W s1" using literals_ok_eq_off [OF assms(5) off1] s1(2) sub by (simp add: ready_def kept_def)
  obtain t where t: "say L (''No kernel detected at /system/kernel'' @ crlf) [] s1 = Some t" "kept text_area s1 t"
    by (rule say_ready [OF ok, of "''No kernel detected at /system/kernel'' @ crlf" "[]"]) (simp_all add: formats_def)
  have "eq_off ?W (bmem s) (bmem t)"
    using t(2) eq_off_chain [OF off1 eq_off_mono [OF _ sub]] by (simp add: kept_def)
  then show ?thesis using s1(1) t(1) by (intro exI [of _ t]) (simp add: stage2_def stage2_to_video_def)
qed

section \<open>An example\<close>

text \<open>
  A drive with the directory \<open>system\<close> in cluster 3, the kernel in cluster 4 and the process
  in cluster 5; none of them is fragmented. Without the kernel, the directory is empty.
\<close>

definition file_item :: "string \<Rightarrow> u8 \<Rightarrow> dir_item" where
  "file_item name c = File ([0x85, 2] @ replicate 30 0)
     ([0xc0, 0, 0, of_nat (length name)] @ replicate 16 0 @ [c, 0, 0, 0, 0, 2, 0, 0, 0, 0, 0, 0])
     [[0xc1, 0] @ concat (map (\<lambda>x. [x, 0]) (text_bytes name)) @ replicate (30 - 2 * length name) 0]"

definition no_entries :: "nat \<Rightarrow> dir_item list" where
  "no_entries k = replicate k (Plain (replicate 32 0))"

definition boot_root :: "dir_item list" where
  "boot_root = file_item ''system'' 3 # no_entries 13"

definition system_dir :: "bool \<Rightarrow> dir_item list" where
  "system_dir full = (if full then file_item ''kernel'' 4 # file_item ''vga'' 5 # no_entries 10 else no_entries 16)"

text \<open>The literals are 128 bytes apart, from 0xa000 on, which is in sectors 19 and on of the drive.\<close>

definition literal_byte :: "nat \<Rightarrow> u8" where
  "literal_byte i = (let x = text_bytes (literals ! (i div 128)) in if i mod 128 < length x then x ! (i mod 128) else 0)"

definition literal_image :: bytes where
  "literal_image a = (if a - 0xa000 < 1792 then literal_byte (unat (a - 0xa000)) else 0)"

definition boot_disk :: "bool \<Rightarrow> u64 \<Rightarrow> u8 list" where
  "boot_disk full l = (if l = 0x100 then boot_sector else if l = 0x108 then concat (dir_entries boot_root)
     else if l = 0x109 then concat (dir_entries (system_dir full)) else if l = 0x10a then replicate 512 0x90
     else if l = 0x10b then replicate 512 0x91
     else if l \<le> 64 then mem_list literal_image (0x7c00 + 512 * ucast l) 512 else replicate 512 0)"

definition boot_bios :: "bool \<Rightarrow> 'a bios" where
  "boot_bios full code = (if code = 0x13 then example_bios (boot_disk full) code else range_bios code)"

fun index_of :: "string \<Rightarrow> string list \<Rightarrow> nat" where
  "index_of x [] = 0"
| "index_of x (y # ys) = (if x = y then 0 else Suc (index_of x ys))"

definition boot_program :: stage2_layout where
  "boot_program = \<lparr>literal_at = (\<lambda>x. 0xa000 + of_nat (128 * index_of x literals)), mem_blocks_at = 0x9000,
     boot_directory_at = 0x40000\<rparr>"

definition boot_start :: stage2_machine where
  "boot_start = \<lparr>bmem = literal_image,
     crtc_index = 0, crtc_reg = (\<lambda>_. 0), color = 0, drive_bytes_per_sector = 512, drive_number = 0x80,
     boot_cr0 = 1, exfat_boot_record = dec_boot_record (replicate 512 0), upcase_table = replicate 128 0,
     boot_cr3 = 0, boot_cr4 = 0\<rparr>"

lemma index_of: "x \<in> set xs \<Longrightarrow> index_of x xs < length xs \<and> xs ! index_of x xs = x"
  by (induction xs) auto

lemma boot_bios_ok: "disk_bios (boot_bios full) (boot_disk full)" "e820_bios (boot_bios full) (\<lambda>_. 0) [one_range]"
  using disk_example_bios [of "boot_disk full"] e820_range_bios
  by (simp_all add: disk_bios_def e820_bios_def boot_bios_def)

lemma boot_paging: "\<not> paging boot_start"
  by (simp add: paging_def boot_start_def bit_iff_odd)

lemma boot_literals: "literals_ok boot_program (stage2_area example_exfat_frame boot_program 512 1 1024) (bmem boot_start)"
proof -
  have n: "length literals = 14" "list_all (\<lambda>x. 0 \<notin> set (text_bytes x)) literals" by code_simp+
  have "cstring (bmem boot_start) (literal_at boot_program x) (text_bytes x)"
    "bytes_at (literal_at boot_program x) (Suc (length (text_bytes x))) \<inter> stage2_area example_exfat_frame boot_program 512 1 1024 = {}"
    if x: "x \<in> set literals" for x
  proof -
    let ?i = "index_of x literals"
    have i: "?i < 14" "literals ! ?i = x" using index_of [OF x] n(1) by simp_all
    have l: "length (text_bytes x) < 100" by (rule formats_ok(2) [OF x])
    have byte: "bmem boot_start (literal_at boot_program x + of_nat j) = (if j < length (text_bytes x) then text_bytes x ! j else 0)" if "j < 100" for j
    proof -
      have "literal_at boot_program x + of_nat j - 0xa000 = of_nat (128 * ?i + j)" by (simp add: boot_program_def)
      moreover have "unat (of_nat (128 * ?i + j) :: u32) = 128 * ?i + j" using i(1) that by (intro unat_of_nat_u32) simp
      moreover have "(128 * ?i + j) div 128 = ?i" "(128 * ?i + j) mod 128 = j" using that by simp_all
      ultimately show ?thesis
        using i that by (simp add: boot_start_def literal_image_def literal_byte_def word_less_nat_alt Let_def del: of_nat_add of_nat_mult)
    qed
    have "0 \<notin> set (text_bytes x)" using n(2) x by (simp add: list_all_iff)
    then show "cstring (bmem boot_start) (literal_at boot_program x) (text_bytes x)"
      using byte l by (simp add: cstring_def)
    have "unat (literal_at boot_program x) = 0xa000 + 128 * ?i"
      using unat_add_of_nat [of "0xa000" "128 * ?i"] i(1) by (simp add: boot_program_def)
    then show "bytes_at (literal_at boot_program x) (Suc (length (text_bytes x))) \<inter> stage2_area example_exfat_frame boot_program 512 1 1024 = {}"
      using i(1) l by (auto simp: stage2_area_def init_area_def read_area_def frame_area_def text_area_def text_buffer_def
          bytes_at_unat example_exfat_frame_def boot_program_def)
  qed
  then show ?thesis by (simp add: literals_ok_def)
qed

lemma boot_room: "stage2_room example_exfat_frame boot_program 512 1 1024"
  by (auto simp: stage2_room_def init_room_def room_def read_area_def frame_area_def frame_ok_def text_area_def text_buffer_def
      bytes_at_unat example_exfat_frame_def boot_program_def page_aligned_def take_bit_eq_mod)

lemma boot_sectors: "sectors_of 512 (boot_disk full)"
proof -
  have "length boot_sector = 512" "length (concat (dir_entries boot_root)) = 512"
    "length (concat (dir_entries (system_dir True))) = 512" "length (concat (dir_entries (system_dir False))) = 512"
    by code_simp+
  then show ?thesis by (cases full) (simp_all add: sectors_of_def boot_disk_def)
qed

text \<open>The mounted file system.\<close>

lemma boot_record:
  "exfat_boot_record (with_disk (boot_disk full) 512 boot_start) = dec_boot_record (take 512 boot_sector)"
  "unat (drive_bytes_per_sector (with_disk (boot_disk full) 512 boot_start)) = 512"
  by (simp_all add: with_disk_def with_boot_record_def boot_disk_def boot_start_def)

lemma boot_root_sector: "root_sector (boot_disk full) (with_disk (boot_disk full) 512 boot_start) 512 = concat (dir_entries boot_root)"
  by (simp add: root_sector_def cluster_sector_def shift_def boot_record boot_sector_fields boot_disk_def)

lemma boot_mounted:
  "exfat_boot_record (mounted (boot_disk full) 512 boot_start) = dec_boot_record (take 512 boot_sector)"
  "upcase_table (mounted (boot_disk full) 512 boot_start) = map of_nat [0..<128]"
  "shift (mounted (boot_disk full) 512 boot_start) = 0" "root_cluster (mounted (boot_disk full) 512 boot_start) = 2"
proof -
  have "upcase_entry (concat (dir_entries boot_root)) = None" by code_simp
  then show "upcase_table (mounted (boot_disk full) 512 boot_start) = map of_nat [0..<128]"
    by (simp add: mounted_def Let_def boot_root_sector upcase_from_def)
qed (simp_all add: mounted_def Let_def boot_record shift_def root_cluster_def boot_sector_fields)

lemma boot_disk_ok: "disk_ok (boot_disk full) 512 1 boot_start"
proof -
  have "upcase_entry (concat (dir_entries boot_root)) = None" by code_simp
  moreover have "table_ok (map of_nat [0..<128])" using example_table [of 0] by simp
  moreover have "unat (drive_bytes_per_sector boot_start) = 512" by (simp add: boot_start_def)
  ultimately show ?thesis
    using boot_sectors boot_record [of full]
    by (simp add: disk_ok_def Let_def boot_root_sector boot_mounted geometry_def shift_def cluster_ok_def cluster_sector_def
        root_cluster_def boot_sector_fields)
qed

lemma boot_cluster: "cluster_data (boot_disk full) (mounted (boot_disk full) 512 boot_start) 512 1 c = boot_disk full (of_nat (262 + c))"
  if "2 \<le> c"
  using that
  by (simp add: cluster_data_def sectors_def cluster_sector_def boot_mounted boot_sector_fields)

lemma boot_file:
  assumes "unat (ed_first_cluster e) = c" "unat (ed_data_length e) = 512" "c = 3 \<or> c = 4 \<or> c = 5"
  shows "file_on_disk (boot_disk full) (mounted (boot_disk full) 512 boot_start) 512 1 e [c]"
proof -
  let ?s = "mounted (boot_disk full) 512 boot_start"
  have f: "br_fat_offset (exfat_boot_record ?s) = 0" "br_cluster_heap_offset (exfat_boot_record ?s) = 8"
    unfolding boot_mounted by (simp add: dec_boot_record_def b32_def boot_sector_def nth_append, rule boot_sector_fields)
  have "disk_byte (boot_disk full) 512 (fat_position ?s c + j) = 0" if "j < 4" for j
  proof -
    have x: "4 * c + j < 512" "4 * c + j < 88" using assms(3) that by auto
    have "fat_position ?s c + j = (4 * c + j) + 256 * 512" by (simp add: fat_position_def f(1))
    then have "(fat_position ?s c + j) div 512 = 256" "(fat_position ?s c + j) mod 512 = 4 * c + j"
      using x(1) by (simp_all only: div_mult_self1 mod_mult_self1) simp_all
    then have "disk_byte (boot_disk full) 512 (fat_position ?s c + j) = boot_disk full (of_nat 256) ! (4 * c + j)"
      by (simp only: disk_byte_def)
    also have "\<dots> = boot_sector ! (4 * c + j)" by (simp add: boot_disk_def)
    also have "\<dots> = 0" using x(2) by (simp add: boot_sector_def nth_append)
    finally show ?thesis .
  qed
  then have z: "map (\<lambda>j. disk_byte (boot_disk full) 512 (fat_position ?s c + j)) [0..<4] = map (\<lambda>j. 0) [0..<4]" by simp
  have e: "fat_entry (boot_disk full) ?s 512 c = 0" unfolding fat_entry_def z by (simp add: b32_def)
  have "c < 128" "2 \<le> c" using assms(3) by auto
  then have "fat_hit ?s 512 1 c" "cluster_ok ?s c"
    by (simp_all add: fat_hit_def read_position_def fat_position_def fat_sector_def cluster_ok_def cluster_sector_def boot_mounted(3) f)
  then show ?thesis using assms(1,2) e by (simp add: file_on_disk_def)
qed

lemma boot_step:
  assumes "list_all (item_ok (map of_nat [0..<128])) its"
    "map_option (\<lambda>e. (unat (ed_first_cluster e), unat (ed_data_length e))) (lookup (map of_nat [0..<128]) its nm) = Some (c, 512)"
    "c = 3 \<or> c = 4 \<or> c = 5" "512 \<le> D"
    "resolves (boot_disk full) (mounted (boot_disk full) 512 boot_start) 512 1 D (boot_disk full (of_nat (262 + c))) nms r"
  shows "resolves (boot_disk full) (mounted (boot_disk full) 512 boot_start) 512 1 D (concat (dir_entries its)) (nm # nms) r"
proof -
  let ?s = "mounted (boot_disk full) 512 boot_start"
  obtain e where e: "lookup (map of_nat [0..<128]) its nm = Some e" "unat (ed_first_cluster e) = c" "unat (ed_data_length e) = 512"
    using assms(2) by auto
  have "2 \<le> c" using assms(3) by auto
  then have d: "clusters_data (boot_disk full) ?s 512 1 [c] = boot_disk full (of_nat (262 + c))"
    by (simp add: boot_cluster del: One_nat_def)
  show ?thesis
    by (rule resolves.step [of ?s _ its, OF _ _ boot_file [OF e(2,3) assms(3)]])
      (use assms(1,4,5) e(1) d in \<open>simp_all add: directory_def boot_mounted\<close>)
qed

lemma boot_names:
  "components (text_bytes ''/system/kernel'') = [text_bytes ''system'', text_bytes ''kernel'']"
  "components (text_bytes ''/system/vga'') = [text_bytes ''system'', text_bytes ''vga'']"
  by code_simp+

lemma boot_dirs:
  "list_all (item_ok (map of_nat [0..<128])) boot_root" "list_all (item_ok (map of_nat [0..<128])) (system_dir True)"
  "list_all (item_ok (map of_nat [0..<128])) (system_dir False)"
  "lookup (map of_nat [0..<128]) (system_dir False) (text_bytes ''kernel'') = None"
  "map_option (\<lambda>e. (unat (ed_first_cluster e), unat (ed_data_length e))) (lookup (map of_nat [0..<128]) boot_root (text_bytes ''system'')) = Some (3, 512)"
  "map_option (\<lambda>e. (unat (ed_first_cluster e), unat (ed_data_length e))) (lookup (map of_nat [0..<128]) (system_dir True) (text_bytes ''kernel'')) = Some (4, 512)"
  "map_option (\<lambda>e. (unat (ed_first_cluster e), unat (ed_data_length e))) (lookup (map of_nat [0..<128]) (system_dir True) (text_bytes ''vga'')) = Some (5, 512)"
  by code_simp+

lemma boot_files:
  "512 \<le> D \<Longrightarrow> has_file (boot_disk True) (mounted (boot_disk True) 512 boot_start) 512 1 D ''/system/kernel'' (Some (replicate 512 0x90))"
  "512 \<le> D \<Longrightarrow> has_file (boot_disk True) (mounted (boot_disk True) 512 boot_start) 512 1 D ''/system/vga'' (Some (replicate 512 0x91))"
  "512 \<le> D \<Longrightarrow> has_file (boot_disk False) (mounted (boot_disk False) 512 boot_start) 512 1 D ''/system/kernel'' None"
proof -
  have root: "cluster_data (boot_disk full) (mounted (boot_disk full) 512 boot_start) 512 1
      (root_cluster (mounted (boot_disk full) 512 boot_start)) = concat (dir_entries boot_root)" for full
    by (simp add: boot_cluster boot_mounted boot_disk_def del: One_nat_def)
  have sys: "boot_disk full (of_nat (262 + 3)) = concat (dir_entries (system_dir full))"
    "boot_disk full (of_nat (262 + 4)) = replicate 512 0x90" "boot_disk full (of_nat (262 + 5)) = replicate 512 0x91" for full
    by (simp_all add: boot_disk_def)
  note in_system = boot_step [OF boot_dirs(1,5), unfolded sys]
  show "512 \<le> D \<Longrightarrow> has_file (boot_disk True) (mounted (boot_disk True) 512 boot_start) 512 1 D ''/system/kernel'' (Some (replicate 512 0x90))"
    unfolding has_file_def boot_names root
    by (rule in_system [OF _ _ boot_step [OF boot_dirs(2,6), unfolded sys]]) (simp_all add: resolves.found)
  show "512 \<le> D \<Longrightarrow> has_file (boot_disk True) (mounted (boot_disk True) 512 boot_start) 512 1 D ''/system/vga'' (Some (replicate 512 0x91))"
    unfolding has_file_def boot_names root
    by (rule in_system [OF _ _ boot_step [OF boot_dirs(2,7), unfolded sys]]) (simp_all add: resolves.found)
  show "512 \<le> D \<Longrightarrow> has_file (boot_disk False) (mounted (boot_disk False) 512 boot_start) 512 1 D ''/system/kernel'' None"
    unfolding has_file_def boot_names root
    by (rule in_system [OF _ _ resolves.missing [of _ _ "system_dir False"]])
      (simp_all add: directory_def boot_mounted boot_dirs)
qed

theorem stage2_hands_over_witness:
  "\<exists>t. stage2_to_video (boot_bios True) example_exfat_frame boot_program boot_start = Some (True, t) \<and>
    bmem t 0x1001ff = 0x90 \<and> bmem t 0x1003ff = 0x91 \<and> ar_size_low (load_range (bmem t) 0x9000) = 0x7ff00000 \<and>
    walk (kernel_view (bmem t)) (boot_cr3 t) 0xc0100000 = Some (0x100000, False, True)"
proof -
  have f: "has_file (boot_disk True) (mounted (boot_disk True) 512 boot_start) 512 1 (1024 - length (replicate 512 (0x90 :: u8)))
      ''/system/vga'' (Some (replicate 512 0x91))"
    using boot_files(2) [of 512] by simp
  obtain t where t: "stage2_to_video (boot_bios True) example_exfat_frame boot_program boot_start = Some (True, t)"
    "mem_list (bmem t) 0x100000 512 = replicate 512 0x90" "mem_list (bmem t) (0x100000 + 512) 512 = replicate 512 0x91"
    "\<forall>i < 1. same_range (load_range (bmem t) (mem_blocks_at boot_program + 24 * of_nat i)) ([one_range] ! i)"
    "\<forall>va. walk (kernel_view (bmem t)) (boot_cr3 t) va = Some (if va < KERNEL_BASE then va else va - KERNEL_BASE, False, True)"
    using stage2_hands_over [OF boot_bios_ok(1,2) _ boot_disk_ok boot_room boot_literals boot_files(1) _ f boot_paging, of example_vbe_frame]
    by auto
  have "bmem t 0x1001ff = mem_list (bmem t) 0x100000 512 ! 511" "bmem t 0x1003ff = mem_list (bmem t) (0x100000 + 512) 512 ! 511"
    by (simp_all add: mem_list_def)
  moreover have "ar_size_low (load_range (bmem t) 0x9000) = ar_size_low one_range"
    using t(4) [rule_format, of 0]
    by (simp add: same_range_def boot_program_def) (metis address_range.select_convs(3) address_range.surjective address_range.update_convs(6))
  ultimately show ?thesis using t by (intro exI [of _ t]) (simp add: one_range_def)
qed

theorem stage2_without_kernel_witness:
  "\<exists>t. stage2 (boot_bios False) example_exfat_frame example_vbe_frame boot_program boot_start = Some (Halted, t) \<and>
    bmem t 0x5000 = 0"
proof -
  obtain t where t: "stage2 (boot_bios False) example_exfat_frame example_vbe_frame boot_program boot_start = Some (Halted, t)"
    "eq_off (stage2_area example_exfat_frame boot_program 512 1 1024) (bmem boot_start) (bmem t)"
    using stage2_without_kernel [OF boot_bios_ok(1) boot_disk_ok boot_room _ boot_literals boot_files(3) boot_paging] by auto
  have "0x5000 \<notin> stage2_area example_exfat_frame boot_program 512 1 1024"
    by (auto simp: stage2_area_def init_area_def read_area_def frame_area_def text_area_def text_buffer_def
        bytes_at_unat example_exfat_frame_def boot_program_def)
  from eq_offD [OF t(2) this] t(1) show ?thesis by (simp add: boot_start_def literal_image_def)
qed

end
