(* ===== verification/First_Stage.thy ===== *)
theory First_Stage
  imports Stage2 Bios_Switch
begin

text \<open>
  The first stage of the boot loader, src/boot/x86/boot.s (for a CD) and mbr.s (for a disk): in
  real mode it asks the BIOS for the size of a sector, loads the second stage, looks after the A20
  line, and enters protected mode. The two files differ in what they load. The BIOS is a parameter
  as in theory \<open>Bios\<close>, here with the carry flag that reports an error.
\<close>

section \<open>State\<close>

text \<open>With the A20 line off, bit 20 of an address is taken for 0.\<close>

record first_machine = disk_machine +
  a20 :: bool

type_synonym 's real_bios = "u8 \<Rightarrow> bios_registers \<Rightarrow> 's \<Rightarrow> bool \<times> bios_registers \<times> 's"

text \<open>The addresses of the messages, of the drive parameters and of the disk address packet.\<close>

record first_layout =
  message_at :: "string \<Rightarrow> u16"
  drive_parameters_at :: u16
  dap_block_at :: u16

text \<open>
  What is loaded: from a CD the boot file, by the location (in sectors) and the length (in bytes)
  that the tool that writes the CD enters; from a disk the sectors behind the first.
\<close>

datatype boot_source = Torito u32 u32 | Disk_start

datatype first_end = Halts | Enters_stage2

definition zero_regs :: bios_registers where
  "zero_regs = \<lparr>r_eax = 0, r_ebx = 0, r_ecx = 0, r_edx = 0, r_esi = 0, r_edi = 0\<rparr>"

section \<open>Operations\<close>

text \<open>\<open>print_string\<close>, which saves all registers: the teletype function of the BIOS for each character.\<close>

partial_function (option) print_string_loop ::
  "'a first_machine_scheme real_bios \<Rightarrow> u16 \<Rightarrow> 'a first_machine_scheme \<Rightarrow> 'a first_machine_scheme option" where
  "print_string_loop B si s =
     (let al = bmem s (ucast si) in
      if al = 0 then Some s
      else print_string_loop B (si + 1)
        (snd (snd (B 0x10 (zero_regs\<lparr>r_eax := 0x0e00 OR ucast al, r_esi := ucast (si + 1)\<rparr>) s))))"

definition message ::
  "'a first_machine_scheme real_bios \<Rightarrow> first_layout \<Rightarrow> string \<Rightarrow> 'a first_machine_scheme \<Rightarrow> 'a first_machine_scheme option" where
  "message B L x s = print_string_loop B (message_at L (x @ crlf)) s"

text \<open>The size of a sector is the word at offset 24 of what the BIOS enters into the drive parameters.\<close>

definition read_info ::
  "'a first_machine_scheme real_bios \<Rightarrow> first_layout \<Rightarrow> 'a first_machine_scheme \<Rightarrow> bool \<times> 'a first_machine_scheme" where
  "read_info B L s =
     (let (carry, r, s) = B 0x13 (zero_regs\<lparr>r_eax := 0x4800, r_edx := ucast (drive_number s), r_esi := ucast (drive_parameters_at L)\<rparr>) s
      in (carry, s\<lparr>drive_bytes_per_sector := ld16 (bmem s) (ucast (drive_parameters_at L) + 24)\<rparr>))"

text \<open>The loop that divides the length by the size of a sector, by halving both.\<close>

partial_function (option) sector_size_loop :: "u16 \<Rightarrow> u16 \<Rightarrow> u16 \<Rightarrow> u16 option" where
  "sector_size_loop stop ax cx =
     (if cx = stop then Some ax else sector_size_loop stop (drop_bit 1 ax) (drop_bit 1 cx))"

fun sectors_to_read :: "boot_source \<Rightarrow> u16 \<Rightarrow> u16 option" where
  "sectors_to_read (Torito location len) sz = sector_size_loop 1 (ucast len) sz"
| "sectors_to_read Disk_start sz = map_option (\<lambda>ax. ax + 1) (sector_size_loop 512 63 sz)"

fun read_offset :: "boot_source \<Rightarrow> u16 \<Rightarrow> u16" where
  "read_offset (Torito location len) sz = 0x7c00 + sz"
| "read_offset Disk_start sz = 0x7e00"

fun read_lba :: "boot_source \<Rightarrow> u16" where
  "read_lba (Torito location len) = ucast location + 1"
| "read_lba Disk_start = 1"

text \<open>
  The read: length, segment, offset and the low 16 bits of the sector number are entered into the
  packet, whose other fields are constants.
\<close>

definition read_stage2 ::
  "'a first_machine_scheme real_bios \<Rightarrow> first_layout \<Rightarrow> u16 \<Rightarrow> u16 \<Rightarrow> u16 \<Rightarrow> 'a first_machine_scheme \<Rightarrow> bool \<times> 'a first_machine_scheme" where
  "read_stage2 B L len offset lba s =
     (let d = ucast (dap_block_at L);
          m = st16 (bmem s) (d + 2) len;
          m = st16 m (d + 6) 0;
          m = st16 m (d + 4) offset;
          m = st16 m (d + 8) lba;
          (carry, r, s) = B 0x13 (zero_regs\<lparr>r_eax := 0x4200, r_edx := ucast (drive_number s), r_esi := d\<rparr>) (s\<lparr>bmem := m\<rparr>)
      in (carry, s))"

text \<open>The physical address of a real-mode address.\<close>

definition real_address :: "bool \<Rightarrow> u16 \<Rightarrow> u16 \<Rightarrow> u32" where
  "real_address on seg off = (let x = 16 * ucast seg + ucast off in if on then x else x AND NOT 0x100000)"

text \<open>
  The test of the A20 line: two words that should be one when it is off are written, compared, and
  restored. The second is at offset \<open>si\<close> of segment 0xffff, the first at 0x7dfe.
\<close>

definition a20_test_at :: "u16 \<Rightarrow> 'a first_machine_scheme \<Rightarrow> u16 \<times> 'a first_machine_scheme" where
  "a20_test_at si s =
     (let lower = real_address (a20 s) 0 0x7dfe;
          upper = real_address (a20 s) 0xffff si;
          saved1 = ld16 (bmem s) lower;
          saved2 = ld16 (bmem s) upper;
          s = s\<lparr>bmem := st16 (bmem s) lower 0\<rparr>;
          s = s\<lparr>bmem := st16 (bmem s) upper 0x4e69\<rparr>;
          equal = (ld16 (bmem s) lower = 0x4e69);
          s = s\<lparr>bmem := st16 (bmem s) upper saved2\<rparr>;
          s = s\<lparr>bmem := st16 (bmem s) lower saved1\<rparr>
      in (if equal then 0 else 1, s))"

definition a20_test :: "'a first_machine_scheme \<Rightarrow> u16 \<times> 'a first_machine_scheme" where
  "a20_test s = a20_test_at 0xfe0e s"

text \<open>The functions of the BIOS are tried until the test finds the line on.\<close>

fun try_a20 :: "'a first_machine_scheme real_bios \<Rightarrow> u32 list \<Rightarrow> 'a first_machine_scheme \<Rightarrow> bool \<times> 'a first_machine_scheme" where
  "try_a20 B [] s = (False, s)"
| "try_a20 B (code # codes) s =
     (let s = snd (snd (B 0x15 (zero_regs\<lparr>r_eax := code\<rparr>) s));
          s = snd (a20_test s);
          (ax, s) = a20_test s
      in if ax = 0 then try_a20 B codes s else (True, s))"

definition enable_a20 :: "'a first_machine_scheme real_bios \<Rightarrow> 'a first_machine_scheme \<Rightarrow> bool \<times> 'a first_machine_scheme" where
  "enable_a20 B s =
     (let (ax, s) = a20_test s
      in if ax = 0 then try_a20 B [0x2403, 0x2402, 0x2401] s else (True, s))"

definition enter_protected_mode :: "switch_layout \<Rightarrow> processor \<Rightarrow> processor option" where
  "enter_protected_mode K p = do {
     let p = p\<lparr>p_if := False, p_gdtr := boot_gdtr K\<rparr>;
     p \<leftarrow> write_cr0 (p_cr0 p OR 1) p;
     p \<leftarrow> far_jump K 0x8 p;
     load_data K 0x10 p
   }"

definition stage2_setup ::
  "'a first_machine_scheme real_bios \<Rightarrow> first_layout \<Rightarrow> switch_layout \<Rightarrow> processor \<Rightarrow> 'a first_machine_scheme \<Rightarrow>
   (first_end \<times> processor \<times> 'a first_machine_scheme) option" where
  "stage2_setup B L K p s = do {
     s \<leftarrow> message B L ''Disabling A20 line...'' s;
     let (on, s) = enable_a20 B s;
     if \<not> on then do {
       s \<leftarrow> message B L ''A20 line disabling failed.'' s;
       Some (Halts, p, s)
     } else do {
       s \<leftarrow> message B L ''A20 line disabled.'' s;
       s \<leftarrow> message B L ''Loading the GDT...'' s;
       p \<leftarrow> enter_protected_mode K p;
       Some (Enters_stage2, p, s)
     }
   }"

text \<open>The whole first stage; \<open>dl\<close> is the drive the BIOS started it from.\<close>

definition first_stage ::
  "'a first_machine_scheme real_bios \<Rightarrow> first_layout \<Rightarrow> switch_layout \<Rightarrow> boot_source \<Rightarrow> u8 \<Rightarrow> processor \<Rightarrow> 'a first_machine_scheme \<Rightarrow>
   (first_end \<times> processor \<times> 'a first_machine_scheme) option" where
  "first_stage B L K src dl p s = do {
     let p = p\<lparr>p_cs := 0, p_ss := 0, p_ds := 0, p_es := 0\<rparr>;
     let s = s\<lparr>drive_number := dl\<rparr>;
     s \<leftarrow> message B L ''LoofOS booting...'' s;
     let (carry, s) = read_info B L s;
     if carry then do {
       s \<leftarrow> message B L ''Reading drive info failed. Halting.'' s;
       Some (Halts, p, s)
     } else do {
       s \<leftarrow> message B L ''Loading next stage boot...'' s;
       n \<leftarrow> sectors_to_read src (drive_bytes_per_sector s);
       let (carry, s) = read_stage2 B L n (read_offset src (drive_bytes_per_sector s)) (read_lba src) s;
       if carry then Some (Halts, p, s)
       else do {
         s \<leftarrow> message B L ''Loaded stage2 boot. Jumping.'' s;
         stage2_setup B L K p s
       }
     }
   }"

section \<open>The number of sectors\<close>

lemma sector_size_loop_pow:
  assumes "stop = 2 ^ j" "j \<le> k" "k < 16"
  shows "sector_size_loop stop ax (2 ^ k) = Some (drop_bit (k - j) ax)"
  using assms(2,3)
proof (induction "k - j" arbitrary: k ax)
  case 0
  then show ?case using assms(1) by (subst sector_size_loop.simps) simp
next
  case (Suc d)
  then have k: "j < k" "k \<noteq> 0" by auto
  have "(2 :: u16) ^ k \<noteq> 2 ^ j"
  proof
    assume "(2 :: u16) ^ k = 2 ^ j"
    then have "bit ((2 :: u16) ^ k) k \<longleftrightarrow> bit ((2 :: u16) ^ j) k" by simp
    then show False using k(1) Suc.prems(2) by (simp only: bit_exp_iff) (simp add: possible_bit_def)
  qed
  moreover have "drop_bit 1 ((2 :: u16) ^ k) = 2 ^ (k - 1)"
    using k(2) Suc.prems(2) by (intro bit_word_eqI) (auto simp: bit_simps possible_bit_def)
  moreover have "sector_size_loop stop (drop_bit 1 ax) (2 ^ (k - 1)) = Some (drop_bit (k - 1 - j) (drop_bit 1 ax))"
    using Suc.hyps(2) Suc.prems k(1) by (intro Suc.hyps(1)) auto
  moreover have "k - 1 - j + 1 = k - j" using k(1) by simp
  ultimately show ?case using assms(1) by (subst sector_size_loop.simps) (simp add: drop_bit_drop_bit)
qed

text \<open>The loop returns exactly if the size of a sector can be halved down to where it stops.\<close>

lemma sector_size_loop_returns:
  assumes "sector_size_loop stop ax cx = Some y"
  shows "\<exists>n. drop_bit n cx = stop \<and> y = drop_bit n ax"
proof (rule sector_size_loop.raw_induct [OF _ assms, where P = "\<lambda>stop ax cx y. \<exists>n. drop_bit n cx = stop \<and> y = drop_bit n ax"])
  fix f :: "u16 \<Rightarrow> u16 \<Rightarrow> u16 \<Rightarrow> u16 option" and stop ax cx y
  assume IH: "\<And>stop ax cx y. f stop ax cx = Some y \<Longrightarrow> \<exists>n. drop_bit n cx = stop \<and> y = drop_bit n ax"
    and step: "(if cx = stop then Some ax else f stop (drop_bit 1 ax) (drop_bit 1 cx)) = Some y"
  show "\<exists>n. drop_bit n cx = stop \<and> y = drop_bit n ax"
  proof (cases "cx = stop")
    case True
    then show ?thesis using step by (intro exI [of _ 0]) simp
  next
    case False
    then have "f stop (drop_bit 1 ax) (drop_bit 1 cx) = Some y" using step by simp
    from IH [OF this] obtain n where "drop_bit n (drop_bit 1 cx) = stop" "y = drop_bit n (drop_bit 1 ax)" by blast
    then show ?thesis by (intro exI [of _ "Suc n"]) (simp add: drop_bit_drop_bit)
  qed
qed

lemma sector_size_loop_reaches: "drop_bit n cx = stop \<Longrightarrow> sector_size_loop stop ax cx \<noteq> None"
proof (induction n arbitrary: ax cx)
  case 0
  then show ?case by (subst sector_size_loop.simps) simp
next
  case (Suc n)
  then have "sector_size_loop stop (drop_bit 1 ax) (drop_bit 1 cx) \<noteq> None"
    by (intro Suc.IH) (simp add: drop_bit_drop_bit)
  then show ?case by (subst sector_size_loop.simps) simp
qed

lemma sector_size_loop_None: "sector_size_loop stop ax cx = None \<longleftrightarrow> (\<forall>n. drop_bit n cx \<noteq> stop)"
proof
  show "\<forall>n. drop_bit n cx \<noteq> stop" if "sector_size_loop stop ax cx = None"
    using sector_size_loop_reaches that by blast
  show "sector_size_loop stop ax cx = None" if n: "\<forall>n. drop_bit n cx \<noteq> stop"
  proof (rule ccontr)
    assume "sector_size_loop stop ax cx \<noteq> None"
    then obtain y where "sector_size_loop stop ax cx = Some y" by blast
    then show False using sector_size_loop_returns n by blast
  qed
qed

lemma drop_bit_reaches_1:
  fixes w :: u16
  shows "w \<noteq> 0 \<Longrightarrow> \<exists>n. drop_bit n w = 1"
proof (induction "unat w" arbitrary: w rule: less_induct)
  case less
  show ?case
  proof (cases "w = 1")
    case True
    then show ?thesis by (intro exI [of _ 0]) simp
  next
    case False
    have u: "unat (drop_bit 1 w) = unat w div 2" by (simp add: unat_drop_bit_eq drop_bit_eq_div unat_div)
    have "unat w \<noteq> 0" using less.prems by (simp add: unat_eq_0)
    moreover have "unat w \<noteq> 1" using False by (auto simp: word_unat_eq_iff)
    ultimately have "unat (drop_bit 1 w) < unat w" "unat (drop_bit 1 w) \<noteq> 0" unfolding u by auto
    then have "\<exists>n. drop_bit n (drop_bit 1 w) = 1" by (intro less.hyps) (auto simp: unat_eq_0)
    then obtain n where "drop_bit n (drop_bit 1 w) = 1" ..
    then show ?thesis by (intro exI [of _ "Suc n"]) (simp add: drop_bit_drop_bit)
  qed
qed

text \<open>
  (C34) From a CD, the number of sectors is found for every size of a sector but 0, for which the
  loop never ends. From a disk it is found exactly if the leading ten bits of the size are 512, and
  the loop never ends for any other size, such as all below 512. For a size that is a power of two
  it is the length of the boot file, of which only the low 16 bits are looked at, or 63, divided by
  the size, or its 512th part, one added in the second case.
\<close>

theorem sectors_to_read_ends:
  "(sectors_to_read (Torito location len) sz = None \<longleftrightarrow> sz = 0) \<and>
   (sectors_to_read Disk_start sz = None \<longleftrightarrow> (\<forall>n. drop_bit n sz \<noteq> 512)) \<and>
   (sz < 512 \<longrightarrow> sectors_to_read Disk_start sz = None) \<and>
   (k < 16 \<longrightarrow> sectors_to_read (Torito location len) (2 ^ k) = Some (of_nat (unat len mod 2 ^ 16 div 2 ^ k))) \<and>
   (k < 7 \<longrightarrow> sectors_to_read Disk_start (2 ^ (9 + k)) = Some (of_nat (63 div 2 ^ k + 1)))"
proof (intro conjI impI)
  show "sectors_to_read (Torito location len) sz = None \<longleftrightarrow> sz = 0"
    using drop_bit_reaches_1 [of sz] by (auto simp: sector_size_loop_None)
  show d: "sectors_to_read Disk_start sz = None \<longleftrightarrow> (\<forall>n. drop_bit n sz \<noteq> 512)"
    by (simp add: sector_size_loop_None)
  show "sectors_to_read Disk_start sz = None" if "sz < 512"
    unfolding d
  proof
    fix n
    have "unat (drop_bit n sz) \<le> unat sz" by (simp only: unat_drop_bit_eq) (simp add: drop_bit_eq_div)
    then show "drop_bit n sz \<noteq> 512" using that by (auto simp: word_less_nat_alt)
  qed
  have c: "drop_bit j w = of_nat (unat w div 2 ^ j)" for w :: u16 and j
  proof -
    have "of_nat (unat (drop_bit j w)) = (of_nat (unat w div 2 ^ j) :: u16)"
      by (simp only: unat_drop_bit_eq) (simp add: drop_bit_eq_div)
    then show ?thesis by simp
  qed
  show "sectors_to_read (Torito location len) (2 ^ k) = Some (of_nat (unat len mod 2 ^ 16 div 2 ^ k))" if "k < 16"
  proof -
    have "unat (ucast len :: u16) = unat len mod 2 ^ 16" by (simp add: unsigned_ucast_eq take_bit_eq_mod)
    then show ?thesis using sector_size_loop_pow [of 1 0 k "ucast len"] that by (simp add: c)
  qed
  show "sectors_to_read Disk_start (2 ^ (9 + k)) = Some (of_nat (63 div 2 ^ k + 1))" if "k < 7"
    using sector_size_loop_pow [of 512 9 "9 + k" 63] that by (simp add: c)
qed

theorem sectors_to_read_ends_witness:
  "sectors_to_read Disk_start 0x100 = None \<and> sectors_to_read (Torito 20 0x12000) 0x800 = Some 4 \<and>
   sectors_to_read Disk_start 0x400 = Some 32"
  using sectors_to_read_ends [of 20 "0x12000" "0x100" 11] sectors_to_read_ends [of 20 "0x12000" "0x100" 1] by simp

section \<open>The A20 line\<close>

lemma ld16_eq_off: "eq_off X m m' \<Longrightarrow> a \<notin> X \<Longrightarrow> a + 1 \<notin> X \<Longrightarrow> ld16 m' a = ld16 m a"
  by (rule ld16_cong) (auto simp: eq_off_def)

lemma eq_off_st16: "eq_off {a, a + 1} m (st16 m a v)"
  by (simp add: eq_off_def st16_def)

lemma st16_ld16: "st16 m a (ld16 m a) = m"
proof -
  have "ucast (ld16 m a) = m a" "ucast (drop_bit 8 (ld16 m a)) = m (a + 1)"
    by (rule bit_word_eqI; auto simp: ld16_def bit_simps dest: bit_imp_le_length)+
  then show ?thesis by (simp add: st16_def fun_eq_iff)
qed

lemma st16_again: "st16 (st16 m a v) a w = st16 m a w"
  by (auto simp: st16_def fun_eq_iff)

lemma st16_apart: "a \<notin> {b, b + 1} \<Longrightarrow> a + 1 \<notin> {b, b + 1} \<Longrightarrow> st16 (st16 m a v) b w = st16 (st16 m b w) a v"
  by (auto simp: st16_def fun_eq_iff)

lemma a20_test_at_eq:
  fixes s :: "'a first_machine_scheme" and si :: u16
  defines "l \<equiv> real_address (a20 s) 0 0x7dfe" and "u \<equiv> real_address (a20 s) 0xffff si"
  assumes "l = u \<or> {l, l + 1} \<inter> {u, u + 1} = {}"
  shows "a20_test_at si s = (if l = u then 0 else 1, s)"
proof (cases "l = u")
  case True
  then show ?thesis by (simp add: a20_test_at_def l_def [symmetric] u_def [symmetric] Let_def st16_again st16_ld16)
next
  case False
  let ?m = "bmem s"
  have ap: "l \<notin> {u, u + 1}" "l + 1 \<notin> {u, u + 1}" using assms(3) False by auto
  have "ld16 (st16 (st16 ?m l 0) u 0x4e69) l = 0"
    using ap ld16_eq_off [OF eq_off_st16, of l u "st16 ?m l 0" "0x4e69"] by simp
  moreover have "st16 (st16 (st16 (st16 ?m l 0) u 0x4e69) u (ld16 ?m u)) l (ld16 ?m l) = ?m"
    using ap by (simp add: st16_again st16_apart [of l u] st16_ld16)
  ultimately show ?thesis
    using False by (simp add: a20_test_at_def l_def [symmetric] u_def [symmetric] Let_def)
qed

lemma a20_addresses:
  "real_address b 0 0x7dfe = 0x7dfe" "real_address b 0xffff 0xfe0e = (if b then 0x10fdfe else 0xfdfe)"
  "real_address b 0xffff 0x7e0e = (if b then 0x107dfe else 0x7dfe)"
  by (simp_all add: real_address_def)

lemma a20_test_eq: "a20_test s = (1, s)"
  using a20_test_at_eq [of s "0xfe0e"] by (cases "a20 s") (auto simp: a20_test_def a20_addresses)

text \<open>
  (C33) The test of the A20 line always says that the line is on, so the BIOS is never asked to turn it on:
  the word it compares with the one at 0x7dfe is at 0x10fdfe, or at 0xfdfe with the line off.
  With offset 0x7e0e in place of 0xfe0e, the word one MiB above 0x7dfe, the test is right. In both cases
  it leaves memory as it was.
\<close>

theorem a20_test_blind:
  "a20_test s = (1, s) \<and> enable_a20 B s = (True, s) \<and> a20_test_at 0x7e0e s = (if a20 s then 1 else 0, s)"
  using a20_test_at_eq [of s "0x7e0e"] by (cases "a20 s") (auto simp: enable_a20_def a20_test_eq a20_addresses)

section \<open>The way to the second stage\<close>

text \<open>
  What the code relies on of the BIOS, which may change the memory in \<open>X\<close> as it likes: it prints
  a character, it yields the size of a sector (2 to the power of \<open>k\<close>), and it reads
  sectors of the drive to where the packet says, in one segment.
\<close>

definition real_bios_ok :: "'a first_machine_scheme real_bios \<Rightarrow> u32 set \<Rightarrow> (u64 \<Rightarrow> u8 list) \<Rightarrow> nat \<Rightarrow> bool" where
  "real_bios_ok B X dsk k \<longleftrightarrow>
     (\<forall>r s. r_eax r AND 0xff00 = 0x0e00 \<longrightarrow>
        (\<exists>c r' m. B 0x10 r s = (c, r', s\<lparr>bmem := m\<rparr>) \<and> eq_off X (bmem s) m)) \<and>
     (\<forall>r s. r_eax r = 0x4800 \<longrightarrow> r_edx r = ucast (drive_number s) \<longrightarrow> 30 \<le> ld16 (bmem s) (r_esi r) \<longrightarrow>
        (\<exists>r' m. B 0x13 r s = (False, r', s\<lparr>bmem := m\<rparr>) \<and> eq_off (X \<union> bytes_at (r_esi r) 30) (bmem s) m \<and>
          ld16 m (r_esi r + 24) = 2 ^ k)) \<and>
     (\<forall>r s d. d = load_dap (bmem s) (r_esi r) \<longrightarrow> r_eax r = 0x4200 \<longrightarrow> r_edx r = ucast (drive_number s) \<longrightarrow>
        dap_size d = 0x10 \<longrightarrow> 0 < unat (dap_load_size d) \<longrightarrow> unat (dap_load_size d) \<le> 127 \<longrightarrow>
        unat (dap_load_offset d) + unat (dap_load_size d) * 2 ^ k \<le> 0x10000 \<longrightarrow>
        (\<exists>r' m. B 0x13 r s = (False, r', s\<lparr>bmem := m\<rparr>) \<and>
          eq_off X (put_bytes (bmem s) (16 * ucast (dap_load_segment d) + ucast (dap_load_offset d))
            (concat (map (\<lambda>i. dsk (dap_lba d + of_nat i)) [0..<unat (dap_load_size d)]))) m))"

definition first_messages :: "string list" where
  "first_messages = map (\<lambda>x. x @ crlf) [''LoofOS booting...'', ''Reading drive info failed. Halting.'',
     ''Loading next stage boot...'', ''Loaded stage2 boot. Jumping.'', ''Disabling A20 line...'',
     ''A20 line disabling failed.'', ''A20 line disabled.'', ''Loading the GDT...'']"

text \<open>
  The image in memory, from 0x7c00 on: its first sector, with the packet, the drive parameters and the
  messages of the first part, and \<open>n\<close> more, with other messages. The drive parameters and
  the packet are changed by the program.
\<close>

definition data_area :: "first_layout \<Rightarrow> u32 set" where
  "data_area L = bytes_at (ucast (dap_block_at L)) 16 \<union> bytes_at (ucast (drive_parameters_at L)) 30"

definition first_image :: "first_layout \<Rightarrow> bytes \<Rightarrow> nat \<Rightarrow> nat \<Rightarrow> bool" where
  "first_image L img sz n \<longleftrightarrow>
     (\<forall>x \<in> set first_messages. cstring img (ucast (message_at L x)) (text_bytes x) \<and>
        unat (message_at L x) + length x < 2 ^ 16 \<and>
        bytes_at (ucast (message_at L x)) (Suc (length x)) \<subseteq>
          bytes_at 0x7c00 (if x \<in> set (take 4 first_messages) then sz else sz * Suc n) - data_area L) \<and>
     data_area L \<subseteq> bytes_at 0x7c00 sz \<and>
     bytes_at (ucast (dap_block_at L)) 16 \<inter> bytes_at (ucast (drive_parameters_at L)) 30 = {} \<and>
     img (ucast (dap_block_at L)) = 0x10 \<and> (\<forall>i \<in> {10..<16}. img (ucast (dap_block_at L) + of_nat i) = 0) \<and>
     30 \<le> ld16 img (ucast (drive_parameters_at L))"

lemma real_bios_print:
  assumes "real_bios_ok B X dsk k" "r_eax r AND 0xff00 = 0x0e00"
  shows "\<exists>c r' m. B 0x10 r s = (c, r', s\<lparr>bmem := m\<rparr>) \<and> eq_off X (bmem s) m"
  using assms unfolding real_bios_ok_def by simp

lemma real_bios_info:
  assumes "real_bios_ok B X dsk k" "r_eax r = 0x4800" "r_edx r = ucast (drive_number s)" "30 \<le> ld16 (bmem s) (r_esi r)"
  shows "\<exists>r' m. B 0x13 r s = (False, r', s\<lparr>bmem := m\<rparr>) \<and> eq_off (X \<union> bytes_at (r_esi r) 30) (bmem s) m \<and>
    ld16 m (r_esi r + 24) = 2 ^ k"
  using assms unfolding real_bios_ok_def by simp

lemma real_bios_read:
  assumes "real_bios_ok B X dsk k" "d = load_dap (bmem s) (r_esi r)" "r_eax r = 0x4200" "r_edx r = ucast (drive_number s)"
    "dap_size d = 0x10" "0 < unat (dap_load_size d)" "unat (dap_load_size d) \<le> 127"
    "unat (dap_load_offset d) + unat (dap_load_size d) * 2 ^ k \<le> 0x10000"
  shows "\<exists>r' m. B 0x13 r s = (False, r', s\<lparr>bmem := m\<rparr>) \<and>
    eq_off X (put_bytes (bmem s) (16 * ucast (dap_load_segment d) + ucast (dap_load_offset d))
      (concat (map (\<lambda>i. dsk (dap_lba d + of_nat i)) [0..<unat (dap_load_size d)]))) m"
  using assms unfolding real_bios_ok_def by blast

text \<open>Memory between two messages.\<close>

definition goes :: "u32 set \<Rightarrow> 'a first_machine_scheme \<Rightarrow> 'a first_machine_scheme \<Rightarrow> bool" where
  "goes X s t \<longleftrightarrow> (\<exists>m. t = s\<lparr>bmem := m\<rparr> \<and> eq_off X (bmem s) m)"

lemma unat_ucast_u16 [simp]: "unat (ucast (w :: u16) :: u32) = unat w"
proof -
  have "unat w < 2 ^ 32" using unat_less_pow [of 16 w] by simp
  then show ?thesis by (simp add: unsigned_ucast_eq take_bit_nat_eq_self)
qed

lemma print_string_loop_goes:
  assumes B: "real_bios_ok B X dsk k"
  shows "cstring (bmem s) (ucast si) cs \<Longrightarrow> unat si + length cs < 2 ^ 16 \<Longrightarrow>
    bytes_at (ucast si) (Suc (length cs)) \<inter> X = {} \<Longrightarrow> \<exists>t. print_string_loop B si s = Some t \<and> goes X s t"
proof (induction cs arbitrary: si s)
  case Nil
  then show ?case by (subst print_string_loop.simps) (auto simp: goes_def intro!: exI [of _ "bmem s"])
next
  case (Cons c cs)
  let ?r = "zero_regs\<lparr>r_eax := 0x0e00 OR ucast c, r_esi := ucast (si + 1)\<rparr>"
  have "(0x0e00 OR ucast c) AND 0xff00 = (0x0e00 :: u32)"
  proof (rule bit_word_eqI)
    fix i :: nat
    consider "i < 8" | "8 \<le> i" by linarith
    then show "bit ((0x0e00 OR ucast c :: u32) AND 0xff00) i \<longleftrightarrow> bit (0x0e00 :: u32) i"
    proof cases
      case 1
      moreover have "(0xff00 :: u32) = push_bit 8 0xff" "(0x0e00 :: u32) = push_bit 8 0x0e" by (simp_all add: push_bit_eq_mult)
      ultimately have "\<not> bit (0xff00 :: u32) i" "\<not> bit (0x0e00 :: u32) i" by (simp_all only: bit_push_bit_iff) simp_all
      then show ?thesis by (simp only: bit_and_iff simp_thms)
    next
      case 2
      then have "\<not> bit c i" by (auto dest: bit_imp_le_length)
      then have "bit ((0x0e00 OR ucast c :: u32) AND 0xff00) i \<longleftrightarrow> bit ((0x0e00 :: u32) AND 0xff00) i"
        by (simp only: bit_and_iff bit_or_iff bit_unsigned_iff simp_thms)
      then show ?thesis by simp
    qed
  qed
  from real_bios_print [OF B, of ?r s] this
  obtain b r' m where m: "B 0x10 ?r s = (b, r', s\<lparr>bmem := m\<rparr>)" "eq_off X (bmem s) m" by auto
  have u: "unat (si + 1) = unat si + 1"
    using Cons.prems(2) by (simp only: unat_word_ariths) simp
  have "unat (ucast si + 1 :: u32) = unat si + 1"
    using unat_add_of_nat [of "ucast si" 1] Cons.prems(2) by simp
  with u have si: "(ucast (si + 1) :: u32) = ucast si + 1" by (intro u32_eqI) simp
  have "cstring (bmem s) (ucast si + 1) cs" using Cons.prems(1) by simp
  moreover have sub: "bytes_at (ucast si + 1) (Suc (length cs)) \<inter> X = {}"
    using Cons.prems(3) bytes_at_Suc_subset [of "ucast si" "Suc (length cs)"] by auto
  ultimately have "cstring m (ucast si + 1) cs"
    using Cons.prems(2) by (intro cstring_eq_off [OF _ m(2)]) simp_all
  moreover have "unat (si + 1) + length cs < 2 ^ 16" using u Cons.prems(2) by simp
  ultimately obtain t where t: "print_string_loop B (si + 1) (s\<lparr>bmem := m\<rparr>) = Some t" "goes X (s\<lparr>bmem := m\<rparr>) t"
    using Cons.IH [of "s\<lparr>bmem := m\<rparr>" "si + 1"] sub si by auto
  have "print_string_loop B si s = Some t"
    using Cons.prems(1) m(1) t(1) by (subst print_string_loop.simps) (simp add: Let_def)
  moreover have "goes X s t" using t(2) m(2) by (auto simp: goes_def intro: eq_off_chain)
  ultimately show ?case by blast
qed

lemma message_goes:
  assumes B: "real_bios_ok B X dsk k" and im: "first_image L img sz n" "x @ crlf \<in> set first_messages"
    and A: "bytes_at (ucast (message_at L (x @ crlf))) (Suc (length (x @ crlf))) \<subseteq> A"
    and s: "\<forall>a \<in> A. bmem s a = img a" "A \<inter> X = {}"
  shows "\<exists>t. message B L x s = Some t \<and> goes X s t"
proof -
  let ?x = "x @ crlf"
  have c: "cstring img (ucast (message_at L ?x)) (text_bytes ?x)" "unat (message_at L ?x) + length ?x < 2 ^ 16"
    using im by (auto simp: first_image_def)
  have l: "length (text_bytes ?x) = length ?x" by (simp add: text_bytes_def)
  have "eq_off (- A) img (bmem s)" using s(1) by (auto simp: eq_off_def)
  then have "cstring (bmem s) (ucast (message_at L ?x)) (text_bytes ?x)"
    using A c(2) by (intro cstring_eq_off [OF c(1)]) (auto simp: l)
  then show ?thesis
    unfolding message_def using A c(2) s(2) by (intro print_string_loop_goes [OF B]) (auto simp: l)
qed

lemma goes_agrees:
  assumes "goes X s t" "\<forall>a \<in> A. bmem s a = img a" "A \<inter> X = {}"
  shows "\<forall>a \<in> A. bmem t a = img a"
  using assms by (auto simp: goes_def eq_off_def)

text \<open>The packet.\<close>

lemma ld16_st16_apart: "{a, a + 1} \<inter> {b, b + 1} = {} \<Longrightarrow> ld16 (st16 m a v) b = ld16 m b"
  by (rule ld16_eq_off [OF eq_off_st16]) auto

lemma ld32_half:
  assumes "m (a + 2) = 0" "m (a + 3) = 0"
  shows "ld32 m a = ucast (ld16 m a)"
  using assms by (intro bit_word_eqI) (auto simp: ld32_def ld16_def bit_simps dest: bit_imp_le_length)

definition filled_dap :: "bytes \<Rightarrow> u32 \<Rightarrow> u16 \<Rightarrow> u16 \<Rightarrow> u16 \<Rightarrow> bytes" where
  "filled_dap m d len offset lba = st16 (st16 (st16 (st16 m (d + 2) len) (d + 6) 0) (d + 4) offset) (d + 8) lba"

lemma load_filled_dap:
  assumes "m d = 0x10" "\<forall>i \<in> {10..<16}. m (d + of_nat i) = 0"
  shows "load_dap (filled_dap m d len offset lba) d = \<lparr>dap_size = 0x10, dap_unused = m (d + 1), dap_load_size = len,
    dap_load_offset = offset, dap_load_segment = 0, dap_lba_low = ucast lba, dap_lba_high = 0\<rparr>"
proof -
  let ?f = "filled_dap m d len offset lba"
  have z: "m (d + 10) = 0" "m (d + 11) = 0" "m (d + 12) = 0" "m (d + 13) = 0" "m (d + 14) = 0" "m (d + 15) = 0"
    using assms(2) [rule_format, of 10] assms(2) [rule_format, of 11] assms(2) [rule_format, of 12]
      assms(2) [rule_format, of 13] assms(2) [rule_format, of 14] assms(2) [rule_format, of 15] by simp_all
  have b: "?f d = 0x10" "?f (d + 1) = m (d + 1)" "?f (d + 10) = 0" "?f (d + 11) = 0" "?f (d + 12) = 0"
      "?f (d + 13) = 0" "?f (d + 14) = 0" "?f (d + 15) = 0"
    using assms(1) z by (simp_all add: filled_dap_def st16_def add.assoc)
  have w: "ld16 ?f (d + 2) = len" "ld16 ?f (d + 4) = offset" "ld16 ?f (d + 6) = 0" "ld16 ?f (d + 8) = lba"
    by (simp_all add: filled_dap_def ld16_st16_apart add.assoc)
  have "ld32 ?f (d + 8) = ucast lba" using ld32_half [of ?f "d + 8"] b w by (simp add: add.assoc)
  moreover have "ld32 ?f (d + 12) = 0" using b by (simp add: ld32_def add.assoc)
  ultimately show ?thesis using b w by (simp add: load_dap_def)
qed

lemma eq_off_filled_dap: "eq_off (bytes_at d 16) m (filled_dap m d len offset lba)"
  by (auto simp: eq_off_def bytes_at_def filled_dap_def st16_def add.assoc)

lemma concat_mem_list:
  "concat (map (\<lambda>i. mem_list m (a + of_nat (sz * i)) sz) [0..<n]) = mem_list m a (sz * n)"
proof (induction n)
  case (Suc n)
  then show ?case using mem_list_add [of m a "sz * n" sz] by (simp add: add.commute)
qed (simp add: mem_list_def)

lemma read_stage2_ok:
  fixes s :: "'a first_machine_scheme"
  assumes B: "real_bios_ok B X dsk k"
    and disk: "\<forall>i < n. dsk (ucast lba + of_nat i) = mem_list img (0x7c00 + 2 ^ k + of_nat (2 ^ k * i)) (2 ^ k)"
    and dap: "bmem s (ucast (dap_block_at L)) = 0x10" "\<forall>i \<in> {10..<16}. bmem s (ucast (dap_block_at L) + of_nat i) = 0"
    and n: "0 < n" "n \<le> 127" "0x7c00 + 2 ^ k * Suc n \<le> 0x10000"
    and X: "X \<inter> bytes_at (0x7c00 + 2 ^ k) (2 ^ k * n) = {}"
  shows "\<exists>m. read_stage2 B L (of_nat n) (0x7c00 + 2 ^ k) lba s = (False, s\<lparr>bmem := m\<rparr>) \<and>
    eq_off (X \<union> bytes_at (ucast (dap_block_at L)) 16 \<union> bytes_at (0x7c00 + 2 ^ k) (2 ^ k * n)) (bmem s) m \<and>
    (\<forall>a \<in> bytes_at (0x7c00 + 2 ^ k) (2 ^ k * n). m a = img a)"
proof -
  let ?d = "ucast (dap_block_at L) :: u32" and ?off = "0x7c00 + 2 ^ k :: u16" and ?R = "bytes_at (0x7c00 + 2 ^ k) (2 ^ k * n)"
  let ?m1 = "filled_dap (bmem s) ?d (of_nat n) ?off lba"
  let ?r = "zero_regs\<lparr>r_eax := 0x4200, r_edx := ucast (drive_number s), r_esi := ?d\<rparr>"
  define q where "q = load_dap ?m1 ?d"
  have q: "q = \<lparr>dap_size = 0x10, dap_unused = bmem s (?d + 1), dap_load_size = of_nat n, dap_load_offset = ?off,
      dap_load_segment = 0, dap_lba_low = ucast lba, dap_lba_high = 0\<rparr>"
    unfolding q_def by (rule load_filled_dap [OF dap])
  have nn: "unat (of_nat n :: u16) = n" using n(2) by (simp add: unat_of_nat take_bit_eq_mod)
  have "2 ^ k * 1 \<le> 2 ^ k * n" using n(1) by (intro mult_le_mono) simp_all
  moreover have "2 ^ k + 2 ^ k * n \<le> 33792" using n(3) by simp
  ultimately have "2 ^ k \<le> (16896 :: nat)" by linarith
  then have pk: "2 ^ k < (2 :: nat) ^ 15" by simp
  have off: "unat ?off = 0x7c00 + 2 ^ k"
  proof -
    have "?off = of_nat (0x7c00 + 2 ^ k)" by simp
    also have "unat \<dots> = 0x7c00 + 2 ^ k" using pk by (simp only: unat_of_nat) (simp add: take_bit_nat_eq_self)
    finally show ?thesis .
  qed
  have uoff: "ucast ?off = (0x7c00 + 2 ^ k :: u32)"
  proof (rule u32_eqI)
    have "(0x7c00 + 2 ^ k :: u32) = of_nat (0x7c00 + 2 ^ k)" by simp
    also have "unat \<dots> = 0x7c00 + 2 ^ k" using pk by (intro unat_of_nat_u32) simp
    finally show "unat (ucast ?off :: u32) = unat (0x7c00 + 2 ^ k :: u32)" using off by (simp only: unat_ucast_u16)
  qed
  have "(ucast (ucast lba :: u32) :: u64) = ucast lba" by (intro bit_word_eqI) (auto simp: bit_simps dest: bit_imp_le_length)
  then have lba: "dap_lba q = ucast lba" by (simp add: dap_lba_def q)
  have data: "concat (map (\<lambda>i. dsk (dap_lba q + of_nat i)) [0..<unat (dap_load_size q)]) = mem_list img (0x7c00 + 2 ^ k) (2 ^ k * n)"
  proof -
    have "map (\<lambda>i. dsk (dap_lba q + of_nat i)) [0..<n] = map (\<lambda>i. mem_list img (0x7c00 + 2 ^ k + of_nat (2 ^ k * i)) (2 ^ k)) [0..<n]"
      using disk by (simp add: lba)
    moreover have "dap_load_size q = of_nat n" by (simp add: q)
    ultimately show ?thesis by (simp only: nn concat_mem_list)
  qed
  have "\<exists>r' m. B 0x13 ?r (s\<lparr>bmem := ?m1\<rparr>) = (False, r', s\<lparr>bmem := ?m1\<rparr>\<lparr>bmem := m\<rparr>) \<and>
      eq_off X (put_bytes (bmem (s\<lparr>bmem := ?m1\<rparr>)) (16 * ucast (dap_load_segment q) + ucast (dap_load_offset q))
        (concat (map (\<lambda>i. dsk (dap_lba q + of_nat i)) [0..<unat (dap_load_size q)]))) m"
    by (rule real_bios_read [OF B]) (use q q_def nn off n in \<open>simp_all add: algebra_simps\<close>)
  then obtain r' m where m: "B 0x13 ?r (s\<lparr>bmem := ?m1\<rparr>) = (False, r', s\<lparr>bmem := m\<rparr>)"
      "eq_off X (put_bytes ?m1 (0x7c00 + 2 ^ k) (mem_list img (0x7c00 + 2 ^ k) (2 ^ k * n))) m"
    unfolding data by (auto simp: q uoff)
  have "read_stage2 B L (of_nat n) ?off lba s = (False, s\<lparr>bmem := m\<rparr>)"
    using m(1) by (simp add: read_stage2_def filled_dap_def Let_def)
  moreover have "eq_off (X \<union> bytes_at ?d 16 \<union> ?R) (bmem s) m"
    using eq_off_trans [OF eq_off_trans [OF eq_off_filled_dap [of ?d "bmem s" "of_nat n" ?off lba]
      eq_off_put_bytes [of "0x7c00 + 2 ^ k" "mem_list img (0x7c00 + 2 ^ k) (2 ^ k * n)" ?m1]] m(2)]
    by (simp add: Un_ac)
  moreover have "m a = img a" if a: "a \<in> ?R" for a
  proof -
    have "m a = put_bytes ?m1 (0x7c00 + 2 ^ k) (mem_list img (0x7c00 + 2 ^ k) (2 ^ k * n)) a"
      using m(2) a X by (auto simp: eq_off_def)
    also have "\<dots> = img (0x7c00 + 2 ^ k + of_nat (unat (a - (0x7c00 + 2 ^ k))))"
      using a by (simp add: put_bytes_def bytes_at_def mem_list_def)
    finally show ?thesis by simp
  qed
  ultimately show ?thesis by blast
qed

lemma read_info_ok:
  assumes B: "real_bios_ok B X dsk k" and sz: "30 \<le> ld16 (bmem s) (ucast (drive_parameters_at L))"
  shows "\<exists>m. read_info B L s = (False, s\<lparr>bmem := m, drive_bytes_per_sector := 2 ^ k\<rparr>) \<and>
    eq_off (X \<union> bytes_at (ucast (drive_parameters_at L)) 30) (bmem s) m"
  using real_bios_info [OF B, of "zero_regs\<lparr>r_eax := 0x4800, r_edx := ucast (drive_number s), r_esi := ucast (drive_parameters_at L)\<rparr>" s] sz
  by (auto simp: read_info_def)

text \<open>The processor at the start of the second stage.\<close>

definition protected_flat :: "switch_layout \<Rightarrow> processor \<Rightarrow> processor" where
  "protected_flat K p = p\<lparr>p_cr0 := p_cr0 p OR 1, p_cs := 0x8, p_ds := 0x10, p_es := 0x10, p_fs := 0x10, p_gs := 0x10,
     p_ss := 0x10, p_gdtr := boot_gdtr K, p_if := False\<rparr>"

lemma enter_protected_mode_ok:
  assumes "\<not> bit (p_cr0 p) 31"
  shows "enter_protected_mode K p = Some (protected_flat K p)"
  using boot_lookups [of "p\<lparr>p_if := False, p_gdtr := boot_gdtr K, p_cr0 := x\<rparr>" K for x]
    boot_lookups [of "p\<lparr>p_if := False, p_gdtr := boot_gdtr K, p_cr0 := x, p_cs := 8\<rparr>" K for x] assms
  by (simp add: enter_protected_mode_def protected_flat_def far_jump_def load_data_def loadable_def write_cr0_def boot_gdt_descs
      bit_or_iff bit_1_iff del: bit_0 One_nat_def)

text \<open>What is read: where the boot file starts on the drive, the size of a sector, and how many sectors.\<close>

fun first_source :: "boot_source \<Rightarrow> nat \<Rightarrow> nat \<Rightarrow> nat \<Rightarrow> bool" where
  "first_source (Torito location len) base k n \<longleftrightarrow>
     base = unat location \<and> base < 0xffff \<and> k < 16 \<and> unat len < 2 ^ 16 \<and> n = unat len div 2 ^ k"
| "first_source Disk_start base k n \<longleftrightarrow> base = 0 \<and> k = 9 \<and> n = 64"

lemma first_source_reads:
  assumes "first_source src base k n"
  shows "sectors_to_read src (2 ^ k) = Some (of_nat n)" "read_offset src (2 ^ k) = 0x7c00 + 2 ^ k"
    "unat (read_lba src) = base + 1"
proof -
  have c: "drop_bit k (ucast len) = (of_nat (unat len div 2 ^ k) :: u16)" if "unat (len :: u32) < 2 ^ 16" for len
  proof -
    have "unat (ucast len :: u16) = unat len" using that by (simp add: unsigned_ucast_eq take_bit_nat_eq_self)
    then have "of_nat (unat (drop_bit k (ucast len :: u16))) = (of_nat (unat len div 2 ^ k) :: u16)"
      by (simp only: unat_drop_bit_eq) (simp add: drop_bit_eq_div)
    then show ?thesis by simp
  qed
  show "sectors_to_read src (2 ^ k) = Some (of_nat n)"
    using assms sector_size_loop_pow [of 1 0 k] sector_size_loop_pow [of 512 9 9 63] by (cases src) (auto simp: c)
  show "read_offset src (2 ^ k) = 0x7c00 + 2 ^ k" using assms by (cases src) auto
  show "unat (read_lba src) = base + 1"
  proof (cases src)
    case (Torito location len)
    then have l: "unat location < 0xffff" "base = unat location" using assms by auto
    then have "unat (ucast location :: u16) = unat location" by (simp add: unsigned_ucast_eq take_bit_nat_eq_self)
    then have "unat (ucast location + 1 :: u16) = unat location + 1"
      using l(1) by (simp only: unat_word_ariths) simp
    then show ?thesis using Torito l by simp
  qed (use assms in auto)
qed

text \<open>The part behind the load, when the whole image is in memory.\<close>

lemma goes_trans: "goes X s t \<Longrightarrow> goes X t u \<Longrightarrow> goes X s u"
proof -
  assume "goes X s t" "goes X t u"
  then obtain m m' where m: "t = s\<lparr>bmem := m\<rparr>" "eq_off X (bmem s) m" "u = t\<lparr>bmem := m'\<rparr>" "eq_off X (bmem t) m'"
    unfolding goes_def by blast
  have "eq_off X (bmem s) m'" using eq_off_chain [OF m(2)] m(1,4) by simp
  with m(1,3) show "goes X s u" unfolding goes_def by (intro exI [of _ m']) simp
qed

lemma goes_eq: "goes X s t \<Longrightarrow> t = s\<lparr>bmem := bmem t\<rparr>" "goes X s t \<Longrightarrow> eq_off X (bmem s) (bmem t)"
  by (auto simp: goes_def)

lemma goes_refl: "goes X s s"
  unfolding goes_def by (rule exI [of _ "bmem s"]) simp

lemma first_image_message:
  assumes "first_image L img sz n" "x \<in> set first_messages"
  shows "bytes_at (ucast (message_at L x)) (Suc (length x)) \<subseteq>
    bytes_at 0x7c00 (if x \<in> set (take 4 first_messages) then sz else sz * Suc n) - data_area L"
  using assms unfolding first_image_def by blast

lemma stage2_setup_ok:
  fixes s :: "'a first_machine_scheme"
  assumes B: "real_bios_ok B X dsk k" and im: "first_image L img sz n"
    and s: "\<forall>a \<in> bytes_at 0x7c00 (sz * Suc n) - data_area L. bmem s a = img a"
    and X: "X \<inter> bytes_at 0x7c00 (sz * Suc n) = {}" and p: "\<not> bit (p_cr0 p) 31"
  shows "\<exists>t. stage2_setup B L K p s = Some (Enters_stage2, protected_flat K p, t) \<and> goes X s t"
proof -
  let ?A = "bytes_at 0x7c00 (sz * Suc n) - data_area L"
  have XA: "?A \<inter> X = {}" using X by blast
  have step: "\<exists>u. message B L x t = Some u \<and> goes X s u \<and> (\<forall>a \<in> ?A. bmem u a = img a)"
    if x: "x @ crlf \<in> set (drop 4 first_messages)" and t: "goes X s t" for x and t :: "'a first_machine_scheme"
  proof -
    have "x @ crlf \<in> set first_messages" "x @ crlf \<notin> set (take 4 first_messages)"
      using x by (auto simp: first_messages_def)
    then have "\<exists>u. message B L x t = Some u \<and> goes X t u"
      using first_image_message [OF im, of "x @ crlf"] goes_agrees [OF t s XA] XA
      by (intro message_goes [OF B im, where A = ?A]) (simp_all del: length_append)
    then obtain u where u: "message B L x t = Some u" "goes X t u" by blast
    have "goes X s u" using goes_trans [OF t u(2)] .
    with u(1) show ?thesis using goes_agrees [OF _ s XA] by blast
  qed
  obtain s1 where s1: "message B L ''Disabling A20 line...'' s = Some s1" "goes X s s1"
    using step [of "''Disabling A20 line...''" s] goes_refl [of X s] by (auto simp: first_messages_def)
  obtain s2 where s2: "message B L ''A20 line disabled.'' s1 = Some s2" "goes X s s2"
    using step [of "''A20 line disabled.''" s1] s1(2) by (auto simp: first_messages_def)
  obtain s3 where s3: "message B L ''Loading the GDT...'' s2 = Some s3" "goes X s s3"
    using step [of "''Loading the GDT...''" s2] s2(2) by (auto simp: first_messages_def)
  have "enable_a20 B s1 = (True, s1)" by (simp add: enable_a20_def a20_test_eq)
  then show ?thesis
    using s1 s2 s3 enter_protected_mode_ok [OF p] by (simp add: stage2_setup_def)
qed

lemma first_stage_ok:
  fixes s :: "'a first_machine_scheme"
  assumes B: "real_bios_ok B X dsk k" and src: "first_source src base k n"
    and n: "0 < n" "n \<le> 127" "0x7c00 + 2 ^ k * Suc n \<le> 0x10000"
    and im: "first_image L img (2 ^ k) n" and first: "\<forall>a \<in> bytes_at 0x7c00 (2 ^ k). bmem s a = img a"
    and disk: "\<forall>i \<in> {1..n}. dsk (of_nat (base + i)) = mem_list img (0x7c00 + of_nat (2 ^ k * i)) (2 ^ k)"
    and X: "X \<inter> bytes_at 0x7c00 (2 ^ k * Suc n) = {}" and p: "\<not> bit (p_cr0 p) 31"
  shows "\<exists>m. first_stage B L K src dl p s = Some (Enters_stage2, protected_flat K p,
      s\<lparr>drive_number := dl, drive_bytes_per_sector := 2 ^ k, bmem := m\<rparr>) \<and>
    (\<forall>a \<in> bytes_at 0x7c00 (2 ^ k * Suc n) - data_area L. m a = img a) \<and>
    eq_off (X \<union> bytes_at 0x7c00 (2 ^ k * Suc n)) (bmem s) m \<and>
    (\<forall>location len. src = Torito location len \<longrightarrow> unat len < 2 ^ k * Suc n)"
proof -
  let ?S = "bytes_at 0x7c00 (2 ^ k) :: u32 set" and ?W = "bytes_at 0x7c00 (2 ^ k * Suc n) :: u32 set"
  let ?d = "ucast (dap_block_at L) :: u32" and ?P = "bytes_at (ucast (drive_parameters_at L)) 30"
  let ?R = "bytes_at (0x7c00 + 2 ^ k) (2 ^ k * n) :: u32 set"
  have le: "0x7c00 + 2 ^ k + 2 ^ k * n \<le> (0x10000 :: nat)" using n(3) by simp
  have "unat (0x7c00 + of_nat (2 ^ k) :: u32) = 0x7c00 + 2 ^ k" using unat_add_of_nat [of "0x7c00" "2 ^ k"] le by simp
  then have "?W = ?S \<union> ?R \<and> ?S \<inter> ?R = {}" using le by (auto simp: bytes_at_unat set_eq_iff)
  then have W: "?W = ?S \<union> ?R" "?S \<inter> ?R = {}" by simp_all
  then have SX: "?S \<inter> X = {}" "X \<inter> ?R = {}" using X by blast+
  have D: "data_area L = bytes_at ?d 16 \<union> ?P" "data_area L \<subseteq> ?S" "bytes_at ?d 16 \<inter> ?P = {}"
    using im unfolding first_image_def data_area_def by blast+
  have print: "\<exists>t. message B L x u = Some t \<and> goes X u t"
    if "x @ crlf \<in> set (take 4 first_messages)" "\<forall>a \<in> ?S - data_area L. bmem u a = img a" for x and u :: "'a first_machine_scheme"
  proof (rule message_goes [OF B im _ _ that(2)])
    show "x @ crlf \<in> set first_messages" using that(1) by (auto dest: in_set_takeD)
    then show "bytes_at (ucast (message_at L (x @ crlf))) (Suc (length (x @ crlf))) \<subseteq> ?S - data_area L"
      using first_image_message [OF im, of "x @ crlf"] that(1) by simp
  qed (use SX in blast)
  define s0 where "s0 = s\<lparr>drive_number := dl\<rparr>"
  have a0: "\<forall>a \<in> ?S. bmem s0 a = img a" using first by (simp add: s0_def)
  obtain s1 where s1: "message B L ''LoofOS booting...'' s0 = Some s1" "goes X s0 s1"
    using print [of "''LoofOS booting...''" s0] a0 by (auto simp: first_messages_def)
  have a1: "\<forall>a \<in> ?S. bmem s1 a = img a" using goes_agrees [OF s1(2) a0 SX(1)] .
  have "ld16 (bmem s1) (ucast (drive_parameters_at L)) = ld16 img (ucast (drive_parameters_at L))"
    using a1 D(1,2) in_bytes_at [of 0 30 "ucast (drive_parameters_at L)"] in_bytes_at [of 1 30 "ucast (drive_parameters_at L)"]
    by (intro ld16_cong) auto
  then have "30 \<le> ld16 (bmem s1) (ucast (drive_parameters_at L))" using im by (simp add: first_image_def)
  from read_info_ok [OF B this] obtain m2 where
    m2: "read_info B L s1 = (False, s1\<lparr>bmem := m2, drive_bytes_per_sector := 2 ^ k\<rparr>)" "eq_off (X \<union> ?P) (bmem s1) m2" by blast
  define s2 where "s2 = s1\<lparr>bmem := m2, drive_bytes_per_sector := 2 ^ k\<rparr>"
  have a2: "\<forall>a \<in> ?S - ?P. bmem s2 a = img a" using a1 m2(2) SX(1) by (auto simp: s2_def eq_off_def)
  obtain s3 where s3: "message B L ''Loading next stage boot...'' s2 = Some s3" "goes X s2 s3"
    using print [of "''Loading next stage boot...''" s2] a2 D(1) by (auto simp: first_messages_def)
  have a3: "\<forall>a \<in> ?S - ?P. bmem s3 a = img a" using goes_agrees [OF s3(2) a2] SX(1) by blast
  have dap: "bmem s3 (?d + of_nat i) = img (?d + of_nat i)" if "i < 16" for i
    using in_bytes_at [of i 16 ?d] that D a3 by auto
  have "\<exists>m. read_stage2 B L (of_nat n) (0x7c00 + 2 ^ k) (read_lba src) s3 = (False, s3\<lparr>bmem := m\<rparr>) \<and>
      eq_off (X \<union> bytes_at ?d 16 \<union> ?R) (bmem s3) m \<and> (\<forall>a \<in> ?R. m a = img a)"
  proof (rule read_stage2_ok [OF B _ _ _ n SX(2)])
    show "\<forall>i < n. dsk (ucast (read_lba src) + of_nat i) = mem_list img (0x7c00 + 2 ^ k + of_nat (2 ^ k * i)) (2 ^ k)"
    proof (intro allI impI)
      fix i assume i: "i < n"
      have "(ucast (read_lba src) :: u64) = of_nat (unat (read_lba src))" by simp
      then have "(ucast (read_lba src) + of_nat i :: u64) = of_nat (base + Suc i)"
        using first_source_reads(3) [OF src] by (simp only:) simp
      moreover have "(0x7c00 + of_nat (2 ^ k * Suc i) :: u32) = 0x7c00 + 2 ^ k + of_nat (2 ^ k * i)" by simp
      ultimately show "dsk (ucast (read_lba src) + of_nat i) = mem_list img (0x7c00 + 2 ^ k + of_nat (2 ^ k * i)) (2 ^ k)"
        using disk [rule_format, of "Suc i"] i by (simp only:) simp
    qed
  qed (use dap [of 0] dap im in \<open>auto simp: first_image_def\<close>)
  then obtain m4 where m4: "read_stage2 B L (of_nat n) (0x7c00 + 2 ^ k) (read_lba src) s3 = (False, s3\<lparr>bmem := m4\<rparr>)"
      "eq_off (X \<union> bytes_at ?d 16 \<union> ?R) (bmem s3) m4" "\<forall>a \<in> ?R. m4 a = img a" by blast
  define s4 where "s4 = s3\<lparr>bmem := m4\<rparr>"
  have a4: "\<forall>a \<in> ?W - data_area L. bmem s4 a = img a"
    using a3 m4(2,3) SX(1) W D(1) by (auto simp: s4_def eq_off_def)
  obtain s5 where s5: "message B L ''Loaded stage2 boot. Jumping.'' s4 = Some s5" "goes X s4 s5"
    using print [of "''Loaded stage2 boot. Jumping.''" s4] a4 W(1) by (auto simp: first_messages_def)
  have a5: "\<forall>a \<in> ?W - data_area L. bmem s5 a = img a" using goes_agrees [OF s5(2) a4] X by blast
  let ?p = "p\<lparr>p_cs := 0, p_ss := 0, p_ds := 0, p_es := 0\<rparr>"
  obtain s6 where s6: "stage2_setup B L K ?p s5 = Some (Enters_stage2, protected_flat K ?p, s6)" "goes X s5 s6"
    using stage2_setup_ok [OF B im a5 X, of ?p K] p by auto
  have a6: "\<forall>a \<in> ?W - data_area L. bmem s6 a = img a" using goes_agrees [OF s6(2) a5] X by blast
  have bps: "drive_bytes_per_sector s3 = 2 ^ k" by (subst goes_eq(1) [OF s3(2)]) (simp add: s2_def)
  have "protected_flat K ?p = protected_flat K p" by (simp add: protected_flat_def)
  then have run: "first_stage B L K src dl p s = Some (Enters_stage2, protected_flat K p, s6)"
    using s1 s3 s5 s6 m2(1) m4(1) first_source_reads [OF src]
    by (simp add: first_stage_def Let_def s0_def [symmetric] s2_def [symmetric] s4_def [symmetric] bps)
  have "eq_off (X \<union> ?W) (bmem s) (bmem s6)"
  proof -
    have sub: "X \<union> ?P \<subseteq> X \<union> ?W" "X \<union> bytes_at ?d 16 \<union> ?R \<subseteq> X \<union> ?W" "X \<subseteq> X \<union> ?W" using D W by blast+
    have "bmem s0 = bmem s" by (simp add: s0_def)
    then show ?thesis
      using eq_off_mono [OF goes_eq(2) [OF s1(2)] sub(3)] eq_off_mono [OF m2(2) sub(1)] eq_off_mono [OF goes_eq(2) [OF s3(2)] sub(3)]
        eq_off_mono [OF m4(2) sub(2)] eq_off_mono [OF goes_eq(2) [OF s5(2)] sub(3)] eq_off_mono [OF goes_eq(2) [OF s6(2)] sub(3)]
      by (simp add: eq_off_def s2_def s4_def)
  qed
  moreover have "s6 = s\<lparr>drive_number := dl, drive_bytes_per_sector := 2 ^ k, bmem := bmem s6\<rparr>"
  proof -
    obtain m1 m3 m5 m6 where "s1 = s0\<lparr>bmem := m1\<rparr>" "s3 = s2\<lparr>bmem := m3\<rparr>" "s5 = s4\<lparr>bmem := m5\<rparr>" "s6 = s5\<lparr>bmem := m6\<rparr>"
      using goes_eq(1) s1(2) s3(2) s5(2) s6(2) by blast
    then show ?thesis by (cases s) (simp add: s0_def s2_def s4_def)
  qed
  moreover have "unat len < 2 ^ k * Suc n" if "src = Torito location len" for location len
    using src that dividend_less_times_div [of "2 ^ k" "unat len"] by simp
  ultimately show ?thesis using run a6 by metis
qed

text \<open>
  (C4) The first stage loads the whole boot file and enters the second stage, from a CD as from a
  disk: if the BIOS does what it documents, the first sector and the \<open>n\<close> sectors behind it hold the
  image, and the load fits below 64 KiB, then in the end memory from 0x7c00 on is the image, but for
  the packet and the drive parameters, the drive and the size of its sectors are those of the BIOS, and
  the processor is in protected mode with flat segments and interrupts off. Memory elsewhere is changed
  by the BIOS only. From a CD these sectors hold the whole length of the boot file.
\<close>

theorem first_stage_enters:
  fixes s :: "'a first_machine_scheme"
  assumes B: "real_bios_ok B X dsk k" and src: "first_source src base k n"
    and n: "0 < n" "n \<le> 127" "0x7c00 + 2 ^ k * Suc n \<le> 0x10000"
    and im: "first_image L img (2 ^ k) n" and first: "\<forall>a \<in> bytes_at 0x7c00 (2 ^ k). bmem s a = img a"
    and disk: "\<forall>i \<in> {1..n}. dsk (of_nat (base + i)) = mem_list img (0x7c00 + of_nat (2 ^ k * i)) (2 ^ k)"
    and X: "X \<inter> bytes_at 0x7c00 (2 ^ k * Suc n) = {}" and p: "\<not> bit (p_cr0 p) 31"
  shows "\<exists>m. first_stage B L K src dl p s = Some (Enters_stage2, protected_flat K p,
      s\<lparr>drive_number := dl, drive_bytes_per_sector := 2 ^ k, bmem := m\<rparr>) \<and>
    (\<forall>a \<in> bytes_at 0x7c00 (2 ^ k * Suc n) - data_area L. m a = img a) \<and>
    eq_off (X \<union> bytes_at 0x7c00 (2 ^ k * Suc n)) (bmem s) m \<and>
    (\<forall>location len. src = Torito location len \<longrightarrow> unat len < 2 ^ k * Suc n)"
  by (rule first_stage_ok [OF assms])

text \<open>
  An example: a BIOS over a drive; an image with the messages, 48 bytes apart, the packet and the drive
  parameters in its first 512 bytes; and a CD with three sectors of 2048 bytes, from sector 20 on.
\<close>

definition example_real_bios :: "(u64 \<Rightarrow> u8 list) \<Rightarrow> nat \<Rightarrow> 'a first_machine_scheme real_bios" where
  "example_real_bios dsk k code r s = (False, r,
     if code = 0x10 then s\<lparr>bmem := (bmem s)(0xb8000 := ucast (r_eax r))\<rparr>
     else if r_eax r = 0x4800 then s\<lparr>bmem := st16 (bmem s) (r_esi r + 24) (2 ^ k)\<rparr>
     else if r_eax r = 0x4200 then
       (let d = load_dap (bmem s) (r_esi r) in
        s\<lparr>bmem := put_bytes (bmem s) (16 * ucast (dap_load_segment d) + ucast (dap_load_offset d))
          (concat (map (\<lambda>i. dsk (dap_lba d + of_nat i)) [0..<unat (dap_load_size d)]))\<rparr>)
     else s)"

definition message_byte :: "nat \<Rightarrow> u8" where
  "message_byte i = (let x = text_bytes (first_messages ! (i div 48)) in if i mod 48 < length x then x ! (i mod 48) else 0)"

definition example_head :: bytes where
  "example_head a = (if a - 0x7c00 < 0x180 then message_byte (unat (a - 0x7c00)) else if a = 0x7d80 then 0x10
     else if a = 0x7da0 then 0x1e else 0)"

definition example_first :: first_layout where
  "example_first = \<lparr>message_at = (\<lambda>x. 0x7c00 + of_nat (48 * index_of x first_messages)),
     drive_parameters_at = 0x7da0, dap_block_at = 0x7d80\<rparr>"

definition example_image :: bytes where
  "example_image a = (if a \<in> bytes_at 0x7c00 512 then example_head a else ucast a)"

definition example_cd :: "u64 \<Rightarrow> u8 list" where
  "example_cd lba = mem_list example_image (0x7c00 + 0x800 * ucast (lba - 20)) 2048"

definition example_power_on :: first_machine where
  "example_power_on = \<lparr>bmem = (\<lambda>a. if a \<in> bytes_at 0x7c00 2048 then example_image a else 0), crtc_index = 0,
     crtc_reg = (\<lambda>_. 0), color = 0, drive_bytes_per_sector = 0, drive_number = 0, a20 = False\<rparr>"

lemma example_real_bios_ok: "real_bios_ok (example_real_bios dsk k) (bytes_at 0xb8000 1) dsk k"
proof -
  have "eq_off (X \<union> bytes_at a 30) m (st16 m (a + 24) v)" for X a m v
    by (auto simp: eq_off_def bytes_at_def st16_def)
  then have "\<exists>r' m. example_real_bios dsk k 0x13 r s = (False, r', s\<lparr>bmem := m\<rparr>) \<and>
      eq_off (X \<union> bytes_at (r_esi r) 30) (bmem s) m \<and> ld16 m (r_esi r + 24) = 2 ^ k"
    if "r_eax r = 0x4800" for X r and s :: "'a first_machine_scheme"
    using that by (intro exI [of _ r] exI [of _ "st16 (bmem s) (r_esi r + 24) (2 ^ k)"]) (simp add: example_real_bios_def)
  moreover have "eq_off (bytes_at 0xb8000 1) m (m(0xb8000 := v))" for m v by (simp add: eq_off_def bytes_at_def)
  then have "\<exists>c r' m. example_real_bios dsk k 0x10 r s = (c, r', s\<lparr>bmem := m\<rparr>) \<and> eq_off (bytes_at 0xb8000 1) (bmem s) m"
    for r and s :: "'a first_machine_scheme"
    by (intro exI [of _ False] exI [of _ r] exI [of _ "(bmem s)(0xb8000 := ucast (r_eax r))"]) (simp add: example_real_bios_def)
  moreover have "\<exists>r' m. example_real_bios dsk k 0x13 r s = (False, r', s\<lparr>bmem := m\<rparr>) \<and>
      eq_off X (put_bytes (bmem s) (16 * ucast (dap_load_segment d) + ucast (dap_load_offset d))
        (concat (map (\<lambda>i. dsk (dap_lba d + of_nat i)) [0..<unat (dap_load_size d)]))) m"
    if "d = load_dap (bmem s) (r_esi r)" "r_eax r = 0x4200" for X r d and s :: "'a first_machine_scheme"
    using that by (intro exI [of _ r] exI [of _ "put_bytes (bmem s) (16 * ucast (dap_load_segment d) + ucast (dap_load_offset d))
        (concat (map (\<lambda>i. dsk (dap_lba d + of_nat i)) [0..<unat (dap_load_size d)]))"])
      (simp add: example_real_bios_def Let_def)
  ultimately show ?thesis unfolding real_bios_ok_def by blast
qed

lemma example_message:
  assumes x: "x \<in> set first_messages"
  shows "cstring example_head (ucast (message_at example_first x)) (text_bytes x)"
    "unat (message_at example_first x) + length x < 2 ^ 16"
    "bytes_at (ucast (message_at example_first x)) (Suc (length x)) \<subseteq> bytes_at 0x7c00 0x180"
proof -
  have n: "length first_messages = 8" "list_all (\<lambda>x. 0 \<notin> set (text_bytes x) \<and> length x < 40) first_messages" by code_simp+
  let ?i = "index_of x first_messages"
  have i: "?i < 8" "first_messages ! ?i = x" using index_of [OF x] n(1) by simp_all
  have l: "length (text_bytes x) < 40" "length (text_bytes x) = length x" using n(2) x by (simp_all add: list_all_iff text_bytes_def)
  have at: "unat (message_at example_first x) = 0x7c00 + 48 * ?i"
  proof -
    have "message_at example_first x = of_nat (0x7c00 + 48 * ?i)" by (simp add: example_first_def)
    also have "unat \<dots> = 0x7c00 + 48 * ?i" using i(1) by (simp only: unat_of_nat) (simp add: take_bit_nat_eq_self)
    finally show ?thesis .
  qed
  have byte: "example_head (ucast (message_at example_first x) + of_nat j) = (if j < length (text_bytes x) then text_bytes x ! j else 0)" if "j < 40" for j
  proof -
    have "unat (ucast (message_at example_first x) + of_nat j - 0x7c00 :: u32) = 48 * ?i + j"
      using at unat_add_of_nat [of "ucast (message_at example_first x)" j] i(1) that by (simp add: unat_sub_if')
    moreover have "(48 * ?i + j) div 48 = ?i" "(48 * ?i + j) mod 48 = j" using that by simp_all
    ultimately show ?thesis
      using i that by (simp add: example_head_def message_byte_def word_less_nat_alt Let_def)
  qed
  have "0 \<notin> set (text_bytes x)" using n(2) x by (simp add: list_all_iff)
  then show "cstring example_head (ucast (message_at example_first x)) (text_bytes x)" using byte l by (simp add: cstring_def)
  show "bytes_at (ucast (message_at example_first x)) (Suc (length x)) \<subseteq> bytes_at 0x7c00 0x180"
    using at i(1) l by (auto simp: bytes_at_unat)
  show "unat (message_at example_first x) + length x < 2 ^ 16" using at i(1) l by simp
qed

lemma example_first_image:
  assumes img: "\<forall>a \<in> bytes_at 0x7c00 512. img a = example_head a" and k: "9 \<le> k"
  shows "first_image example_first img (2 ^ k) n"
proof -
  have p: "2 ^ 9 \<le> (2 :: nat) ^ k" using k by (intro power_increasing) simp_all
  have sub: "bytes_at 0x7c00 512 \<subseteq> bytes_at 0x7c00 (2 ^ k)" "bytes_at 0x7c00 (2 ^ k) \<subseteq> bytes_at 0x7c00 (2 ^ k * Suc n)"
    using p by (auto simp: bytes_at_def)
  have d: "data_area example_first \<subseteq> bytes_at 0x7c00 512" "bytes_at 0x7c00 0x180 \<inter> data_area example_first = {}"
    by (auto simp: data_area_def example_first_def bytes_at_unat)
  have s: "bytes_at 0x7c00 0x180 \<subseteq> bytes_at 0x7c00 512" by (auto simp: bytes_at_def)
  have off: "eq_off (- bytes_at 0x7c00 512) example_head img" using img by (simp add: eq_off_def)
  have "cstring img (ucast (message_at example_first x)) (text_bytes x) \<and>
      unat (message_at example_first x) + length x < 2 ^ 16 \<and>
      bytes_at (ucast (message_at example_first x)) (Suc (length x)) \<subseteq>
        bytes_at 0x7c00 (if b then 2 ^ k else 2 ^ k * Suc n) - data_area example_first"
    if x: "x \<in> set first_messages" for x b
  proof -
    note e = example_message [OF x]
    have l: "length (text_bytes x) = length x" by (simp add: text_bytes_def)
    have "cstring img (ucast (message_at example_first x)) (text_bytes x)"
      using e(2,3) s by (intro cstring_eq_off [OF e(1) off]) (auto simp: l)
    moreover have "bytes_at (ucast (message_at example_first x)) (Suc (length x)) \<subseteq> bytes_at 0x7c00 (2 ^ k) - data_area example_first"
      using e(3) s sub(1) d(2) by blast
    ultimately show ?thesis using e(2) sub(2) by auto
  qed
  moreover have "bytes_at (ucast (dap_block_at example_first)) 16 \<inter> bytes_at (ucast (drive_parameters_at example_first)) 30 = {}"
    by (auto simp: example_first_def bytes_at_unat)
  moreover have "\<forall>i \<in> {10..<16}. img (ucast (dap_block_at example_first) + of_nat i) = 0"
  proof -
    have "{10..<16} = {10, 11, 12, 13, 14, 15 :: nat}" by auto
    then show ?thesis by (simp add: img bytes_at_def example_first_def example_head_def)
  qed
  moreover have "30 \<le> ld16 img (ucast (drive_parameters_at example_first))"
    by (simp add: img bytes_at_def example_first_def example_head_def ld16_def)
  moreover have "img (ucast (dap_block_at example_first)) = 0x10"
    by (simp add: img bytes_at_def example_first_def example_head_def)
  ultimately show ?thesis using d(1) sub(1) unfolding first_image_def by blast
qed

theorem first_stage_enters_witness:
  "\<exists>m. first_stage (example_real_bios example_cd 11) example_first switch_example (Torito 20 0x1234) 0xe0
      (flat_processor\<lparr>p_cr0 := 0x10\<rparr>) example_power_on =
    Some (Enters_stage2, protected_flat switch_example (flat_processor\<lparr>p_cr0 := 0x10\<rparr>),
      example_power_on\<lparr>drive_number := 0xe0, drive_bytes_per_sector := 0x800, bmem := m\<rparr>) \<and> m 0x9255 = 0x55"
proof -
  let ?W = "bytes_at 0x7c00 (2 ^ 11 * Suc 2)"
  have disk: "\<forall>i \<in> {1..2}. example_cd (of_nat (20 + i)) = mem_list example_image (0x7c00 + of_nat (2 ^ 11 * i)) (2 ^ 11)"
  proof -
    have "{1..2} = {1, 2 :: nat}" by auto
    then show ?thesis by (simp add: example_cd_def)
  qed
  have first: "\<forall>a \<in> bytes_at 0x7c00 (2 ^ 11). bmem example_power_on a = example_image a" by (simp add: example_power_on_def)
  have X: "bytes_at 0xb8000 1 \<inter> ?W = {}" by (auto simp: bytes_at_unat)
  have p: "\<not> bit (p_cr0 (flat_processor\<lparr>p_cr0 := 0x10\<rparr>)) 31" by (simp add: bit_iff_odd)
  have src: "first_source (Torito 20 0x1234) 20 11 2" by simp
  have im: "first_image example_first example_image (2 ^ 11) 2" by (rule example_first_image) (simp_all add: example_image_def)
  obtain m where m: "first_stage (example_real_bios example_cd 11) example_first switch_example (Torito 20 0x1234) 0xe0
      (flat_processor\<lparr>p_cr0 := 0x10\<rparr>) example_power_on =
    Some (Enters_stage2, protected_flat switch_example (flat_processor\<lparr>p_cr0 := 0x10\<rparr>),
      example_power_on\<lparr>drive_number := 0xe0, drive_bytes_per_sector := 2 ^ 11, bmem := m\<rparr>)"
    "\<forall>a \<in> ?W - data_area example_first. m a = example_image a"
    using first_stage_enters [where K = switch_example and dl = "0xe0", OF example_real_bios_ok src _ _ _ im first disk X p] by auto
  have "0x9255 \<in> ?W - data_area example_first" by (simp add: data_area_def example_first_def bytes_at_def)
  then have "m 0x9255 = 0x55" using m(2) by (simp add: example_image_def bytes_at_def)
  with m(1) show ?thesis by auto
qed

end
