(* ===== verification/Boot_Chain.thy ===== *)
theory Boot_Chain
  imports Stage2 Bios_Switch
begin

text \<open>
  The end of the second stage of the boot loader: \<open>stage2\<close> turns paging on before it calls
  \<open>init_vbe\<close>, whose first BIOS call then faults, both by the function \<open>bios_int\<close> and by the routine
  of theory \<open>Bios_Switch\<close>.
\<close>

lemma stage2_faults_mem:
  fixes s :: "'a stage2_machine_scheme"
  assumes "stage2_to_video B F L s = Some (True, t)" "bit (boot_cr0 t) 31"
  shows "init_vbe B V t = None" "stage2 B F V L s = None" "p_cr0 p = boot_cr0 t \<Longrightarrow> bios_call B K p t = None"
proof -
  show v: "init_vbe B V t = None" using assms(2) by (intro init_vbe_paging) (simp add: paging_def)
  show "stage2 B F V L s = None" using stage2_after_video [OF assms(1), of V] v by simp
  show "p_cr0 p = boot_cr0 t \<Longrightarrow> bios_call B K p t = None" using assms(2) by (intro bios_call_paging) simp
qed

text \<open>
  (C32) A defect: \<open>stage2\<close> calls \<open>init_vbe\<close> with paging on. With the \<open>cr0\<close> it has then,
  \<open>_bios_int\<close> cannot go back to real mode: every BIOS call faults, whatever the BIOS does and
  whatever its arguments are. So \<open>init_vbe\<close> faults on the machine that \<open>stage2\<close> has built for it,
  \<open>stage2\<close> as a whole ends in that fault, and the jump to the kernel is not reached.
\<close>

theorem init_vbe_faults:
  fixes s :: "'a stage2_machine_scheme"
  assumes "disk_bios B dsk" "e820_bios B cont rs" "rs \<noteq> []" "disk_ok dsk n g s" "stage2_room F L n g D"
    "literals_ok L (stage2_area F L n g D) (bmem s)"
    "has_file dsk (mounted dsk n s) n g D ''/system/kernel'' (Some k)" "length k + g * n \<le> D"
    "has_file dsk (mounted dsk n s) n g (D - length k) ''/system/vga'' r" "\<not> paging s"
  shows "\<exists>t. stage2_to_video B F L s = Some (True, t) \<and>
    stage2 B F V L s = map_option (Pair Kernel_jump) (init_vbe B V t) \<and>
    init_vbe B V t = None \<and> stage2 B F V L s = None \<and>
    (\<forall>p K. p_cr0 p = boot_cr0 t \<longrightarrow> bios_call B K p t = None)"
proof -
  obtain t where t: "stage2_to_video B F L s = Some (True, t)" "bit (boot_cr0 t) 31"
    using stage2_hands_over_mem [OF assms, of V] by (elim exE conjE)
  show ?thesis using t(1) stage2_after_video [OF t(1), of V] stage2_faults_mem [OF t] by blast
qed

theorem init_vbe_faults_witness:
  "\<exists>t. stage2_to_video (boot_bios True) example_exfat_frame boot_program boot_start = Some (True, t) \<and>
    stage2 (boot_bios True) example_exfat_frame example_vbe_frame boot_program boot_start = None \<and>
    bios_call (boot_bios True) switch_example (flat_processor\<lparr>p_cr0 := boot_cr0 t\<rparr>) t = None"
proof -
  have f: "has_file (boot_disk True) (mounted (boot_disk True) 512 boot_start) 512 1 (1024 - length (replicate 512 (0x90 :: u8)))
      ''/system/vga'' (Some (replicate 512 0x91))"
    using boot_files(2) [of 512] by simp
  show ?thesis
    using init_vbe_faults [OF boot_bios_ok(1,2) _ boot_disk_ok boot_room boot_literals boot_files(1) _ f boot_paging, of example_vbe_frame]
    by auto
qed

end
