(* ===== verification/Power_On.thy ===== *)
theory Power_On
  imports First_Stage Boot_Chain
begin

text \<open>
  From power-on through both stages of the boot loader, one after the other, to the kernel in memory
  and to the fault that keeps the machine from entering it.
\<close>

section \<open>What the second stage starts with\<close>

text \<open>
  The machine of the second stage: memory, the display and the two variables of the drive are those
  of the first stage, \<open>cr0\<close> is that of the processor; its other variables are arbitrary.
\<close>

definition second_machine :: "processor \<Rightarrow> 'a first_machine_scheme \<Rightarrow> stage2_machine \<Rightarrow> stage2_machine" where
  "second_machine p s v = v\<lparr>bmem := bmem s, crtc_index := crtc_index s, crtc_reg := crtc_reg s,
     drive_bytes_per_sector := drive_bytes_per_sector s, drive_number := drive_number s, boot_cr0 := p_cr0 p\<rparr>"

text \<open>What is read from the disk does not depend on the rest of the machine.\<close>

lemma same_disk_mounted:
  fixes s t :: "'a exfat_machine_scheme"
  assumes "drive_bytes_per_sector t = drive_bytes_per_sector s"
  shows "same_disk (with_disk dsk n s) (with_disk dsk n t)" "same_disk (mounted dsk n s) (mounted dsk n t)"
proof -
  show w: "same_disk (with_disk dsk n s) (with_disk dsk n t)"
    using assms by (simp add: same_disk_def with_disk_def with_boot_record_def)
  show "same_disk (mounted dsk n s) (mounted dsk n t)"
    using w same_disk_upcase [OF w, of dsk] assms by (simp add: same_disk_def mounted_def Let_def)
qed

lemma disk_ok_same:
  fixes s t :: "'a exfat_machine_scheme"
  assumes "disk_ok dsk n g s" "drive_bytes_per_sector t = drive_bytes_per_sector s"
  shows "disk_ok dsk n g t"
proof -
  note w = same_disk_mounted(1) [OF assms(2), of dsk n] and m = same_disk_mounted(2) [OF assms(2), of dsk n]
  have "upcase_table (mounted dsk n t) = upcase_table (mounted dsk n s)" using m by (simp add: same_disk_def)
  then show ?thesis
    using assms same_disk_layout [OF w] same_disk_upcase [OF w] by (simp add: disk_ok_def Let_def)
qed

lemma has_file_same:
  fixes s t :: "'a exfat_machine_scheme"
  assumes "has_file dsk (mounted dsk n s) n g D path r" "drive_bytes_per_sector t = drive_bytes_per_sector s"
  shows "has_file dsk (mounted dsk n t) n g D path r"
  by (rule same_disk_has_file [OF assms(1) same_disk_mounted(2) [OF assms(2)]])

text \<open>The literals of the second stage are in the image, away from what either stage changes.\<close>

lemma literals_loaded:
  assumes "literals_ok L A img" "\<forall>a \<in> W. m a = img a"
    "\<forall>x \<in> set literals. bytes_at (literal_at L x) (Suc (length (text_bytes x))) \<subseteq> W"
  shows "literals_ok L A m"
  unfolding literals_ok_def
proof
  fix x assume x: "x \<in> set literals"
  have "eq_off (- W) img m" using assms(2) by (auto simp: eq_off_def)
  moreover have "bytes_at (literal_at L x) (Suc (length (text_bytes x))) \<inter> - W = {}" using assms(3) x by blast
  moreover have "length (text_bytes x) < 2 ^ 32" using formats_ok(2) [OF x] by simp
  ultimately show "cstring m (literal_at L x) (text_bytes x) \<and> bytes_at (literal_at L x) (Suc (length (text_bytes x))) \<inter> A = {}"
    using assms(1) x cstring_eq_off by (fastforce simp: literals_ok_def)
qed

section \<open>The whole way\<close>

text \<open>
  (C1) From power-on to the last step of the boot loader: a drive has the image of the boot loader
  behind its first sector, and an exFAT volume with a kernel. The BIOS, once with its services of
  real mode and once as the second stage calls it, does what it documents. Then the first stage
  enters the second in protected mode, and the second stage, on the machine it leaves, whatever its
  other variables are, gets to its call of \<open>init_vbe\<close> on a machine \<open>t\<close> with the kernel in memory and
  mapped to the address it is linked to. There paging is on, the BIOS call of \<open>init_vbe\<close> faults, and
  the run from power-on ends: the jump to the kernel is not reached.
\<close>

theorem power_on_faults:
  fixes s :: "'a first_machine_scheme" and v :: stage2_machine
  assumes B1: "real_bios_ok B1 X dsk k" and src: "first_source src base k c"
    and c: "0 < c" "c \<le> 127" "0x7c00 + 2 ^ k * Suc c \<le> 0x10000"
    and im: "first_image L1 img (2 ^ k) c" and first: "\<forall>a \<in> bytes_at 0x7c00 (2 ^ k). bmem s a = img a"
    and disk: "\<forall>i \<in> {1..c}. dsk (of_nat (base + i)) = mem_list img (0x7c00 + of_nat (2 ^ k * i)) (2 ^ k)"
    and X: "X \<inter> bytes_at 0x7c00 (2 ^ k * Suc c) = {}" and p: "\<not> bit (p_cr0 p) 31"
    and B2: "disk_bios B2 dsk" "e820_bios B2 cont rs" "rs \<noteq> []"
    and v: "drive_bytes_per_sector v = 2 ^ k" "disk_ok dsk n g v" "stage2_room F L n g D"
    and lit: "literals_ok L (stage2_area F L n g D) img"
      "\<forall>x \<in> set literals. bytes_at (literal_at L x) (Suc (length (text_bytes x))) \<subseteq> bytes_at 0x7c00 (2 ^ k * Suc c) - data_area L1"
    and files: "has_file dsk (mounted dsk n v) n g D ''/system/kernel'' (Some f)" "length f + g * n \<le> D"
      "has_file dsk (mounted dsk n v) n g (D - length f) ''/system/vga'' r"
  shows "\<exists>s1 t. first_stage B1 L1 G src dl p s = Some (Enters_stage2, protected_flat G p, s1) \<and>
    stage2_to_video B2 F L (second_machine (protected_flat G p) s1 v) = Some (True, t) \<and>
    mem_list (kernel_view (bmem t)) 0xc0100000 (length f) = f \<and>
    (\<forall>va. walk (kernel_view (bmem t)) (boot_cr3 t) va = Some (if va < KERNEL_BASE then va else va - KERNEL_BASE, False, True)) \<and>
    init_vbe B2 V t = None \<and> stage2 B2 F V L (second_machine (protected_flat G p) s1 v) = None"
proof -
  let ?W = "bytes_at 0x7c00 (2 ^ k * Suc c) :: u32 set"
  obtain m where m: "first_stage B1 L1 G src dl p s = Some (Enters_stage2, protected_flat G p,
      s\<lparr>drive_number := dl, drive_bytes_per_sector := 2 ^ k, bmem := m\<rparr>)"
    "\<forall>a \<in> ?W - data_area L1. m a = img a"
    using first_stage_ok [OF B1 src c im first disk X p] by blast
  define s1 where "s1 = s\<lparr>drive_number := dl, drive_bytes_per_sector := 2 ^ k, bmem := m\<rparr>"
  define w where "w = second_machine (protected_flat G p) s1 v"
  have w: "bmem w = m" "drive_bytes_per_sector w = drive_bytes_per_sector v" "\<not> paging w"
    using v(1) p by (simp_all add: w_def second_machine_def s1_def paging_def protected_flat_def bit_or_iff bit_1_iff)
  have l: "literals_ok L (stage2_area F L n g D) (bmem w)"
    unfolding w(1) by (rule literals_loaded [OF lit(1) m(2) lit(2)])
  obtain t where t: "stage2_to_video B2 F L w = Some (True, t)" "mem_list (bmem t) 0x100000 (length f) = f"
    "\<forall>va. walk (kernel_view (bmem t)) (boot_cr3 t) va = Some (if va < KERNEL_BASE then va else va - KERNEL_BASE, False, True)"
    "bit (boot_cr0 t) 31"
    using stage2_hands_over_mem [OF B2 disk_ok_same [OF v(2) w(2)] v(3) l has_file_same [OF files(1) w(2)] files(2)
      has_file_same [OF files(3) w(2)] w(3), of V] by (elim exE conjE)
  have "mem_list (kernel_view (bmem t)) 0xc0100000 (length f) = f"
    using t(2) by (simp add: mem_list_def kernel_view_def)
  then show ?thesis
    using m(1) t(1,3) stage2_faults_mem(1,2) [OF t(1,4), of V] unfolding s1_def [symmetric] w_def by blast
qed

section \<open>An example\<close>

text \<open>
  The drive of theory \<open>Stage2\<close>, whose sectors 1 to 64 hold the literals of the second stage; its first
  sector is the one of theory \<open>First_Stage\<close>.
\<close>

definition boot_image :: bytes where
  "boot_image a = (if a \<in> bytes_at 0x7c00 512 then example_head a else literal_image a)"

definition boot_power_on :: first_machine where
  "boot_power_on = \<lparr>bmem = (\<lambda>a. if a \<in> bytes_at 0x7c00 512 then boot_image a else 0), crtc_index = 0,
     crtc_reg = (\<lambda>_. 0), color = 0, drive_bytes_per_sector = 0, drive_number = 0, a20 = True\<rparr>"

lemma boot_literals_at:
  assumes "x \<in> set literals"
  shows "bytes_at (literal_at boot_program x) (Suc (length (text_bytes x))) \<subseteq> bytes_at 0xa000 0x700"
proof -
  let ?i = "index_of x literals"
  have "length literals = 14" by code_simp
  then have i: "?i < 14" using index_of [OF assms] by simp
  have l: "length (text_bytes x) < 100" by (rule formats_ok(2) [OF assms])
  have "unat (literal_at boot_program x) = 0xa000 + 128 * ?i"
    using unat_add_of_nat [of "0xa000" "128 * ?i"] i by (simp add: boot_program_def)
  then show ?thesis using i l by (auto simp: bytes_at_unat)
qed

lemma boot_image_literals: "literals_ok boot_program (stage2_area example_exfat_frame boot_program 512 1 1024) boot_image"
proof (rule literals_loaded [OF boot_literals])
  show "\<forall>a \<in> bytes_at 0xa000 0x700. boot_image a = bmem boot_start a"
    by (auto simp: boot_image_def boot_start_def bytes_at_unat)
qed (use boot_literals_at in blast)

lemma boot_image_sectors:
  assumes "i \<in> {1..64}"
  shows "boot_disk full (of_nat (0 + i)) = mem_list boot_image (0x7c00 + of_nat (2 ^ 9 * i)) (2 ^ 9)"
proof -
  have u: "unat (of_nat i :: u64) = i" using assms by (simp add: unat_of_nat)
  have n: "(of_nat i :: u64) \<le> 64" "(of_nat i :: u64) \<notin> {0x100, 0x108, 0x109, 0x10a, 0x10b}"
    using assms u by (auto simp: word_le_nat_alt word_unat_eq_iff)
  have a: "(0x7c00 + 512 * ucast (of_nat i :: u64) :: u32) = 0x7c00 + of_nat (512 * i)"
  proof -
    have "(ucast (of_nat i :: u64) :: u32) = of_nat (unat (of_nat i :: u64))" by simp
    then show ?thesis unfolding u by simp
  qed
  have "eq_off (bytes_at 0x7c00 512) literal_image boot_image" by (simp add: eq_off_def boot_image_def)
  moreover have "bytes_at (0x7c00 + of_nat (512 * i)) 512 \<inter> bytes_at 0x7c00 512 = {}"
  proof -
    have "unat (0x7c00 + of_nat (512 * i) :: u32) = 0x7c00 + 512 * i"
      using unat_add_of_nat [of "0x7c00" "512 * i"] assms by simp
    then show ?thesis using assms by (auto simp: bytes_at_unat)
  qed
  ultimately have "mem_list boot_image (0x7c00 + of_nat (512 * i)) 512 = mem_list literal_image (0x7c00 + of_nat (512 * i)) 512"
    by (rule mem_list_eq_off) simp
  then show ?thesis using n a by (simp add: boot_disk_def)
qed

theorem power_on_faults_witness:
  "\<exists>s1 t. first_stage (example_real_bios (boot_disk True) 9) example_first switch_example Disk_start 0x80
      (flat_processor\<lparr>p_cr0 := 0x10\<rparr>) boot_power_on =
      Some (Enters_stage2, protected_flat switch_example (flat_processor\<lparr>p_cr0 := 0x10\<rparr>), s1) \<and>
    stage2_to_video (boot_bios True) example_exfat_frame boot_program
        (second_machine (protected_flat switch_example (flat_processor\<lparr>p_cr0 := 0x10\<rparr>)) s1 boot_start) = Some (True, t) \<and>
    kernel_view (bmem t) 0xc01001ff = 0x90 \<and>
    walk (kernel_view (bmem t)) (boot_cr3 t) 0xc01001ff = Some (0x1001ff, False, True) \<and>
    stage2 (boot_bios True) example_exfat_frame example_vbe_frame boot_program
        (second_machine (protected_flat switch_example (flat_processor\<lparr>p_cr0 := 0x10\<rparr>)) s1 boot_start) = None"
proof -
  have f: "has_file (boot_disk True) (mounted (boot_disk True) 512 boot_start) 512 1 (1024 - length (replicate 512 (0x90 :: u8)))
      ''/system/vga'' (Some (replicate 512 0x91))"
    using boot_files(2) [of 512] by simp
  have src: "first_source Disk_start 0 9 64" by simp
  have im: "first_image example_first boot_image (2 ^ 9) 64" by (rule example_first_image) (simp_all add: boot_image_def)
  have first: "\<forall>a \<in> bytes_at 0x7c00 (2 ^ 9). bmem boot_power_on a = boot_image a" by (simp add: boot_power_on_def)
  have disk: "\<forall>i \<in> {1..64}. boot_disk True (of_nat (0 + i)) = mem_list boot_image (0x7c00 + of_nat (2 ^ 9 * i)) (2 ^ 9)"
    using boot_image_sectors by blast
  have X: "bytes_at 0xb8000 1 \<inter> bytes_at 0x7c00 (2 ^ 9 * Suc 64) = {}" by (auto simp: bytes_at_unat)
  have p: "\<not> bit (p_cr0 (flat_processor\<lparr>p_cr0 := 0x10\<rparr>)) 31" by (simp add: bit_iff_odd)
  have v: "drive_bytes_per_sector boot_start = 2 ^ 9" by (simp add: boot_start_def)
  have lit: "\<forall>x \<in> set literals. bytes_at (literal_at boot_program x) (Suc (length (text_bytes x))) \<subseteq>
      bytes_at 0x7c00 (2 ^ 9 * Suc 64) - data_area example_first"
  proof -
    have "bytes_at 0xa000 0x700 \<subseteq> bytes_at 0x7c00 (2 ^ 9 * Suc 64) - data_area example_first"
      by (auto simp: data_area_def example_first_def bytes_at_unat)
    then show ?thesis using boot_literals_at by blast
  qed
  obtain s1 t where t: "first_stage (example_real_bios (boot_disk True) 9) example_first switch_example Disk_start 0x80
      (flat_processor\<lparr>p_cr0 := 0x10\<rparr>) boot_power_on =
      Some (Enters_stage2, protected_flat switch_example (flat_processor\<lparr>p_cr0 := 0x10\<rparr>), s1)"
    "stage2_to_video (boot_bios True) example_exfat_frame boot_program
        (second_machine (protected_flat switch_example (flat_processor\<lparr>p_cr0 := 0x10\<rparr>)) s1 boot_start) = Some (True, t)"
    "mem_list (kernel_view (bmem t)) 0xc0100000 (length (replicate 512 (0x90 :: u8))) = replicate 512 0x90"
    "\<forall>va. walk (kernel_view (bmem t)) (boot_cr3 t) va = Some (if va < KERNEL_BASE then va else va - KERNEL_BASE, False, True)"
    "stage2 (boot_bios True) example_exfat_frame example_vbe_frame boot_program
        (second_machine (protected_flat switch_example (flat_processor\<lparr>p_cr0 := 0x10\<rparr>)) s1 boot_start) = None"
    using power_on_faults [where G = switch_example and dl = "0x80" and V = example_vbe_frame,
        OF example_real_bios_ok src _ _ _ im first disk X p boot_bios_ok(1,2) _ v boot_disk_ok boot_room
          boot_image_literals lit boot_files(1) _ f] by auto
  have "kernel_view (bmem t) 0xc01001ff = mem_list (kernel_view (bmem t)) 0xc0100000 512 ! 511" by (simp add: mem_list_def)
  with t show ?thesis by (intro exI [of _ s1] exI [of _ t]) simp
qed

end
