(* ===== verification/Arm_Registers.thy ===== *)
theory Arm_Registers
  imports Loof_Prelude
begin

text \<open>
  The registers of the devices of the ARM port, src/arch/arm/peripherals: for each device its
  registers, their offsets, and the base address the headers give it.
\<close>

section \<open>The devices\<close>

datatype gpio_register =
    GPFSEL0 | GPFSEL1 | GPFSEL2 | GPFSEL3 | GPFSEL4 | GPFSEL5
  | GPSET0 | GPSET1 | GPCLR0 | GPCLR1 | GPLEV0 | GPLEV1
  | GPEDS0 | GPEDS1 | GPREN0 | GPREN1 | GPFEN0 | GPFEN1
  | GPHEN0 | GPHEN1 | GPLEN0 | GPLEN1 | GPAREN0 | GPAREN1
  | GPAFEN0 | GPAFEN1 | GPPUD | GPPUDCLK0 | GPPUDCLK1

fun gpio_offset :: "gpio_register \<Rightarrow> u32" where
  "gpio_offset GPFSEL0 = 0x0"
| "gpio_offset GPFSEL1 = 0x4"
| "gpio_offset GPFSEL2 = 0x8"
| "gpio_offset GPFSEL3 = 0xc"
| "gpio_offset GPFSEL4 = 0x10"
| "gpio_offset GPFSEL5 = 0x14"
| "gpio_offset GPSET0 = 0x1c"
| "gpio_offset GPSET1 = 0x20"
| "gpio_offset GPCLR0 = 0x28"
| "gpio_offset GPCLR1 = 0x2c"
| "gpio_offset GPLEV0 = 0x34"
| "gpio_offset GPLEV1 = 0x38"
| "gpio_offset GPEDS0 = 0x40"
| "gpio_offset GPEDS1 = 0x44"
| "gpio_offset GPREN0 = 0x4c"
| "gpio_offset GPREN1 = 0x50"
| "gpio_offset GPFEN0 = 0x58"
| "gpio_offset GPFEN1 = 0x5c"
| "gpio_offset GPHEN0 = 0x64"
| "gpio_offset GPHEN1 = 0x68"
| "gpio_offset GPLEN0 = 0x70"
| "gpio_offset GPLEN1 = 0x74"
| "gpio_offset GPAREN0 = 0x7c"
| "gpio_offset GPAREN1 = 0x80"
| "gpio_offset GPAFEN0 = 0x88"
| "gpio_offset GPAFEN1 = 0x8c"
| "gpio_offset GPPUD = 0x94"
| "gpio_offset GPPUDCLK0 = 0x98"
| "gpio_offset GPPUDCLK1 = 0x9c"

datatype aux_register =
    AUX_IRQ | AUX_ENABLES | AUX_MU_IO_REG | AUX_MU_IER_REG | AUX_MU_IIR_REG | AUX_MU_LCR_REG
  | AUX_MU_MCR_REG | AUX_MU_LSR_REG | AUX_MU_MSR_REG | AUX_MU_SCRATCH | AUX_MU_CNTL_REG | AUX_MU_STAT_REG
  | AUX_MU_BAUD_REG | AUX_SPI1_CTNL0_REG | AUX_SPI1_CNTL1_REG | AUX_SPI1_STAT_REG | AUX_SPI1_IO_REG | AUX_SPI1_PEEK_REG
  | AUX_SPI2_CNTL0_REG | AUX_SPI2_CNTL1_REG | AUX_SPI2_STAT_REG | AUX_SPI2_IO_REG | AUX_SPI2_PEEK_REG

fun aux_offset :: "aux_register \<Rightarrow> u32" where
  "aux_offset AUX_IRQ = 0x0"
| "aux_offset AUX_ENABLES = 0x4"
| "aux_offset AUX_MU_IO_REG = 0x40"
| "aux_offset AUX_MU_IER_REG = 0x44"
| "aux_offset AUX_MU_IIR_REG = 0x48"
| "aux_offset AUX_MU_LCR_REG = 0x4c"
| "aux_offset AUX_MU_MCR_REG = 0x50"
| "aux_offset AUX_MU_LSR_REG = 0x54"
| "aux_offset AUX_MU_MSR_REG = 0x58"
| "aux_offset AUX_MU_SCRATCH = 0x5c"
| "aux_offset AUX_MU_CNTL_REG = 0x60"
| "aux_offset AUX_MU_STAT_REG = 0x64"
| "aux_offset AUX_MU_BAUD_REG = 0x68"
| "aux_offset AUX_SPI1_CTNL0_REG = 0x80"
| "aux_offset AUX_SPI1_CNTL1_REG = 0x84"
| "aux_offset AUX_SPI1_STAT_REG = 0x88"
| "aux_offset AUX_SPI1_IO_REG = 0x90"
| "aux_offset AUX_SPI1_PEEK_REG = 0x94"
| "aux_offset AUX_SPI2_CNTL0_REG = 0xc0"
| "aux_offset AUX_SPI2_CNTL1_REG = 0xc4"
| "aux_offset AUX_SPI2_STAT_REG = 0xc8"
| "aux_offset AUX_SPI2_IO_REG = 0xd0"
| "aux_offset AUX_SPI2_PEEK_REG = 0xd4"

datatype uart_register =
    UART_DR | UART_RSRECR | UART_FR | UART_ILPR | UART_IBRD | UART_FBRD
  | UART_LCRH | UART_CR | UART_IFLS | UART_IMSC | UART_RIS | UART_MIS
  | UART_ICR | UART_DMACR | UART_ITCR | UART_ITIP | UART_ITOP | UART_TDR

fun uart_offset :: "uart_register \<Rightarrow> u32" where
  "uart_offset UART_DR = 0x0"
| "uart_offset UART_RSRECR = 0x4"
| "uart_offset UART_FR = 0x18"
| "uart_offset UART_ILPR = 0x20"
| "uart_offset UART_IBRD = 0x24"
| "uart_offset UART_FBRD = 0x28"
| "uart_offset UART_LCRH = 0x2c"
| "uart_offset UART_CR = 0x30"
| "uart_offset UART_IFLS = 0x34"
| "uart_offset UART_IMSC = 0x38"
| "uart_offset UART_RIS = 0x3c"
| "uart_offset UART_MIS = 0x40"
| "uart_offset UART_ICR = 0x44"
| "uart_offset UART_DMACR = 0x48"
| "uart_offset UART_ITCR = 0x80"
| "uart_offset UART_ITIP = 0x84"
| "uart_offset UART_ITOP = 0x88"
| "uart_offset UART_TDR = 0x8c"

datatype irq_register =
    IRQ_BASIC_PENDING | IRQ_PENDING1 | IRQ_PENDING2 | FIQ_CONTROL | IRQ_ENABLE1 | IRQ_ENABLE2
  | IRQ_BASIC_ENABLE | IRQ_DISABLE1 | IRQ_DISABLE2 | IRQ_BASIC_DISABLE

fun irq_offset :: "irq_register \<Rightarrow> u32" where
  "irq_offset IRQ_BASIC_PENDING = 0x200"
| "irq_offset IRQ_PENDING1 = 0x204"
| "irq_offset IRQ_PENDING2 = 0x208"
| "irq_offset FIQ_CONTROL = 0x20c"
| "irq_offset IRQ_ENABLE1 = 0x210"
| "irq_offset IRQ_ENABLE2 = 0x214"
| "irq_offset IRQ_BASIC_ENABLE = 0x218"
| "irq_offset IRQ_DISABLE1 = 0x21c"
| "irq_offset IRQ_DISABLE2 = 0x220"
| "irq_offset IRQ_BASIC_DISABLE = 0x224"

datatype timer_register =
    TIMER_CS | TIMER_CLO | TIMER_CHI | TIMER_C0 | TIMER_C1 | TIMER_C2
  | TIMER_C3

fun timer_offset :: "timer_register \<Rightarrow> u32" where
  "timer_offset TIMER_CS = 0x0"
| "timer_offset TIMER_CLO = 0x4"
| "timer_offset TIMER_CHI = 0x8"
| "timer_offset TIMER_C0 = 0xc"
| "timer_offset TIMER_C1 = 0x10"
| "timer_offset TIMER_C2 = 0x14"
| "timer_offset TIMER_C3 = 0x18"

text \<open>The interrupt lines that have a name.\<close>

definition IRQ_TIMER1 :: u64 where
  "IRQ_TIMER1 = 2"

definition IRQ_TIMER2 :: u64 where
  "IRQ_TIMER2 = 8"

section \<open>Addresses\<close>

definition P_BASE :: u32 where
  "P_BASE = 0x3f000000"

definition GPIO_BASE :: u32 where
  "GPIO_BASE = P_BASE + 0x200000"

definition AUX_BASE :: u32 where
  "AUX_BASE = 0x7e215000"

definition UART_BASE :: u32 where
  "UART_BASE = P_BASE + 0x201000"

definition IRQ_BASE :: u32 where
  "IRQ_BASE = 0x7e00b000"

definition TIMER_BASE :: u32 where
  "TIMER_BASE = 0x7e003000"

datatype arm_register =
    Gpio gpio_register
  | Aux aux_register
  | Uart uart_register
  | Irq irq_register
  | Timer timer_register

fun address :: "arm_register \<Rightarrow> u32" where
  "address (Gpio r) = GPIO_BASE + gpio_offset r"
| "address (Aux r) = AUX_BASE + aux_offset r"
| "address (Uart r) = UART_BASE + uart_offset r"
| "address (Irq r) = IRQ_BASE + irq_offset r"
| "address (Timer r) = TIMER_BASE + timer_offset r"

section \<open>Every register has an address of its own\<close>

definition all_registers :: "arm_register list" where
  "all_registers =
     map Gpio [GPFSEL0, GPFSEL1, GPFSEL2, GPFSEL3, GPFSEL4, GPFSEL5,
     GPSET0, GPSET1, GPCLR0, GPCLR1, GPLEV0, GPLEV1,
     GPEDS0, GPEDS1, GPREN0, GPREN1, GPFEN0, GPFEN1,
     GPHEN0, GPHEN1, GPLEN0, GPLEN1, GPAREN0, GPAREN1,
     GPAFEN0, GPAFEN1, GPPUD, GPPUDCLK0, GPPUDCLK1] @
     map Uart [UART_DR, UART_RSRECR, UART_FR, UART_ILPR, UART_IBRD, UART_FBRD,
     UART_LCRH, UART_CR, UART_IFLS, UART_IMSC, UART_RIS, UART_MIS,
     UART_ICR, UART_DMACR, UART_ITCR, UART_ITIP, UART_ITOP, UART_TDR] @
     map Timer [TIMER_CS, TIMER_CLO, TIMER_CHI, TIMER_C0, TIMER_C1, TIMER_C2, TIMER_C3] @
     map Irq [IRQ_BASIC_PENDING, IRQ_PENDING1, IRQ_PENDING2, FIQ_CONTROL, IRQ_ENABLE1, IRQ_ENABLE2,
     IRQ_BASIC_ENABLE, IRQ_DISABLE1, IRQ_DISABLE2, IRQ_BASIC_DISABLE] @
     map Aux [AUX_IRQ, AUX_ENABLES, AUX_MU_IO_REG, AUX_MU_IER_REG, AUX_MU_IIR_REG, AUX_MU_LCR_REG,
     AUX_MU_MCR_REG, AUX_MU_LSR_REG, AUX_MU_MSR_REG, AUX_MU_SCRATCH, AUX_MU_CNTL_REG, AUX_MU_STAT_REG,
     AUX_MU_BAUD_REG, AUX_SPI1_CTNL0_REG, AUX_SPI1_CNTL1_REG, AUX_SPI1_STAT_REG, AUX_SPI1_IO_REG, AUX_SPI1_PEEK_REG,
     AUX_SPI2_CNTL0_REG, AUX_SPI2_CNTL1_REG, AUX_SPI2_STAT_REG, AUX_SPI2_IO_REG, AUX_SPI2_PEEK_REG]"

lemma all_registers: "r \<in> set all_registers"
proof (cases r)
  case (Gpio x)
  then show ?thesis by (cases x) (simp_all add: all_registers_def)
next
  case (Aux x)
  then show ?thesis by (cases x) (simp_all add: all_registers_def)
next
  case (Uart x)
  then show ?thesis by (cases x) (simp_all add: all_registers_def)
next
  case (Irq x)
  then show ?thesis by (cases x) (simp_all add: all_registers_def)
next
  case (Timer x)
  then show ?thesis by (cases x) (simp_all add: all_registers_def)
qed

lemma addresses_apart: "distinct (map address all_registers)" "list_all (\<lambda>r. address r mod 4 = 0) all_registers"
proof -
  have "successively (<) (map address all_registers)" by code_simp
  then have "sorted_wrt (<) (map address all_registers)" by (subst (asm) successively_conv_sorted_wrt) (auto simp: transp_def)
  then show "distinct (map address all_registers)" by (simp add: strict_sorted_iff)
  show "list_all (\<lambda>r. address r mod 4 = 0) all_registers" by code_simp
qed

lemma address_inject [simp]: "address r = address q \<longleftrightarrow> r = q"
  using addresses_apart(1) all_registers by (auto simp: distinct_map dest: inj_onD)

text \<open>
  No two registers of the devices share a word: the addresses are distinct multiples of 4.
\<close>

theorem registers_apart:
  "inj address \<and> address r mod 4 = 0"
  using addresses_apart(2) all_registers [of r] by (auto simp: inj_def list_all_iff)

end
