(* ===== verification/Arm_Drivers.thy ===== *)
theory Arm_Drivers
  imports Arm_Registers Boot_Machine
begin

text \<open>
  The drivers of the ARM port, src/arch/arm: the two serial ports, the system timer, the
  interrupt controller, and \<open>memzero\<close>. The devices on the bus are a parameter: a state of
  any type with what a read and a write of a word do to it. \<open>print\<close> for this port is not
  part of the repository, so it is a parameter of the functions that call it.
\<close>

section \<open>State\<close>

record 'd bus =
  bus_get :: "u32 \<Rightarrow> 'd \<Rightarrow> u32 \<times> 'd"
  bus_put :: "u32 \<Rightarrow> u32 \<Rightarrow> 'd \<Rightarrow> 'd"

record 'd arm_machine =
  devices :: 'd
  arm_mem :: bytes
  cmpval :: u32
  cycles :: nat
  irq_masked :: bool

section \<open>Access to registers\<close>

text \<open>src/arch/arm/util.s and drivers/irq.s. The loop of \<open>delay\<close> counts down to zero.\<close>

definition get32 :: "'d bus \<Rightarrow> arm_register \<Rightarrow> 'd arm_machine \<Rightarrow> u32 \<times> 'd arm_machine" where
  "get32 io r s = (let (v, d) = bus_get io (address r) (devices s) in (v, s\<lparr>devices := d\<rparr>))"

definition put32 :: "'d bus \<Rightarrow> arm_register \<Rightarrow> u32 \<Rightarrow> 'd arm_machine \<Rightarrow> 'd arm_machine" where
  "put32 io r v s = s\<lparr>devices := bus_put io (address r) v (devices s)\<rparr>"

function delay :: "u32 \<Rightarrow> 'd arm_machine \<Rightarrow> 'd arm_machine" where
  "delay r0 s =
     (let r0 = r0 - 1; s = s\<lparr>cycles := cycles s + 1\<rparr> in if r0 \<noteq> 0 then delay r0 s else s)"
  by auto
termination
proof (relation "measure (\<lambda>(r0, s). unat (r0 - 1))")
  fix r0 x :: u32 and s y :: "'d arm_machine"
  assume x: "x = r0 - 1" and nz: "x \<noteq> 0"
  have "unat (x - 1) = unat x - 1" using nz by (rule unat_minus_one)
  moreover have "unat x \<noteq> 0" using nz by (simp only: unsigned_eq_0_iff) simp
  ultimately show "((x, y), r0, s) \<in> measure (\<lambda>(r0, s). unat (r0 - 1))" by (simp add: x [symmetric])
qed simp

declare delay.simps [simp del]

definition irq_enable :: "'d arm_machine \<Rightarrow> 'd arm_machine" where
  "irq_enable s = s\<lparr>irq_masked := False\<rparr>"

definition irq_disable :: "'d arm_machine \<Rightarrow> 'd arm_machine" where
  "irq_disable s = s\<lparr>irq_masked := True\<rparr>"

text \<open>The loops that wait for a bit of a register to become clear.\<close>

partial_function (option) wait_while :: "'d bus \<Rightarrow> arm_register \<Rightarrow> u32 \<Rightarrow> 'd arm_machine \<Rightarrow> 'd arm_machine option" where
  "wait_while io r flags s =
     (case get32 io r s of (v, s) \<Rightarrow> if v AND flags \<noteq> 0 then wait_while io r flags s else Some s)"

section \<open>The mini UART\<close>

definition mini_uart_init :: "'d bus \<Rightarrow> 'd arm_machine \<Rightarrow> 'd arm_machine" where
  "mini_uart_init io s =
     (let (selector, s) = get32 io (Gpio GPFSEL1) s;
          selector = selector AND NOT (push_bit 12 7);
          selector = selector AND NOT (push_bit 15 7);
          selector = selector OR push_bit 12 2;
          selector = selector OR push_bit 15 2;
          s = put32 io (Gpio GPFSEL1) selector s;
          s = put32 io (Gpio GPPUD) 0 s;
          s = delay 150 s;
          s = put32 io (Gpio GPPUDCLK0) (push_bit 14 1 OR push_bit 15 1) s;
          s = delay 150 s;
          s = put32 io (Gpio GPPUDCLK0) 0 s;
          s = put32 io (Aux AUX_ENABLES) 1 s;
          s = put32 io (Aux AUX_MU_CNTL_REG) 0 s;
          s = put32 io (Aux AUX_MU_IER_REG) 0 s;
          s = put32 io (Aux AUX_MU_LCR_REG) 3 s;
          s = put32 io (Aux AUX_MU_MCR_REG) 0 s;
          s = put32 io (Aux AUX_MU_BAUD_REG) 270 s
      in put32 io (Aux AUX_MU_CNTL_REG) 3 s)"

definition mini_uart_sendc :: "'d bus \<Rightarrow> u8 \<Rightarrow> 'd arm_machine \<Rightarrow> 'd arm_machine option" where
  "mini_uart_sendc io c s = do {
     s \<leftarrow> wait_while io (Aux AUX_MU_LSR_REG) 0x20 s;
     Some (put32 io (Aux AUX_MU_IO_REG) (ucast c) s)
   }"

partial_function (option) mini_uart_sendstr :: "'d bus \<Rightarrow> u32 \<Rightarrow> 'd arm_machine \<Rightarrow> 'd arm_machine option" where
  "mini_uart_sendstr io strptr s = do {
     s \<leftarrow> mini_uart_sendc io (arm_mem s strptr) s;
     if arm_mem s (strptr + 1) \<noteq> 0 then mini_uart_sendstr io (strptr + 1) s else Some s
   }"

definition mini_uart_recv :: "'d bus \<Rightarrow> 'd arm_machine \<Rightarrow> (u8 \<times> 'd arm_machine) option" where
  "mini_uart_recv io s = do {
     s \<leftarrow> wait_while io (Aux AUX_MU_LSR_REG) 0x1 s;
     let (v, s) = get32 io (Aux AUX_MU_IO_REG) s;
     Some (ucast v, s)
   }"

section \<open>The PL011 UART\<close>

definition uart_init :: "'d bus \<Rightarrow> 'd arm_machine \<Rightarrow> 'd arm_machine" where
  "uart_init io s =
     (let (selector, s) = get32 io (Gpio GPFSEL3) s;
          selector = selector OR push_bit 6 7;
          selector = selector OR push_bit 9 7;
          s = put32 io (Gpio GPFSEL3) selector s;
          s = put32 io (Gpio GPPUD) 0 s;
          s = delay 150 s;
          s = put32 io (Gpio GPPUDCLK1) 3 s;
          s = delay 150 s;
          s = put32 io (Gpio GPPUDCLK1) 0 s;
          s = put32 io (Aux AUX_ENABLES) 0 s;
          s = put32 io (Uart UART_ICR) 0xff s;
          s = put32 io (Uart UART_CR) 0 s;
          s = put32 io (Uart UART_IBRD) 510 s;
          s = put32 io (Uart UART_LCRH) (push_bit 5 3) s
      in put32 io (Uart UART_CR) (1 OR push_bit 8 1 OR push_bit 9 1) s)"

definition uart_sendc :: "'d bus \<Rightarrow> u8 \<Rightarrow> 'd arm_machine \<Rightarrow> 'd arm_machine option" where
  "uart_sendc io c s = do {
     s \<leftarrow> wait_while io (Uart UART_FR) 0x40 s;
     Some (put32 io (Uart UART_DR) (ucast c) s)
   }"

partial_function (option) uart_sendstr :: "'d bus \<Rightarrow> u32 \<Rightarrow> 'd arm_machine \<Rightarrow> 'd arm_machine option" where
  "uart_sendstr io strptr s = do {
     s \<leftarrow> uart_sendc io (arm_mem s strptr) s;
     if arm_mem s (strptr + 1) \<noteq> 0 then uart_sendstr io (strptr + 1) s else Some s
   }"

definition uart_recv :: "'d bus \<Rightarrow> 'd arm_machine \<Rightarrow> (u8 \<times> 'd arm_machine) option" where
  "uart_recv io s = do {
     s \<leftarrow> wait_while io (Uart UART_FR) 0x20 s;
     let (v, s) = get32 io (Uart UART_DR) s;
     Some (ucast v, s)
   }"

section \<open>The system timer and interrupts\<close>

text \<open>The order of the two reads in one expression of C is chosen from left to right.\<close>

definition interval :: u32 where
  "interval = 10"

definition clear_timer :: "'d bus \<Rightarrow> nat \<Rightarrow> 'd arm_machine \<Rightarrow> 'd arm_machine option" where
  "clear_timer io tid s = (if tid < 31 then Some (put32 io (Timer TIMER_CS) (push_bit tid 1) s) else None)"

definition arm_init_timer :: "'d bus \<Rightarrow> 'd arm_machine \<Rightarrow> 'd arm_machine" where
  "arm_init_timer io s =
     (let (v, s) = get32 io (Timer TIMER_CLO) s;
          s = s\<lparr>cmpval := v\<rparr>;
          s = s\<lparr>cmpval := cmpval s + interval\<rparr>
      in put32 io (Timer TIMER_C1) (cmpval s) s)"

definition count_timer :: "'d bus \<Rightarrow> 'd arm_machine \<Rightarrow> u64 \<times> 'd arm_machine" where
  "count_timer io s =
     (let (hi, s) = get32 io (Timer TIMER_CHI) s;
          (lo, s) = get32 io (Timer TIMER_CLO) s
      in (push_bit 32 (ucast hi) OR ucast lo, s))"

definition irq_timer_handler ::
  "(string \<Rightarrow> 'd arm_machine \<Rightarrow> 'd arm_machine option) \<Rightarrow> 'd bus \<Rightarrow> 'd arm_machine \<Rightarrow> 'd arm_machine option" where
  "irq_timer_handler print io s = do {
     let s = s\<lparr>cmpval := cmpval s + interval\<rparr>;
     let s = put32 io (Timer TIMER_C1) (cmpval s) s;
     s \<leftarrow> clear_timer io 1 s;
     print ''Timer interrupt handled.'' s
   }"

definition irq_init :: "'d bus \<Rightarrow> 'd arm_machine \<Rightarrow> 'd arm_machine" where
  "irq_init io s =
     (let irq1 = 0; irq2 = 0;
          irq1 = irq1 OR ucast IRQ_TIMER1;
          s = put32 io (Irq IRQ_ENABLE1) irq1 s
      in put32 io (Irq IRQ_ENABLE2) irq2 s)"

definition irq_handler ::
  "(string \<Rightarrow> 'd arm_machine \<Rightarrow> 'd arm_machine option) \<Rightarrow> 'd bus \<Rightarrow> 'd arm_machine \<Rightarrow> 'd arm_machine option" where
  "irq_handler print io s = do {
     s \<leftarrow> print (''Some IRQ.'' @ [CHR 0x0D, CHR 0x0A]) s;
     let (p2, s) = get32 io (Irq IRQ_PENDING2) s;
     let (p1, s) = get32 io (Irq IRQ_PENDING1) s;
     let irqs = push_bit 32 (ucast p2 :: u64) OR ucast p1;
     s \<leftarrow> print (''Some IRQ.'' @ [CHR 0x0D, CHR 0x0A]) s;
     if irqs = IRQ_TIMER1 then irq_timer_handler print io s
     else print (''Unknown IRQ.'' @ [CHR 0x0D, CHR 0x0A]) s
   }"

text \<open>The handlers of the other vectors are empty (handlers.c).\<close>

definition undefined_handler :: "'d arm_machine \<Rightarrow> 'd arm_machine" where
  "undefined_handler s = s"

definition supervisor_call :: "'d arm_machine \<Rightarrow> 'd arm_machine" where
  "supervisor_call s = s"

definition prefetch_abort_handler :: "'d arm_machine \<Rightarrow> 'd arm_machine" where
  "prefetch_abort_handler s = s"

definition data_abort_handler :: "'d arm_machine \<Rightarrow> 'd arm_machine" where
  "data_abort_handler s = s"

section \<open>Memory\<close>

function memzero :: "u32 \<Rightarrow> u32 \<Rightarrow> 'd arm_machine \<Rightarrow> 'd arm_machine" where
  "memzero ptr eaddr s =
     (if ptr < eaddr then memzero (ptr + 1) eaddr (s\<lparr>arm_mem := (arm_mem s)(ptr := 0)\<rparr>) else s)"
  by auto
termination
proof (relation "measure (\<lambda>(ptr, eaddr, s). unat eaddr - unat ptr)")
  fix ptr eaddr :: u32 and s :: "'d arm_machine"
  assume "ptr < eaddr"
  then have "unat ptr < unat eaddr" "unat (ptr + 1) = unat ptr + 1"
    using unat_add_of_nat [of ptr 1] unat_u32_less [of eaddr] by (simp_all add: word_less_nat_alt)
  then show "((ptr + 1, eaddr, s\<lparr>arm_mem := (arm_mem s)(ptr := 0)\<rparr>), ptr, eaddr, s)
      \<in> measure (\<lambda>(ptr, eaddr, s). unat eaddr - unat ptr)" by simp
qed simp

declare memzero.simps [simp del]

section \<open>Waiting\<close>

text \<open>The devices after \<open>k\<close> reads of a register, and whether the next read has the bits clear.\<close>

definition after :: "'d bus \<Rightarrow> arm_register \<Rightarrow> nat \<Rightarrow> 'd \<Rightarrow> 'd" where
  "after io r k = ((\<lambda>d. snd (bus_get io (address r) d)) ^^ k)"

definition clear_at :: "'d bus \<Rightarrow> arm_register \<Rightarrow> u32 \<Rightarrow> nat \<Rightarrow> 'd \<Rightarrow> bool" where
  "clear_at io r flags k d \<longleftrightarrow> fst (bus_get io (address r) (after io r k d)) AND flags = 0"

lemma after_simps [simp]:
  "after io r 0 d = d" "after io r (Suc k) d = after io r k (snd (bus_get io (address r) d))"
  by (simp_all add: after_def funpow_Suc_right del: funpow.simps(2))

lemma clear_at_Suc: "clear_at io r flags (Suc k) d = clear_at io r flags k (snd (bus_get io (address r) d))"
  by (simp add: clear_at_def)

lemma wait_while_step:
  "wait_while io r flags s =
    (if clear_at io r flags 0 (devices s) then Some (s\<lparr>devices := after io r 1 (devices s)\<rparr>)
     else wait_while io r flags (s\<lparr>devices := after io r 1 (devices s)\<rparr>))"
  by (subst wait_while.simps) (simp add: get32_def clear_at_def split: prod.splits)

lemma wait_while_clear:
  assumes "clear_at io r flags k (devices s)" "\<And>j. j < k \<Longrightarrow> \<not> clear_at io r flags j (devices s)"
  shows "wait_while io r flags s = Some (s\<lparr>devices := after io r (Suc k) (devices s)\<rparr>)"
  using assms
proof (induction k arbitrary: s)
  case 0
  then show ?case by (subst wait_while_step) simp
next
  case (Suc k)
  let ?t = "s\<lparr>devices := after io r 1 (devices s)\<rparr>"
  have "\<not> clear_at io r flags 0 (devices s)" using Suc.prems(2) [of 0] by simp
  then have "wait_while io r flags s = wait_while io r flags ?t" by (subst wait_while_step) simp
  also have "\<dots> = Some (?t\<lparr>devices := after io r (Suc k) (devices ?t)\<rparr>)"
    using Suc.prems(1) Suc.prems(2) [of "Suc _"] by (intro Suc.IH) (simp_all add: clear_at_Suc)
  finally show ?case by simp
qed

lemma wait_while_ends:
  assumes "wait_while io r flags s = Some t"
  shows "\<exists>k. clear_at io r flags k (devices s)"
proof (rule wait_while.raw_induct [OF _ assms, of "\<lambda>io r flags s _. \<exists>k. clear_at io r flags k (devices s)"])
  fix wait :: "'a bus \<Rightarrow> arm_register \<Rightarrow> u32 \<Rightarrow> 'a arm_machine \<Rightarrow> 'a arm_machine option" and io r flags s t
  assume IH: "\<And>io r flags s t. wait io r flags s = Some t \<Longrightarrow> \<exists>k. clear_at io r flags k (devices s)"
    and *: "(case get32 io r s of (v, s) \<Rightarrow> if v AND flags \<noteq> 0 then wait io r flags s else Some s) = Some t"
  show "\<exists>k. clear_at io r flags k (devices s)"
  proof (cases "clear_at io r flags 0 (devices s)")
    case False
    with * have "wait io r flags (s\<lparr>devices := after io r 1 (devices s)\<rparr>) = Some t"
      by (simp add: get32_def clear_at_def split: prod.splits)
    from IH [OF this] obtain k where "clear_at io r flags (Suc k) (devices s)" by (auto simp: clear_at_Suc)
    then show ?thesis by blast
  qed blast
qed

text \<open>
  (C27) A wait loop returns exactly if some read of the register has the bits clear,
  and then after the first such read; otherwise it never does.
\<close>

theorem wait_while_returns:
  "wait_while io r flags s =
    (if \<exists>k. clear_at io r flags k (devices s)
     then Some (s\<lparr>devices := after io r (Suc (LEAST k. clear_at io r flags k (devices s))) (devices s)\<rparr>)
     else None)"
proof (cases "\<exists>k. clear_at io r flags k (devices s)")
  case True
  from LeastI_ex [OF True] have "wait_while io r flags s =
      Some (s\<lparr>devices := after io r (Suc (LEAST k. clear_at io r flags k (devices s))) (devices s)\<rparr>)"
    by (rule wait_while_clear) (rule not_less_Least)
  with True show ?thesis by (simp only: if_True)
next
  case False
  then show ?thesis using wait_while_ends [of io r flags s] by (cases "wait_while io r flags s") auto
qed

lemma wait_while_stuck:
  assumes "\<And>k. \<not> clear_at io r flags k (devices s)"
  shows "wait_while io r flags s = None"
  using wait_while_ends [of io r flags s] assms by (cases "wait_while io r flags s") auto

section \<open>Sending\<close>

text \<open>
  What a serial port has to do for the driver: the bits become clear, reading the flags sends
  nothing, and writing the data register sends the word. \<open>sent\<close> is what has been sent.
\<close>

definition transmits :: "'d bus \<Rightarrow> arm_register \<Rightarrow> u32 \<Rightarrow> arm_register \<Rightarrow> ('d \<Rightarrow> u32 list) \<Rightarrow> bool" where
  "transmits io r flags data sent \<longleftrightarrow>
     (\<forall>d. (\<exists>k. clear_at io r flags k d) \<and> sent (snd (bus_get io (address r) d)) = sent d \<and>
        (\<forall>v. sent (bus_put io (address data) v d) = sent d @ [v]))"

lemma sent_after: "transmits io r flags data sent \<Longrightarrow> sent (after io r k d) = sent d"
  by (induction k arbitrary: d) (simp_all add: transmits_def)

text \<open>
  The contract of a driver of a serial port: a character is sent by waiting for the flags and
  writing the data register, a string by sending its characters up to a zero byte, but at least
  the first one. What follows holds for both drivers.
\<close>

locale serial_driver =
  fixes io :: "'d bus" and flags_reg data_reg :: arm_register and flags :: u32
    and sendc :: "u8 \<Rightarrow> 'd arm_machine \<Rightarrow> 'd arm_machine option"
    and sendstr :: "u32 \<Rightarrow> 'd arm_machine \<Rightarrow> 'd arm_machine option"
  assumes sendc: "sendc c s = map_option (put32 io data_reg (ucast c)) (wait_while io flags_reg flags s)"
    and sendstr: "sendstr p s = Option.bind (sendc (arm_mem s p) s)
      (\<lambda>s. if arm_mem s (p + 1) \<noteq> 0 then sendstr (p + 1) s else Some s)"
begin

lemma sendc_sends:
  assumes "transmits io flags_reg flags data_reg sent"
  shows "\<exists>d. sendc c s = Some (s\<lparr>devices := d\<rparr>) \<and> sent d = sent (devices s) @ [ucast c]"
proof -
  have "\<exists>k. clear_at io flags_reg flags k (devices s)" using assms by (simp only: transmits_def)
  from LeastI_ex [OF this] obtain k where "wait_while io flags_reg flags s = Some (s\<lparr>devices := after io flags_reg k (devices s)\<rparr>)"
    using wait_while_clear not_less_Least by blast
  then have "sendc c s = Some (s\<lparr>devices := bus_put io (address data_reg) (ucast c) (after io flags_reg k (devices s))\<rparr>)"
    by (simp add: sendc put32_def)
  moreover have "sent (bus_put io (address data_reg) (ucast c) (after io flags_reg k (devices s))) = sent (devices s) @ [ucast c]"
    using assms by (simp only: sent_after [OF assms] transmits_def)
  ultimately show ?thesis by blast
qed

lemma sendstr_sends:
  assumes "transmits io flags_reg flags data_reg sent" "cstring (arm_mem s) (p + 1) cs"
  shows "\<exists>d. sendstr p s = Some (s\<lparr>devices := d\<rparr>) \<and> sent d = sent (devices s) @ map ucast (arm_mem s p # cs)"
  using assms(2)
proof (induction cs arbitrary: p s)
  case Nil
  then show ?case using sendc_sends [OF assms(1), of "arm_mem s p" s] by (subst sendstr) auto
next
  case (Cons c cs)
  obtain d where d: "sendc (arm_mem s p) s = Some (s\<lparr>devices := d\<rparr>)" "sent d = sent (devices s) @ [ucast (arm_mem s p)]"
    using sendc_sends [OF assms(1)] by blast
  have c: "arm_mem s (p + 1) = c" "c \<noteq> 0" using Cons.prems by simp_all
  obtain d' where "sendstr (p + 1) (s\<lparr>devices := d\<rparr>) = Some (s\<lparr>devices := d'\<rparr>)" "sent d' = sent d @ map ucast (c # cs)"
    using Cons.IH [of "s\<lparr>devices := d\<rparr>" "p + 1"] Cons.prems c by auto
  then show ?case using d c by (intro exI [of _ d']) (subst sendstr, simp)
qed

lemma sendc_stuck: "(\<And>k. \<not> clear_at io flags_reg flags k (devices s)) \<Longrightarrow> sendc c s = None"
  by (simp add: sendc wait_while_stuck)

lemma sendstr_stuck: "(\<And>k. \<not> clear_at io flags_reg flags k (devices s)) \<Longrightarrow> sendstr p s = None"
  by (subst sendstr) (simp add: sendc_stuck)

lemma sendc_at_once:
  assumes "clear_at io flags_reg flags 0 (devices s)"
  shows "sendc c s = Some (s\<lparr>devices := bus_put io (address data_reg) (ucast c) (snd (bus_get io (address flags_reg) (devices s)))\<rparr>)"
  using wait_while_clear [of io flags_reg flags 0 s] assms by (simp add: sendc put32_def)

end

interpretation pl011: serial_driver io "Uart UART_FR" "Uart UART_DR" "0x40" "uart_sendc io" "uart_sendstr io" for io
  by unfold_locales (simp add: uart_sendc_def map_conv_bind_option comp_def, rule uart_sendstr.simps)

interpretation mini: serial_driver io "Aux AUX_MU_LSR_REG" "Aux AUX_MU_IO_REG" "0x20" "mini_uart_sendc io" "mini_uart_sendstr io" for io
  by unfold_locales (simp add: mini_uart_sendc_def map_conv_bind_option comp_def, rule mini_uart_sendstr.simps)

text \<open>
  To a port that takes characters the driver sends a string of C: its first byte,
  whatever it is, and the bytes up to the next zero byte. So a string that is not empty is sent
  as it is; for the empty string the driver sends the zero byte and the string that follows it
  in memory.
\<close>

theorem uart_sendstr_sends:
  assumes "transmits io (Uart UART_FR) 0x40 (Uart UART_DR) sent" "cstring (arm_mem s) (p + 1) cs"
  shows "\<exists>d. uart_sendstr io p s = Some (s\<lparr>devices := d\<rparr>) \<and>
    sent d = sent (devices s) @ map ucast (arm_mem s p # cs)"
  using assms by (rule pl011.sendstr_sends)

text \<open>
  (C37) A defect of the mini UART: in its line status register bit 5 is set when the
  transmitter can take a character and bit 0 when one has been received, but the driver waits
  for these bits to become clear. While the port is ready, sending and receiving never return;
  while it is not, a character is written, or read, at once.
\<close>

theorem mini_uart_waits_for_busy:
  assumes "\<And>k. \<not> clear_at io (Aux AUX_MU_LSR_REG) 0x20 k (devices s)" "\<And>k. \<not> clear_at io (Aux AUX_MU_LSR_REG) 0x1 k (devices s)"
    "clear_at io (Aux AUX_MU_LSR_REG) 0x20 0 (devices t)"
  shows "mini_uart_sendc io c s = None \<and> mini_uart_sendstr io p s = None \<and> mini_uart_recv io s = None \<and>
    (\<exists>d. mini_uart_sendc io c t = Some (t\<lparr>devices := bus_put io (address (Aux AUX_MU_IO_REG)) (ucast c) d\<rparr>) \<and>
       d = snd (bus_get io (address (Aux AUX_MU_LSR_REG)) (devices t)))"
proof -
  have "mini_uart_recv io s = None" using wait_while_stuck [OF assms(2)] by (simp add: mini_uart_recv_def)
  then show ?thesis
    using mini.sendc_stuck [OF assms(1)] mini.sendstr_stuck [OF assms(1)] mini.sendc_at_once [OF assms(3)] by blast
qed

section \<open>The counter, interrupts and memory\<close>

lemma take_bit_Suc_u64: "take_bit 32 (c + 1 :: u64) = (if ucast (c + 1) = (0 :: u32) then 0 else take_bit 32 c + 1)"
  "ucast (c + 1) = (0 :: u32) \<Longrightarrow> take_bit 32 c = (2 ^ 32 - 1 :: u64)"
proof -
  have t: "unat (take_bit 32 x) = unat x mod 2 ^ 32" for x :: u64
    by (simp only: unsigned_take_bit_eq) (simp add: take_bit_eq_mod)
  have z: "ucast x = (0 :: u32) \<longleftrightarrow> unat x mod 2 ^ 32 = 0" for x :: u64
  proof -
    have "unat (ucast x :: u32) = take_bit 32 (unat x)" by (simp add: unsigned_ucast_eq)
    then have "unat (ucast x :: u32) = unat x mod 2 ^ 32" by (simp only: take_bit_eq_mod)
    then show ?thesis by (metis unat_0 u32_eqI)
  qed
  have s: "unat (c + 1) mod 2 ^ 32 = (unat c + 1) mod 2 ^ 32"
    by (simp only: unat_word_ariths) (simp add: mod_mod_cancel)
  have eq: "a = b" if "unat a = unat b" for a b :: u64 using that by (simp add: unsigned_word_eqI)
  show a: "take_bit 32 c = (2 ^ 32 - 1 :: u64)" if "ucast (c + 1) = (0 :: u32)"
  proof (rule eq)
    have "(unat c + 1) mod 2 ^ 32 = 0" using that z s by metis
    then show "unat (take_bit 32 c) = unat (2 ^ 32 - 1 :: u64)"
      unfolding t by (simp add: mod_Suc split: if_splits)
  qed
  show "take_bit 32 (c + 1) = (if ucast (c + 1) = (0 :: u32) then 0 else take_bit 32 c + 1)"
  proof (cases "ucast (c + 1) = (0 :: u32)")
    case True
    then show ?thesis using z [of "c + 1"] t [of "c + 1"] by (simp add: eq)
  next
    case False
    then have nz: "(unat c + 1) mod 2 ^ 32 \<noteq> 0" using z s by metis
    have "unat (take_bit 32 c + 1) = unat (take_bit 32 c) + 1"
    proof -
      have "unat (take_bit 32 c) < 2 ^ 32" unfolding t by simp
      then show ?thesis by (simp add: unat_word_ariths)
    qed
    then have "unat (take_bit 32 (c + 1)) = unat (take_bit 32 c + 1)"
      using nz unfolding t s by (simp add: mod_Suc split: if_splits)
    with False show ?thesis by (simp add: eq)
  qed
qed

text \<open>
  A defect: the two halves of the 64-bit counter are read one after the other. With
  a counter that goes on by one between the reads, the value is that of the second read, except
  when its low half has just started over: then it is 2 to the 32 too small.
\<close>

theorem count_timer_torn:
  assumes "\<And>d. bus_get io (address (Timer TIMER_CHI)) d = (ucast (drop_bit 32 (count d :: u64)), tick d)"
    "\<And>d. fst (bus_get io (address (Timer TIMER_CLO)) d) = ucast (count d)" "\<And>d. count (tick d) = count d + 1"
  shows "fst (count_timer io s) =
    (if ucast (count (devices s) + 1) = (0 :: u32) then count (devices s) + 1 - 2 ^ 32 else count (devices s) + 1)"
proof -
  define c where "c = count (devices s)"
  have u: "ucast (ucast x :: u32) = take_bit 32 (x :: u64)" for x by (rule bit_word_eqI) (auto simp: bit_simps)
  have "fst (count_timer io s) = push_bit 32 (ucast (ucast (drop_bit 32 c) :: u32)) OR ucast (ucast (c + 1) :: u32)"
  proof -
    obtain d where "bus_get io (address (Timer TIMER_CLO)) (tick (devices s)) = (ucast (c + 1), d)"
      using assms(2,3) by (metis c_def prod.collapse)
    then show ?thesis using assms(1) by (simp add: count_timer_def get32_def c_def del: address.simps)
  qed
  also have "\<dots> = push_bit 32 (drop_bit 32 c) OR take_bit 32 (c + 1)"
    unfolding u by (rule bit_word_eqI) (auto simp: bit_simps)
  also have "\<dots> = push_bit 32 (drop_bit 32 c) + take_bit 32 (c + 1)"
    by (rule disjunctive_add_eq_or [symmetric]) (rule bit_word_eqI, auto simp: bit_simps)
  also have "push_bit 32 (drop_bit 32 c) = c - take_bit 32 c"
    using bits_ident [of 32 c] by (simp add: algebra_simps)
  finally show ?thesis
    using take_bit_Suc_u64 [of c] by (auto simp: c_def algebra_simps)
qed

text \<open>
  \<open>memzero\<close> clears exactly the bytes from the start address up to the end
  address, and none if the end is not above the start.
\<close>

theorem memzero_clears:
  "memzero a e s = s\<lparr>arm_mem := (\<lambda>x. if a \<le> x \<and> x < e then 0 else arm_mem s x)\<rparr>"
proof (induction "unat e - unat a" arbitrary: a s)
  case 0
  then have "\<not> a < e" by (simp add: word_less_nat_alt)
  then have "(\<lambda>x. if a \<le> x \<and> x < e then 0 else arm_mem s x) = arm_mem s" by (auto simp: fun_eq_iff)
  with \<open>\<not> a < e\<close> show ?case by (subst memzero.simps) simp
next
  case (Suc n)
  then have ae: "a < e" by (simp add: word_less_nat_alt)
  then have up: "unat (a + 1) = unat a + 1"
    using unat_add_of_nat [of a 1] unat_u32_less [of e] by (simp add: word_less_nat_alt)
  let ?s = "s\<lparr>arm_mem := (arm_mem s)(a := 0)\<rparr>"
  have "memzero a e s = memzero (a + 1) e ?s" using ae by (subst memzero.simps) simp
  also have "\<dots> = ?s\<lparr>arm_mem := (\<lambda>x. if a + 1 \<le> x \<and> x < e then 0 else arm_mem ?s x)\<rparr>"
    using Suc.hyps(2) up by (intro Suc.hyps(1)) simp
  also have "(\<lambda>x. if a + 1 \<le> x \<and> x < e then 0 else arm_mem ?s x) = (\<lambda>x. if a \<le> x \<and> x < e then 0 else arm_mem s x)"
  proof
    fix x
    have "a \<le> x \<longleftrightarrow> x = a \<or> a + 1 \<le> x"
      using up by (auto simp: word_le_nat_alt word_unat_eq_iff [of x a])
    then show "(if a + 1 \<le> x \<and> x < e then 0 else arm_mem ?s x) = (if a \<le> x \<and> x < e then 0 else arm_mem s x)"
      using ae by auto
  qed
  finally show ?case by simp
qed

text \<open>
  A defect of the interrupt handler: it compares the whole set of pending
  interrupts, so an interrupt of the timer that arrives together with another one is reported as
  unknown, and the timer is neither acknowledged nor set again. \<open>state\<close> is the state of
  the timer, which reading the controller and printing leave as it is.
\<close>

theorem irq_handler_misses_timer:
  assumes "\<And>x s. \<exists>d. print x s = Some (s\<lparr>devices := d\<rparr>) \<and> state d = state (devices s)"
    "\<And>d. fst (bus_get io (address (Irq IRQ_PENDING1)) d) = p1 \<and> state (snd (bus_get io (address (Irq IRQ_PENDING1)) d)) = state d"
    "\<And>d. fst (bus_get io (address (Irq IRQ_PENDING2)) d) = p2 \<and> state (snd (bus_get io (address (Irq IRQ_PENDING2)) d)) = state d"
    "p1 AND 2 \<noteq> 0" "p1 \<noteq> 2 \<or> p2 \<noteq> 0"
  shows "\<exists>d. irq_handler print io s = Some (s\<lparr>devices := d\<rparr>) \<and> state d = state (devices s)"
proof -
  have u: "(ucast (push_bit 32 (ucast p2 :: u64) OR ucast p1) :: u32) = p1"
    "(ucast (drop_bit 32 (push_bit 32 (ucast p2 :: u64) OR ucast p1)) :: u32) = p2"
    by (rule bit_word_eqI, auto simp: bit_simps dest: bit_imp_le_length)+
  have other: "push_bit 32 (ucast p2 :: u64) OR ucast p1 \<noteq> IRQ_TIMER1"
  proof
    assume x: "push_bit 32 (ucast p2 :: u64) OR ucast p1 = IRQ_TIMER1"
    have "p1 = 2" "p2 = 0" using u unfolding x by (simp_all add: IRQ_TIMER1_def)
    with assms(5) show False by simp
  qed
  obtain d1 where d1: "print (''Some IRQ.'' @ [CHR 0x0D, CHR 0x0A]) s = Some (s\<lparr>devices := d1\<rparr>)" "state d1 = state (devices s)"
    using assms(1) by blast
  obtain d2 where d2: "bus_get io (address (Irq IRQ_PENDING2)) d1 = (p2, d2)" "state d2 = state d1"
    using assms(3) [of d1] by (metis prod.collapse)
  obtain d3 where d3: "bus_get io (address (Irq IRQ_PENDING1)) d2 = (p1, d3)" "state d3 = state d2"
    using assms(2) [of d2] by (metis prod.collapse)
  obtain d4 where d4: "print (''Some IRQ.'' @ [CHR 0x0D, CHR 0x0A]) (s\<lparr>devices := d3\<rparr>) = Some (s\<lparr>devices := d4\<rparr>)" "state d4 = state d3"
    using assms(1) [of _ "s\<lparr>devices := d3\<rparr>"] by auto
  obtain d5 where d5: "print (''Unknown IRQ.'' @ [CHR 0x0D, CHR 0x0A]) (s\<lparr>devices := d4\<rparr>) = Some (s\<lparr>devices := d5\<rparr>)" "state d5 = state d4"
    using assms(1) [of _ "s\<lparr>devices := d4\<rparr>"] by auto
  have "irq_handler print io s = Some (s\<lparr>devices := d5\<rparr>)"
    using d1(1) d2(1) d3(1) d4(1) d5(1) other by (simp add: irq_handler_def get32_def del: address.simps)
  then show ?thesis using d1(2) d2(2) d3(2) d4(2) d5(2) by auto
qed

section \<open>Examples\<close>

definition arm_start :: "'d \<Rightarrow> 'd arm_machine" where
  "arm_start d = \<lparr>devices = d, arm_mem = (\<lambda>_. 0)(0x8000 := 0x48, 0x8001 := 0x69), cmpval = 0, cycles = 0, irq_masked = True\<rparr>"

text \<open>A port that is always ready; a mini UART that is ready or not; a counter; a pending interrupt.\<close>

definition open_port :: "u32 list bus" where
  "open_port = \<lparr>bus_get = (\<lambda>a d. (0, d)), bus_put = (\<lambda>a v d. if a = address (Uart UART_DR) then d @ [v] else d)\<rparr>"

definition mini_port :: "bool bus" where
  "mini_port = \<lparr>bus_get = (\<lambda>a ready. (if ready then 0x21 else 0, ready)), bus_put = (\<lambda>a v ready. ready)\<rparr>"

definition counter :: "u64 bus" where
  "counter = \<lparr>bus_get = (\<lambda>a d. (if a = address (Timer TIMER_CHI) then ucast (drop_bit 32 d) else ucast d, d + 1)),
     bus_put = (\<lambda>a v d. d)\<rparr>"

definition pending_bus :: "u32 bus" where
  "pending_bus = \<lparr>bus_get = (\<lambda>a d. (if a = address (Irq IRQ_PENDING1) then 3 else 0, d)),
     bus_put = (\<lambda>a v d. if a = address (Timer TIMER_C1) then v else d)\<rparr>"

theorem uart_sendstr_sends_witness:
  "\<exists>d. uart_sendstr open_port 0x8000 (arm_start []) = Some ((arm_start [])\<lparr>devices := d\<rparr>) \<and> d = [0x48, 0x69]"
proof -
  have "transmits open_port (Uart UART_FR) 0x40 (Uart UART_DR) (\<lambda>d. d)"
    by (simp add: transmits_def open_port_def clear_at_def)
  moreover have "cstring (arm_mem (arm_start [])) (0x8000 + 1) [0x69]" by (simp add: arm_start_def)
  ultimately show ?thesis using uart_sendstr_sends [of open_port "\<lambda>d. d" "arm_start []" "0x8000" "[0x69]"]
    by (simp add: arm_start_def)
qed

theorem mini_uart_waits_for_busy_witness:
  "mini_uart_sendc mini_port 0x48 (arm_start True) = None \<and>
   mini_uart_sendc mini_port 0x48 (arm_start False) = Some (arm_start False)"
proof -
  have ready: "after mini_port r k d = d" for r k d by (induction k arbitrary: d) (simp_all add: mini_port_def)
  have "\<not> clear_at mini_port r 0x20 k True" "\<not> clear_at mini_port r 1 k True" "clear_at mini_port r 0x20 0 False" for r k
    by (simp_all only: clear_at_def ready) (simp_all add: mini_port_def)
  then show ?thesis
    using mini_uart_waits_for_busy [of mini_port "arm_start True" "arm_start False" "0x48" "0x8000"]
    by (auto simp: arm_start_def mini_port_def)
qed

theorem count_timer_torn_witness:
  "fst (count_timer counter (arm_start 0x1ffffffff)) = 0x100000000"
  using count_timer_torn [of counter "\<lambda>d. d" "\<lambda>d. d + 1" "arm_start 0x1ffffffff"]
  by (simp add: counter_def arm_start_def)

theorem irq_handler_misses_timer_witness:
  "\<exists>d. irq_handler (\<lambda>_. Some) pending_bus (arm_start 77) = Some ((arm_start 77)\<lparr>devices := d\<rparr>) \<and> d = 77"
  using irq_handler_misses_timer [of "\<lambda>_. Some" "\<lambda>d. d" pending_bus 3 0 "arm_start 77"]
  by (simp add: pending_bus_def arm_start_def IRQ_BASE_def)

end
