(* ===== verification/Arm_Start.thy ===== *)
theory Arm_Start
  imports Arm_Drivers
begin

text \<open>
  The start of the ARM port, src/boot/arm/boot.s with the handlers of src/arch/arm: the vectors, and the
  reset code each core of the processor runs. The kernel for this port is a parameter: a function that
  may not return.
\<close>

section \<open>State\<close>

text \<open>The addresses the linker script gives, and the registers of a core the start looks at or sets.\<close>

record arm_layout =
  STACK_TOP :: u32
  sbss :: u32
  ebss :: u32

record arm_core =
  mpidr :: u32
  cpsr :: u32
  core_sp :: u32

datatype arm_end = Core_halts

section \<open>The vectors\<close>

datatype arm_vector = Reset | Undefined_handler | Supervisor_call | Prefetch_abort_handler | Data_abort_handler | Irq_handler

text \<open>
  The processor runs the word at four times the number of the exception. Word 5 does nothing and is
  followed by the branch of word 6; behind word 6 the table ends.
\<close>

fun vector_target :: "nat \<Rightarrow> arm_vector option" where
  "vector_target n =
     (if n = 0 then Some Reset
      else if n = 1 then Some Undefined_handler
      else if n = 2 then Some Supervisor_call
      else if n = 3 then Some Prefetch_abort_handler
      else if n = 4 then Some Data_abort_handler
      else if n = 5 \<or> n = 6 then Some Irq_handler
      else None)"

text \<open>What an exception does to the machine; the reset code is below.\<close>

definition take_exception ::
  "(string \<Rightarrow> 'd arm_machine \<Rightarrow> 'd arm_machine option) \<Rightarrow> 'd bus \<Rightarrow> nat \<Rightarrow> 'd arm_machine \<Rightarrow> 'd arm_machine option" where
  "take_exception print io n s =
     (case vector_target n of
        Some Undefined_handler \<Rightarrow> Some (undefined_handler s)
      | Some Supervisor_call \<Rightarrow> Some (supervisor_call s)
      | Some Prefetch_abort_handler \<Rightarrow> Some (prefetch_abort_handler s)
      | Some Data_abort_handler \<Rightarrow> Some (data_abort_handler s)
      | Some Irq_handler \<Rightarrow> irq_handler print io s
      | _ \<Rightarrow> None)"

definition get_mode :: "arm_core \<Rightarrow> u32" where
  "get_mode c = cpsr c AND 0x1f"

section \<open>Reset\<close>

definition reset_core ::
  "(arm_core \<Rightarrow> 'd arm_machine \<Rightarrow> (arm_core \<times> 'd arm_machine) option) \<Rightarrow> arm_layout \<Rightarrow> arm_core \<Rightarrow> 'd arm_machine \<Rightarrow>
   (arm_end \<times> arm_core \<times> 'd arm_machine) option" where
  "reset_core kernel_main L c s =
     (let r5 = mpidr c AND 3 in
      if r5 \<noteq> 0 then Some (Core_halts, c, s)
      else do {
        let c = c\<lparr>core_sp := STACK_TOP L\<rparr>;
        let s = memzero (sbss L) (ebss L) s;
        (c, s) \<leftarrow> kernel_main c s;
        Some (Core_halts, c, s)
      })"

text \<open>The cores of a processor, one after the other in any order; \<open>None\<close> when the kernel does not return.\<close>

fun reset_cores ::
  "(arm_core \<Rightarrow> 'd arm_machine \<Rightarrow> (arm_core \<times> 'd arm_machine) option) \<Rightarrow> arm_layout \<Rightarrow> arm_core list \<Rightarrow> 'd arm_machine \<Rightarrow>
   'd arm_machine option" where
  "reset_cores K L [] s = Some s"
| "reset_cores K L (c # cs) s = do { (e, c, s) \<leftarrow> reset_core K L c s; reset_cores K L cs s }"

section \<open>Correctness\<close>

text \<open>The kernel starts on a core with the stack pointer set and the variables of .bss zero.\<close>

definition bss_cleared :: "arm_layout \<Rightarrow> 'd arm_machine \<Rightarrow> 'd arm_machine" where
  "bss_cleared L s = s\<lparr>arm_mem := (\<lambda>x. if sbss L \<le> x \<and> x < ebss L then 0 else arm_mem s x)\<rparr>"

lemma reset_core_eq:
  "reset_core K L c s = (if mpidr c AND 3 = 0
    then map_option (\<lambda>(c, s). (Core_halts, c, s)) (K (c\<lparr>core_sp := STACK_TOP L\<rparr>) (bss_cleared L s))
    else Some (Core_halts, c, s))"
  by (simp add: reset_core_def bss_cleared_def memzero_clears map_conv_bind_option split_def comp_def)

lemma reset_cores_others: "\<forall>c \<in> set cs. mpidr c AND 3 \<noteq> 0 \<Longrightarrow> reset_cores K L cs s = Some s"
  by (induction cs) (simp_all add: reset_core_eq)

lemma reset_cores_append: "reset_cores K L (cs @ ds) s = Option.bind (reset_cores K L cs s) (reset_cores K L ds)"
proof (induction cs arbitrary: s)
  case (Cons c cs)
  then show ?case by (cases "reset_core K L c s") (auto split: prod.splits)
qed simp

text \<open>
  (C36) Of the cores of the processor only the one with number 0 runs the kernel, once, whatever the
  order the cores start in, with its stack at the top and the variables of .bss zero; the other ones
  halt without changing anything.
\<close>

theorem reset_starts_one_kernel:
  assumes "mpidr c AND 3 = 0" "\<forall>d \<in> set cs \<union> set ds. mpidr d AND 3 \<noteq> 0"
  shows "reset_cores K L (cs @ c # ds) s = map_option snd (K (c\<lparr>core_sp := STACK_TOP L\<rparr>) (bss_cleared L s))"
proof -
  have "reset_cores K L cs t = Some t" "reset_cores K L ds t = Some t" for t
    using assms(2) by (simp_all add: reset_cores_others)
  then show ?thesis
    using assms(1) by (cases "K (c\<lparr>core_sp := STACK_TOP L\<rparr>) (bss_cleared L s)") (auto simp: reset_cores_append reset_core_eq)
qed

text \<open>An example: four cores, and a kernel that writes the first byte of .bss to its stack.\<close>

definition example_arm_layout :: arm_layout where
  "example_arm_layout = \<lparr>STACK_TOP = 0x1c000, sbss = 0x8000, ebss = 0x8001\<rparr>"

definition example_core :: "u32 \<Rightarrow> arm_core" where
  "example_core i = \<lparr>mpidr = 0x80000f00 OR i, cpsr = 0x1d3, core_sp = 0\<rparr>"

definition example_arm_kernel :: "arm_core \<Rightarrow> 'd arm_machine \<Rightarrow> (arm_core \<times> 'd arm_machine) option" where
  "example_arm_kernel c s = Some (c, s\<lparr>arm_mem := (arm_mem s)(core_sp c - 4 := arm_mem s 0x8000, core_sp c - 3 := arm_mem s 0x8001)\<rparr>)"

theorem reset_starts_one_kernel_witness:
  "\<exists>t. reset_cores example_arm_kernel example_arm_layout [example_core 1, example_core 0, example_core 3, example_core 2] (arm_start ()) = Some t \<and>
    arm_mem t 0x8000 = 0 \<and> arm_mem t 0x1bffc = 0 \<and> arm_mem t 0x1bffd = 0x69"
  using reset_starts_one_kernel [of "example_core 0" "[example_core 1]" "[example_core 3, example_core 2]"
      example_arm_kernel example_arm_layout "arm_start ()"]
  by (simp add: example_core_def example_arm_kernel_def example_arm_layout_def bss_cleared_def arm_start_def)

text \<open>Exceptions: only an interrupt does anything, and a fast interrupt runs whatever follows the table.\<close>

lemma exceptions_empty:
  "n \<in> {1, 2, 3, 4} \<Longrightarrow> take_exception print io n s = Some s"
  "take_exception print io 6 s = irq_handler print io s"
  "take_exception print io 7 s = None"
  by (auto simp: take_exception_def undefined_handler_def supervisor_call_def prefetch_abort_handler_def data_abort_handler_def)

end
