(* ===== verification/Spec2Isabelle.thy ===== *)
theory Spec2Isabelle
  imports Loof_Prelude Machine Alloc Kernel_Heap Gdt Interrupts Paging Page_Allocation Process
    Process_Queue Scheduler Timer Round_Robin Address_Space Process_Creation Kernel_State Kernel_Main
    C_String Boot_Machine Ports Vga Print Bios Bios_Switch Exfat_Entries Exfat Exfat_Directory Exfat_Read Exfat_Path
    Exfat_Init Vbe Stage2 First_Stage Boot_Chain Power_On
    Arm_Registers Arm_Drivers Arm_Start
begin

text \<open>
  A verification of loofOS: the i386 kernel (src/kernel, src/arch/x86), both stages of its
  boot loader (src/boot/x86), the memory functions they are linked with (src/common), and the
  start and the drivers of the ARM port (src/boot/arm, src/arch/arm).

  \<^bold>\<open>The program.\<close> The first stage of the boot loader reads the second through the BIOS and
  enters protected mode. The second stage reads the kernel from an exFAT volume
  through the BIOS, turns paging on, sets a video mode and jumps to the kernel; that is what it is meant
  to do, for the BIOS calls that set the mode fault because paging is on. \<open>kernel_main\<close> sets up segments,
  heap, interrupts and paging, creates two processes and enters the first in ring 3; from then
  on the kernel runs only in the handler of the timer, which switches from process to process.
  Every component allocates from the kernel heap, and every table the processor walks
  (descriptors, gates, page tables) is a structure in memory.

  \<^bold>\<open>Conventions.\<close> Machine integers are words of their width and wrap; an \<open>int\<close> whose overflow
  matters is a HOL integer brought back to 32 bits (\<open>c_int\<close>). A result of \<open>None\<close> is undefined
  behaviour of C (a shift by 32 or more, an index outside of an array, a division by zero), a fault of the
  processor, or a loop that never ends. Memory is a function from 32-bit addresses to bytes;
  structures in memory are read and written at the offsets of the C types, little endian. Static
  variables are fields of a record; the records extend each other in the order of the calls.

  \<^bold>\<open>The theories.\<close>

  \<^item> \<open>Loof_Prelude\<close>: words, memory (\<open>ld32\<close>, \<open>st32\<close>, \<open>bytes_at\<close>, \<open>eq_off\<close>: equal outside of a set
    of addresses), packed bit fields, the loop \<open>for_loop\<close>, and the locale \<open>byte_memory\<close>, through
    which all code reads and writes memory. \<open>Machine\<close> (port.s, paging.s) interprets it by the
    memory of the kernel: physical memory at \<open>KERNEL_BASE\<close>, other addresses by the walk of the
    page tables from \<open>cr3\<close>. \<open>Boot_Machine\<close> interprets it by memory without paging. \<open>Ports\<close>
    (core/port.s): the port functions over any device, of which the ports of both machines are instances.
  \<^item> \<open>Alloc\<close>, \<open>Kernel_Heap\<close> (mm/alloc.c): the buddy allocator over its header bytes, the list of
    blocks it stands for, and the locale \<open>allocator\<close>, by which the other components use it: a
    request gives fresh memory. First fit, alignment, coalescing, and what goes wrong in
    \<open>memory_free\<close>. The heap is the one of the kernel, 2^29 bytes.
  \<^item> \<open>Gdt\<close> (core/gdt.c, gdt.s), \<open>Interrupts\<close> (core/idt.c, isr.c, isr.s, panic.c): descriptors field by field and
    packed, the task state segment, gates (locale \<open>gate_table\<close>), the programming of the interrupt
    controllers, the exception wrappers and the words their handlers see.
  \<^item> \<open>Paging\<close>, \<open>Page_Allocation\<close>, \<open>Address_Space\<close> (mm/paging.c): entries, the directory of the
    kernel, the stack of free page frames; what every address translates to after \<open>init_paging\<close>
    and \<open>allocate_page\<close>, and the address space of a process.
  \<^item> \<open>Process\<close>, \<open>Process_Queue\<close>, \<open>Scheduler\<close>, \<open>Process_Creation\<close>, \<open>Kernel_State\<close>
    (kernel/proc/process.c, process.s): descriptors in memory as a ring (locales \<open>word_store\<close>
    and \<open>ring_store\<close>), the abstract scheduler (a queue whose head runs) that
    \<open>switch_process\<close> implements, \<open>create_process\<close>, the invariant \<open>kernel_inv\<close> of the running
    kernel, and the memory it lets a process reach.
  \<^item> \<open>Timer\<close>, \<open>Round_Robin\<close> (drivers/timer.c, timer.s): the handler and its wrapper; runs of timer interrupts
    as an inductive relation, with arbitrary user code between them.
  \<^item> \<open>Kernel_Main\<close> (kernel.c): the whole start of the kernel, and the isolation of the two processes
    it makes.
  \<^item> \<open>C_String\<close> (common/string.c): \<open>memset\<close>, \<open>memcpy\<close>, \<open>memcmp\<close> over any \<open>byte_memory\<close>.
  \<^item> \<open>Vga\<close>, \<open>Print\<close> (vesa/vga.c, print.c): the text display as a terminal of 2000 cells and a
    cursor; \<open>print\<close> over any output function (locale \<open>char_output\<close>), interpreted by the display.
  \<^item> \<open>Bios\<close> (bios.c): sectors of a drive and memory ranges from the BIOS, called by the function
    \<open>bios_int\<close>, which is \<open>None\<close> while paging is on. \<open>Bios_Switch\<close>
    (bios.s): the BIOS call instruction by instruction, with its stack frame and its way to real mode and back, and
    that it implements \<open>bios_int\<close> and faults where that is \<open>None\<close>. \<open>Exfat_Entries\<close>, \<open>Exfat\<close>,
    \<open>Exfat_Directory\<close>, \<open>Exfat_Read\<close>, \<open>Exfat_Path\<close>, \<open>Exfat_Init\<close> (fs/exfat.h, exfat.c): the
    structures on the disk in \<open>Exfat_Entries\<close>, the code in \<open>Exfat\<close>; directories as lists of items and the lookup in them; clusters and the allocation
    table on the disk; paths, as the inductive relation \<open>resolves\<close>; the initialisation. \<open>Vbe\<close>
    (vesa/vbe.c): the search for a video mode.
  \<^item> \<open>First_Stage\<close> (boot.s, mbr.s): the load of the second stage, the A20 line, and the way to
    protected mode.
  \<^item> \<open>Stage2\<close> (stage2.c), \<open>Boot_Chain\<close>: the whole of \<open>stage2\<close>, the part of it before
    \<open>init_vbe\<close> (\<open>stage2_to_video\<close>), and the fault of the BIOS calls in \<open>init_vbe\<close>. \<open>Power_On\<close>:
    both stages, one after the other, up to that fault.
  \<^item> \<open>Arm_Registers\<close>, \<open>Arm_Drivers\<close> (arch/arm): registers and addresses, and the drivers over a
    bus of devices; both serial ports are interpretations of the locale \<open>serial_driver\<close>.
    \<open>Arm_Start\<close> (boot/arm/boot.s): the vectors and the reset code of the cores.

  The names of definitions are those of the code; a name that clashes with another of the
  development has a prefix (\<open>boot_enable_paging\<close>, \<open>arm_init_timer\<close>).

  \<^bold>\<open>What is shown.\<close> From power-on the first stage loads the whole image and enters the second
  (\<open>First_Stage\<close>); with a kernel on the disk the second loads it and maps it to the address it is
  linked to (\<open>Stage2\<close>), and then faults in \<open>init_vbe\<close>, so that this version of the loader does not get to
  the kernel (\<open>Boot_Chain\<close>, \<open>Power_On\<close>). The kernel is a statement of its own: from any machine
  whose heap area is zero \<open>kernel_main\<close> enters the first of two processes in user mode, and these are
  isolated from each other and from the kernel (\<open>Kernel_Main\<close>); the invariant of the kernel
  holds from there and is kept by \<open>create_process\<close> (\<open>Kernel_State\<close>); every process gets its turn and goes on
  with its registers (\<open>Round_Robin\<close>). The parts are refinements of abstract descriptions (first fit on a
  list of blocks, a queue, a terminal, a lookup in the tree of directories) or full descriptions
  of their effect, on memory as well: what is not named does not change. A third group states
  defects exactly, with concrete machines on which they show.

  \<^bold>\<open>Loops.\<close> Loops with a bound are recursive functions that end. Loops that may not end
  (those over the blocks of the heap, \<open>skip_halted\<close>, \<open>print_loop\<close>, \<open>helper_loop\<close>,
  \<open>load_chain\<close>, \<open>path_loop\<close>, \<open>mode_loop\<close>, \<open>sector_size_loop\<close>, the waiting loops of the drivers) are partial functions
  with the value \<open>None\<close> for not ending, so each result of the form \<open>Some\<close> includes that the
  loop ends; for \<open>skip_halted\<close>, \<open>sector_size_loop\<close> and \<open>wait_while\<close> it is shown exactly when.

  \<^bold>\<open>Parameters.\<close> The BIOS is a function of the interrupt number, the registers and the
  machine. What is relied on are its documented services \<open>disk_bios\<close> (function 0x42 of interrupt
  0x13), \<open>e820_bios\<close>, \<open>vbe_bios\<close> and, with the carry flag, \<open>real_bios_ok\<close>; each is shown to hold of an example. The ARM devices are
  functions of what is read and written. Addresses that compiler and linker choose (entry
  points, static structures whose address is taken, string literals, local arrays handed to the
  BIOS) are parameters, \<open>layout\<close>, \<open>stage2_layout\<close>, \<open>exfat_frame\<close> and the like, of which only
  is assumed that the areas do not overlap. \<open>print\<close> and the kernel of the ARM port are not in
  the repository and are parameters.

  \<^bold>\<open>Bounds.\<close> \<open>create_process\<close> needs two free pages and a free block of \<open>2 ^ (j + 5)\<close> bytes for
  its five allocations, of 4 KiB and a header at most; \<open>kernel_main\<close> starts with 2^29 bytes and has 2^16 left of
  the block it counts with, as two processes need. The exFAT volume has its sectors below 2^23, the limit of
  the 32-bit arithmetic of the reader, clusters of at most 2^16 times 512 bytes, and files of
  less than 2^31 bytes; the first stage loads a boot file of less than 64 KiB below that address, from a
  disk 64 sectors; file names have at most 17 name entries, which is what the buffer of
  the reader holds.

  \<^bold>\<open>Not modelled.\<close> The processor is modelled as far as the code looks at it: \<open>Bios_Switch\<close> has its
  control register, segments, tables, stack pointers and the general registers a BIOS call hands over, and the theories
  above it take \<open>bios_int\<close> instead, which \<open>bios_call_refines\<close> and \<open>bios_call_paging\<close> justify. The A20 line
  is part of the machine of \<open>First_Stage\<close> only: all that runs in protected mode is stated for a
  machine with the line on. Except in \<open>Bios_Switch\<close> and the interrupt wrappers, the stack of the running
  code and the local variables whose address is not taken are HOL values. Interrupts that arrive while the kernel creates its
  processes: scheduling is off then, and such an interrupt changes nothing (\<open>Timer\<close>). The
  branch of \<open>switch_process\<close> that deletes an ended process is modelled, but nothing is shown of
  it, as nothing sets the state that leads there. The cores of the ARM port start one after the other;
  those that halt touch nothing, so their steps may be anywhere. Build files, linker scripts and the
  partition table in mbr.s are data of the build.
\<close>

end
